(* ===== verification/Cool_Base.thy ===== *)
theory Cool_Base
  imports Main "HOL-Library.Word"
begin

text \<open>
  Shared material of the development: the machine types of the kernel, Rust's checked and
  saturating arithmetic, slices of byte vectors, little- and big-endian byte encodings, ASCII
  strings, and the error-and-state functions in which the stateful code is written together
  with the rules that reason about them.

  A Rust \<open>Result<A, E>\<close> is \<open>'e + 'a\<close> (\<open>Inl\<close> the error); an \<open>Option<A>\<close> returned by a stateful
  function is \<open>unit + 'a\<close>, so that both are threaded by the same \<open>bnd\<close>. The build is the release
  profile, in which \<open>+\<close>, \<open>-\<close> and \<open>*\<close> on machine integers wrap.
\<close>

unbundle bit_operations_syntax

type_synonym u8 = "8 word"
type_synonym u16 = "16 word"
type_synonym u32 = "32 word"
type_synonym u64 = "64 word"
type_synonym bytes = "u8 list"

named_theorems sm_simps \<open>unfolding rules of the error-and-state functions\<close>
named_theorems valid_intros \<open>rules for \<open>valid\<close>\<close>

section \<open>Rust integer arithmetic\<close>

definition checked_add :: "'a::len word \<Rightarrow> 'a word \<Rightarrow> 'a word option" where
  "checked_add a b = (if unat a + unat b < 2 ^ LENGTH('a) then Some (a + b) else None)"

definition checked_sub :: "'a::len word \<Rightarrow> 'a word \<Rightarrow> 'a word option" where
  "checked_sub a b = (if b \<le> a then Some (a - b) else None)"

definition saturating_add :: "'a::len word \<Rightarrow> 'a word \<Rightarrow> 'a word" where
  "saturating_add a b = (if unat a + unat b < 2 ^ LENGTH('a) then a + b else - 1)"

definition saturating_sub :: "'a::len word \<Rightarrow> 'a word \<Rightarrow> 'a word" where
  "saturating_sub a b = (if b \<le> a then a - b else 0)"

lemma checked_add_Some:
  "checked_add a b = Some c \<longleftrightarrow> unat a + unat b < 2 ^ LENGTH('a) \<and> c = a + b"
  for a b c :: "'a::len word"
  by (auto simp: checked_add_def)

lemma checked_add_unat:
  "checked_add a b = Some c \<Longrightarrow> unat c = unat a + unat b"
  for a b c :: "'a::len word"
  by (auto simp: checked_add_def unat_word_ariths split: if_splits)

lemma checked_sub_unat:
  "checked_sub a b = Some c \<Longrightarrow> unat c = unat a - unat b \<and> unat b \<le> unat a"
  for a b c :: "'a::len word"
  by (auto simp: checked_sub_def unat_sub_if' word_le_nat_alt split: if_splits)

lemma unat_saturating_add:
  "unat (saturating_add a b) = min (unat a + unat b) (2 ^ LENGTH('a) - 1)"
  for a b :: "'a::len word"
  by (auto simp: saturating_add_def unat_word_ariths unsigned_minus_1_eq_mask mask_eq_exp_minus_1)

lemma unat_saturating_sub: "unat (saturating_sub a b) = unat a - unat b"
  for a b :: "'a::len word"
  by (auto simp: saturating_sub_def unat_sub_if' word_le_nat_alt)

section \<open>Slices of byte vectors\<close>

text \<open>\<open>rslice xs a b\<close> is \<open>xs[a..b]\<close>, \<open>patch xs off ys\<close> is \<open>xs[off..off + ys.len()].copy_from_slice(ys)\<close>
  and \<open>fill_range xs a b v\<close> is \<open>xs[a..b].fill(v)\<close>; every use in the model stays in range, where
  Rust would otherwise panic. Both writers keep the length of the buffer.\<close>

definition rslice :: "'a list \<Rightarrow> nat \<Rightarrow> nat \<Rightarrow> 'a list" where
  "rslice xs a b = take (b - a) (drop a xs)"

definition patch :: "'a list \<Rightarrow> nat \<Rightarrow> 'a list \<Rightarrow> 'a list" where
  "patch xs off ys =
     map (\<lambda>i. if off \<le> i \<and> i < off + length ys then ys ! (i - off) else xs ! i) [0..<length xs]"

definition fill_range :: "'a list \<Rightarrow> nat \<Rightarrow> nat \<Rightarrow> 'a \<Rightarrow> 'a list" where
  "fill_range xs a b v = map (\<lambda>i. if a \<le> i \<and> i < b then v else xs ! i) [0..<length xs]"

lemma length_rslice [simp]: "length (rslice xs a b) = min (b - a) (length xs - a)"
  by (auto simp: rslice_def)

lemma nth_rslice [simp]: "i < b - a \<Longrightarrow> a + i < length xs \<Longrightarrow> rslice xs a b ! i = xs ! (a + i)"
  by (simp add: rslice_def)

lemma length_patch [simp]: "length (patch xs off ys) = length xs"
  by (simp add: patch_def)

lemma nth_patch:
  "i < length xs \<Longrightarrow>
   patch xs off ys ! i = (if off \<le> i \<and> i < off + length ys then ys ! (i - off) else xs ! i)"
  by (simp add: patch_def)

lemma length_fill_range [simp]: "length (fill_range xs a b v) = length xs"
  by (simp add: fill_range_def)

lemma nth_fill_range:
  "i < length xs \<Longrightarrow> fill_range xs a b v ! i = (if a \<le> i \<and> i < b then v else xs ! i)"
  by (simp add: fill_range_def)

lemma patch_append:
  "off + length ys \<le> length xs \<Longrightarrow> patch xs off ys = take off xs @ ys @ drop (off + length ys) xs"
  by (rule nth_equalityI) (auto simp: nth_patch nth_append)

lemma patch_Nil [simp]: "patch xs off [] = xs"
  by (rule nth_equalityI) (auto simp: nth_patch)

lemma rslice_eqI:
  assumes "length xs = length ys" and "\<And>i. a \<le> i \<Longrightarrow> i < b \<Longrightarrow> i < length xs \<Longrightarrow> xs ! i = ys ! i"
  shows "rslice xs a b = rslice ys a b"
  using assms by (intro nth_equalityI) auto

lemma rslice_patch_same:
  "off + length ys \<le> length xs \<Longrightarrow> b = off + length ys \<Longrightarrow> rslice (patch xs off ys) off b = ys"
  by (rule nth_equalityI) (auto simp: nth_patch)

lemma rslice_patch_disjoint:
  "b \<le> off \<or> off + length ys \<le> a \<Longrightarrow> rslice (patch xs off ys) a b = rslice xs a b"
  by (rule rslice_eqI) (auto simp: nth_patch)

lemma rslice_fill_range_disjoint:
  "b \<le> c \<or> d \<le> a \<Longrightarrow> rslice (fill_range xs c d v) a b = rslice xs a b"
  by (rule rslice_eqI) (auto simp: nth_fill_range)

lemma list_update_patch: "i < length xs \<Longrightarrow> xs[i := v] = patch xs i [v]"
  by (rule nth_equalityI) (auto simp: nth_patch nth_list_update)

lemma nth_rslice_conv: "i < length xs \<Longrightarrow> xs ! i = hd (rslice xs i (Suc i))"
  by (simp add: rslice_def hd_drop_conv_nth take_Suc)

lemma rslice_rslice:
  "c \<le> d \<Longrightarrow> a + d \<le> b \<Longrightarrow> rslice (rslice xs a b) c d = rslice xs (a + c) (a + d)"
  by (simp add: rslice_def take_drop add.commute min_def diff_le_self)

lemma rslice_full [simp]: "rslice xs 0 (length xs) = xs"
  by (simp add: rslice_def)

section \<open>Byte encodings of words\<close>

primrec to_le :: "nat \<Rightarrow> 'a::len word \<Rightarrow> bytes" where
  "to_le 0 w = []"
| "to_le (Suc n) w = ucast w # to_le n (drop_bit 8 w)"

primrec from_le :: "bytes \<Rightarrow> 'a::len word" where
  "from_le [] = 0"
| "from_le (b # bs) = ucast b + 256 * from_le bs"

definition to_be :: "nat \<Rightarrow> 'a::len word \<Rightarrow> bytes" where
  "to_be n w = rev (to_le n w)"

definition from_be :: "bytes \<Rightarrow> 'a::len word" where
  "from_be bs = from_le (rev bs)"

lemma length_to_le [simp]: "length (to_le n w) = n"
  by (induction n arbitrary: w) auto

lemma length_to_be [simp]: "length (to_be n w) = n"
  by (simp add: to_be_def)

lemma ucast_u8_take_bit:
  "8 \<le> LENGTH('a) \<Longrightarrow> ucast (ucast w :: u8) = take_bit 8 w"
  for w :: "'a::len word"
  by (rule bit_word_eqI) (auto simp: bit_simps)

lemma word_div_mod_256:
  fixes w :: "'a::len word"
  assumes "8 \<le> LENGTH('a)"
  shows "ucast (ucast w :: u8) + 256 * drop_bit 8 w = w"
proof -
  have "push_bit 8 (drop_bit 8 w) = 256 * drop_bit 8 w"
    by (simp add: push_bit_eq_mult mult.commute)
  then show ?thesis
    using bits_ident [of 8 w] assms by (simp add: ucast_u8_take_bit add.commute)
qed

lemma from_to_le:
  fixes w :: "'a::len word"
  assumes "8 \<le> LENGTH('a)" and "unat w < 256 ^ n"
  shows "from_le (to_le n w) = w"
  using assms(2)
proof (induction n arbitrary: w)
  case 0
  then show ?case by (simp add: unat_eq_0)
next
  case (Suc n)
  have "unat (drop_bit 8 w) = unat w div 256"
    by (simp only: unat_drop_bit_eq) (simp add: drop_bit_eq_div)
  with Suc.prems have "unat (drop_bit 8 w) < 256 ^ n"
    by (simp add: less_mult_imp_div_less mult.commute)
  with Suc.IH show ?case
    using word_div_mod_256 [OF assms(1), of w] by simp
qed

primrec nat_le :: "bytes \<Rightarrow> nat" where
  "nat_le [] = 0"
| "nat_le (b # bs) = unat b + 256 * nat_le bs"

lemma nat_le_bound: "nat_le bs < 256 ^ length bs"
proof (induction bs)
  case (Cons b bs)
  have "unat b < 256" using unsigned_less [of b, where 'a = nat] by simp
  with Cons.IH show ?case by simp
qed simp

lemma from_le_nat_le: "from_le bs = word_of_nat (nat_le bs)"
  by (induction bs) (simp_all add: unsigned_ucast_eq)

lemma unat_from_le:
  assumes "length bs * 8 \<le> LENGTH('a)"
  shows "unat (from_le bs :: 'a::len word) = nat_le bs"
proof -
  have "(256::nat) ^ length bs = 2 ^ (length bs * 8)"
    using power_mult [of "2::nat" 8 "length bs"] by (simp add: mult.commute)
  also have "\<dots> \<le> 2 ^ LENGTH('a)" using assms by simp
  finally have "nat_le bs < 2 ^ LENGTH('a)" using nat_le_bound [of bs] by simp
  then show ?thesis by (simp add: from_le_nat_le unat_of_nat)
qed

lemma to_from_le:
  assumes "length bs * 8 \<le> LENGTH('a)"
  shows "to_le (length bs) (from_le bs :: 'a::len word) = bs"
  using assms
proof (induction bs)
  case (Cons b bs)
  let ?w = "from_le bs :: 'a word"
  have le: "length bs * 8 \<le> LENGTH('a)" and len: "8 \<le> LENGTH('a)" using Cons.prems by auto
  have u: "unat (from_le (b # bs) :: 'a word) = unat b + 256 * nat_le bs"
    using unat_from_le [of "b # bs", where 'a = 'a] Cons.prems by simp
  have b: "unat b < 256" using unsigned_less [of b, where 'a = nat] by simp
  have "drop_bit 8 (from_le (b # bs) :: 'a word) = ?w"
    by (rule word_unat_eq_iff [THEN iffD2])
      (use b in \<open>simp only: unat_drop_bit_eq u unat_from_le [OF le], simp add: drop_bit_eq_div\<close>)
  moreover have "(ucast (from_le (b # bs) :: 'a word) :: u8) = b"
    by (rule word_unat_eq_iff [THEN iffD2])
      (use b in \<open>simp only: unsigned_ucast_eq u, simp add: take_bit_eq_mod\<close>)
  ultimately show ?case using Cons.IH [OF le] by simp
qed simp

lemma from_to_le32 [simp]: "from_le (to_le 4 w) = w" for w :: u32
  using unsigned_less [of w] by (intro from_to_le) simp_all

lemma from_to_le64 [simp]: "from_le (to_le 8 w) = w" for w :: u64
  using unsigned_less [of w] by (intro from_to_le) simp_all

lemma from_to_be16 [simp]: "from_be (to_be 2 w) = w" for w :: u16
  unfolding from_be_def to_be_def using unsigned_less [of w] by (simp only: rev_rev_ident) (intro from_to_le, simp_all)

lemma from_to_be32 [simp]: "from_be (to_be 4 w) = w" for w :: u32
  unfolding from_be_def to_be_def using unsigned_less [of w] by (simp only: rev_rev_ident) (intro from_to_le, simp_all)

section \<open>Strings\<close>

text \<open>A Rust \<open>str\<close> is its UTF-8 bytes; the model uses \<open>string\<close>, whose characters are bytes. \<open>len()\<close>
  counts bytes, as \<open>length\<close> does.\<close>

definition byte_of :: "char \<Rightarrow> u8" where
  "byte_of c = word_of_nat (of_char c)"

definition char_of_byte :: "u8 \<Rightarrow> char" where
  "char_of_byte b = char_of (unat b)"

definition as_bytes :: "string \<Rightarrow> bytes" where
  "as_bytes s = map byte_of s"

definition str_of_bytes :: "bytes \<Rightarrow> string" where
  "str_of_bytes bs = map char_of_byte bs"

lemma unat_byte_of [simp]: "unat (byte_of c) = of_char c"
  by (simp add: byte_of_def unat_of_nat)

lemma char_of_byte_of [simp]: "char_of_byte (byte_of c) = c"
  by (simp add: char_of_byte_def)

lemma byte_of_char_of_byte [simp]: "byte_of (char_of_byte b) = b"
proof -
  have "unat b < 256" using unsigned_less [of b, where 'a = nat] by simp
  then show ?thesis by (simp add: byte_of_def char_of_byte_def)
qed

lemma str_of_as_bytes [simp]: "str_of_bytes (as_bytes s) = s"
  by (simp add: str_of_bytes_def as_bytes_def comp_def)

lemma as_bytes_of_str [simp]: "as_bytes (str_of_bytes bs) = bs"
  by (simp add: str_of_bytes_def as_bytes_def comp_def)

lemma length_as_bytes [simp]: "length (as_bytes s) = length s"
  by (simp add: as_bytes_def)

definition to_ascii_lower :: "char \<Rightarrow> char" where
  "to_ascii_lower c =
     (let n = of_char c :: nat in if 65 \<le> n \<and> n \<le> 90 then char_of (n + 32) else c)"

definition eq_ignore_ascii_case :: "string \<Rightarrow> string \<Rightarrow> bool" where
  "eq_ignore_ascii_case a b \<longleftrightarrow> map to_ascii_lower a = map to_ascii_lower b"

lemma eq_ignore_ascii_case_refl [simp]: "eq_ignore_ascii_case a a"
  by (simp add: eq_ignore_ascii_case_def)

lemma eq_ignore_ascii_case_sym: "eq_ignore_ascii_case a b = eq_ignore_ascii_case b a"
  by (auto simp: eq_ignore_ascii_case_def)

lemma eq_ignore_ascii_case_trans:
  "eq_ignore_ascii_case a b \<Longrightarrow> eq_ignore_ascii_case b c \<Longrightarrow> eq_ignore_ascii_case a c"
  by (simp add: eq_ignore_ascii_case_def)

text \<open>\<open>str::split(c)\<close>: the pieces between separators, always at least one.\<close>

fun split_on :: "char \<Rightarrow> string \<Rightarrow> string list" where
  "split_on c [] = [[]]"
| "split_on c (x # xs) =
     (if x = c then [] # split_on c xs
      else case split_on c xs of [] \<Rightarrow> [[x]] | p # ps \<Rightarrow> (x # p) # ps)"

lemma split_on_nonempty [simp]: "split_on c xs \<noteq> []"
  by (induction c xs rule: split_on.induct) (auto split: list.splits)

lemma split_on_no_sep: "p \<in> set (split_on c xs) \<Longrightarrow> c \<notin> set p"
  by (induction c xs arbitrary: p rule: split_on.induct) (auto split: list.splits if_splits)

lemma split_on_single: "c \<notin> set xs \<Longrightarrow> split_on c xs = [xs]"
  by (induction c xs rule: split_on.induct) auto

lemma split_on_append_sep: "c \<notin> set p \<Longrightarrow> split_on c (p @ c # xs) = p # split_on c xs"
  by (induction p) auto

text \<open>Decimal numbers, as \<open>format!("{}", n)\<close> prints them.\<close>

fun dec_string :: "nat \<Rightarrow> string" where
  "dec_string n = (if n < 10 then [char_of (48 + n)] else dec_string (n div 10) @ [char_of (48 + n mod 10)])"

declare dec_string.simps [simp del]

definition digit :: "char \<Rightarrow> nat option" where
  "digit c = (let n = of_char c in if 48 \<le> n \<and> n \<le> 57 then Some (n - 48) else None)"

primrec parse_dec_from :: "nat \<Rightarrow> string \<Rightarrow> nat option" where
  "parse_dec_from acc [] = Some acc"
| "parse_dec_from acc (c # cs) = (case digit c of None \<Rightarrow> None | Some d \<Rightarrow> parse_dec_from (acc * 10 + d) cs)"

lemma digit_char: "d < 10 \<Longrightarrow> digit (char_of (48 + d)) = Some d"
  by (simp add: digit_def Let_def)

lemma parse_dec_append:
  "parse_dec_from acc (xs @ ys) = (case parse_dec_from acc xs of None \<Rightarrow> None | Some n \<Rightarrow> parse_dec_from n ys)"
  by (induction xs arbitrary: acc) (auto split: option.splits)

lemma parse_dec_string: "parse_dec_from 0 (dec_string n) = Some n"
proof (induction n rule: dec_string.induct)
  case (1 n)
  show ?case
  proof (cases "n < 10")
    case True
    then show ?thesis by (simp add: dec_string.simps [of n] digit_char)
  next
    case False
    have "digit (char_of (48 + n mod 10)) = Some (n mod 10)" by (rule digit_char) simp
    then show ?thesis using 1 False by (simp add: dec_string.simps [of n] parse_dec_append)
  qed
qed

text \<open>\<open>core::str::from_utf8\<close> accepts exactly the well-formed UTF-8 byte sequences (Unicode table 3-7).\<close>

fun utf8_valid :: "nat list \<Rightarrow> bool" where
  "utf8_valid [] = True"
| "utf8_valid (a # r) =
     (if a < 0x80 then utf8_valid r
      else if 0xC2 \<le> a \<and> a \<le> 0xDF then
        (case r of b # r1 \<Rightarrow> 0x80 \<le> b \<and> b \<le> 0xBF \<and> utf8_valid r1 | _ \<Rightarrow> False)
      else if 0xE0 \<le> a \<and> a \<le> 0xEF then
        (case r of b # c # r2 \<Rightarrow>
           (if a = 0xE0 then 0xA0 \<le> b else 0x80 \<le> b) \<and> (if a = 0xED then b \<le> 0x9F else b \<le> 0xBF)
           \<and> 0x80 \<le> c \<and> c \<le> 0xBF \<and> utf8_valid r2
         | _ \<Rightarrow> False)
      else if 0xF0 \<le> a \<and> a \<le> 0xF4 then
        (case r of b # c # d # r3 \<Rightarrow>
           (if a = 0xF0 then 0x90 \<le> b else 0x80 \<le> b) \<and> (if a = 0xF4 then b \<le> 0x8F else b \<le> 0xBF)
           \<and> 0x80 \<le> c \<and> c \<le> 0xBF \<and> 0x80 \<le> d \<and> d \<le> 0xBF \<and> utf8_valid r3
         | _ \<Rightarrow> False)
      else False)"

definition from_utf8 :: "bytes \<Rightarrow> string option" where
  "from_utf8 bs = (if utf8_valid (map unat bs) then Some (str_of_bytes bs) else None)"

lemma utf8_valid_ascii: "(\<forall>n \<in> set ns. n < 0x80) \<Longrightarrow> utf8_valid ns"
  by (induction ns rule: utf8_valid.induct) auto

section \<open>Functions on a state with errors\<close>

type_synonym ('s, 'e, 'a) sm = "'s \<Rightarrow> ('e + 'a) \<times> 's"

definition ret :: "'a \<Rightarrow> ('s, 'e, 'a) sm" where
  "ret x = (\<lambda>s. (Inr x, s))"

definition err :: "'e \<Rightarrow> ('s, 'e, 'a) sm" where
  "err e = (\<lambda>s. (Inl e, s))"

text \<open>\<open>bnd m f\<close> is \<open>let x = m?; f(x)\<close>: an error returns early with the state reached so far.\<close>

definition bnd :: "('s, 'e, 'a) sm \<Rightarrow> ('a \<Rightarrow> ('s, 'e, 'b) sm) \<Rightarrow> ('s, 'e, 'b) sm" where
  "bnd m f = (\<lambda>s. case m s of (Inl e, t) \<Rightarrow> (Inl e, t) | (Inr x, t) \<Rightarrow> f x t)"

definition gets :: "('s \<Rightarrow> 'a) \<Rightarrow> ('s, 'e, 'a) sm" where
  "gets f = (\<lambda>s. (Inr (f s), s))"

definition upd :: "('s \<Rightarrow> 's) \<Rightarrow> ('s, 'e, unit) sm" where
  "upd f = (\<lambda>s. (Inr (), f s))"

text \<open>\<open>map_err g m\<close> renames the error: \<open>.ok_or(e)\<close> and \<open>.map_err(...)\<close> and \<open>.ok()\<close>.\<close>

definition map_err :: "('e \<Rightarrow> 'f) \<Rightarrow> ('s, 'e, 'a) sm \<Rightarrow> ('s, 'f, 'a) sm" where
  "map_err g m = (\<lambda>s. case m s of (Inl e, t) \<Rightarrow> (Inl (g e), t) | (Inr x, t) \<Rightarrow> (Inr x, t))"

abbreviation ok_or :: "'f \<Rightarrow> ('s, unit, 'a) sm \<Rightarrow> ('s, 'f, 'a) sm" where
  "ok_or e \<equiv> map_err (\<lambda>_. e)"

abbreviation ok :: "('s, 'e, 'a) sm \<Rightarrow> ('s, unit, 'a) sm" where
  "ok \<equiv> map_err (\<lambda>_. ())"

text \<open>\<open>catch m f\<close> runs \<open>f\<close> on the result, error or value: a \<open>match\<close> on a \<open>Result\<close>.\<close>

definition attempt :: "('s, 'e, 'a) sm \<Rightarrow> ('s, 'f, 'e + 'a) sm" where
  "attempt m = (\<lambda>s. case m s of (r, t) \<Rightarrow> (Inr r, t))"

definition lift_opt :: "'e \<Rightarrow> 'a option \<Rightarrow> ('s, 'e, 'a) sm" where
  "lift_opt e r = (case r of None \<Rightarrow> err e | Some x \<Rightarrow> ret x)"

definition lift_res :: "'e + 'a \<Rightarrow> ('s, 'e, 'a) sm" where
  "lift_res r = (\<lambda>s. (r, s))"

definition guard :: "bool \<Rightarrow> 'e \<Rightarrow> ('s, 'e, unit) sm" where
  "guard b e = (if b then ret () else err e)"

primrec for_each :: "'x list \<Rightarrow> ('x \<Rightarrow> ('s, 'e, unit) sm) \<Rightarrow> ('s, 'e, unit) sm" where
  "for_each [] f = ret ()"
| "for_each (x # xs) f = bnd (f x) (\<lambda>_. for_each xs f)"

primrec map_each :: "'x list \<Rightarrow> ('x \<Rightarrow> ('s, 'e, 'a) sm) \<Rightarrow> ('s, 'e, 'a list) sm" where
  "map_each [] f = ret []"
| "map_each (x # xs) f = bnd (f x) (\<lambda>y. bnd (map_each xs f) (\<lambda>ys. ret (y # ys)))"

lemma bnd_ret [simp, sm_simps]: "bnd (ret x) f = f x"
  by (simp add: bnd_def ret_def)

lemma bnd_err [simp, sm_simps]: "bnd (err e) f = err e"
  by (simp add: bnd_def err_def)

lemma bnd_assoc: "bnd (bnd m f) g = bnd m (\<lambda>x. bnd (f x) g)"
  by (auto simp: bnd_def fun_eq_iff split: prod.splits sum.splits)

lemma ret_app [sm_simps]: "ret x s = (Inr x, s)" by (simp add: ret_def)
lemma err_app [sm_simps]: "err e s = (Inl e, s)" by (simp add: err_def)
lemma gets_app [sm_simps]: "gets f s = (Inr (f s), s)" by (simp add: gets_def)
lemma upd_app [sm_simps]: "upd f s = (Inr (), f s)" by (simp add: upd_def)
lemma lift_res_app [sm_simps]: "lift_res r s = (r, s)" by (simp add: lift_res_def)

lemma bnd_Inr:
  "bnd m f s = (Inr y, t) \<longleftrightarrow> (\<exists>x u. m s = (Inr x, u) \<and> f x u = (Inr y, t))"
  by (auto simp: bnd_def split: prod.splits sum.splits)

lemma bnd_Inr_eq: "m s = (Inr x, u) \<Longrightarrow> bnd m f s = f x u"
  by (simp add: bnd_def)

lemma bnd_Inl_eq: "m s = (Inl e, u) \<Longrightarrow> bnd m f s = (Inl e, u)"
  by (simp add: bnd_def)

subsection \<open>Pre- and postconditions\<close>

text \<open>\<open>valid P m Q E\<close>: from a state with \<open>P\<close>, \<open>m\<close> ends either with a value \<open>x\<close> and a state with
  \<open>Q x\<close>, or with an error \<open>e\<close> and a state with \<open>E e\<close>. All functions are total, so this is total
  correctness; that a call does not fail is \<open>E = (\<lambda>_ _. False)\<close>.\<close>

definition valid ::
  "('s \<Rightarrow> bool) \<Rightarrow> ('s, 'e, 'a) sm \<Rightarrow> ('a \<Rightarrow> 's \<Rightarrow> bool) \<Rightarrow> ('e \<Rightarrow> 's \<Rightarrow> bool) \<Rightarrow> bool" where
  "valid P m Q E \<longleftrightarrow>
     (\<forall>s. P s \<longrightarrow> (case m s of (Inr x, t) \<Rightarrow> Q x t | (Inl e, t) \<Rightarrow> E e t))"

lemma validI:
  assumes "\<And>s x t. P s \<Longrightarrow> m s = (Inr x, t) \<Longrightarrow> Q x t"
    and "\<And>s e t. P s \<Longrightarrow> m s = (Inl e, t) \<Longrightarrow> E e t"
  shows "valid P m Q E"
  using assms by (auto simp: valid_def split: prod.splits sum.splits)

lemma validD:
  assumes "valid P m Q E" and "P s" and "m s = (Inr x, t)"
  shows "Q x t"
  using assms by (auto simp: valid_def split: prod.splits sum.splits)

lemma validD_err:
  assumes "valid P m Q E" and "P s" and "m s = (Inl e, t)"
  shows "E e t"
  using assms by (auto simp: valid_def split: prod.splits sum.splits)

lemma valid_weaken:
  assumes "valid P' m Q' E'" and "\<And>s. P s \<Longrightarrow> P' s"
    and "\<And>x s. Q' x s \<Longrightarrow> Q x s" and "\<And>e s. E' e s \<Longrightarrow> E e s"
  shows "valid P m Q E"
  using assms by (fastforce simp: valid_def split: prod.splits sum.splits)

lemma valid_pre: "valid P' m Q E \<Longrightarrow> (\<And>s. P s \<Longrightarrow> P' s) \<Longrightarrow> valid P m Q E"
  by (rule valid_weaken)

lemma valid_ret [valid_intros]: "(\<And>s. P s \<Longrightarrow> Q x s) \<Longrightarrow> valid P (ret x) Q E"
  by (simp add: valid_def ret_def)

lemma valid_err [valid_intros]: "(\<And>s. P s \<Longrightarrow> E e s) \<Longrightarrow> valid P (err e) Q E"
  by (simp add: valid_def err_def)

lemma valid_gets [valid_intros]: "(\<And>s. P s \<Longrightarrow> Q (f s) s) \<Longrightarrow> valid P (gets f) Q E"
  by (simp add: valid_def gets_def)

lemma valid_upd [valid_intros]: "(\<And>s. P s \<Longrightarrow> Q () (f s)) \<Longrightarrow> valid P (upd f) Q E"
  by (simp add: valid_def upd_def)

lemma valid_bnd:
  assumes "valid P m R E" and "\<And>x. valid (R x) (f x) Q E"
  shows "valid P (bnd m f) Q E"
  unfolding valid_def
proof (intro allI impI)
  fix s assume P: "P s"
  obtain r t where m: "m s = (r, t)" by (cases "m s")
  show "case bnd m f s of (Inr x, t) \<Rightarrow> Q x t | (Inl e, t) \<Rightarrow> E e t"
  proof (cases r)
    case (Inl e)
    with m validD_err [OF assms(1) P] show ?thesis by (simp add: bnd_def)
  next
    case (Inr x)
    with m validD [OF assms(1) P] have "R x t" by simp
    with assms(2) [of x] m Inr show ?thesis by (simp add: bnd_def valid_def)
  qed
qed

lemma valid_map_err:
  assumes "valid P m Q (\<lambda>e. E (g e))"
  shows "valid P (map_err g m) Q E"
  using assms by (fastforce simp: valid_def map_err_def split: prod.splits sum.splits)

lemma valid_attempt:
  assumes "valid P m (\<lambda>x. Q (Inr x)) (\<lambda>e. Q (Inl e))"
  shows "valid P (attempt m) Q E"
proof (rule validI)
  fix s x t assume "P s" and "attempt m s = (Inr x, t)"
  then show "Q x t"
    using validD [OF assms] validD_err [OF assms]
    by (cases x) (auto simp: attempt_def split: prod.splits)
qed (simp add: attempt_def split: prod.splits)

lemma valid_if [valid_intros]:
  assumes "b \<Longrightarrow> valid P m Q E" and "\<not> b \<Longrightarrow> valid P m' Q E"
  shows "valid P (if b then m else m') Q E"
  using assms by simp

lemma valid_guard [valid_intros]:
  assumes "\<And>s. P s \<Longrightarrow> b \<Longrightarrow> Q () s" and "\<And>s. P s \<Longrightarrow> \<not> b \<Longrightarrow> E e s"
  shows "valid P (guard b e) Q E"
  using assms by (auto simp: valid_def guard_def ret_def err_def)

lemma valid_lift_opt [valid_intros]:
  assumes "\<And>s x. P s \<Longrightarrow> r = Some x \<Longrightarrow> Q x s" and "\<And>s. P s \<Longrightarrow> r = None \<Longrightarrow> E e s"
  shows "valid P (lift_opt e r) Q E"
  using assms by (auto simp: valid_def lift_opt_def ret_def err_def split: option.splits)

lemma valid_for_each:
  assumes "\<And>x. x \<in> set xs \<Longrightarrow> valid P (f x) (\<lambda>_. P) E"
  shows "valid P (for_each xs f) (\<lambda>_. P) E"
  using assms
proof (induction xs)
  case Nil
  then show ?case by (simp add: valid_ret)
next
  case (Cons x xs)
  then show ?case by (auto intro!: valid_bnd [where R = "\<lambda>_. P"])
qed

lemma for_each_append: "for_each (xs @ ys) f = bnd (for_each xs f) (\<lambda>_. for_each ys f)"
  by (induction xs) (simp_all add: bnd_assoc)

lemma valid_for_upt:
  assumes "\<And>i. i < n \<Longrightarrow> valid (P i) (f i) (\<lambda>_. P (Suc i)) E"
  shows "valid (P 0) (for_each [0..<n] f) (\<lambda>_. P n) E"
  using assms
proof (induction n)
  case 0
  then show ?case by (simp add: valid_ret)
next
  case (Suc n)
  then have "valid (P 0) (for_each [0..<n] f) (\<lambda>_. P n) E" by simp
  moreover have "valid (P n) (for_each [n] f) (\<lambda>_. P (Suc n)) E"
    using Suc.prems [of n] by (auto intro!: valid_bnd [where R = "\<lambda>_. P (Suc n)"] valid_ret)
  ultimately show ?case by (auto simp: for_each_append intro: valid_bnd)
qed

lemma valid_assume: "(b \<Longrightarrow> valid P m Q E) \<Longrightarrow> valid (\<lambda>s. P s \<and> b) m Q E"
  by (auto simp: valid_def)

lemma valid_map_each:
  assumes "\<And>x. x \<in> set xs \<Longrightarrow> valid P (f x) (\<lambda>y s. P s \<and> y = g x) E"
  shows "valid P (map_each xs f) (\<lambda>ys s. P s \<and> ys = map g xs) E"
  using assms
proof (induction xs)
  case Nil
  then show ?case by (simp add: valid_ret)
next
  case (Cons x xs)
  then have IH: "valid P (map_each xs f) (\<lambda>ys s. P s \<and> ys = map g xs) E" by simp
  show ?case unfolding map_each.simps
  proof (rule valid_bnd)
    show "valid P (f x) (\<lambda>y s. P s \<and> y = g x) E" using Cons.prems by simp
    fix y
    show "valid (\<lambda>s. P s \<and> y = g x) (bnd (map_each xs f) (\<lambda>ys. ret (y # ys)))
        (\<lambda>ys s. P s \<and> ys = map g (x # xs)) E"
      by (rule valid_assume, rule valid_bnd [OF IH]) (auto intro: valid_ret)
  qed
qed

lemma valid_conj:
  assumes "valid P m Q E" and "valid P m Q' E'"
  shows "valid P m (\<lambda>x s. Q x s \<and> Q' x s) (\<lambda>e s. E e s \<and> E' e s)"
  using assms by (fastforce simp: valid_def split: prod.splits sum.splits)

end
