(* ===== verification/Disk_Layout.thy ===== *)
theory Disk_Layout
  imports Cool_Base
begin

text \<open>
  The on-disk partition formats of \<open>src/src/disk_layout.rs\<close>: MBR partition tables, the GPT header
  and its entries, and the CRC-32 that protects them. A sector is a byte list of length
  \<open>SECTOR_SIZE\<close> (the Rust type \<open>[u8; 512]\<close>), which the lemmas carry as a hypothesis. Shown here: what
  the writers store is what the parsers read back, parsers only accept ranges inside the disk, and
  a change of one byte always changes the CRC.
\<close>

definition SECTOR_SIZE :: nat where "SECTOR_SIZE = 512"
definition BOOTLOADER_STAGE2_PARTITION_TYPE :: u8 where "BOOTLOADER_STAGE2_PARTITION_TYPE = 0x20"
definition BOOT_FAT32_PARTITION_TYPE :: u8 where "BOOT_FAT32_PARTITION_TYPE = 0x0c"
definition COOLFS_PARTITION_TYPE :: u8 where "COOLFS_PARTITION_TYPE = 0xc0"
definition GPT_ENTRY_SIZE :: nat where "GPT_ENTRY_SIZE = 128"
definition GPT_ENTRY_COUNT :: nat where "GPT_ENTRY_COUNT = 128"
definition GPT_PRIMARY_HEADER_LBA :: u32 where "GPT_PRIMARY_HEADER_LBA = 1"
definition MBR_PARTITION_TABLE_OFFSET :: nat where "MBR_PARTITION_TABLE_OFFSET = 446"
definition MBR_PARTITION_ENTRY_SIZE :: nat where "MBR_PARTITION_ENTRY_SIZE = 16"
definition MBR_SIGNATURE_OFFSET :: nat where "MBR_SIGNATURE_OFFSET = 510"
definition MBR_SIGNATURE :: bytes where "MBR_SIGNATURE = [0x55, 0xaa]"
definition COOLFS_MAGIC :: bytes where
  "COOLFS_MAGIC = [0x43, 0x4f, 0x4f, 0x4c, 0x46, 0x53, 0x31, 0]"
definition GPT_SIGNATURE :: bytes where
  "GPT_SIGNATURE = [0x45, 0x46, 0x49, 0x20, 0x50, 0x41, 0x52, 0x54]"
definition GPT_HEADER_SIZE :: u32 where "GPT_HEADER_SIZE = 92"
definition COOLFS_GPT_PARTITION_GUID :: bytes where
  "COOLFS_GPT_PARTITION_GUID =
     [0xf0, 0xc6, 0xc7, 0xb9, 0x2e, 0x9d, 0x6a, 0x4f, 0x9a, 0x3d, 0x43, 0x4f, 0x4f, 0x4c, 0x46, 0x53]"

lemmas layout_consts = SECTOR_SIZE_def GPT_ENTRY_SIZE_def GPT_ENTRY_COUNT_def
  MBR_PARTITION_TABLE_OFFSET_def MBR_PARTITION_ENTRY_SIZE_def MBR_SIGNATURE_OFFSET_def
  MBR_SIGNATURE_def GPT_SIGNATURE_def GPT_HEADER_SIZE_def

record mbr_partition =
  mp_boot :: u8
  mp_sys :: u8
  mp_starting_lba :: u32
  mp_sectors :: u32

record gpt_header =
  gh_entries_lba :: u32
  gh_entry_count :: u32
  gh_entry_size :: u32

record gpt_partition =
  gp_type_guid :: bytes
  gp_starting_lba :: u32
  gp_ending_lba :: u32

definition mbr_is_unused :: "mbr_partition \<Rightarrow> bool" where
  "mbr_is_unused p \<longleftrightarrow> mp_sys p = 0 \<or> mp_sectors p = 0"

definition mbr_end_lba :: "mbr_partition \<Rightarrow> u32 option" where
  "mbr_end_lba p = (if mbr_is_unused p then Some 0 else checked_add (mp_starting_lba p) (mp_sectors p))"

definition read_u32 :: "bytes \<Rightarrow> nat \<Rightarrow> u32 option" where
  "read_u32 bs off =
     (if off + 4 > length bs then None
      else Some (from_le [bs ! off, bs ! (off + 1), bs ! (off + 2), bs ! (off + 3)]))"

definition read_u64 :: "bytes \<Rightarrow> nat \<Rightarrow> u64 option" where
  "read_u64 bs off =
     (if off + 8 > length bs then None
      else Some (from_le [bs ! off, bs ! (off + 1), bs ! (off + 2), bs ! (off + 3),
                          bs ! (off + 4), bs ! (off + 5), bs ! (off + 6), bs ! (off + 7)]))"

definition write_u64 :: "bytes \<Rightarrow> nat \<Rightarrow> u64 \<Rightarrow> bytes option" where
  "write_u64 bs off v = (if off + 8 > length bs then None else Some (patch bs off (to_le 8 v)))"

definition u32_try_from :: "u64 \<Rightarrow> u32 option" where
  "u32_try_from w = (if unat w < 2 ^ 32 then Some (ucast w) else None)"

definition has_mbr_signature :: "bytes \<Rightarrow> bool" where
  "has_mbr_signature sector \<longleftrightarrow>
     rslice sector MBR_SIGNATURE_OFFSET (MBR_SIGNATURE_OFFSET + 2) = MBR_SIGNATURE"

text \<open>One iteration of the loop of \<open>parse_mbr\<close>: entry \<open>idx\<close> of the table.\<close>

definition parse_mbr_entry :: "bytes \<Rightarrow> nat \<Rightarrow> mbr_partition option" where
  "parse_mbr_entry sector idx =
     (let off = MBR_PARTITION_TABLE_OFFSET + idx * MBR_PARTITION_ENTRY_SIZE in
      case read_u32 sector (off + 8) of None \<Rightarrow> None
      | Some lba \<Rightarrow>
        (case read_u32 sector (off + 12) of None \<Rightarrow> None
         | Some n \<Rightarrow> Some \<lparr>mp_boot = sector ! off, mp_sys = sector ! (off + 4),
                          mp_starting_lba = lba, mp_sectors = n\<rparr>))"

definition parse_mbr :: "bytes \<Rightarrow> mbr_partition list option" where
  "parse_mbr sector =
     (if \<not> has_mbr_signature sector then None
      else those (map (parse_mbr_entry sector) [0..<4]))"

definition has_protective_mbr :: "bytes \<Rightarrow> bool" where
  "has_protective_mbr sector =
     (case parse_mbr sector of None \<Rightarrow> False
      | Some ps \<Rightarrow> list_ex (\<lambda>p. mp_sys p = 0xee \<and> mp_starting_lba p = 1) ps)"

definition has_coolfs_magic :: "bytes \<Rightarrow> bool" where
  "has_coolfs_magic sector \<longleftrightarrow> 8 \<le> length sector \<and> rslice sector 0 8 = COOLFS_MAGIC"

definition parse_gpt_header :: "bytes \<Rightarrow> u32 \<Rightarrow> gpt_header option" where
  "parse_gpt_header sector disk_sectors =
     (if \<not> (8 \<le> length sector \<and> rslice sector 0 8 = GPT_SIGNATURE) then None else
      Option.bind (read_u32 sector 12) (\<lambda>header_size.
      if \<not> (GPT_HEADER_SIZE \<le> header_size \<and> header_size \<le> word_of_nat SECTOR_SIZE) then None else
      Option.bind (Option.bind (read_u64 sector 24) u32_try_from) (\<lambda>current_lba.
      Option.bind (Option.bind (read_u64 sector 32) u32_try_from) (\<lambda>backup_lba.
      Option.bind (Option.bind (read_u64 sector 40) u32_try_from) (\<lambda>first_usable_lba.
      Option.bind (Option.bind (read_u64 sector 48) u32_try_from) (\<lambda>last_usable_lba.
      Option.bind (Option.bind (read_u64 sector 72) u32_try_from) (\<lambda>entries_lba.
      Option.bind (read_u32 sector 80) (\<lambda>entry_count.
      Option.bind (read_u32 sector 84) (\<lambda>entry_size.
      if entry_size \<noteq> word_of_nat GPT_ENTRY_SIZE \<or> entry_count = 0 then None
      else if current_lba \<ge> disk_sectors \<or> backup_lba \<ge> disk_sectors then None
      else if first_usable_lba > last_usable_lba \<or> last_usable_lba \<ge> disk_sectors then None
      else Some \<lparr>gh_entries_lba = entries_lba, gh_entry_count = entry_count,
                 gh_entry_size = entry_size\<rparr>)))))))))"

definition parse_gpt_partition_entry :: "bytes \<Rightarrow> gpt_partition option" where
  "parse_gpt_partition_entry entry =
     (if length entry < GPT_ENTRY_SIZE then None else
      let type_guid = rslice entry 0 16 in
      if list_all (\<lambda>b. b = 0) type_guid then None else
      Option.bind (Option.bind (read_u64 entry 32) u32_try_from) (\<lambda>starting_lba.
      Option.bind (Option.bind (read_u64 entry 40) u32_try_from) (\<lambda>ending_lba.
      if starting_lba = 0 \<or> ending_lba < starting_lba then None
      else Some \<lparr>gp_type_guid = type_guid, gp_starting_lba = starting_lba,
                 gp_ending_lba = ending_lba\<rparr>)))"

definition write_partition_entry ::
  "bytes \<Rightarrow> nat \<Rightarrow> u8 \<Rightarrow> u8 \<Rightarrow> u32 \<Rightarrow> u32 \<Rightarrow> bytes option" where
  "write_partition_entry sector index boot sys starting_lba sectors =
     (if index \<ge> 4 then None else
      let off = MBR_PARTITION_TABLE_OFFSET + index * MBR_PARTITION_ENTRY_SIZE;
          s1 = sector[off := boot];
          s2 = fill_range s1 (off + 1) (off + 4) 0;
          s3 = s2[off + 4 := sys];
          s4 = fill_range s3 (off + 5) (off + 8) 0;
          s5 = patch s4 (off + 8) (to_le 4 starting_lba);
          s6 = patch s5 (off + 12) (to_le 4 sectors)
      in Some (patch s6 MBR_SIGNATURE_OFFSET MBR_SIGNATURE))"

definition write_protective_mbr :: "bytes \<Rightarrow> u32 \<Rightarrow> bytes" where
  "write_protective_mbr sector total_sectors =
     (let s0 = fill_range sector 0 (length sector) 0;
          protective_sectors = saturating_sub total_sectors 1;
          off = MBR_PARTITION_TABLE_OFFSET;
          s1 = s0[off + 4 := 0xee];
          s2 = patch s1 (off + 8) (to_le 4 (1 :: u32));
          s3 = patch s2 (off + 12) (to_le 4 protective_sectors)
      in patch s3 MBR_SIGNATURE_OFFSET MBR_SIGNATURE)"

text \<open>The name loop of \<open>write_gpt_partition_entry\<close>: byte \<open>i\<close> goes to offset \<open>56 + 2 i\<close>, zero-extended.\<close>

fun write_gpt_name :: "bytes \<Rightarrow> nat \<Rightarrow> bytes \<Rightarrow> bytes" where
  "write_gpt_name entry idx [] = entry"
| "write_gpt_name entry idx (b # bs) =
     write_gpt_name (entry[56 + idx * 2 := b, 56 + idx * 2 + 1 := 0]) (Suc idx) bs"

definition write_gpt_partition_entry ::
  "bytes \<Rightarrow> nat \<Rightarrow> bytes \<Rightarrow> bytes \<Rightarrow> u32 \<Rightarrow> u32 \<Rightarrow> string \<Rightarrow> bytes option" where
  "write_gpt_partition_entry entries index type_guid unique_guid starting_lba sectors name =
     (if sectors = 0 then None
      else if index * GPT_ENTRY_SIZE \<ge> 2 ^ 64 then None
      else let off = index * GPT_ENTRY_SIZE in
      if off + GPT_ENTRY_SIZE > length entries then None else
      Option.bind (Option.bind (checked_sub sectors 1) (checked_add starting_lba)) (\<lambda>ending_lba.
      let e0 = replicate GPT_ENTRY_SIZE 0;
          e1 = patch e0 0 type_guid;
          e2 = patch e1 16 unique_guid in
      Option.bind (write_u64 e2 32 (ucast starting_lba)) (\<lambda>e3.
      Option.bind (write_u64 e3 40 (ucast ending_lba)) (\<lambda>e4.
      Some (patch entries off (write_gpt_name e4 0 (take 36 (as_bytes name))))))))"

definition crc_bit :: "u32 \<Rightarrow> u32" where
  "crc_bit crc = (let mask = 0 - (crc AND 1) in drop_bit 1 crc XOR (0xedb88320 AND mask))"

definition crc_byte :: "u32 \<Rightarrow> u8 \<Rightarrow> u32" where
  "crc_byte crc b = (crc_bit ^^ 8) (crc XOR ucast b)"

definition crc32 :: "bytes \<Rightarrow> u32" where
  "crc32 bs = NOT (foldl crc_byte 0xffffffff bs)"

definition write_gpt_header ::
  "bytes \<Rightarrow> u32 \<Rightarrow> u32 \<Rightarrow> u32 \<Rightarrow> u32 \<Rightarrow> u32 \<Rightarrow> u32 \<Rightarrow> u32 \<Rightarrow> bytes \<Rightarrow> bytes option" where
  "write_gpt_header sector current_lba backup_lba first_usable_lba last_usable_lba entries_lba
     entry_count entries_crc disk_guid =
     (let s0 = fill_range sector 0 (length sector) 0;
          s1 = patch s0 0 GPT_SIGNATURE;
          s2 = patch s1 8 (to_le 4 (0x00010000 :: u32));
          s3 = patch s2 12 (to_le 4 GPT_HEADER_SIZE) in
      Option.bind (write_u64 s3 24 (ucast current_lba)) (\<lambda>s4.
      Option.bind (write_u64 s4 32 (ucast backup_lba)) (\<lambda>s5.
      Option.bind (write_u64 s5 40 (ucast first_usable_lba)) (\<lambda>s6.
      Option.bind (write_u64 s6 48 (ucast last_usable_lba)) (\<lambda>s7.
      let s8 = patch s7 56 disk_guid in
      Option.bind (write_u64 s8 72 (ucast entries_lba)) (\<lambda>s9.
      let s10 = patch s9 80 (to_le 4 entry_count);
          s11 = patch s10 84 (to_le 4 (word_of_nat GPT_ENTRY_SIZE :: u32));
          s12 = patch s11 88 (to_le 4 entries_crc);
          header_crc = crc32 (rslice s12 0 (unat GPT_HEADER_SIZE))
      in Some (patch s12 16 (to_le 4 header_crc))))))))"

definition find_partition :: "mbr_partition list \<Rightarrow> u8 \<Rightarrow> mbr_partition option" where
  "find_partition ps sys = find (\<lambda>p. mp_sys p = sys \<and> \<not> mbr_is_unused p) ps"

definition gpt_sectors :: "gpt_partition \<Rightarrow> u32 option" where
  "gpt_sectors p = Option.bind (checked_sub (gp_ending_lba p) (gp_starting_lba p)) (\<lambda>d. checked_add d 1)"

definition gpt_end_lba :: "gpt_partition \<Rightarrow> u32 option" where
  "gpt_end_lba p = checked_add (gp_ending_lba p) 1"

fun boot_area_loop :: "u32 \<Rightarrow> mbr_partition list \<Rightarrow> u32 option" where
  "boot_area_loop e [] = Some e"
| "boot_area_loop e (p # ps) =
     (if mp_sys p = BOOTLOADER_STAGE2_PARTITION_TYPE \<or> mp_sys p = BOOT_FAT32_PARTITION_TYPE
      then Option.bind (mbr_end_lba p) (\<lambda>x. boot_area_loop (max e x) ps)
      else boot_area_loop e ps)"

definition boot_area_end_lba :: "mbr_partition list \<Rightarrow> u32 option" where
  "boot_area_end_lba ps = boot_area_loop 1 ps"

definition align_up_lba :: "u32 \<Rightarrow> u32 \<Rightarrow> u32 option" where
  "align_up_lba lba alignment =
     (if alignment = 0 then Some lba else
      Option.bind (checked_sub alignment 1) (\<lambda>add.
      Option.bind (checked_add lba add) (\<lambda>rounded. Some (rounded div alignment * alignment))))"

section \<open>Reading back what was written\<close>

lemma rslice4:
  "off + 4 \<le> length bs \<Longrightarrow>
   rslice bs off (off + 4) = [bs ! off, bs ! (off + 1), bs ! (off + 2), bs ! (off + 3)]"
  by (rule nth_equalityI) (auto simp: less_Suc_eq numeral_eq_Suc)

lemma rslice8:
  "off + 8 \<le> length bs \<Longrightarrow>
   rslice bs off (off + 8) =
     [bs ! off, bs ! (off + 1), bs ! (off + 2), bs ! (off + 3),
      bs ! (off + 4), bs ! (off + 5), bs ! (off + 6), bs ! (off + 7)]"
  by (rule nth_equalityI) (auto simp: less_Suc_eq numeral_eq_Suc)

lemma read_u32_rslice:
  "read_u32 bs off = (if off + 4 \<le> length bs then Some (from_le (rslice bs off (off + 4))) else None)"
  using rslice4 [of off bs] by (simp add: read_u32_def del: from_le.simps)

lemma read_u64_rslice:
  "read_u64 bs off = (if off + 8 \<le> length bs then Some (from_le (rslice bs off (off + 8))) else None)"
  using rslice8 [of off bs] by (simp add: read_u64_def del: from_le.simps)

lemma write_u64_Some:
  "write_u64 bs off v = Some bs' \<longleftrightarrow> off + 8 \<le> length bs \<and> bs' = patch bs off (to_le 8 v)"
  by (auto simp: write_u64_def)

lemma u32_try_from_ucast [simp]: "u32_try_from (ucast w) = Some w" for w :: u32
proof -
  have "unat (ucast w :: u64) < 2 ^ 32"
    using unsigned_less [of w, where 'a = nat] by (simp add: unsigned_ucast_eq take_bit_eq_mod)
  moreover have "ucast (ucast w :: u64) = w"
    by (rule bit_word_eqI) (auto simp: bit_simps)
  ultimately show ?thesis by (simp add: u32_try_from_def)
qed

lemmas patch_read = rslice_patch_same rslice_patch_disjoint rslice_fill_range_disjoint

section \<open>MBR partition tables\<close>

lemma parse_mbr_entry_eq:
  assumes "length sector = 512" and "idx < 4"
  shows "parse_mbr_entry sector idx =
    (let off = 446 + idx * 16 in
     Some \<lparr>mp_boot = hd (rslice sector off (Suc off)), mp_sys = hd (rslice sector (off + 4) (Suc (off + 4))),
           mp_starting_lba = from_le (rslice sector (off + 8) (off + 12)),
           mp_sectors = from_le (rslice sector (off + 12) (off + 16))\<rparr>)"
  using assms
  by (simp add: parse_mbr_entry_def layout_consts read_u32_rslice Let_def nth_rslice_conv add.assoc)

lemma those_upt4:
  assumes "\<And>i. i < 4 \<Longrightarrow> f i = Some (g i)"
  shows "those (map f [0..<4]) = Some (map g [0..<4])"
  using assms by (simp add: upt_rec numeral_eq_Suc)

lemma parse_mbr_512:
  assumes "length sector = 512" and "has_mbr_signature sector"
  shows "parse_mbr sector = Some (map (\<lambda>i. the (parse_mbr_entry sector i)) [0..<4])"
  using assms by (simp add: parse_mbr_def those_upt4 parse_mbr_entry_eq Let_def)

lemma write_partition_entry_sector:
  assumes "length sector = 512" and "index < 4"
    and "write_partition_entry sector index boot sys lba n = Some s'"
  shows "length s' = 512" and "has_mbr_signature s'"
    and "parse_mbr_entry s' index =
         Some \<lparr>mp_boot = boot, mp_sys = sys, mp_starting_lba = lba, mp_sectors = n\<rparr>"
    and "j < 4 \<Longrightarrow> j \<noteq> index \<Longrightarrow> parse_mbr_entry s' j = parse_mbr_entry sector j"
proof -
  let ?o = "446 + index * 16"
  have o: "?o + 16 \<le> 510" using assms(2) by simp
  have s': "s' = patch (patch (patch (fill_range (patch (fill_range (patch sector ?o [boot]) (?o + 1) (?o + 4) 0)
      (?o + 4) [sys]) (?o + 5) (?o + 8) 0) (?o + 8) (to_le 4 lba)) (?o + 12) (to_le 4 n)) 510 [0x55, 0xaa]"
    using assms o by (simp add: write_partition_entry_def layout_consts Let_def list_update_patch)
  show len: "length s' = 512" using assms o by (simp add: s')
  show "has_mbr_signature s'"
    using assms o by (simp add: s' has_mbr_signature_def layout_consts patch_read)
  show "parse_mbr_entry s' index =
         Some \<lparr>mp_boot = boot, mp_sys = sys, mp_starting_lba = lba, mp_sectors = n\<rparr>"
    using assms o len by (simp add: parse_mbr_entry_eq Let_def s' patch_read)
  show "parse_mbr_entry s' j = parse_mbr_entry sector j" if "j < 4" "j \<noteq> index"
  proof -
    have "446 + j * 16 + 16 \<le> ?o \<or> ?o + 16 \<le> 446 + j * 16" using that(2) by arith
    then show ?thesis
      using assms o len that(1) by (auto simp add: parse_mbr_entry_eq Let_def s' patch_read)
  qed
qed

section \<open>GPT headers and entries\<close>

lemma write_gpt_header_Some:
  assumes "length sector = 512" and "length disk_guid = 16"
  shows "\<exists>s'. write_gpt_header sector cur bak fst_lba lst ent cnt ecrc disk_guid = Some s' \<and>
    length s' = 512"
  using assms by (simp add: write_gpt_header_def write_u64_def Let_def layout_consts)

lemma write_gpt_header_fields:
  assumes "length sector = 512" and "length disk_guid = 16"
    and "write_gpt_header sector cur bak fst_lba lst ent cnt ecrc disk_guid = Some s'"
  shows "rslice s' 0 8 = GPT_SIGNATURE" and "read_u32 s' 12 = Some 92"
    and "read_u64 s' 24 = Some (ucast cur)" and "read_u64 s' 32 = Some (ucast bak)"
    and "read_u64 s' 40 = Some (ucast fst_lba)" and "read_u64 s' 48 = Some (ucast lst)"
    and "read_u64 s' 72 = Some (ucast ent)" and "read_u32 s' 80 = Some cnt"
    and "read_u32 s' 84 = Some 128" and "read_u32 s' 88 = Some ecrc"
    and "read_u32 s' 16 = Some (crc32 (patch (rslice s' 0 92) 16 (replicate 4 0)))"
proof -
  define s12 where "s12 = patch (patch (patch (patch (patch (patch (patch (patch (patch (patch (patch
    (patch (fill_range sector 0 512 0) 0 GPT_SIGNATURE) 8 (to_le 4 (0x10000 :: u32))) 12 (to_le 4 (92 :: u32)))
    24 (to_le 8 (ucast cur :: u64))) 32 (to_le 8 (ucast bak :: u64))) 40 (to_le 8 (ucast fst_lba :: u64)))
    48 (to_le 8 (ucast lst :: u64))) 56 disk_guid) 72 (to_le 8 (ucast ent :: u64))) 80 (to_le 4 cnt))
    84 (to_le 4 (128 :: u32))) 88 (to_le 4 ecrc)"
  have s': "s' = patch s12 16 (to_le 4 (crc32 (rslice s12 0 92)))"
    using assms by (simp add: write_gpt_header_def write_u64_def Let_def s12_def layout_consts
      del: to_le.simps)
  have len: "length s12 = 512" using assms by (simp add: s12_def layout_consts)
  note defs = s' s12_def layout_consts
  show "rslice s' 0 8 = GPT_SIGNATURE" using assms by (simp add: defs patch_read)
  show "read_u32 s' 12 = Some 92" using assms by (simp add: defs read_u32_rslice patch_read)
  show "read_u64 s' 24 = Some (ucast cur)" using assms by (simp add: defs read_u64_rslice patch_read)
  show "read_u64 s' 32 = Some (ucast bak)" using assms by (simp add: defs read_u64_rslice patch_read)
  show "read_u64 s' 40 = Some (ucast fst_lba)" using assms by (simp add: defs read_u64_rslice patch_read)
  show "read_u64 s' 48 = Some (ucast lst)" using assms by (simp add: defs read_u64_rslice patch_read)
  show "read_u64 s' 72 = Some (ucast ent)" using assms by (simp add: defs read_u64_rslice patch_read)
  show "read_u32 s' 80 = Some cnt" using assms by (simp add: defs read_u32_rslice patch_read)
  show "read_u32 s' 84 = Some 128" using assms by (simp add: defs read_u32_rslice patch_read)
  show "read_u32 s' 88 = Some ecrc" using assms by (simp add: defs read_u32_rslice patch_read)
  have zero: "rslice s12 16 20 = replicate 4 0"
  proof (rule nth_equalityI)
    fix i assume "i < length (rslice s12 16 20)"
    then have "i < 4" using len by simp
    then show "rslice s12 16 20 ! i = replicate 4 0 ! i"
      using assms by (simp add: s12_def layout_consts nth_patch nth_fill_range)
  qed (simp add: len)
  have "patch (rslice s' 0 92) 16 (replicate 4 0) = rslice s12 0 92"
  proof (rule nth_equalityI)
    fix i assume "i < length (patch (rslice s' 0 92) 16 (replicate 4 0))"
    then have i: "i < 92" using len by (simp add: s')
    have "16 \<le> i \<Longrightarrow> i < 20 \<Longrightarrow> s12 ! i = 0"
      using nth_rslice [of "i - 16" 20 16 s12] zero len by (simp add: nth_replicate)
    then show "patch (rslice s' 0 92) 16 (replicate 4 0) ! i = rslice s12 0 92 ! i"
      using i len by (auto simp: s' nth_patch)
  qed (simp add: s' len)
  then show "read_u32 s' 16 = Some (crc32 (patch (rslice s' 0 92) 16 (replicate 4 0)))"
    using len by (simp add: s' read_u32_rslice patch_read)
qed

lemma length_write_gpt_name [simp]: "length (write_gpt_name e i bs) = length e"
  by (induction e i bs rule: write_gpt_name.induct) auto

lemma rslice_write_gpt_name:
  "b \<le> 56 \<Longrightarrow> rslice (write_gpt_name e i bs) a b = rslice e a b"
proof (induction e i bs rule: write_gpt_name.induct)
  case (2 entry idx b' bs)
  have "rslice (entry[56 + idx * 2 := b', 56 + idx * 2 + 1 := 0]) a b = rslice entry a b"
    using 2(2) by (intro rslice_eqI) (auto simp: nth_list_update)
  with 2 show ?case by simp
qed simp

lemma write_gpt_partition_entry_SomeD:
  assumes "write_gpt_partition_entry es i tg ug lba n name = Some es'"
    and "length tg = 16" and "length ug = 16"
  shows "i * 128 + 128 \<le> length es" and "n \<noteq> 0" and "unat lba + (unat n - 1) < 2 ^ 32"
    and "\<exists>e. es' = patch es (i * 128) e \<and> length e = 128 \<and> rslice e 0 16 = tg \<and>
           rslice e 16 32 = ug \<and> read_u64 e 32 = Some (ucast lba) \<and>
           read_u64 e 40 = Some (ucast (lba + (n - 1)))"
proof -
  from assms obtain m where len: "i * 128 + 128 \<le> length es" and n: "n \<noteq> 0"
    and m: "checked_sub n 1 = Some m" "unat lba + unat m < 2 ^ 32"
    and es': "es' = patch es (i * 128) (write_gpt_name (patch (patch (patch (patch (replicate 128 0) 0 tg)
       16 ug) 32 (to_le 8 (ucast lba :: u64))) 40 (to_le 8 (ucast (lba + m) :: u64))) 0 (take 36 (as_bytes name)))"
    by (auto simp: write_gpt_partition_entry_def write_u64_def layout_consts Let_def checked_add_Some
        bind_eq_Some_conv split: if_splits)
  show "i * 128 + 128 \<le> length es" "n \<noteq> 0" using len n .
  have "unat m = unat n - 1" "m = n - 1"
    using checked_sub_unat [OF m(1)] m(1) by (auto simp: checked_sub_def split: if_splits)
  then show "unat lba + (unat n - 1) < 2 ^ 32" using m by simp
  let ?e = "write_gpt_name (patch (patch (patch (patch (replicate 128 0) 0 tg)
       16 ug) 32 (to_le 8 (ucast lba :: u64))) 40 (to_le 8 (ucast (lba + m) :: u64))) 0 (take 36 (as_bytes name))"
  have "length ?e = 128 \<and> rslice ?e 0 16 = tg \<and> rslice ?e 16 32 = ug \<and>
        read_u64 ?e 32 = Some (ucast lba) \<and> read_u64 ?e 40 = Some (ucast (lba + m))"
    using assms(2,3) by (simp add: rslice_write_gpt_name read_u64_rslice patch_read)
  then show "\<exists>e. es' = patch es (i * 128) e \<and> length e = 128 \<and> rslice e 0 16 = tg \<and>
           rslice e 16 32 = ug \<and> read_u64 e 32 = Some (ucast lba) \<and>
           read_u64 e 40 = Some (ucast (lba + (n - 1)))"
    using es' \<open>m = n - 1\<close> by blast
qed

section \<open>CRC-32\<close>

lemma mask_bit0: "bit (- (c AND 1) :: u32) n \<longleftrightarrow> n < 32 \<and> bit c 0"
proof (cases "bit c 0")
  case True
  then have "c AND 1 = 1" by (simp add: and_one_eq odd_iff_mod_2_eq_one bit_0)
  then show ?thesis using True by (simp add: bit_simps)
next
  case False
  then have "c AND 1 = 0" by (simp add: and_one_eq bit_0 even_iff_mod_2_eq_zero)
  then show ?thesis using False by simp
qed

lemma bit_crc_bit:
  "n < 32 \<Longrightarrow> bit (crc_bit c) n \<longleftrightarrow> (bit c (Suc n) \<noteq> (bit (0xedb88320 :: u32) n \<and> bit c 0))"
  by (auto simp: crc_bit_def Let_def bit_xor_iff bit_and_iff bit_drop_bit_eq mask_bit0 simp del: bit_0)

lemma crc_bit_inj: "crc_bit a = crc_bit b \<Longrightarrow> a = b"
proof (rule bit_word_eqI)
  fix n assume eq: "crc_bit a = crc_bit b" and n: "n < LENGTH(32)"
  have top: "bit (0xedb88320 :: u32) 31" by simp
  have over: "\<not> bit a 32" "\<not> bit b 32" using bit_imp_le_length by fastforce+
  have b0: "bit a 0 = bit b 0"
    using bit_crc_bit [of 31 a] bit_crc_bit [of 31 b] eq over top by (simp del: bit_0)
  show "bit a n = bit b n"
  proof (cases n)
    case 0 with b0 show ?thesis by simp
  next
    case (Suc m)
    then show ?thesis
      using bit_crc_bit [of m a] bit_crc_bit [of m b] eq b0 n by (auto simp del: bit_0)
  qed
qed

lemma crc_bits_inj: "(crc_bit ^^ k) a = (crc_bit ^^ k) b \<Longrightarrow> a = b"
  by (induction k) (auto dest: crc_bit_inj)

lemma crc_byte_inj: "crc_byte a x = crc_byte b x \<Longrightarrow> a = b"
proof -
  assume "crc_byte a x = crc_byte b x"
  then have "a XOR ucast x = b XOR ucast x" unfolding crc_byte_def by (rule crc_bits_inj)
  then have "(a XOR ucast x) XOR ucast x = (b XOR ucast x) XOR ucast x" by simp
  then show "a = b" by (simp add: xor.assoc)
qed

lemma crc_byte_inj_byte: "crc_byte a x = crc_byte a y \<Longrightarrow> x = y"
proof -
  assume "crc_byte a x = crc_byte a y"
  then have "a XOR ucast x = a XOR (ucast y :: u32)" unfolding crc_byte_def by (rule crc_bits_inj)
  then have "a XOR (a XOR ucast x) = a XOR (a XOR (ucast y :: u32))" by simp
  then have "(ucast x :: u32) = ucast y" by (simp add: xor.assoc [symmetric])
  then have "(ucast (ucast x :: u32) :: u8) = ucast (ucast y :: u32)" by simp
  moreover have "(ucast (ucast z :: u32) :: u8) = z" for z
    by (rule bit_word_eqI) (auto simp: bit_simps)
  ultimately show "x = y" by simp
qed

lemma foldl_crc_inj: "foldl crc_byte a xs = foldl crc_byte b xs \<Longrightarrow> a = b"
  by (induction xs arbitrary: a b) (auto dest: crc_byte_inj)

section \<open>Alignment and the boot area\<close>

lemma align_up_lba_Some:
  assumes "align_up_lba lba a = Some r" and "a \<noteq> 0"
  shows "unat r = (unat lba + unat a - 1) div unat a * unat a"
proof -
  from assms obtain add rounded where add: "checked_sub a 1 = Some add"
    and rnd: "checked_add lba add = Some rounded" and r: "r = rounded div a * a"
    by (auto simp: align_up_lba_def bind_eq_Some_conv)
  have u: "unat add = unat a - 1" "1 \<le> unat a" using checked_sub_unat [OF add] by simp_all
  have "unat rounded = unat lba + unat a - 1" using checked_add_unat [OF rnd] u by simp
  moreover have "unat (rounded div a * a) = unat rounded div unat a * unat a"
  proof -
    have "unat rounded div unat a * unat a \<le> unat rounded" by simp
    also have "\<dots> < 2 ^ 32" using unsigned_less [of rounded, where 'a = nat] by simp
    finally show ?thesis by (simp add: unat_word_ariths(2) unat_div)
  qed
  ultimately show ?thesis using r by simp
qed

lemma boot_area_loop_bounds:
  "boot_area_loop e ps = Some r \<Longrightarrow>
   e \<le> r \<and> (\<forall>p \<in> set ps. mp_sys p = BOOTLOADER_STAGE2_PARTITION_TYPE \<or> mp_sys p = BOOT_FAT32_PARTITION_TYPE \<longrightarrow>
      (\<exists>x. mbr_end_lba p = Some x \<and> x \<le> r))"
proof (induction e ps rule: boot_area_loop.induct)
  case (2 e p ps)
  show ?case
  proof (cases "mp_sys p = BOOTLOADER_STAGE2_PARTITION_TYPE \<or> mp_sys p = BOOT_FAT32_PARTITION_TYPE")
    case True
    with 2(3) obtain x where x: "mbr_end_lba p = Some x" "boot_area_loop (max e x) ps = Some r"
      by (auto simp: bind_eq_Some_conv)
    from 2(1) [OF True x] have "max e x \<le> r" "\<forall>q \<in> set ps. mp_sys q = BOOTLOADER_STAGE2_PARTITION_TYPE \<or>
      mp_sys q = BOOT_FAT32_PARTITION_TYPE \<longrightarrow> (\<exists>x. mbr_end_lba q = Some x \<and> x \<le> r)" by blast+
    with x show ?thesis by (auto simp: max_def split: if_splits)
  next
    case False
    with 2 show ?thesis by auto
  qed
qed simp

section \<open>Properties\<close>

text \<open>Writing an MBR table entry and parsing the sector gives that entry back and leaves the
  other three entries of the table as they were, and the sector carries the boot signature.\<close>

theorem mbr_entry_roundtrip:
  assumes "length sector = SECTOR_SIZE" and "index < 4"
  shows "\<exists>s' ps. write_partition_entry sector index boot sys lba n = Some s' \<and>
    length s' = SECTOR_SIZE \<and> parse_mbr s' = Some ps \<and> length ps = 4 \<and>
    ps ! index = \<lparr>mp_boot = boot, mp_sys = sys, mp_starting_lba = lba, mp_sectors = n\<rparr> \<and>
    (\<forall>j<4. j \<noteq> index \<longrightarrow> parse_mbr_entry sector j = Some (ps ! j))"
proof -
  have len: "length sector = 512" using assms(1) by (simp add: SECTOR_SIZE_def)
  obtain s' where s': "write_partition_entry sector index boot sys lba n = Some s'"
    using assms(2) by (simp add: write_partition_entry_def Let_def)
  note w = write_partition_entry_sector [OF len assms(2) s']
  have entry: "parse_mbr_entry s' j = Some (the (parse_mbr_entry s' j))" if "j < 4" for j
    using parse_mbr_entry_eq [OF w(1) that] by (simp add: Let_def)
  have "parse_mbr s' = Some (map (\<lambda>i. the (parse_mbr_entry s' i)) [0..<4])"
    using w(1,2) by (rule parse_mbr_512)
  moreover have "\<forall>j<4. j \<noteq> index \<longrightarrow>
      parse_mbr_entry sector j = Some (map (\<lambda>i. the (parse_mbr_entry s' i)) [0..<4] ! j)"
    using entry w(4) by (metis nth_map_upt add_0 diff_zero length_upt nth_map nth_upt)
  ultimately show ?thesis using s' w(1,3) assms(2) by (simp add: SECTOR_SIZE_def)
qed

theorem mbr_entry_roundtrip_witness:
  "length (replicate 512 (0 :: u8)) = SECTOR_SIZE \<and> (1 :: nat) < 4 \<and>
   (\<exists>s' ps. write_partition_entry (replicate 512 0) 1 0x80 COOLFS_PARTITION_TYPE 2048 12288 = Some s' \<and>
    length s' = SECTOR_SIZE \<and> parse_mbr s' = Some ps \<and> length ps = 4 \<and>
    ps ! 1 = \<lparr>mp_boot = 0x80, mp_sys = COOLFS_PARTITION_TYPE, mp_starting_lba = 2048, mp_sectors = 12288\<rparr> \<and>
    (\<forall>j<4. j \<noteq> 1 \<longrightarrow> parse_mbr_entry (replicate 512 0) j = Some (ps ! j)))"
proof -
  have l: "length (replicate 512 (0 :: u8)) = SECTOR_SIZE" by (simp add: SECTOR_SIZE_def)
  show ?thesis
    using l mbr_entry_roundtrip [OF l, of 1 "0x80" COOLFS_PARTITION_TYPE 2048 12288] by simp
qed

text \<open>C34: a GPT header that was written with in-range LBAs and a non-zero entry count is accepted
  by the parser, which returns its entry geometry, and the stored header CRC is the CRC-32 of the
  92 header bytes with the CRC field zeroed.\<close>

theorem gpt_header_roundtrip:
  assumes "length sector = SECTOR_SIZE" and "length disk_guid = 16"
    and "cur < disk" and "bak < disk" and "first \<le> lst" and "lst < disk" and "cnt \<noteq> 0"
  shows "\<exists>s'. write_gpt_header sector cur bak first lst ent cnt ecrc disk_guid = Some s' \<and>
    parse_gpt_header s' disk =
      Some \<lparr>gh_entries_lba = ent, gh_entry_count = cnt, gh_entry_size = word_of_nat GPT_ENTRY_SIZE\<rparr> \<and>
    read_u32 s' 16 = Some (crc32 (patch (rslice s' 0 92) 16 (replicate 4 0)))"
proof -
  have len: "length sector = 512" using assms(1) by (simp add: SECTOR_SIZE_def)
  obtain s' where s': "write_gpt_header sector cur bak first lst ent cnt ecrc disk_guid = Some s'"
    and l: "length s' = 512" using write_gpt_header_Some [OF len assms(2)] by blast
  note f = write_gpt_header_fields [OF len assms(2) s']
  have "parse_gpt_header s' disk =
      Some \<lparr>gh_entries_lba = ent, gh_entry_count = cnt, gh_entry_size = word_of_nat GPT_ENTRY_SIZE\<rparr>"
    using assms(3-7) f l
    by (simp add: parse_gpt_header_def GPT_ENTRY_SIZE_def GPT_HEADER_SIZE_def SECTOR_SIZE_def
        not_le not_less)
  with s' f(11) show ?thesis by blast
qed

theorem gpt_header_roundtrip_witness:
  "\<exists>s'. write_gpt_header (replicate 512 0) 1 65535 34 65502 2 128 7 (replicate 16 9) = Some s' \<and>
    parse_gpt_header s' 65536 =
      Some \<lparr>gh_entries_lba = 2, gh_entry_count = 128, gh_entry_size = word_of_nat GPT_ENTRY_SIZE\<rparr> \<and>
    read_u32 s' 16 = Some (crc32 (patch (rslice s' 0 92) 16 (replicate 4 0)))"
  by (rule gpt_header_roundtrip) (simp_all add: SECTOR_SIZE_def)

text \<open>A GPT entry written for a non-empty range is parsed back with the same type, first and
  last LBA, its sector count is the one written, and every other byte of the entry table is kept.\<close>

theorem gpt_entry_roundtrip:
  assumes "write_gpt_partition_entry es i tg ug lba n name = Some es'"
    and "length tg = 16" and "length ug = 16" and "\<exists>b \<in> set tg. b \<noteq> 0" and "lba \<noteq> 0"
  shows "\<exists>p. parse_gpt_partition_entry (rslice es' (i * 128) (i * 128 + 128)) = Some p \<and>
      gp_type_guid p = tg \<and> gp_starting_lba p = lba \<and> gpt_sectors p = Some n \<and>
      unat (gp_ending_lba p) + 1 = unat lba + unat n \<and> length es' = length es \<and>
      (\<forall>k < length es. k < i * 128 \<or> i * 128 + 128 \<le> k \<longrightarrow> es' ! k = es ! k)"
proof -
  note d = write_gpt_partition_entry_SomeD [OF assms(1-3)]
  obtain e where es': "es' = patch es (i * 128) e" and e: "length e = 128" "rslice e 0 16 = tg"
    "read_u64 e 32 = Some (ucast lba)" "read_u64 e 40 = Some (ucast (lba + (n - 1)))" using d(4) by blast
  have frame: "length es' = length es" "\<forall>k < length es. k < i * 128 \<or> i * 128 + 128 \<le> k \<longrightarrow> es' ! k = es ! k"
    using e(1) by (auto simp: es' nth_patch)
  have n1: "unat (n - 1) = unat n - 1" "1 \<le> unat n"
    using d(2) by (auto simp: unat_minus_one unat_gt_0 Suc_le_eq)
  have end_lba: "unat (lba + (n - 1)) = unat lba + (unat n - 1)"
    using d(3) n1 by (simp add: unat_word_ariths(1))
  have rs: "rslice es' (i * 128) (i * 128 + 128) = e"
    using d(1) e(1) by (simp add: es' rslice_patch_same)
  let ?p = "\<lparr>gp_type_guid = tg, gp_starting_lba = lba, gp_ending_lba = lba + (n - 1)\<rparr>"
  have le: "lba \<le> lba + (n - 1)" using end_lba by (simp add: word_le_nat_alt)
  have "\<not> list_all (\<lambda>b. b = 0) tg" using assms(4) by (auto simp: list_all_iff)
  then have "parse_gpt_partition_entry e = Some ?p"
    using e assms(5) le
    by (simp add: parse_gpt_partition_entry_def GPT_ENTRY_SIZE_def Let_def not_less)
  moreover have "gpt_sectors ?p = Some n"
    using le n1 unsigned_less [of n, where 'a = nat]
    by (simp add: gpt_sectors_def checked_sub_def checked_add_def)
  moreover have "unat (lba + (n - 1)) + 1 = unat lba + unat n" using end_lba n1 by simp
  ultimately show ?thesis using rs frame by auto
qed

theorem gpt_entry_roundtrip_witness:
  "\<exists>es'. write_gpt_partition_entry (replicate 256 0) 1 COOLFS_GPT_PARTITION_GUID (replicate 16 5) 2048 12288
       ''coolfs'' = Some es' \<and>
    (\<exists>p. parse_gpt_partition_entry (rslice es' (1 * 128) (1 * 128 + 128)) = Some p \<and>
      gp_type_guid p = COOLFS_GPT_PARTITION_GUID \<and> gp_starting_lba p = 2048 \<and> gpt_sectors p = Some 12288 \<and>
      unat (gp_ending_lba p) + 1 = unat (2048 :: u32) + unat (12288 :: u32) \<and>
      length es' = length (replicate 256 (0 :: u8)) \<and>
      (\<forall>k < length (replicate 256 (0 :: u8)). k < 1 * 128 \<or> 1 * 128 + 128 \<le> k \<longrightarrow>
         es' ! k = replicate 256 0 ! k))"
proof -
  have "\<exists>es'. write_gpt_partition_entry (replicate 256 0) 1 COOLFS_GPT_PARTITION_GUID (replicate 16 5) 2048 12288
       ''coolfs'' = Some es'"
    by (simp add: write_gpt_partition_entry_def write_u64_def GPT_ENTRY_SIZE_def Let_def
        checked_sub_def checked_add_def)
  then obtain es' where w: "write_gpt_partition_entry (replicate 256 0) 1 COOLFS_GPT_PARTITION_GUID
      (replicate 16 5) 2048 12288 ''coolfs'' = Some es'" by blast
  show ?thesis
    using w gpt_entry_roundtrip [OF w] by (simp add: COOLFS_GPT_PARTITION_GUID_def)
qed

text \<open>\<open>align_up_lba\<close> returns the least multiple of a non-zero alignment that is not below the
  given LBA, and fails exactly when the rounded sum does not fit in 32 bits.\<close>

theorem align_up_lba_correct:
  assumes "a \<noteq> 0"
  shows "case align_up_lba lba a of
      None \<Rightarrow> unat lba + (unat a - 1) \<ge> 2 ^ 32
    | Some r \<Rightarrow> unat lba + (unat a - 1) < 2 ^ 32 \<and> unat a dvd unat r \<and> unat lba \<le> unat r \<and>
        (\<forall>m. unat a dvd m \<and> unat lba \<le> m \<longrightarrow> unat r \<le> m)"
proof -
  have a: "1 \<le> unat a" "unat (a - 1) = unat a - 1" "checked_sub a 1 = Some (a - 1)"
    using assms by (auto simp: unat_gt_0 Suc_le_eq unat_minus_one checked_sub_def word_le_nat_alt)
  show ?thesis
  proof (cases "align_up_lba lba a")
    case None
    then show ?thesis
      using assms a by (auto simp: align_up_lba_def checked_add_def split: if_splits)
  next
    case (Some r)
    have fits: "unat lba + (unat a - 1) < 2 ^ 32"
      using Some assms a by (auto simp: align_up_lba_def checked_add_def split: if_splits)
    have r: "unat r = (unat lba + unat a - 1) div unat a * unat a"
      by (rule align_up_lba_Some [OF Some assms])
    have "unat lba + unat a - 1 < unat r + unat a"
      using a(1) r mod_less_divisor [of "unat a" "unat lba + unat a - 1"]
        div_mult_mod_eq [of "unat lba + unat a - 1" "unat a"] by linarith
    then have ge: "unat lba \<le> unat r" using a(1) by linarith
    have "unat r \<le> m" if "unat a dvd m" "unat lba \<le> m" for m
    proof -
      from that(1) obtain k where k: "m = unat a * k" ..
      have "unat lba + unat a - 1 < unat a * k + unat a" using that(2) k a(1) by linarith
      also have "\<dots> = Suc k * unat a" by simp
      finally have "(unat lba + unat a - 1) div unat a < Suc k" by (rule less_mult_imp_div_less)
      then show ?thesis using r k by (simp add: mult.commute)
    qed
    with fits ge r Some show ?thesis by simp
  qed
qed

theorem align_up_lba_correct_witness:
  "(2048 :: u32) \<noteq> 0 \<and> align_up_lba 2049 2048 = Some 4096 \<and>
   unat (2048 :: u32) dvd unat (4096 :: u32) \<and> unat (2049 :: u32) \<le> unat (4096 :: u32)"
proof -
  have e: "align_up_lba 2049 2048 = Some 4096"
    by (simp add: align_up_lba_def checked_sub_def checked_add_def)
  show ?thesis using e align_up_lba_correct [of 2048 2049] unfolding e option.case by simp
qed

text \<open>CRC-32 detects every change of a single byte: two inputs that differ in exactly one byte
  have different checksums.\<close>

theorem crc32_detects_byte_change:
  assumes "b \<noteq> c"
  shows "crc32 (xs @ b # ys) \<noteq> crc32 (xs @ c # ys)"
  using assms by (auto simp: crc32_def dest!: foldl_crc_inj crc_byte_inj_byte)

theorem crc32_detects_byte_change_witness:
  "(0x31 :: u8) \<noteq> 0x30 \<and> crc32 ([0x30] @ 0x31 # [0x32]) \<noteq> crc32 ([0x30] @ 0x30 # [0x32])"
  using crc32_detects_byte_change [of "0x31" "0x30" "[0x30]" "[0x32]"] by simp

end
