(* ===== verification/Storage.thy ===== *)
theory Storage
  imports Disk_Layout
begin

text \<open>
  The block-device layer of \<open>src/src/storage.rs\<close>: the devices and their names, the scan that chooses
  the root disk (a raw CoolFS image, an MBR partition or a GPT partition), and sector access relative
  to the root region. The drivers below it (ATA, AHCI, NVMe, USB) talk to hardware registers; a
  \<open>machine\<close> records what they report: which devices exist, their sizes, the sectors on each medium,
  and the sectors whose transfers fail. A failed write leaves the medium unchanged, a failed cache
  flush leaves the written sector on it.

  The locale \<open>sector_store\<close> is the contract the filesystem relies on; it is interpreted below on
  \<open>read_sector\<close> and \<open>write_sector\<close>.
\<close>

section \<open>Devices\<close>

datatype ide_device = Ide0Master | Ide0Slave | Ide1Master | Ide1Slave

datatype block_device =
    Ide ide_device
  | Sata0 | Sata1 | Sata2 | Sata3 | Sata4 | Sata5 | Sata6 | Sata7
  | Nvme0n1 | Nvme1n1 | Nvme2n1 | Nvme3n1
  | Usb0 | Usb1 | Usb2 | Usb3 | Usb4 | Usb5 | Usb6 | Usb7

datatype root_disk_layout = RawCoolFs | MbrCoolFs | GptCoolFs

record root_disk =
  rt_device :: block_device
  rt_base_lba :: u32
  rt_sectors :: u32
  rt_layout :: root_disk_layout

fun ide_name :: "ide_device \<Rightarrow> string" where
  "ide_name Ide0Master = ''ide0-master''"
| "ide_name Ide0Slave = ''ide0-slave''"
| "ide_name Ide1Master = ''ide1-master''"
| "ide_name Ide1Slave = ''ide1-slave''"

definition ide_parse :: "string \<Rightarrow> ide_device option" where
  "ide_parse name =
     (if name = ''ide0-master'' then Some Ide0Master
      else if name = ''ide0-slave'' then Some Ide0Slave
      else if name = ''ide1-master'' then Some Ide1Master
      else if name = ''ide1-slave'' then Some Ide1Slave
      else None)"

fun device_name :: "block_device \<Rightarrow> string" where
  "device_name (Ide d) = ide_name d"
| "device_name Sata0 = ''sata0''"
| "device_name Sata1 = ''sata1''"
| "device_name Sata2 = ''sata2''"
| "device_name Sata3 = ''sata3''"
| "device_name Sata4 = ''sata4''"
| "device_name Sata5 = ''sata5''"
| "device_name Sata6 = ''sata6''"
| "device_name Sata7 = ''sata7''"
| "device_name Nvme0n1 = ''nvme0n1''"
| "device_name Nvme1n1 = ''nvme1n1''"
| "device_name Nvme2n1 = ''nvme2n1''"
| "device_name Nvme3n1 = ''nvme3n1''"
| "device_name Usb0 = ''usb0''"
| "device_name Usb1 = ''usb1''"
| "device_name Usb2 = ''usb2''"
| "device_name Usb3 = ''usb3''"
| "device_name Usb4 = ''usb4''"
| "device_name Usb5 = ''usb5''"
| "device_name Usb6 = ''usb6''"
| "device_name Usb7 = ''usb7''"

definition device_parse :: "string \<Rightarrow> block_device option" where
  "device_parse name =
     (case ide_parse name of
        Some ide \<Rightarrow> Some (Ide ide)
      | None \<Rightarrow>
        map_of [(''sata0'', Sata0), (''sata1'', Sata1), (''sata2'', Sata2), (''sata3'', Sata3),
                (''sata4'', Sata4), (''sata5'', Sata5), (''sata6'', Sata6), (''sata7'', Sata7),
                (''nvme0n1'', Nvme0n1), (''nvme1n1'', Nvme1n1), (''nvme2n1'', Nvme2n1),
                (''nvme3n1'', Nvme3n1),
                (''usb0'', Usb0), (''usb1'', Usb1), (''usb2'', Usb2), (''usb3'', Usb3),
                (''usb4'', Usb4), (''usb5'', Usb5), (''usb6'', Usb6), (''usb7'', Usb7)] name)"

fun sata_port :: "block_device \<Rightarrow> u8 option" where
  "sata_port Sata0 = Some 0"
| "sata_port Sata1 = Some 1"
| "sata_port Sata2 = Some 2"
| "sata_port Sata3 = Some 3"
| "sata_port Sata4 = Some 4"
| "sata_port Sata5 = Some 5"
| "sata_port Sata6 = Some 6"
| "sata_port Sata7 = Some 7"
| "sata_port _ = None"

fun nvme_index :: "block_device \<Rightarrow> u8 option" where
  "nvme_index Nvme0n1 = Some 0"
| "nvme_index Nvme1n1 = Some 1"
| "nvme_index Nvme2n1 = Some 2"
| "nvme_index Nvme3n1 = Some 3"
| "nvme_index _ = None"

fun usb_index :: "block_device \<Rightarrow> u8 option" where
  "usb_index Usb0 = Some 0"
| "usb_index Usb1 = Some 1"
| "usb_index Usb2 = Some 2"
| "usb_index Usb3 = Some 3"
| "usb_index Usb4 = Some 4"
| "usb_index Usb5 = Some 5"
| "usb_index Usb6 = Some 6"
| "usb_index Usb7 = Some 7"
| "usb_index _ = None"

definition is_physical_install_target :: "block_device \<Rightarrow> bool" where
  "is_physical_install_target d \<longleftrightarrow> sata_port d \<noteq> None \<or> nvme_index d \<noteq> None"

section \<open>The machine\<close>

text \<open>\<open>root_slot\<close> is the static \<open>ROOT_DISK\<close>; the other fields describe the hardware behind the drivers.\<close>

record machine =
  usb_storage_devices :: "block_device list"
  nvme_devices :: "block_device list"
  ahci_devices :: "block_device list"
  dev_present :: "block_device \<Rightarrow> bool"
  dev_sectors :: "block_device \<Rightarrow> u32"
  media :: "block_device \<Rightarrow> u32 \<Rightarrow> bytes"
  rd_fault :: "block_device \<Rightarrow> u32 \<Rightarrow> bool"
  wr_fault :: "block_device \<Rightarrow> u32 \<Rightarrow> bool"
  fl_fault :: "block_device \<Rightarrow> bool"
  root_slot :: "root_disk option"

definition read_sector_from :: "machine \<Rightarrow> block_device \<Rightarrow> u32 \<Rightarrow> bytes option" where
  "read_sector_from m d lba = (if rd_fault m d lba then None else Some (media m d lba))"

definition write_sector_to :: "block_device \<Rightarrow> u32 \<Rightarrow> bytes \<Rightarrow> (machine, unit, unit) sm" where
  "write_sector_to d lba buf =
     (\<lambda>m. if wr_fault m d lba then (Inl (), m)
          else (Inr (), m\<lparr>media := (media m)(d := (media m d)(lba := buf))\<rparr>))"

definition flush_device :: "block_device \<Rightarrow> (machine, unit, unit) sm" where
  "flush_device d = (\<lambda>m. if fl_fault m d then (Inl (), m) else (Inr (), m))"

section \<open>Finding the root disk\<close>

definition root_priority_devices :: "machine \<Rightarrow> block_device list" where
  "root_priority_devices m =
     [Ide Ide0Slave, Ide Ide0Master] @ usb_storage_devices m @ nvme_devices m @ ahci_devices m @
     [Ide Ide1Master, Ide Ide1Slave]"

fun gpt_scan ::
  "machine \<Rightarrow> block_device \<Rightarrow> gpt_header \<Rightarrow> bytes \<Rightarrow> nat list \<Rightarrow> gpt_partition option" where
  "gpt_scan m d h type_guid [] = None"
| "gpt_scan m d h type_guid (idx # rest) =
     (let entries_per_sector = max (SECTOR_SIZE div unat (gh_entry_size h)) 1;
          offset = (idx mod entries_per_sector) * unat (gh_entry_size h) in
      case checked_add (gh_entries_lba h) (word_of_nat (idx div entries_per_sector)) of
        None \<Rightarrow> None
      | Some sector_lba \<Rightarrow>
        (case read_sector_from m d sector_lba of
           None \<Rightarrow> None
         | Some sector \<Rightarrow>
           (case parse_gpt_partition_entry (rslice sector offset (offset + unat (gh_entry_size h))) of
              None \<Rightarrow> gpt_scan m d h type_guid rest
            | Some p \<Rightarrow> if gp_type_guid p = type_guid then Some p
                        else gpt_scan m d h type_guid rest)))"

definition find_gpt_partition ::
  "machine \<Rightarrow> block_device \<Rightarrow> u32 \<Rightarrow> bytes \<Rightarrow> gpt_partition option" where
  "find_gpt_partition m d disk_sectors type_guid =
     (case read_sector_from m d 0 of
        None \<Rightarrow> None
      | Some mbr \<Rightarrow>
        if \<not> has_protective_mbr mbr then None
        else case read_sector_from m d GPT_PRIMARY_HEADER_LBA of
          None \<Rightarrow> None
        | Some header_sector \<Rightarrow>
          (case parse_gpt_header header_sector disk_sectors of
             None \<Rightarrow> None
           | Some header \<Rightarrow>
             gpt_scan m d header type_guid [0..<min (unat (gh_entry_count header)) GPT_ENTRY_COUNT]))"

text \<open>The bodies of the three loops of \<open>detect_root_disk\<close>: what one device contributes to each pass.\<close>

definition raw_candidate :: "machine \<Rightarrow> block_device \<Rightarrow> root_disk option" where
  "raw_candidate m d =
     (if \<not> dev_present m d then None
      else case read_sector_from m d 0 of
        Some first \<Rightarrow>
          if has_coolfs_magic first
          then Some \<lparr>rt_device = d, rt_base_lba = 0, rt_sectors = dev_sectors m d, rt_layout = RawCoolFs\<rparr>
          else None
      | None \<Rightarrow> None)"

definition mbr_candidate :: "machine \<Rightarrow> block_device \<Rightarrow> root_disk option" where
  "mbr_candidate m d =
     (if \<not> dev_present m d then None else
      Option.bind (read_sector_from m d 0) (\<lambda>mbr.
      Option.bind (parse_mbr mbr) (\<lambda>partitions.
      Option.bind (find_partition partitions COOLFS_PARTITION_TYPE) (\<lambda>p.
      Option.bind (mbr_end_lba p) (\<lambda>end_lba.
      if mp_starting_lba p \<ge> dev_sectors m d \<or> end_lba > dev_sectors m d then None else
      Option.bind (read_sector_from m d (mp_starting_lba p)) (\<lambda>first.
      if has_coolfs_magic first
      then Some \<lparr>rt_device = d, rt_base_lba = mp_starting_lba p, rt_sectors = mp_sectors p,
                 rt_layout = MbrCoolFs\<rparr>
      else None))))))"

definition gpt_candidate :: "machine \<Rightarrow> block_device \<Rightarrow> root_disk option" where
  "gpt_candidate m d =
     (if \<not> dev_present m d then None else
      Option.bind (find_gpt_partition m d (dev_sectors m d) COOLFS_GPT_PARTITION_GUID) (\<lambda>p.
      Option.bind (gpt_sectors p) (\<lambda>partition_sectors.
      Option.bind (gpt_end_lba p) (\<lambda>end_lba.
      if gp_starting_lba p \<ge> dev_sectors m d \<or> end_lba > dev_sectors m d then None else
      Option.bind (read_sector_from m d (gp_starting_lba p)) (\<lambda>first.
      if has_coolfs_magic first
      then Some \<lparr>rt_device = d, rt_base_lba = gp_starting_lba p, rt_sectors = partition_sectors,
                 rt_layout = GptCoolFs\<rparr>
      else None)))))"

fun first_some :: "('a \<Rightarrow> 'b option) \<Rightarrow> 'a list \<Rightarrow> 'b option" where
  "first_some f [] = None"
| "first_some f (x # xs) = (case f x of Some y \<Rightarrow> Some y | None \<Rightarrow> first_some f xs)"

definition detect_root_disk :: "machine \<Rightarrow> root_disk option" where
  "detect_root_disk m =
     (let devs = root_priority_devices m in
      case first_some (raw_candidate m) devs of
        Some root \<Rightarrow> Some root
      | None \<Rightarrow>
        (case first_some (mbr_candidate m) devs of
           Some root \<Rightarrow> Some root
         | None \<Rightarrow> first_some (gpt_candidate m) devs))"

definition root_disk :: "machine \<Rightarrow> root_disk option \<times> machine" where
  "root_disk m =
     (case root_slot m of
        Some root \<Rightarrow> (Some root, m)
      | None \<Rightarrow> (let root = detect_root_disk m in (root, m\<lparr>root_slot := root\<rparr>)))"

definition read_sector :: "u32 \<Rightarrow> (machine, unit, bytes) sm" where
  "read_sector lba = (\<lambda>m0.
     case root_disk m0 of
       (None, m) \<Rightarrow> (Inl (), m)
     | (Some root, m) \<Rightarrow>
       if lba \<ge> rt_sectors root then (Inl (), m)
       else (case checked_add (rt_base_lba root) lba of
               None \<Rightarrow> (Inl (), m)
             | Some abs_lba \<Rightarrow>
               (case read_sector_from m (rt_device root) abs_lba of
                  None \<Rightarrow> (Inl (), m) | Some buf \<Rightarrow> (Inr buf, m))))"

definition write_sector :: "u32 \<Rightarrow> bytes \<Rightarrow> (machine, unit, unit) sm" where
  "write_sector lba buf = (\<lambda>m0.
     case root_disk m0 of
       (None, m) \<Rightarrow> (Inl (), m)
     | (Some root, m) \<Rightarrow>
       if lba \<ge> rt_sectors root then (Inl (), m)
       else (case checked_add (rt_base_lba root) lba of
               None \<Rightarrow> (Inl (), m)
             | Some abs_lba \<Rightarrow>
               bnd (write_sector_to (rt_device root) abs_lba buf)
                   (\<lambda>_. flush_device (rt_device root)) m))"

text \<open>\<open>root_probe_state\<close>, the diagnostic of the root scan.\<close>

definition root_probe_state :: "machine \<Rightarrow> block_device \<Rightarrow> u32 \<Rightarrow> string" where
  "root_probe_state m d sectors =
     (case read_sector_from m d 0 of
        None \<Rightarrow> ''read-failed''
      | Some first \<Rightarrow>
        if has_coolfs_magic first then ''raw-coolfs'' else
        let at_root = (\<lambda>lba good bad.
              case read_sector_from m d lba of
                Some root_first \<Rightarrow> if has_coolfs_magic root_first then good else bad
              | None \<Rightarrow> bad)
        in case Option.bind (parse_mbr first) (\<lambda>ps. find_partition ps COOLFS_PARTITION_TYPE) of
             Some p \<Rightarrow>
               (case mbr_end_lba p of
                  Some end_lba \<Rightarrow>
                    if mp_starting_lba p < sectors \<and> end_lba \<le> sectors
                    then at_root (mp_starting_lba p) ''mbr-coolfs'' ''mbr-coolfs-magic-missing''
                    else ''mbr-coolfs-out-of-range''
                | None \<Rightarrow> ''mbr-coolfs-out-of-range'')
           | None \<Rightarrow>
             (case find_gpt_partition m d sectors COOLFS_GPT_PARTITION_GUID of
                Some p \<Rightarrow>
                  (case gpt_end_lba p of
                     Some end_lba \<Rightarrow>
                       if gp_starting_lba p < sectors \<and> end_lba \<le> sectors
                       then at_root (gp_starting_lba p) ''gpt-coolfs'' ''gpt-coolfs-magic-missing''
                       else ''gpt-coolfs-out-of-range''
                   | None \<Rightarrow> ''gpt-coolfs-out-of-range'')
              | None \<Rightarrow>
                if has_protective_mbr first then ''gpt-no-coolfs''
                else if parse_mbr first \<noteq> None then ''mbr-no-coolfs''
                else if list_all (\<lambda>b. b = 0) first then ''blank''
                else ''unknown-layout''))"

section \<open>The contract of a sector store\<close>

locale sector_store =
  fixes rd :: "u32 \<Rightarrow> ('m, unit, bytes) sm"
    and wr :: "u32 \<Rightarrow> bytes \<Rightarrow> ('m, unit, unit) sm"
    and cont :: "'m \<Rightarrow> u32 \<Rightarrow> bytes"
    and inv :: "'m \<Rightarrow> bool"
  assumes rd_spec: "valid (\<lambda>m. inv m \<and> cont m = c) (rd lba)
      (\<lambda>b m. inv m \<and> cont m = c \<and> b = c lba) (\<lambda>_ m. inv m \<and> cont m = c)"
    and wr_spec: "length b = 512 \<Longrightarrow> valid (\<lambda>m. inv m \<and> cont m = c) (wr lba b)
      (\<lambda>_ m. inv m \<and> cont m = c(lba := b))
      (\<lambda>_ m. inv m \<and> (cont m = c \<or> cont m = c(lba := b)))"
    and cont_length: "inv m \<Longrightarrow> length (cont m lba) = 512"

definition resolved :: "machine \<Rightarrow> root_disk option" where
  "resolved m = (case root_slot m of Some r \<Rightarrow> Some r | None \<Rightarrow> detect_root_disk m)"

definition root_content :: "machine \<Rightarrow> u32 \<Rightarrow> bytes" where
  "root_content m lba =
     (case resolved m of Some r \<Rightarrow> media m (rt_device r) (rt_base_lba r + lba)
      | None \<Rightarrow> replicate 512 0)"

definition media_wf :: "machine \<Rightarrow> bool" where
  "media_wf m \<longleftrightarrow> (\<forall>d lba. length (media m d lba) = 512)"

lemma root_disk_resolved:
  "fst (root_disk m) = resolved m" "root_slot (snd (root_disk m)) = resolved m"
  "media (snd (root_disk m)) = media m" "rd_fault (snd (root_disk m)) = rd_fault m"
  "wr_fault (snd (root_disk m)) = wr_fault m" "fl_fault (snd (root_disk m)) = fl_fault m"
  by (auto simp: root_disk_def resolved_def Let_def split: option.splits)

lemma read_sector_from_slot [simp]:
  "read_sector_from (m\<lparr>root_slot := r\<rparr>) = read_sector_from m"
  by (simp add: read_sector_from_def fun_eq_iff)

lemma gpt_scan_slot [simp]: "gpt_scan (m\<lparr>root_slot := r\<rparr>) d h g xs = gpt_scan m d h g xs"
  by (induction xs) (simp_all add: Let_def split: option.splits)

lemma find_gpt_partition_slot [simp]:
  "find_gpt_partition (m\<lparr>root_slot := r\<rparr>) = find_gpt_partition m"
  by (simp add: find_gpt_partition_def fun_eq_iff split: option.split)

lemma root_slot_detect_only: "detect_root_disk (m\<lparr>root_slot := r\<rparr>) = detect_root_disk m"
proof -
  have "raw_candidate (m\<lparr>root_slot := r\<rparr>) = raw_candidate m"
    "mbr_candidate (m\<lparr>root_slot := r\<rparr>) = mbr_candidate m"
    "gpt_candidate (m\<lparr>root_slot := r\<rparr>) = gpt_candidate m"
    by (simp_all add: fun_eq_iff raw_candidate_def mbr_candidate_def gpt_candidate_def cong: if_cong option.case_cong)
  moreover have "root_priority_devices (m\<lparr>root_slot := r\<rparr>) = root_priority_devices m"
    by (simp add: root_priority_devices_def)
  ultimately show ?thesis by (simp only: detect_root_disk_def)
qed

lemma root_disk_state:
  assumes "root_disk m0 = (x, m)"
  shows "x = resolved m0" "resolved m = resolved m0" "media m = media m0"
    "x \<noteq> None \<Longrightarrow> root_slot m = resolved m0"
  using assms root_slot_detect_only [where m = m0]
  by (auto simp: root_disk_def resolved_def Let_def split: option.splits)

lemma root_content_root_disk:
  "root_disk m0 = (x, m) \<Longrightarrow> root_content m = root_content m0 \<and> media_wf m = media_wf m0"
  using root_disk_state [of m0 x m]
  by (simp add: root_content_def media_wf_def fun_eq_iff split: option.split)

lemma read_sector_cases:
  assumes "read_sector lba m0 = (r, m)"
  shows "root_content m = root_content m0 \<and> media_wf m = media_wf m0 \<and>
    (\<forall>b. r = Inr b \<longrightarrow> b = root_content m0 lba)"
proof -
  obtain x m1 where rd: "root_disk m0 = (x, m1)" by (cases "root_disk m0")
  note st = root_disk_state [OF rd] root_content_root_disk [OF rd]
  from assms rd have "m = m1"
    by (auto simp: read_sector_def split: option.splits if_splits)
  moreover have "b = root_content m0 lba" if "r = Inr b" for b
    using assms rd st that
    by (auto simp: read_sector_def root_content_def read_sector_from_def checked_add_Some
        split: option.splits if_splits)
  ultimately show ?thesis using st by blast
qed

lemma write_sector_cases:
  assumes "write_sector lba buf m0 = (r, m)"
  shows "(root_content m = root_content m0 \<and> media_wf m = media_wf m0 \<and> r = Inl ()) \<or>
    (root_content m = (root_content m0)(lba := buf) \<and> (media_wf m0 \<longrightarrow> length buf = 512 \<longrightarrow> media_wf m))"
proof -
  obtain x m1 where rd: "root_disk m0 = (x, m1)" by (cases "root_disk m0")
  note st = root_disk_state [OF rd] root_content_root_disk [OF rd]
  show ?thesis
  proof (cases "m = m1 \<and> r = Inl ()")
    case True with st show ?thesis by simp
  next
    case False
    with assms rd obtain root where root: "x = Some root" "lba < rt_sectors root"
      and m: "m = m1\<lparr>media := (media m1)(rt_device root := (media m1 (rt_device root))
                    (rt_base_lba root + lba := buf))\<rparr>"
      by (auto simp: write_sector_def write_sector_to_def flush_device_def bnd_def checked_add_Some
          split: option.splits if_splits)
    have "resolved m = Some root" using m root st by (simp add: resolved_def)
    then have "root_content m = (root_content m0)(lba := buf)"
      using m root st by (auto simp: root_content_def fun_eq_iff)
    moreover have "media_wf m0 \<longrightarrow> length buf = 512 \<longrightarrow> media_wf m"
      using m st by (auto simp: media_wf_def)
    ultimately show ?thesis by blast
  qed
qed

interpretation root_store: sector_store read_sector write_sector root_content media_wf
proof (unfold_locales, goal_cases)
  case (1 c lba)
  show ?case by (rule validI) (auto dest!: read_sector_cases)
next
  case (2 b c lba)
  then show ?case by (intro validI) (auto dest!: write_sector_cases)
next
  case (3 m lba)
  then show ?case by (auto simp: root_content_def media_wf_def split: option.splits)
qed

section \<open>What the scan accepts\<close>

definition root_sound :: "machine \<Rightarrow> root_disk \<Rightarrow> bool" where
  "root_sound m r \<longleftrightarrow>
     dev_present m (rt_device r) \<and> \<not> rd_fault m (rt_device r) (rt_base_lba r) \<and>
     has_coolfs_magic (media m (rt_device r) (rt_base_lba r)) \<and>
     unat (rt_base_lba r) + unat (rt_sectors r) \<le> unat (dev_sectors m (rt_device r))"

lemma raw_candidate_sound: "raw_candidate m d = Some r \<Longrightarrow> rt_device r = d \<and> root_sound m r"
  by (auto simp: raw_candidate_def root_sound_def read_sector_from_def split: option.splits if_splits)

lemma mbr_candidate_sound:
  assumes "mbr_candidate m d = Some r"
  shows "rt_device r = d \<and> root_sound m r"
proof -
  from assms obtain p e where p: "\<not> mbr_is_unused p" "mbr_end_lba p = Some e" "e \<le> dev_sectors m d"
    and r: "r = \<lparr>rt_device = d, rt_base_lba = mp_starting_lba p, rt_sectors = mp_sectors p, rt_layout = MbrCoolFs\<rparr>"
    and rest: "dev_present m d" "\<not> rd_fault m d (mp_starting_lba p)"
      "has_coolfs_magic (media m d (mp_starting_lba p))"
    by (auto simp: mbr_candidate_def bind_eq_Some_conv find_partition_def find_Some_iff
        read_sector_from_def not_less split: if_splits)
  have "unat e = unat (mp_starting_lba p) + unat (mp_sectors p)"
    using p by (auto simp: mbr_end_lba_def dest: checked_add_unat)
  with p(3) r rest show ?thesis by (simp add: root_sound_def word_le_nat_alt)
qed

lemma gpt_candidate_sound:
  assumes "gpt_candidate m d = Some r"
  shows "rt_device r = d \<and> root_sound m r"
proof -
  from assms obtain p n e where p: "gpt_sectors p = Some n" "gpt_end_lba p = Some e" "e \<le> dev_sectors m d"
    and r: "r = \<lparr>rt_device = d, rt_base_lba = gp_starting_lba p, rt_sectors = n, rt_layout = GptCoolFs\<rparr>"
    and rest: "dev_present m d" "\<not> rd_fault m d (gp_starting_lba p)"
      "has_coolfs_magic (media m d (gp_starting_lba p))"
    by (auto simp: gpt_candidate_def bind_eq_Some_conv read_sector_from_def not_less split: if_splits)
  have "unat e = unat (gp_starting_lba p) + unat n"
    using p by (auto simp: gpt_sectors_def gpt_end_lba_def bind_eq_Some_conv
        dest!: checked_add_unat checked_sub_unat)
  with p(3) r rest show ?thesis by (simp add: root_sound_def word_le_nat_alt)
qed

lemma first_some_SomeD: "first_some f xs = Some y \<Longrightarrow> \<exists>x \<in> set xs. f x = Some y"
  by (induction xs) (auto split: option.splits)

lemma first_some_NoneD: "first_some f xs = None \<Longrightarrow> x \<in> set xs \<Longrightarrow> f x = None"
  by (induction xs) (auto split: option.splits)

lemma device_parse_name: "device_parse (device_name d) = Some d"
proof (cases d)
  case (Ide i)
  then show ?thesis by (cases i) (simp_all add: device_parse_def ide_parse_def)
qed (simp_all add: device_parse_def ide_parse_def)

section \<open>Properties\<close>

text \<open>C32: the root scan only returns a region that exists: the device is present and among the
  scanned ones, the region ends inside the device, and its first sector carries the CoolFS magic.\<close>

theorem detect_root_disk_sound:
  assumes "detect_root_disk m = Some r"
  shows "rt_device r \<in> set (root_priority_devices m) \<and> dev_present m (rt_device r) \<and>
    has_coolfs_magic (media m (rt_device r) (rt_base_lba r)) \<and>
    unat (rt_base_lba r) + unat (rt_sectors r) \<le> unat (dev_sectors m (rt_device r))"
proof -
  from assms obtain d where "d \<in> set (root_priority_devices m)"
    and "raw_candidate m d = Some r \<or> mbr_candidate m d = Some r \<or> gpt_candidate m d = Some r"
    by (auto simp: detect_root_disk_def Let_def split: option.splits dest!: first_some_SomeD)
  moreover from this(2) have "rt_device r = d \<and> root_sound m r"
    using raw_candidate_sound mbr_candidate_sound gpt_candidate_sound by blast
  ultimately show ?thesis by (auto simp: root_sound_def)
qed

text \<open>A machine with one present disk, IDE primary slave, holding a raw CoolFS image.\<close>

definition raw_image_machine :: machine where
  "raw_image_machine =
     \<lparr>usb_storage_devices = [], nvme_devices = [], ahci_devices = [],
      dev_present = (\<lambda>d. d = Ide Ide0Slave), dev_sectors = (\<lambda>_. 12288),
      media = (\<lambda>_ _. COOLFS_MAGIC @ replicate 504 0),
      rd_fault = (\<lambda>_ _. False), wr_fault = (\<lambda>_ _. False), fl_fault = (\<lambda>_. False),
      root_slot = None\<rparr>"

lemma detect_raw_image_machine:
  "detect_root_disk raw_image_machine =
     Some \<lparr>rt_device = Ide Ide0Slave, rt_base_lba = 0, rt_sectors = 12288, rt_layout = RawCoolFs\<rparr>"
  by (simp add: detect_root_disk_def root_priority_devices_def raw_candidate_def
      raw_image_machine_def read_sector_from_def has_coolfs_magic_def rslice_def COOLFS_MAGIC_def Let_def)

theorem detect_root_disk_sound_witness:
  "detect_root_disk raw_image_machine =
     Some \<lparr>rt_device = Ide Ide0Slave, rt_base_lba = 0, rt_sectors = 12288, rt_layout = RawCoolFs\<rparr> \<and>
   Ide Ide0Slave \<in> set (root_priority_devices raw_image_machine) \<and>
   dev_present raw_image_machine (Ide Ide0Slave)"
  using detect_raw_image_machine detect_root_disk_sound [OF detect_raw_image_machine] by simp

text \<open>C33: a sector write reaches only the chosen root region: every sector of every device that a
  call to \<open>write_sector\<close> changes lies on the root device inside the root range.\<close>

theorem write_sector_confined:
  assumes "write_sector lba buf m = (res, m')" and "media m' d l \<noteq> media m d l"
  shows "\<exists>r. resolved m = Some r \<and> d = rt_device r \<and> unat (rt_base_lba r) \<le> unat l \<and>
    unat l < unat (rt_base_lba r) + unat (rt_sectors r)"
proof -
  obtain x m1 where rd: "root_disk m = (x, m1)" by (cases "root_disk m")
  note st = root_disk_state [OF rd]
  from assms rd st obtain root abs_lba where root: "x = Some root" "lba < rt_sectors root"
    and a: "checked_add (rt_base_lba root) lba = Some abs_lba" and dl: "d = rt_device root" "l = abs_lba"
    by (auto simp: write_sector_def write_sector_to_def flush_device_def bnd_def
        split: option.splits if_splits)
  have "unat l = unat (rt_base_lba root) + unat lba" using checked_add_unat [OF a] dl by simp
  then show ?thesis using root dl st by (auto simp: word_less_nat_alt)
qed

theorem write_sector_confined_witness:
  "\<exists>m'. write_sector 5 (replicate 512 7) raw_image_machine = (Inr (), m') \<and>
    media m' (Ide Ide0Slave) 5 \<noteq> media raw_image_machine (Ide Ide0Slave) 5 \<and>
    (\<exists>r. resolved raw_image_machine = Some r \<and> Ide Ide0Slave = rt_device r \<and>
      unat (rt_base_lba r) \<le> unat (5 :: u32) \<and>
      unat (5 :: u32) < unat (rt_base_lba r) + unat (rt_sectors r))"
proof -
  obtain res m' where w: "write_sector 5 (replicate 512 7) raw_image_machine = (res, m')"
    by (cases "write_sector 5 (replicate 512 7) raw_image_machine")
  have slot: "root_slot raw_image_machine = None" by (simp add: raw_image_machine_def)
  have res: "res = Inr ()" and m': "media m' (Ide Ide0Slave) 5 = replicate 512 7"
    using w detect_raw_image_machine
    by (auto simp: write_sector_def root_disk_def slot write_sector_to_def flush_device_def bnd_def
        checked_add_def raw_image_machine_def Let_def split: if_splits)
  have "hd (media m' (Ide Ide0Slave) 5) \<noteq> hd (media raw_image_machine (Ide Ide0Slave) 5)"
    unfolding m' by (simp add: raw_image_machine_def COOLFS_MAGIC_def)
  then have ne: "media m' (Ide Ide0Slave) 5 \<noteq> media raw_image_machine (Ide Ide0Slave) 5" by metis
  show ?thesis using w res ne write_sector_confined [OF w ne] by blast
qed

end
