(* ===== verification/Block_Cache.thy ===== *)
theory Block_Cache
  imports Storage
begin

text \<open>
  The write-back block cache of \<open>src/src/coolfs.rs\<close> (\<open>BlockCache\<close>) over the root disk: 64 slots,
  least-recently-used eviction, dirty entries written to disk when evicted or flushed. The cache is
  transparent: the lemmas relate it to the \<open>vblock\<close> view, the content of a block as a client sees it.
  Looking a block up, evicting, flushing and trimming keep the view, also when the disk fails half
  way; \<open>get_mut\<close> changes exactly the block it names; a successful flush makes the disk equal to the
  view.
\<close>

datatype fs_error =
    AlreadyExists | InvalidPath | Io | NoSpace | NotDirectory | NotEmpty | NotFound
  | PermissionDenied | UnsupportedName

definition SECTORS_PER_BLOCK :: u32 where "SECTORS_PER_BLOCK = 8"
definition BLOCK_SIZE :: nat where "BLOCK_SIZE = 4096"
definition TOTAL_BLOCKS :: u32 where "TOTAL_BLOCKS = 1536"
definition CACHE_SLOTS :: nat where "CACHE_SLOTS = 64"

record cache_entry =
  ce_block :: u32
  ce_data :: bytes
  ce_dirty :: bool
  ce_age :: u64

record cache_state =
  entries :: "cache_entry list"
  clock :: u64
  mach :: machine

section \<open>Whole blocks on the disk\<close>

text \<open>The two loops over the eight sectors of a block, over the sector functions they call.\<close>

definition read_disk_block_with ::
  "(u32 \<Rightarrow> ('m, unit, bytes) sm) \<Rightarrow> u32 \<Rightarrow> ('m, fs_error, bytes) sm" where
  "read_disk_block_with rd block =
     (if block \<ge> TOTAL_BLOCKS then err Io
      else if unat block * unat SECTORS_PER_BLOCK \<ge> 2 ^ 32 then err Io
      else let base_lba = block * SECTORS_PER_BLOCK in
        bnd (map_each [0..<unat SECTORS_PER_BLOCK] (\<lambda>sector. ok_or Io (rd (base_lba + word_of_nat sector))))
          (\<lambda>secs. ret (concat secs)))"

definition write_disk_block_with ::
  "(u32 \<Rightarrow> bytes \<Rightarrow> ('m, unit, unit) sm) \<Rightarrow> u32 \<Rightarrow> bytes \<Rightarrow> ('m, fs_error, unit) sm" where
  "write_disk_block_with wr block data =
     (if block \<ge> TOTAL_BLOCKS then err Io
      else if unat block * unat SECTORS_PER_BLOCK \<ge> 2 ^ 32 then err Io
      else let base_lba = block * SECTORS_PER_BLOCK in
        for_each [0..<unat SECTORS_PER_BLOCK] (\<lambda>sector.
          ok_or Io (wr (base_lba + word_of_nat sector)
            (rslice data (sector * SECTOR_SIZE) (sector * SECTOR_SIZE + SECTOR_SIZE)))))"

definition on_mach :: "(machine, 'e, 'a) sm \<Rightarrow> ('z cache_state_scheme, 'e, 'a) sm" where
  "on_mach f = (\<lambda>s. case f (mach s) of (r, m) \<Rightarrow> (r, s\<lparr>mach := m\<rparr>))"

definition read_disk_block :: "u32 \<Rightarrow> ('z cache_state_scheme, fs_error, bytes) sm" where
  "read_disk_block block = on_mach (read_disk_block_with read_sector block)"

definition write_disk_block :: "u32 \<Rightarrow> bytes \<Rightarrow> ('z cache_state_scheme, fs_error, unit) sm" where
  "write_disk_block block data = on_mach (write_disk_block_with write_sector block data)"

section \<open>Searching the entries\<close>

text \<open>Rust's \<open>Iterator::position\<close> and \<open>Iterator::min_by_key\<close> (the first of several minima).\<close>

fun position :: "('a \<Rightarrow> bool) \<Rightarrow> 'a list \<Rightarrow> nat option" where
  "position p [] = None"
| "position p (x # xs) = (if p x then Some 0 else map_option Suc (position p xs))"

fun min_by_key :: "('a \<Rightarrow> 'k::linorder) \<Rightarrow> 'a list \<Rightarrow> 'a option" where
  "min_by_key k [] = None"
| "min_by_key k (x # xs) =
     (case min_by_key k xs of None \<Rightarrow> Some x | Some y \<Rightarrow> if k y < k x then Some y else Some x)"

section \<open>The cache operations\<close>

text \<open>The two constructors give the entries and the clock.\<close>

definition cache_new :: "cache_entry list \<times> u64" where
  "cache_new = ([], 0)"

definition with_clean_block :: "u32 \<Rightarrow> bytes \<Rightarrow> cache_entry list \<times> u64" where
  "with_clean_block block data = ([\<lparr>ce_block = block, ce_data = data, ce_dirty = False, ce_age = 1\<rparr>], 1)"

text \<open>The tail of \<open>cache_index\<close> for a full cache: write back the oldest entry if it is dirty and reuse
  its slot.\<close>

definition cache_evict :: "u32 \<Rightarrow> bytes \<Rightarrow> ('z cache_state_scheme, fs_error, nat) sm" where
  "cache_evict block data =
     bnd (gets (\<lambda>s. map_option fst (min_by_key (\<lambda>(_, e). ce_age e) (enumerate 0 (entries s))))) (\<lambda>evict.
     bnd (lift_opt Io evict) (\<lambda>evict_idx.
     bnd (gets (\<lambda>s. entries s ! evict_idx)) (\<lambda>victim.
     bnd (if ce_dirty victim then write_disk_block (ce_block victim) (ce_data victim) else ret ()) (\<lambda>_.
     bnd (upd (\<lambda>s. s\<lparr>entries := (entries s)[evict_idx :=
            \<lparr>ce_block = block, ce_data = data, ce_dirty = False, ce_age = clock s\<rparr>]\<rparr>)) (\<lambda>_.
     ret evict_idx)))))"

definition cache_index :: "u32 \<Rightarrow> ('z cache_state_scheme, fs_error, nat) sm" where
  "cache_index block =
     (if block \<ge> TOTAL_BLOCKS then err Io else
      bnd (upd (\<lambda>s. s\<lparr>clock := max (clock s + 1) 1\<rparr>)) (\<lambda>_.
      bnd (gets (\<lambda>s. position (\<lambda>e. ce_block e = block) (entries s))) (\<lambda>found.
      case found of
        Some idx \<Rightarrow>
          bnd (upd (\<lambda>s. s\<lparr>entries := (entries s)[idx := (entries s ! idx)\<lparr>ce_age := clock s\<rparr>]\<rparr>))
            (\<lambda>_. ret idx)
      | None \<Rightarrow>
          bnd (read_disk_block block) (\<lambda>data.
          bnd (gets (\<lambda>s. length (entries s) < CACHE_SLOTS)) (\<lambda>room.
          if room then
            bnd (upd (\<lambda>s. s\<lparr>entries := entries s @
                  [\<lparr>ce_block = block, ce_data = data, ce_dirty = False, ce_age = clock s\<rparr>]\<rparr>))
              (\<lambda>_. gets (\<lambda>s. length (entries s) - 1))
          else cache_evict block data)))))"

definition cache_get :: "u32 \<Rightarrow> ('z cache_state_scheme, fs_error, bytes) sm" where
  "cache_get block = bnd (cache_index block) (\<lambda>idx. gets (\<lambda>s. ce_data (entries s ! idx)))"

text \<open>\<open>cache_get_mut block f\<close> is \<open>get_mut(block)?\<close> followed by the in-place update \<open>f\<close> of the block.\<close>

definition cache_get_mut :: "u32 \<Rightarrow> (bytes \<Rightarrow> bytes) \<Rightarrow> ('z cache_state_scheme, fs_error, unit) sm" where
  "cache_get_mut block f =
     bnd (cache_index block) (\<lambda>idx.
       upd (\<lambda>s. s\<lparr>entries := (entries s)[idx :=
         (entries s ! idx)\<lparr>ce_dirty := True, ce_data := f (ce_data (entries s ! idx))\<rparr>]\<rparr>))"

definition flush_entry :: "nat \<Rightarrow> ('z cache_state_scheme, fs_error, unit) sm" where
  "flush_entry i =
     bnd (gets (\<lambda>s. entries s ! i)) (\<lambda>e.
       if ce_dirty e then
         bnd (write_disk_block (ce_block e) (ce_data e)) (\<lambda>_.
           upd (\<lambda>s. s\<lparr>entries := (entries s)[i := (entries s ! i)\<lparr>ce_dirty := False\<rparr>]\<rparr>))
       else ret ())"

definition cache_flush :: "('z cache_state_scheme, fs_error, unit) sm" where
  "cache_flush = bnd (gets (\<lambda>s. length (entries s))) (\<lambda>n. for_each [0..<n] flush_entry)"

definition remove_nth :: "nat \<Rightarrow> 'a list \<Rightarrow> 'a list" where
  "remove_nth i xs = take i xs @ drop (Suc i) xs"

definition trim_victim :: "cache_entry list \<Rightarrow> nat option" where
  "trim_victim es =
     map_option fst (min_by_key (\<lambda>(_, e). ce_age e)
       (filter (\<lambda>(_, e). \<not> ce_dirty e \<and> ce_block e \<noteq> 0) (enumerate 0 es)))"

lemma position_Some:
  "position p xs = Some i \<Longrightarrow> i < length xs \<and> p (xs ! i) \<and> (\<forall>j < i. \<not> p (xs ! j))"
proof (induction xs arbitrary: i)
  case (Cons x xs)
  then show ?case by (cases i) (auto split: if_splits simp: less_Suc_eq_0_disj)
qed simp

lemma position_None: "position p xs = None \<longleftrightarrow> (\<forall>x \<in> set xs. \<not> p x)"
  by (induction xs) auto

lemma min_by_key_Some:
  "min_by_key k xs = Some x \<Longrightarrow> x \<in> set xs \<and> (\<forall>y \<in> set xs. k x \<le> k y)"
proof (induction xs arbitrary: x)
  case (Cons a xs)
  show ?case
  proof (cases "min_by_key k xs")
    case None
    then have "xs = []" by (cases xs) (auto split: option.splits if_splits)
    with Cons.prems show ?thesis by simp
  next
    case (Some y)
    then have "y \<in> set xs \<and> (\<forall>z \<in> set xs. k y \<le> k z)" by (rule Cons.IH)
    with Cons.prems Some show ?thesis by (auto split: if_splits)
  qed
qed simp

lemma min_by_key_None [simp]: "min_by_key k xs = None \<longleftrightarrow> xs = []"
  by (cases xs) (auto split: option.splits if_splits)

lemma trim_victim_Some:
  assumes "trim_victim es = Some i"
  shows "i < length es \<and> \<not> ce_dirty (es ! i) \<and> ce_block (es ! i) \<noteq> 0 \<and>
    (\<forall>j < length es. \<not> ce_dirty (es ! j) \<and> ce_block (es ! j) \<noteq> 0 \<longrightarrow> ce_age (es ! i) \<le> ce_age (es ! j))"
proof -
  from assms obtain e where m: "min_by_key (\<lambda>(_, e). ce_age e)
       (filter (\<lambda>(_, e). \<not> ce_dirty e \<and> ce_block e \<noteq> 0) (enumerate 0 es)) = Some (i, e)"
    by (auto simp: trim_victim_def)
  from min_by_key_Some [OF m] show ?thesis
    by (fastforce simp: in_set_enumerate_eq)
qed

function trim_loop :: "nat \<Rightarrow> cache_entry list \<Rightarrow> nat \<Rightarrow> cache_entry list \<times> nat" where
  "trim_loop keep es removed =
     (if length es > keep then
        (case trim_victim es of
           None \<Rightarrow> (es, removed)
         | Some i \<Rightarrow> trim_loop keep (remove_nth i es) (Suc removed))
      else (es, removed))"
  by pat_completeness auto
termination
  by (relation "measure (\<lambda>(_, es, _). length es)")
    (auto simp: remove_nth_def dest!: trim_victim_Some)

declare trim_loop.simps [simp del]

definition cache_trim_clean :: "nat \<Rightarrow> ('z cache_state_scheme, fs_error, nat) sm" where
  "cache_trim_clean keep_blocks =
     (\<lambda>s. case trim_loop keep_blocks (entries s) 0 of
            (es, removed) \<Rightarrow> (Inr (min (removed * BLOCK_SIZE) (2 ^ 64 - 1)), s\<lparr>entries := es\<rparr>))"

definition cached_blocks :: "'z cache_state_scheme \<Rightarrow> nat" where
  "cached_blocks s = length (entries s)"

definition dirty_blocks :: "'z cache_state_scheme \<Rightarrow> nat" where
  "dirty_blocks s = length (filter ce_dirty (entries s))"

section \<open>Blocks over the sector contract\<close>

definition block_of :: "(u32 \<Rightarrow> bytes) \<Rightarrow> u32 \<Rightarrow> bytes" where
  "block_of c b = concat (map (\<lambda>i. c (b * 8 + word_of_nat i)) [0..<8])"

lemma unat_block_sector:
  assumes "b < TOTAL_BLOCKS" and "i < 8"
  shows "unat (b * 8 + word_of_nat i :: u32) = unat b * 8 + i"
proof -
  have "unat b < 1536" using assms(1) by (simp add: TOTAL_BLOCKS_def word_less_nat_alt)
  then show ?thesis using assms(2) by (simp add: unat_word_ariths unat_of_nat)
qed

lemma block_sector_inj:
  assumes "b < TOTAL_BLOCKS" "i < 8" "b' < TOTAL_BLOCKS" "i' < 8"
    and "b * 8 + word_of_nat i = b' * 8 + (word_of_nat i' :: u32)"
  shows "b = b' \<and> i = i'"
proof -
  have "unat b * 8 + i = unat b' * 8 + i'"
    using unat_block_sector [OF assms(1,2)] unat_block_sector [OF assms(3,4)] assms(5) by metis
  then have "unat b = unat b'" "i = i'" using assms(2,4) by presburger+
  then show ?thesis by (simp add: word_unat_eq_iff)
qed

context sector_store
begin

lemma read_block:
  "valid (\<lambda>m. inv m \<and> cont m = c) (read_disk_block_with rd b)
     (\<lambda>r m. inv m \<and> cont m = c \<and> r = block_of c b) (\<lambda>_ m. inv m \<and> cont m = c)"
  unfolding read_disk_block_with_def Let_def SECTORS_PER_BLOCK_def
  by (intro valid_if valid_err valid_bnd [OF valid_map_each] valid_map_err rd_spec valid_ret)
    (auto simp: block_of_def rd_spec)

lemma write_sector_step:
  assumes b: "b < TOTAL_BLOCKS" and i: "i < 8" and len: "length data = 4096"
  defines "sec \<equiv> \<lambda>i. b * 8 + word_of_nat i :: u32" and "sl \<equiv> \<lambda>i. rslice data (i * 512) (i * 512 + 512)"
  shows "valid (\<lambda>m. inv m \<and> (\<forall>l. l \<notin> sec ` {0..<8} \<longrightarrow> cont m l = c l) \<and> (\<forall>j<i. cont m (sec j) = sl j))
    (wr (sec i) (sl i))
    (\<lambda>_ m. inv m \<and> (\<forall>l. l \<notin> sec ` {0..<8} \<longrightarrow> cont m l = c l) \<and> (\<forall>j<Suc i. cont m (sec j) = sl j))
    (\<lambda>_ m. inv m \<and> (\<forall>l. l \<notin> sec ` {0..<8} \<longrightarrow> cont m l = c l))"
proof -
  have l: "length (sl i) = 512" using i len by (simp add: sl_def)
  have inj: "sec j \<noteq> sec i" if "j < i" for j
    using block_sector_inj [OF b _ b i, of j] that i unfolding sec_def by fastforce
  have upd: "(\<forall>l. l \<notin> sec ` {0..<8} \<longrightarrow> (f(sec i := sl i)) l = c l) \<and> (\<forall>j<Suc i. (f(sec i := sl i)) (sec j) = sl j)"
    if "\<forall>l. l \<notin> sec ` {0..<8} \<longrightarrow> f l = c l" "\<forall>j<i. f (sec j) = sl j" for f
    using that i inj by (auto simp: less_Suc_eq)
  show ?thesis
  proof (rule validI, elim conjE)
    fix m x m' assume m: "inv m" "\<forall>l. l \<notin> sec ` {0..<8} \<longrightarrow> cont m l = c l" "\<forall>j<i. cont m (sec j) = sl j"
      and w: "wr (sec i) (sl i) m = (Inr x, m')"
    have "inv m' \<and> cont m' = (cont m)(sec i := sl i)"
      by (rule validD [OF wr_spec [OF l, of "cont m"] _ w]) (simp add: m(1))
    then show "inv m' \<and> (\<forall>l. l \<notin> sec ` {0..<8} \<longrightarrow> cont m' l = c l) \<and> (\<forall>j<Suc i. cont m' (sec j) = sl j)"
      using upd [OF m(2,3)] by simp
  next
    fix m x m' assume m: "inv m \<and> (\<forall>l. l \<notin> sec ` {0..<8} \<longrightarrow> cont m l = c l) \<and> (\<forall>j<i. cont m (sec j) = sl j)"
      and w: "wr (sec i) (sl i) m = (Inl x, m')"
    have "inv m' \<and> (cont m' = cont m \<or> cont m' = (cont m)(sec i := sl i))"
      by (rule validD_err [OF wr_spec [OF l, of "cont m"] _ w]) (simp add: m)
    then show "inv m' \<and> (\<forall>l. l \<notin> sec ` {0..<8} \<longrightarrow> cont m' l = c l)"
      using upd [of "cont m"] m by auto
  qed
qed

lemma block_of_frame:
  assumes "b < TOTAL_BLOCKS" "b' < TOTAL_BLOCKS" "b' \<noteq> b"
    and "\<forall>l. l \<notin> (\<lambda>i. b * 8 + word_of_nat i) ` {0..<8} \<longrightarrow> c' l = c l"
  shows "block_of c' b' = block_of c b'"
proof -
  have "c' (b' * 8 + word_of_nat i) = c (b' * 8 + word_of_nat i)" if "i < 8" for i
  proof -
    have "b' * 8 + word_of_nat i \<notin> (\<lambda>i. b * 8 + word_of_nat i) ` {0..<8}"
    proof
      assume "b' * 8 + word_of_nat i \<in> (\<lambda>i. b * 8 + word_of_nat i) ` {0..<8}"
      then obtain j where "j < 8" "b' * 8 + word_of_nat i = b * 8 + word_of_nat j" by auto
      with block_sector_inj [OF assms(2) that assms(1)] assms(3) show False by blast
    qed
    with assms(4) show ?thesis by blast
  qed
  then show ?thesis unfolding block_of_def by (intro arg_cong [where f = concat] map_cong) auto
qed

lemma concat_rslices:
  "length data = n * 512 \<Longrightarrow> concat (map (\<lambda>j. rslice data (j * 512) (j * 512 + 512)) [0..<n]) = data"
proof (induction n arbitrary: data)
  case (Suc n)
  have eq: "map (\<lambda>j. rslice data (j * 512) (j * 512 + 512)) [0..<n] =
      map (\<lambda>j. rslice (take (n * 512) data) (j * 512) (j * 512 + 512)) [0..<n]"
  proof (rule map_cong [OF refl])
    fix j assume "j \<in> set [0..<n]"
    then have "j * 512 + 512 \<le> n * 512" by simp
    then show "rslice data (j * 512) (j * 512 + 512) = rslice (take (n * 512) data) (j * 512) (j * 512 + 512)"
      by (simp add: rslice_def take_drop min_def)
  qed
  have "concat (map (\<lambda>j. rslice data (j * 512) (j * 512 + 512)) [0..<n]) = take (n * 512) data"
    unfolding eq by (rule Suc.IH) (use Suc.prems in simp)
  moreover have "rslice data (n * 512) (n * 512 + 512) = drop (n * 512) data"
    using Suc.prems by (simp add: rslice_def)
  ultimately show ?case by simp
qed simp

lemma write_block:
  assumes b: "b < TOTAL_BLOCKS" and len: "length data = 4096"
  shows "valid (\<lambda>m. inv m \<and> cont m = c) (write_disk_block_with wr b data)
     (\<lambda>_ m. inv m \<and> (\<forall>b'<TOTAL_BLOCKS. block_of (cont m) b' = (if b' = b then data else block_of c b')))
     (\<lambda>_ m. inv m \<and> (\<forall>b'<TOTAL_BLOCKS. b' \<noteq> b \<longrightarrow> block_of (cont m) b' = block_of c b'))"
proof -
  let ?P = "\<lambda>i m. inv m \<and> (\<forall>l. l \<notin> (\<lambda>i. b * 8 + word_of_nat i) ` {0..<8} \<longrightarrow> cont m l = c l) \<and>
      (\<forall>j<i. cont m (b * 8 + word_of_nat j) = rslice data (j * 512) (j * 512 + 512))"
  have "unat b < 1536" using b by (simp add: TOTAL_BLOCKS_def word_less_nat_alt)
  then have def: "write_disk_block_with wr b data = for_each [0..<8] (\<lambda>i. ok_or Io (wr (b * 8 + word_of_nat i)
      (rslice data (i * 512) (i * 512 + 512))))"
    using not_le [THEN iffD2, OF b] by (simp add: write_disk_block_with_def SECTORS_PER_BLOCK_def SECTOR_SIZE_def)
  have "valid (?P 0) (for_each [0..<8] (\<lambda>i. ok_or Io (wr (b * 8 + word_of_nat i)
      (rslice data (i * 512) (i * 512 + 512))))) (\<lambda>_. ?P 8)
      (\<lambda>_ m. inv m \<and> (\<forall>l. l \<notin> (\<lambda>i. b * 8 + word_of_nat i) ` {0..<8} \<longrightarrow> cont m l = c l))"
    by (rule valid_for_upt) (intro valid_map_err write_sector_step b len)
  then show ?thesis unfolding def
  proof (rule valid_weaken)
    fix x m assume P: "?P 8 m"
    then have "block_of (cont m) b = concat (map (\<lambda>j. rslice data (j * 512) (j * 512 + 512)) [0..<8])"
      unfolding block_of_def by (intro arg_cong [where f = concat] map_cong) auto
    also have "\<dots> = data" using len by (intro concat_rslices) simp
    finally show "inv m \<and> (\<forall>b'<TOTAL_BLOCKS. block_of (cont m) b' = (if b' = b then data else block_of c b'))"
      using P block_of_frame [OF b, of _ "cont m" c] by simp
  next
    fix e m
    assume "inv m \<and> (\<forall>l. l \<notin> (\<lambda>i. b * 8 + word_of_nat i) ` {0..<8} \<longrightarrow> cont m l = c l)"
    then show "inv m \<and> (\<forall>b'<TOTAL_BLOCKS. b' \<noteq> b \<longrightarrow> block_of (cont m) b' = block_of c b')"
      using block_of_frame [OF b] by blast
  qed simp
qed

lemma length_block_of: "inv m \<Longrightarrow> length (block_of (cont m) b) = 4096"
  by (simp add: block_of_def length_concat comp_def cont_length sum_list_triv)

end

section \<open>The view of the cache\<close>

definition disk_block :: "machine \<Rightarrow> u32 \<Rightarrow> bytes" where
  "disk_block m b = block_of (root_content m) b"

definition entry_view :: "cache_entry list \<Rightarrow> (u32 \<Rightarrow> bytes) \<Rightarrow> u32 \<Rightarrow> bytes" where
  "entry_view es dk b = (case find (\<lambda>e. ce_block e = b) es of Some e \<Rightarrow> ce_data e | None \<Rightarrow> dk b)"

definition vblock :: "'z cache_state_scheme \<Rightarrow> u32 \<Rightarrow> bytes" where
  "vblock s b = entry_view (entries s) (disk_block (mach s)) b"

definition entries_ok :: "cache_entry list \<Rightarrow> (u32 \<Rightarrow> bytes) \<Rightarrow> bool" where
  "entries_ok es dk \<longleftrightarrow>
     distinct (map ce_block es) \<and> length es \<le> CACHE_SLOTS \<and>
     (\<forall>e \<in> set es. ce_block e < TOTAL_BLOCKS \<and> length (ce_data e) = BLOCK_SIZE \<and>
        (\<not> ce_dirty e \<longrightarrow> ce_data e = dk (ce_block e)))"

definition cache_inv :: "'z cache_state_scheme \<Rightarrow> bool" where
  "cache_inv s \<longleftrightarrow> media_wf (mach s) \<and> entries_ok (entries s) (disk_block (mach s))"

text \<open>\<open>same_rest s t\<close>: nothing but the cache and the disk differs, so an image's superblock is kept.\<close>

definition same_rest :: "'z cache_state_scheme \<Rightarrow> 'z cache_state_scheme \<Rightarrow> bool" where
  "same_rest s t \<longleftrightarrow> cache_state.more t = cache_state.more s"

definition same_view :: "'z cache_state_scheme \<Rightarrow> 'z cache_state_scheme \<Rightarrow> bool" where
  "same_view s t \<longleftrightarrow> (\<forall>b < TOTAL_BLOCKS. vblock t b = vblock s b)"

lemma same_rest_refl [simp]: "same_rest s s"
  by (simp add: same_rest_def)

lemma same_rest_trans [trans]: "same_rest s t \<Longrightarrow> same_rest t u \<Longrightarrow> same_rest s u"
  by (simp add: same_rest_def)

lemma same_rest_upd [simp]:
  "same_rest s (s\<lparr>entries := es\<rparr>)" "same_rest s (s\<lparr>clock := c\<rparr>)" "same_rest s (s\<lparr>mach := m\<rparr>)"
  by (simp_all add: same_rest_def)

lemma same_view_refl [simp]: "same_view s s"
  by (simp add: same_view_def)

lemma same_view_trans [trans]: "same_view s t \<Longrightarrow> same_view t u \<Longrightarrow> same_view s u"
  by (simp add: same_view_def)

lemma entry_view_nth:
  assumes "distinct (map ce_block es)" and "i < length es" and "ce_block (es ! i) = b"
  shows "entry_view es dk b = ce_data (es ! i)"
proof -
  have "find (\<lambda>e. ce_block e = b) es \<noteq> None" 
    using find_None_iff [of "\<lambda>e. ce_block e = b" es] nth_mem [OF assms(2)] assms(3) by blast
  then obtain e where e: "find (\<lambda>e. ce_block e = b) es = Some e" by blast
  then obtain j where "j < length es" "ce_block (es ! j) = b" "e = es ! j" by (auto simp: find_Some_iff)
  moreover from this have "j = i"
    using assms nth_eq_iff_index_eq [of "map ce_block es" i j] by simp
  ultimately show ?thesis using e by (simp add: entry_view_def)
qed

lemma entry_view_notin:
  "b \<notin> ce_block ` set es \<Longrightarrow> entry_view es dk b = dk b"
  using find_None_iff [of "\<lambda>e. ce_block e = b" es] by (auto simp: entry_view_def)

text \<open>A change of entries and disk keeps the view where cached blocks keep their data.\<close>

lemma entry_view_cases:
  assumes "entries_ok es dk"
  obtains (cached) i where "i < length es" "ce_block (es ! i) = b" "entry_view es dk b = ce_data (es ! i)"
  | (uncached) "b \<notin> ce_block ` set es" "entry_view es dk b = dk b"
proof (cases "b \<in> ce_block ` set es")
  case True
  then obtain i where "i < length es" "ce_block (es ! i) = b" by (auto simp: in_set_conv_nth)
  with assms cached show ?thesis by (simp add: entries_ok_def entry_view_nth)
next
  case False
  with uncached show ?thesis by (simp add: entry_view_notin)
qed

lemma entries_okD:
  assumes "entries_ok es dk" and "i < length es"
  shows "ce_block (es ! i) < TOTAL_BLOCKS" "length (ce_data (es ! i)) = BLOCK_SIZE"
    "\<not> ce_dirty (es ! i) \<Longrightarrow> ce_data (es ! i) = dk (ce_block (es ! i))"
  using assms by (auto simp: entries_ok_def)

lemma entries_ok_inj:
  assumes "entries_ok es dk" "i < length es" "j < length es" "ce_block (es ! i) = ce_block (es ! j)"
  shows "i = j"
  using assms nth_eq_iff_index_eq [of "map ce_block es" i j] by (simp add: entries_ok_def)

text \<open>Replacing entry \<open>i\<close> by one for the same block.\<close>

lemma entries_ok_update_same:
  assumes "entries_ok es dk" and "i < length es" and "ce_block e' = ce_block (es ! i)"
    and "length (ce_data e') = BLOCK_SIZE" and "\<not> ce_dirty e' \<Longrightarrow> ce_data e' = dk (ce_block e')"
  shows "entries_ok (es[i := e']) dk"
proof -
  have "map ce_block (es[i := e']) = map ce_block es"
    using assms(2,3) by (simp add: map_update list_update_same_conv)
  moreover have "\<forall>e \<in> set (es[i := e']). ce_block e < TOTAL_BLOCKS \<and> length (ce_data e) = BLOCK_SIZE \<and>
        (\<not> ce_dirty e \<longrightarrow> ce_data e = dk (ce_block e))"
    using assms set_update_subset_insert [of es i e'] entries_okD(1) [OF assms(1,2)]
    by (auto simp: entries_ok_def)
  ultimately show ?thesis using assms(1) by (simp add: entries_ok_def)
qed

lemma entry_view_update_same:
  assumes "entries_ok es dk" and "i < length es" and "ce_block e' = ce_block (es ! i)"
  shows "entry_view (es[i := e']) dk b = (if b = ce_block e' then ce_data e' else entry_view es dk b)"
proof -
  have "map ce_block (es[i := e']) = map ce_block es"
    using assms(2,3) by (simp add: map_update list_update_same_conv)
  then have d: "distinct (map ce_block (es[i := e']))" using assms(1) by (simp add: entries_ok_def)
  show ?thesis
  proof (cases "b = ce_block e'")
    case True
    then show ?thesis using entry_view_nth [OF d, of i b] assms(2) by simp
  next
    case False
    show ?thesis
    proof (rule entry_view_cases [OF assms(1), of b])
      fix j assume cached: "j < length es" "ce_block (es ! j) = b" "entry_view es dk b = ce_data (es ! j)"
      then have "j \<noteq> i" using False assms(3) by auto
      then show ?thesis using entry_view_nth [OF d, of j b] cached False by simp
    next
      assume uncached: "b \<notin> ce_block ` set es" "entry_view es dk b = dk b"
      have "b \<notin> ce_block ` set (es[i := e'])"
        using uncached False set_update_subset_insert [of es i e'] by auto
      then show ?thesis using uncached False by (simp add: entry_view_notin)
    qed
  qed
qed

text \<open>Replacing entry \<open>i\<close>, whose data are on disk, by a clean entry for a block not cached so far; and
  appending such an entry.\<close>

lemma entries_ok_replace:
  assumes "entries_ok es dk" and "i < length es" and "ce_block e' \<notin> ce_block ` set es"
    and "ce_block e' < TOTAL_BLOCKS" and "length (ce_data e') = BLOCK_SIZE"
    and "ce_data e' = dk (ce_block e')"
  shows "entries_ok (es[i := e']) dk"
proof -
  have "distinct (map ce_block (es[i := e']))"
    using assms(1,3) by (simp add: entries_ok_def map_update distinct_list_update)
  then show ?thesis
    using assms set_update_subset_insert [of es i e'] by (auto simp: entries_ok_def)
qed

lemma entry_view_replace:
  assumes "entries_ok es dk" and "i < length es" and "ce_block e' \<notin> ce_block ` set es"
    and "ce_data e' = dk (ce_block e')" and "ce_data (es ! i) = dk (ce_block (es ! i))"
  shows "entry_view (es[i := e']) dk b = entry_view es dk b"
proof -
  have d: "distinct (map ce_block (es[i := e']))"
    using assms(1,3) by (simp add: entries_ok_def map_update distinct_list_update)
  show ?thesis
  proof (cases "b = ce_block e'")
    case True
    then show ?thesis
      using entry_view_nth [OF d, of i b] assms by (simp add: entry_view_notin)
  next
    case False
    show ?thesis
    proof (rule entry_view_cases [OF assms(1), of b])
      fix j assume cached: "j < length es" "ce_block (es ! j) = b" "entry_view es dk b = ce_data (es ! j)"
      show ?thesis
      proof (cases "j = i")
        case True
        have "b \<notin> ce_block ` set (es[i := e'])"
        proof
          assume "b \<in> ce_block ` set (es[i := e'])"
          then obtain k where k: "k < length es" "ce_block (es[i := e'] ! k) = b"
            by (auto simp: in_set_conv_nth)
          with False have "k \<noteq> i" using assms(2) by auto
          with k cached True entries_ok_inj [OF assms(1), of k i] show False by auto
        qed
        then show ?thesis using cached True assms(5) by (simp add: entry_view_notin)
      next
        case j: False
        then show ?thesis using entry_view_nth [OF d, of j b] cached by simp
      qed
    next
      assume uncached: "b \<notin> ce_block ` set es" "entry_view es dk b = dk b"
      then have "b \<notin> ce_block ` set (es[i := e'])"
        using False set_update_subset_insert [of es i e'] by auto
      with uncached show ?thesis by (simp add: entry_view_notin)
    qed
  qed
qed

lemma entries_ok_append:
  assumes "entries_ok es dk" and "length es < CACHE_SLOTS" and "ce_block e' \<notin> ce_block ` set es"
    and "ce_block e' < TOTAL_BLOCKS" and "length (ce_data e') = BLOCK_SIZE"
    and "ce_data e' = dk (ce_block e')"
  shows "entries_ok (es @ [e']) dk"
  using assms by (auto simp: entries_ok_def)

lemma find_append:
  "find p (xs @ ys) = (case find p xs of None \<Rightarrow> find p ys | Some x \<Rightarrow> Some x)"
  by (induction xs) auto

lemma entry_view_append:
  assumes "ce_block e' \<notin> ce_block ` set es" and "ce_data e' = dk (ce_block e')"
  shows "entry_view (es @ [e']) dk b = entry_view es dk b"
  using assms by (auto simp: entry_view_def find_append split: option.splits)

section \<open>Every operation keeps the view\<close>

text \<open>\<open>cache_ok s t\<close>: from \<open>s\<close> the cache reached \<open>t\<close> with its invariant and without a visible change.\<close>

definition cache_ok :: "'z cache_state_scheme \<Rightarrow> 'z cache_state_scheme \<Rightarrow> bool" where
  "cache_ok s t \<longleftrightarrow> cache_inv t \<and> same_rest s t \<and> same_view s t"

lemma cache_ok_trans [trans]: "cache_ok s t \<Longrightarrow> cache_ok t u \<Longrightarrow> cache_ok s u"
  by (simp add: cache_ok_def same_rest_def same_view_def)

lemma cache_ok_refl: "cache_inv s \<Longrightarrow> cache_ok s s"
  by (simp add: cache_ok_def)

lemma cache_ok_clock: "cache_inv s \<Longrightarrow> cache_ok s (s\<lparr>clock := c\<rparr>)"
  by (simp add: cache_ok_def cache_inv_def same_view_def vblock_def)

lemma read_disk_block_state:
  assumes "read_disk_block b s = (r, t)" and "media_wf (mach s)"
  shows "t = s\<lparr>mach := mach t\<rparr>" "media_wf (mach t)" "disk_block (mach t) = disk_block (mach s)"
    "\<And>d. r = Inr d \<Longrightarrow> d = disk_block (mach s) b"
proof -
  from assms(1) have m: "read_disk_block_with read_sector b (mach s) = (r, mach t)"
    and t: "t = s\<lparr>mach := mach t\<rparr>"
    by (auto simp: read_disk_block_def on_mach_def split: prod.splits)
  note v = root_store.read_block [of "root_content (mach s)" b]
  have pre: "media_wf (mach s) \<and> root_content (mach s) = root_content (mach s)" using assms(2) by simp
  have "media_wf (mach t) \<and> root_content (mach t) = root_content (mach s) \<and>
      (\<forall>d. r = Inr d \<longrightarrow> d = block_of (root_content (mach s)) b)"
  proof (cases r)
    case (Inl e)
    from validD_err [OF v pre m [unfolded Inl]] show ?thesis using Inl by simp
  next
    case (Inr d)
    from validD [OF v pre m [unfolded Inr]] show ?thesis using Inr by simp
  qed
  then show "media_wf (mach t)" "disk_block (mach t) = disk_block (mach s)"
    "\<And>d. r = Inr d \<Longrightarrow> d = disk_block (mach s) b" by (simp_all add: disk_block_def [abs_def])
  show "t = s\<lparr>mach := mach t\<rparr>" by (fact t)
qed

lemma write_disk_block_state:
  assumes "write_disk_block b data s = (r, t)" and "media_wf (mach s)"
    and "b < TOTAL_BLOCKS" and "length data = BLOCK_SIZE"
  shows "t = s\<lparr>mach := mach t\<rparr>" "media_wf (mach t)"
    "\<And>b'. b' < TOTAL_BLOCKS \<Longrightarrow> b' \<noteq> b \<Longrightarrow> disk_block (mach t) b' = disk_block (mach s) b'"
    "\<And>x. r = Inr x \<Longrightarrow> disk_block (mach t) b = data"
proof -
  from assms(1) have m: "write_disk_block_with write_sector b data (mach s) = (r, mach t)"
    and t: "t = s\<lparr>mach := mach t\<rparr>"
    by (auto simp: write_disk_block_def on_mach_def split: prod.splits)
  have len: "length data = 4096" using assms(4) by (simp add: BLOCK_SIZE_def)
  note v = root_store.write_block [OF assms(3) len, of "root_content (mach s)"]
  have pre: "media_wf (mach s) \<and> root_content (mach s) = root_content (mach s)" using assms(2) by simp
  have "media_wf (mach t) \<and> (\<forall>b' < TOTAL_BLOCKS. b' \<noteq> b \<longrightarrow>
      disk_block (mach t) b' = disk_block (mach s) b') \<and> (\<forall>x. r = Inr x \<longrightarrow> disk_block (mach t) b = data)"
  proof (cases r)
    case (Inl e)
    from validD_err [OF v pre m [unfolded Inl]] show ?thesis using Inl by (simp add: disk_block_def)
  next
    case (Inr d)
    from validD [OF v pre m [unfolded Inr]] show ?thesis using Inr assms(3) by (simp add: disk_block_def)
  qed
  then show "media_wf (mach t)"
    "\<And>b'. b' < TOTAL_BLOCKS \<Longrightarrow> b' \<noteq> b \<Longrightarrow> disk_block (mach t) b' = disk_block (mach s) b'"
    "\<And>x. r = Inr x \<Longrightarrow> disk_block (mach t) b = data" by blast+
  show "t = s\<lparr>mach := mach t\<rparr>" by (fact t)
qed

text \<open>Writing a cached dirty entry to disk, completely or in part, is invisible.\<close>

lemma write_back_ok:
  assumes "cache_inv s" and "i < length (entries s)" and "ce_dirty (entries s ! i)"
    and "write_disk_block (ce_block (entries s ! i)) (ce_data (entries s ! i)) s = (r, t)"
  shows "cache_ok s t" and "entries t = entries s" and "clock t = clock s"
    and "r = Inr x \<Longrightarrow> disk_block (mach t) (ce_block (entries s ! i)) = ce_data (entries s ! i)"
proof -
  let ?e = "entries s ! i"
  have ok: "entries_ok (entries s) (disk_block (mach s))" and mw: "media_wf (mach s)"
    using assms(1) by (simp_all add: cache_inv_def)
  note w = write_disk_block_state [OF assms(4) mw entries_okD(1,2) [OF ok assms(2)]]
  show es: "entries t = entries s" by (subst w(1)) simp
  show "clock t = clock s" by (subst w(1)) simp
  show "r = Inr x \<Longrightarrow> disk_block (mach t) (ce_block ?e) = ce_data ?e" by (rule w(4))
  have "ce_data e = disk_block (mach t) (ce_block e)" if "e \<in> set (entries s)" "\<not> ce_dirty e" for e
  proof -
    from that(1) obtain j where j: "j < length (entries s)" "entries s ! j = e"
      unfolding in_set_conv_nth by blast
    have "j \<noteq> i" using j(2) that(2) assms(3) by auto
    then have "ce_block e \<noteq> ce_block ?e" using entries_ok_inj [OF ok j(1) assms(2)] j(2) by auto
    moreover have "ce_block e < TOTAL_BLOCKS" "ce_data e = disk_block (mach s) (ce_block e)"
      using entries_okD(1,3) [OF ok j(1)] that(2) j(2) by auto
    ultimately show ?thesis using w(3) by simp
  qed
  then have ok': "entries_ok (entries s) (disk_block (mach t))" using ok unfolding entries_ok_def by blast
  then have dist: "distinct (map ce_block (entries s))" by (simp add: entries_ok_def)
  have "vblock t b = vblock s b" if "b < TOTAL_BLOCKS" for b
  proof (rule entry_view_cases [OF ok, of b])
    fix j assume "j < length (entries s)" "ce_block (entries s ! j) = b"
      "entry_view (entries s) (disk_block (mach s)) b = ce_data (entries s ! j)"
    then show ?thesis by (simp add: vblock_def es entry_view_nth [OF dist])
  next
    assume a: "b \<notin> ce_block ` set (entries s)" "entry_view (entries s) (disk_block (mach s)) b = disk_block (mach s) b"
    then have "b \<noteq> ce_block ?e" using assms(2) nth_mem by blast
    with w(3) [OF that] a show ?thesis by (simp add: vblock_def es entry_view_notin)
  qed
  moreover have "same_rest s t" by (subst w(1)) simp
  ultimately show "cache_ok s t" using ok' w(2) es by (simp add: cache_ok_def cache_inv_def same_view_def)
qed

lemma write_back_victim_ok:
  assumes inv: "cache_inv s" and i: "i < length (entries s)"
    and w: "(if ce_dirty (entries s ! i) then write_disk_block (ce_block (entries s ! i)) (ce_data (entries s ! i))
      else ret ()) s = (r, t)"
  shows "cache_ok s t \<and> entries t = entries s \<and> clock t = clock s \<and>
    (r = Inr () \<longrightarrow> disk_block (mach t) (ce_block (entries s ! i)) = ce_data (entries s ! i))"
proof (cases "ce_dirty (entries s ! i)")
  case True
  with w have w': "write_disk_block (ce_block (entries s ! i)) (ce_data (entries s ! i)) s = (r, t)" by simp
  show ?thesis using write_back_ok [OF inv i True w'] by blast
next
  case False
  with w have "t = s" by (simp add: ret_def)
  moreover have "ce_data (entries s ! i) = disk_block (mach s) (ce_block (entries s ! i))"
    using inv entries_okD(3) [OF _ i False] by (simp add: cache_inv_def)
  ultimately show ?thesis using inv by (simp add: cache_ok_refl)
qed

lemma cache_evict_ok:
  assumes "cache_inv s" and "b < TOTAL_BLOCKS" and "b \<notin> ce_block ` set (entries s)"
    and "d = disk_block (mach s) b" and "cache_evict b d s = (r, t)"
  shows "cache_ok s t \<and> (\<forall>i. r = Inr i \<longrightarrow> i < length (entries t) \<and> ce_block (entries t ! i) = b)"
proof -
  have len: "length d = BLOCK_SIZE"
    using assms(1,4) root_store.length_block_of [of "mach s" b] by (simp add: cache_inv_def disk_block_def BLOCK_SIZE_def)
  show ?thesis
  proof (cases "min_by_key (\<lambda>(_, e). ce_age e) (enumerate 0 (entries s))")
    case None
    then show ?thesis
      using assms by (auto simp: cache_evict_def gets_def bnd_def lift_opt_def err_def cache_ok_refl)
  next
    case (Some v)
    then obtain i e where v: "v = (i, e)" "i < length (entries s)" "e = entries s ! i"
      using min_by_key_Some [OF Some] by (cases v) (auto simp: in_set_enumerate_eq)
    obtain r1 s1 where w: "(if ce_dirty e then write_disk_block (ce_block e) (ce_data e) else ret ()) s = (r1, s1)"
      by fastforce
    have ev: "cache_evict b d s = (case r1 of Inl x \<Rightarrow> (Inl x, s1) | Inr _ \<Rightarrow> (Inr i,
        s1\<lparr>entries := (entries s1)[i := \<lparr>ce_block = b, ce_data = d, ce_dirty = False, ce_age = clock s1\<rparr>]\<rparr>))"
      using Some v(1) v(3) [symmetric] w
      by (cases "ce_dirty e")
        (auto simp: cache_evict_def gets_def bnd_def lift_opt_def ret_def upd_def split: sum.split)
    from write_back_victim_ok [OF assms(1) v(2) w [unfolded v(3)]]
    have wb: "cache_ok s s1" "entries s1 = entries s" "clock s1 = clock s"
      "r1 = Inr () \<Longrightarrow> ce_data e = disk_block (mach s1) (ce_block e)" by (simp_all add: v(3))
    have "vblock s1 b = vblock s b" using wb(1) assms(2) by (simp add: cache_ok_def same_view_def)
    then have db: "disk_block (mach s1) b = d"
      using assms(3,4) wb(2) by (simp add: vblock_def entry_view_notin)
    show ?thesis
    proof (cases r1)
      case (Inl x)
      then show ?thesis using ev assms(5) wb(1) by simp
    next
      case (Inr x)
      let ?n = "\<lparr>ce_block = b, ce_data = d, ce_dirty = False, ce_age = clock s1\<rparr>"
      have t: "r = Inr i" "t = s1\<lparr>entries := (entries s1)[i := ?n]\<rparr>" using ev assms(5) Inr by auto
      have ok1: "entries_ok (entries s1) (disk_block (mach s1))" and mw: "media_wf (mach s1)"
        using wb(1) by (simp_all add: cache_ok_def cache_inv_def)
      have i1: "i < length (entries s1)" "e = entries s1 ! i" "b \<notin> ce_block ` set (entries s1)"
        using v wb(2) assms(3) by simp_all
      have "entries_ok (entries t) (disk_block (mach t))"
        using entries_ok_replace [OF ok1 i1(1), of ?n] i1(3) assms(2) len db by (simp add: t)
      moreover have "same_view s1 t"
        using entry_view_replace [OF ok1 i1(1), of ?n] i1(2,3) wb(4) Inr db by (simp add: same_view_def vblock_def t)
      ultimately have "cache_ok s1 t" using mw by (simp add: cache_ok_def cache_inv_def t)
      from cache_ok_trans [OF wb(1) this] show ?thesis using t i1(1) by simp
    qed
  qed
qed

lemma cache_index_ok:
  assumes "cache_inv s" and "cache_index b s = (r, t)"
  shows "cache_ok s t \<and> (\<forall>i. r = Inr i \<longrightarrow> b < TOTAL_BLOCKS \<and> i < length (entries t) \<and> ce_block (entries t ! i) = b)"
proof (cases "b \<ge> TOTAL_BLOCKS")
  case True
  then show ?thesis using assms by (auto simp: cache_index_def err_def cache_ok_refl)
next
  case False
  then have b: "b < TOTAL_BLOCKS" by simp
  let ?s1 = "s\<lparr>clock := max (clock s + 1) 1\<rparr>"
  have s1: "cache_ok s ?s1" "cache_inv ?s1" using assms(1) cache_ok_clock by (auto simp: cache_ok_def)
  have ok: "entries_ok (entries s) (disk_block (mach s))" and mw: "media_wf (mach s)"
    using assms(1) by (simp_all add: cache_inv_def)
  show ?thesis
  proof (cases "position (\<lambda>e. ce_block e = b) (entries s)")
    case (Some idx)
    let ?e = "(entries s ! idx)\<lparr>ce_age := clock ?s1\<rparr>"
    have idx: "idx < length (entries s)" "ce_block (entries s ! idx) = b" using position_Some [OF Some] by auto
    have t: "r = Inr idx" "t = ?s1\<lparr>entries := (entries s)[idx := ?e]\<rparr>"
      using assms(2) Some False by (auto simp: cache_index_def gets_def bnd_def upd_def ret_def)
    have "entries_ok (entries t) (disk_block (mach t))"
      using entries_ok_update_same [OF ok idx(1), of ?e] entries_okD [OF ok idx(1)] idx by (simp add: t)
    moreover have "vblock t b' = vblock s b'" for b'
      using entry_view_update_same [OF ok idx(1), of ?e] idx entry_view_nth [of "entries s" idx b] ok
      by (simp add: vblock_def t entries_ok_def)
    ultimately have "cache_ok s t" using mw by (simp add: cache_ok_def cache_inv_def same_view_def t same_rest_def)
    then show ?thesis using t idx b by simp
  next
    case None
    then have nb: "b \<notin> ce_block ` set (entries s)" by (auto simp: position_None)
    obtain r1 s2 where rd: "read_disk_block b ?s1 = (r1, s2)" by (cases "read_disk_block b ?s1")
    note rs = read_disk_block_state [OF rd, simplified, OF mw]
    have es: "entries s2 = entries s" by (subst rs(1)) simp
    have s2: "cache_ok ?s1 s2"
    proof -
      have "same_rest ?s1 s2" by (subst rs(1)) (simp add: same_rest_def)
      then show ?thesis using s1(2) rs(2,3) es
        by (simp add: cache_ok_def cache_inv_def same_view_def vblock_def)
    qed
    have def: "cache_index b s = (case r1 of Inl e \<Rightarrow> (Inl e, s2) | Inr d \<Rightarrow>
       if length (entries s2) < CACHE_SLOTS
       then (Inr (length (entries s2)), s2\<lparr>entries := entries s2 @
                  [\<lparr>ce_block = b, ce_data = d, ce_dirty = False, ce_age = clock s2\<rparr>]\<rparr>)
       else cache_evict b d s2)"
      using None False rd by (auto simp: cache_index_def gets_def bnd_def upd_def split: sum.splits)
    show ?thesis
    proof (cases r1)
      case (Inl e)
      then show ?thesis using def assms(2) cache_ok_trans [OF s1(1) s2] by simp
    next
      case (Inr d)
      have d: "d = disk_block (mach s2) b" using rs(3,4) Inr by simp
      have inv2: "cache_inv s2" using s2 by (simp add: cache_ok_def)
      show ?thesis
      proof (cases "length (entries s2) < CACHE_SLOTS")
        case True
        let ?n = "\<lparr>ce_block = b, ce_data = d, ce_dirty = False, ce_age = clock s2\<rparr>"
        have t: "r = Inr (length (entries s2))" "t = s2\<lparr>entries := entries s2 @ [?n]\<rparr>"
          using def assms(2) Inr True by auto
        have len: "length d = BLOCK_SIZE"
          using inv2 d root_store.length_block_of [of "mach s2" b]
          by (simp add: cache_inv_def disk_block_def BLOCK_SIZE_def)
        have "entries_ok (entries t) (disk_block (mach t))"
          using inv2 True nb b d len es by (simp add: t cache_inv_def entries_ok_append)
        moreover have "same_view s2 t"
          using nb d es by (simp add: same_view_def vblock_def t entry_view_append)
        ultimately have "cache_ok s2 t" using inv2 by (simp add: cache_ok_def cache_inv_def t)
        then show ?thesis using t b cache_ok_trans [OF cache_ok_trans [OF s1(1) s2]] by (simp add: nth_append)
      next
        case full: False
        have "cache_evict b d s2 = (r, t)" using def assms(2) Inr full by simp
        from cache_evict_ok [OF inv2 b _ d this] nb es
        show ?thesis using cache_ok_trans [OF cache_ok_trans [OF s1(1) s2]] b by simp
      qed
    qed
  qed
qed

section \<open>Healthy hardware\<close>

text \<open>\<open>healthy m\<close>: the root disk is found, is large enough for the \<open>TOTAL_BLOCKS\<close> blocks of an image and no
  driver call on it fails. It is kept by every operation, and under it the cache never fails on a block of the
  image.\<close>

definition healthy :: "machine \<Rightarrow> bool" where
  "healthy m \<longleftrightarrow> (case resolved m of None \<Rightarrow> False | Some r \<Rightarrow>
     unat TOTAL_BLOCKS * 8 \<le> unat (rt_sectors r) \<and> unat (rt_base_lba r) + unat (rt_sectors r) < 2 ^ 32 \<and>
     (\<forall>l. \<not> rd_fault m (rt_device r) l \<and> \<not> wr_fault m (rt_device r) l) \<and> \<not> fl_fault m (rt_device r))"

lemma healthyD:
  assumes "healthy m"
  obtains r where "resolved m = Some r" "unat TOTAL_BLOCKS * 8 \<le> unat (rt_sectors r)"
    "unat (rt_base_lba r) + unat (rt_sectors r) < 2 ^ 32"
    "\<And>l. \<not> rd_fault m (rt_device r) l" "\<And>l. \<not> wr_fault m (rt_device r) l" "\<not> fl_fault m (rt_device r)"
  using assms by (auto simp: healthy_def split: option.splits)

lemma healthy_root_disk:
  "healthy m \<Longrightarrow> \<exists>r m1. root_disk m = (Some r, m1) \<and> resolved m = Some r \<and> resolved m1 = Some r \<and>
     rd_fault m1 = rd_fault m \<and> wr_fault m1 = wr_fault m \<and> fl_fault m1 = fl_fault m \<and> root_slot m1 = Some r"
  by (erule healthyD) (use root_disk_resolved [of m] root_disk_state(2) [of m] in
      \<open>cases "root_disk m"; simp\<close>)

lemma checked_add_in_range:
  assumes "unat base + unat n < 2 ^ 32" and "lba < (n :: u32)"
  shows "checked_add base lba = Some (base + lba)"
proof -
  have "unat base + unat lba < 2 ^ 32" using assms by (simp add: word_less_nat_alt)
  then show ?thesis by (simp add: checked_add_def)
qed

lemma healthy_read_sector:
  assumes "unat lba < unat TOTAL_BLOCKS * 8"
  shows "valid healthy (read_sector lba) (\<lambda>_. healthy) (\<lambda>_ _. False)"
proof -
  have "\<exists>b t. read_sector lba m = (Inr b, t) \<and> healthy t" if h: "healthy m" for m
  proof -
    obtain r m1 where r: "root_disk m = (Some r, m1)" "resolved m = Some r" "resolved m1 = Some r"
      "rd_fault m1 = rd_fault m" "wr_fault m1 = wr_fault m" "fl_fault m1 = fl_fault m"
      using healthy_root_disk [OF h] by blast
    from h r(2) have f: "unat TOTAL_BLOCKS * 8 \<le> unat (rt_sectors r)"
      "unat (rt_base_lba r) + unat (rt_sectors r) < 2 ^ 32" "\<not> rd_fault m (rt_device r) l" for l
      by (auto simp: healthy_def)
    have lba: "lba < rt_sectors r" using f(1) assms by (simp add: word_less_nat_alt)
    have "read_sector lba m = (Inr (media m1 (rt_device r) (rt_base_lba r + lba)), m1)"
      using r(1,4) f(3) lba checked_add_in_range [OF f(2) lba]
      by (simp add: read_sector_def read_sector_from_def)
    moreover have "healthy m1" using h r(2-) by (simp add: healthy_def)
    ultimately show ?thesis by blast
  qed
  then show ?thesis by (fastforce simp: valid_def)
qed

lemma healthy_write_sector:
  assumes "unat lba < unat TOTAL_BLOCKS * 8"
  shows "valid healthy (write_sector lba buf) (\<lambda>_. healthy) (\<lambda>_ _. False)"
proof -
  have "\<exists>t. write_sector lba buf m = (Inr (), t) \<and> healthy t" if h: "healthy m" for m
  proof -
    obtain r m1 where r: "root_disk m = (Some r, m1)" "resolved m = Some r"
      "rd_fault m1 = rd_fault m" "wr_fault m1 = wr_fault m" "fl_fault m1 = fl_fault m" "root_slot m1 = Some r"
      using healthy_root_disk [OF h] by blast
    from h r(2) have f: "unat TOTAL_BLOCKS * 8 \<le> unat (rt_sectors r)"
      "unat (rt_base_lba r) + unat (rt_sectors r) < 2 ^ 32" "\<not> wr_fault m (rt_device r) l"
      "\<not> fl_fault m (rt_device r)" for l
      by (auto simp: healthy_def)
    have lba: "lba < rt_sectors r" using f(1) assms by (simp add: word_less_nat_alt)
    let ?m2 = "m1\<lparr>media := (media m1)(rt_device r := (media m1 (rt_device r))(rt_base_lba r + lba := buf))\<rparr>"
    have "write_sector lba buf m = (Inr (), ?m2)"
      using r(1,4,5) f(3,4) lba checked_add_in_range [OF f(2) lba]
      by (simp add: write_sector_def write_sector_to_def flush_device_def bnd_def)
    moreover have "healthy ?m2" using h r(2-) by (simp add: healthy_def resolved_def)
    ultimately show ?thesis by blast
  qed
  then show ?thesis by (fastforce simp: valid_def)
qed

lemma block_sector_bound:
  assumes "b < TOTAL_BLOCKS" and "i < 8"
  shows "unat (b * 8 + word_of_nat i :: u32) < unat TOTAL_BLOCKS * 8"
  using unat_block_sector [OF assms] assms by (simp add: word_less_nat_alt)

lemma healthy_read_block:
  assumes "b < TOTAL_BLOCKS"
  shows "valid healthy (read_disk_block_with read_sector b) (\<lambda>_. healthy) (\<lambda>_ _. False)"
proof -
  have "valid healthy (map_each xs (\<lambda>i. ok_or Io (read_sector (b * 8 + word_of_nat i)))) (\<lambda>_. healthy) (\<lambda>_ _. False)"
    if "\<forall>i \<in> set xs. i < 8" for xs
    using that
  proof (induction xs)
    case (Cons i xs)
    then show ?case unfolding map_each.simps
      by (intro valid_bnd [where R = "\<lambda>_. healthy"] valid_map_err healthy_read_sector block_sector_bound assms valid_ret)
        auto
  qed (simp add: valid_ret)
  moreover have "unat b < 1536" using assms by (simp add: TOTAL_BLOCKS_def word_less_nat_alt)
  ultimately show ?thesis
    using assms unfolding read_disk_block_with_def Let_def SECTORS_PER_BLOCK_def
    by (intro valid_if valid_bnd [where R = "\<lambda>_. healthy"] valid_ret) (simp_all add: not_le)
qed

lemma healthy_write_block:
  assumes "b < TOTAL_BLOCKS"
  shows "valid healthy (write_disk_block_with write_sector b data) (\<lambda>_. healthy) (\<lambda>_ _. False)"
proof -
  have "unat b < 1536" using assms by (simp add: TOTAL_BLOCKS_def word_less_nat_alt)
  moreover have "valid healthy (for_each [0..<8] (\<lambda>i. ok_or Io (write_sector (b * 8 + word_of_nat i)
      (rslice data (i * SECTOR_SIZE) (i * SECTOR_SIZE + SECTOR_SIZE))))) (\<lambda>_. healthy) (\<lambda>_ _. False)"
    by (intro valid_for_each valid_map_err healthy_write_sector block_sector_bound assms) simp
  ultimately show ?thesis
    using assms unfolding write_disk_block_with_def Let_def SECTORS_PER_BLOCK_def
    by (intro valid_if) (simp_all add: not_le)
qed

lemma valid_on_mach:
  assumes "valid P f (\<lambda>_. P) E"
  shows "valid (\<lambda>s. P (mach s) \<and> R (entries s)) (on_mach f) (\<lambda>_ s. P (mach s) \<and> R (entries s)) (\<lambda>e s. E e (mach s))"
proof (rule validI)
  fix s x t assume s: "P (mach s) \<and> R (entries s)" and "on_mach f s = (Inr x, t)"
  then obtain m where "f (mach s) = (Inr x, m)" "t = s\<lparr>mach := m\<rparr>" by (auto simp: on_mach_def split: prod.splits)
  with validD [OF assms, of "mach s" x m] s show "P (mach t) \<and> R (entries t)" by simp
next
  fix s x t assume s: "P (mach s) \<and> R (entries s)" and "on_mach f s = (Inl x, t)"
  then obtain m where "f (mach s) = (Inl x, m)" "t = s\<lparr>mach := m\<rparr>" by (auto simp: on_mach_def split: prod.splits)
  with validD_err [OF assms, of "mach s" x m] s show "E x (mach t)" by simp
qed

lemma valid_success:
  assumes "valid P m Q (\<lambda>_ _. False)" and "P s"
  obtains x t where "m s = (Inr x, t)" "Q x t"
proof (cases "m s")
  case (Pair r t)
  with assms that show ?thesis by (cases r) (auto simp: valid_def)
qed

lemma write_block_success:
  assumes "healthy (mach s)" and "b < TOTAL_BLOCKS"
  shows "\<exists>t. write_disk_block b d s = (Inr (), t) \<and> healthy (mach t)"
proof -
  from valid_on_mach [OF healthy_write_block [OF assms(2)], of "\<lambda>_. True" d]
  have "valid (\<lambda>s. healthy (mach s)) (write_disk_block b d) (\<lambda>_ s. healthy (mach s)) (\<lambda>_ _. False)"
    by (simp add: write_disk_block_def)
  from valid_success [OF this, of s] assms(1) show ?thesis by auto
qed

lemma cache_evict_success:
  assumes "cache_inv s" and "healthy (mach s)" and "entries s \<noteq> []"
  shows "\<exists>i t. cache_evict b d s = (Inr i, t) \<and> healthy (mach t)"
proof -
  have "min_by_key (\<lambda>(_, e). ce_age e) (enumerate 0 (entries s)) \<noteq> None"
    unfolding min_by_key_None using assms(3) by (metis length_enumerate length_0_conv)
  then obtain v where v: "min_by_key (\<lambda>(_, e). ce_age e) (enumerate 0 (entries s)) = Some v" by blast
  obtain i where i: "v = (i, entries s ! i)" "i < length (entries s)"
    using min_by_key_Some [OF v] by (cases v) (auto simp: in_set_enumerate_eq)
  have b: "ce_block (entries s ! i) < TOTAL_BLOCKS"
    using assms(1) entries_okD(1) [OF _ i(2)] unfolding cache_inv_def by blast
  have "\<exists>t. (if ce_dirty (entries s ! i) then write_disk_block (ce_block (entries s ! i)) (ce_data (entries s ! i))
      else ret ()) s = (Inr (), t) \<and> healthy (mach t)"
  proof (cases "ce_dirty (entries s ! i)")
    case True
    then show ?thesis using write_block_success [OF assms(2) b] by simp
  qed (simp add: ret_def assms(2))
  then obtain t where "(if ce_dirty (entries s ! i) then write_disk_block (ce_block (entries s ! i)) (ce_data (entries s ! i))
      else ret ()) s = (Inr (), t)" "healthy (mach t)" by blast
  then show ?thesis
    using v i by (simp add: cache_evict_def bnd_Inr_eq [OF gets_app] lift_opt_def)
      (simp add: bnd_def upd_def ret_app split: if_splits)
qed

lemma cache_index_success:
  assumes "cache_inv s" and "healthy (mach s)" and "b < TOTAL_BLOCKS"
  shows "\<exists>i t. cache_index b s = (Inr i, t) \<and> healthy (mach t)"
proof (cases "position (\<lambda>e. ce_block e = b) (entries s)")
  case (Some idx)
  then show ?thesis using assms by (auto simp: cache_index_def gets_def bnd_def upd_def ret_def)
next
  case None
  let ?s1 = "s\<lparr>clock := max (clock s + 1) 1\<rparr>"
  from valid_on_mach [OF healthy_read_block [OF assms(3)], of "\<lambda>_. True"]
  have "valid (\<lambda>s. healthy (mach s)) (read_disk_block b) (\<lambda>_ s. healthy (mach s)) (\<lambda>_ _. False)"
    by (simp add: read_disk_block_def)
  from valid_success [OF this, of ?s1] assms(2) obtain d s2 where
    rd: "read_disk_block b ?s1 = (Inr d, s2)" "healthy (mach s2)" by auto
  have mw: "media_wf (mach ?s1)" using assms(1) by (simp add: cache_inv_def)
  note rs = read_disk_block_state [OF rd(1) mw]
  have "entries s2 = entries s" by (subst rs(1)) simp
  then have inv2: "cache_inv s2" using assms(1) rs(2,3) by (simp add: cache_inv_def)
  have "cache_index b s = (if length (entries s2) < CACHE_SLOTS
       then (Inr (length (entries s2)), s2\<lparr>entries := entries s2 @
                  [\<lparr>ce_block = b, ce_data = d, ce_dirty = False, ce_age = clock s2\<rparr>]\<rparr>)
       else cache_evict b d s2)"
    using None assms(3) rd(1) by (auto simp: cache_index_def gets_def bnd_def upd_def)
  moreover have "\<exists>i t. cache_evict b d s2 = (Inr i, t) \<and> healthy (mach t)" if "\<not> length (entries s2) < CACHE_SLOTS"
    using cache_evict_success [OF inv2 rd(2)] that by (cases "entries s2") (simp_all add: CACHE_SLOTS_def)
  ultimately show ?thesis using rd(2) by (cases "length (entries s2) < CACHE_SLOTS") simp_all
qed

lemma valid_on_mach_err:
  "valid (\<lambda>_. True) f (\<lambda>_ _. True) (\<lambda>e _. R e) \<Longrightarrow> valid (\<lambda>_. True) (on_mach f) (\<lambda>_ _. True) (\<lambda>e _. R e)"
  by (fastforce simp: valid_def on_mach_def split: prod.splits sum.splits)

lemma valid_map_each_err:
  "(\<And>x. valid (\<lambda>_. True) (f x) (\<lambda>_ _. True) (\<lambda>e _. R e)) \<Longrightarrow>
     valid (\<lambda>_. True) (map_each xs f) (\<lambda>_ _. True) (\<lambda>e _. R e)"
  by (induction xs) (auto intro!: valid_ret valid_bnd [where R = "\<lambda>_ _. True"])

lemma valid_ok_or: "valid (\<lambda>_. True) (ok_or x f) (\<lambda>_ _. True) (\<lambda>e _. e = x)"
  by (rule valid_map_err) (auto simp: valid_def split: prod.splits sum.splits)

lemma write_disk_block_err: "valid (\<lambda>_. True) (write_disk_block b d) (\<lambda>_ _. True) (\<lambda>e _. e = Io)"
  unfolding write_disk_block_def write_disk_block_with_def Let_def
  by (intro valid_on_mach_err valid_if valid_err valid_for_each valid_ok_or) simp_all

lemma cache_index_err: "valid (\<lambda>_. True) (cache_index b) (\<lambda>_ _. True) (\<lambda>e _. e = Io)"
proof -
  have "valid (\<lambda>_. True) (read_disk_block b) (\<lambda>_ _. True) (\<lambda>e _. e = Io)" for b
    unfolding read_disk_block_def read_disk_block_with_def Let_def
    by (intro valid_on_mach_err valid_if valid_err valid_bnd [where R = "\<lambda>_ _. True"] valid_map_each_err valid_ok_or valid_ret)
      simp_all
  with write_disk_block_err show ?thesis
    unfolding cache_index_def cache_evict_def
    by (intro valid_if valid_err valid_bnd [where R = "\<lambda>_ _. True"] valid_upd valid_gets valid_ret valid_lift_opt)
      (auto split: option.split intro!: valid_if valid_err valid_bnd [where R = "\<lambda>_ _. True"] valid_upd valid_gets valid_ret valid_lift_opt)
qed

section \<open>The operations on the view\<close>

text \<open>The view as one array of bytes, the address space of an image.\<close>

definition IMAGE_BYTES :: nat where
  "IMAGE_BYTES = unat TOTAL_BLOCKS * BLOCK_SIZE"

definition bview :: "'z cache_state_scheme \<Rightarrow> nat \<Rightarrow> u8" where
  "bview s o' = (if o' < IMAGE_BYTES then vblock s (word_of_nat (o' div BLOCK_SIZE)) ! (o' mod BLOCK_SIZE) else 0)"

definition block_at :: "(nat \<Rightarrow> u8) \<Rightarrow> nat \<Rightarrow> bytes" where
  "block_at v b = map (\<lambda>i. v (b * BLOCK_SIZE + i)) [0..<BLOCK_SIZE]"

definition set_block :: "(nat \<Rightarrow> u8) \<Rightarrow> nat \<Rightarrow> bytes \<Rightarrow> nat \<Rightarrow> u8" where
  "set_block v b d = (\<lambda>o'. if o' div BLOCK_SIZE = b then d ! (o' mod BLOCK_SIZE) else v o')"

lemma BLOCK_SIZE_pos [simp]: "0 < BLOCK_SIZE"
  by (simp add: BLOCK_SIZE_def)

lemma length_block_at [simp]: "length (block_at v b) = BLOCK_SIZE"
  by (simp add: block_at_def)

lemma div_less_blocks: "o' < IMAGE_BYTES \<Longrightarrow> o' div BLOCK_SIZE < unat TOTAL_BLOCKS"
  by (simp add: IMAGE_BYTES_def less_mult_imp_div_less)

lemma word_block: "n < unat TOTAL_BLOCKS \<Longrightarrow> unat (word_of_nat n :: u32) = n"
  by (simp add: TOTAL_BLOCKS_def unat_of_nat)

lemma length_vblock:
  assumes "cache_inv s"
  shows "length (vblock s b) = BLOCK_SIZE"
proof -
  have ok: "entries_ok (entries s) (disk_block (mach s))" using assms by (simp add: cache_inv_def)
  have "length (disk_block (mach s) b) = BLOCK_SIZE"
    using assms root_store.length_block_of by (simp add: cache_inv_def disk_block_def BLOCK_SIZE_def)
  then show ?thesis
    unfolding vblock_def by (rule_tac entry_view_cases [OF ok, of b]) (simp_all add: entries_okD [OF ok])
qed

lemma vblock_nth:
  assumes "cache_inv s" and "i < length (entries s)"
  shows "vblock s (ce_block (entries s ! i)) = ce_data (entries s ! i)"
  unfolding vblock_def
  by (rule entry_view_nth) (use assms in \<open>simp_all add: cache_inv_def entries_ok_def\<close>)

lemma block_at_bview:
  assumes "cache_inv s" and "b < TOTAL_BLOCKS"
  shows "block_at (bview s) (unat b) = vblock s b"
proof (rule nth_equalityI)
  fix i assume "i < length (block_at (bview s) (unat b))"
  then have i: "i < BLOCK_SIZE" by simp
  have "unat b * BLOCK_SIZE + i < IMAGE_BYTES"
  proof -
    have "unat b * BLOCK_SIZE + i < (unat b + 1) * BLOCK_SIZE" using i by simp
    also have "\<dots> \<le> IMAGE_BYTES" unfolding IMAGE_BYTES_def using assms(2)
      by (intro mult_le_mono1) (simp add: word_less_nat_alt)
    finally show ?thesis .
  qed
  then show "block_at (bview s) (unat b) ! i = vblock s b ! i"
    using i by (simp add: block_at_def bview_def)
qed (simp add: length_vblock [OF assms(1)])

lemma bview_same_view: "same_view s t \<Longrightarrow> bview t = bview s"
  by (auto simp: fun_eq_iff bview_def same_view_def word_less_nat_alt word_block dest: div_less_blocks)

lemma bview_update:
  assumes "b < TOTAL_BLOCKS" and "\<And>b'. b' < TOTAL_BLOCKS \<Longrightarrow> vblock t b' = (if b' = b then d else vblock s b')"
  shows "bview t = set_block (bview s) (unat b) d"
proof
  fix o'
  show "bview t o' = set_block (bview s) (unat b) d o'"
  proof (cases "o' < IMAGE_BYTES")
    case True
    let ?b' = "word_of_nat (o' div BLOCK_SIZE) :: u32"
    have u: "unat ?b' = o' div BLOCK_SIZE" using div_less_blocks [OF True] by (rule word_block)
    then have "?b' < TOTAL_BLOCKS" using div_less_blocks [OF True] by (simp add: word_less_nat_alt)
    moreover have "?b' = b \<longleftrightarrow> o' div BLOCK_SIZE = unat b" using u by (metis word_unat_eq_iff)
    ultimately show ?thesis using assms(2) [of ?b'] True by (simp add: bview_def set_block_def)
  next
    case False
    have "o' div BLOCK_SIZE \<noteq> unat b"
    proof
      assume "o' div BLOCK_SIZE = unat b"
      then have "o' < (unat b + 1) * BLOCK_SIZE"
        by (metis BLOCK_SIZE_pos add.commute div_less_iff_less_mult less_add_one)
      also have "\<dots> \<le> IMAGE_BYTES" unfolding IMAGE_BYTES_def using assms(1)
        by (intro mult_le_mono1) (simp add: word_less_nat_alt)
      finally show False using False by simp
    qed
    then show ?thesis using False by (simp add: bview_def set_block_def)
  qed
qed

text \<open>\<open>holds h v r s\<close>: the cache is consistent, shows the bytes \<open>v\<close> and the rest of the state is \<open>r\<close>; with
  \<open>h\<close> set, the hardware is healthy.\<close>

definition holds :: "bool \<Rightarrow> (nat \<Rightarrow> u8) \<Rightarrow> 'z \<Rightarrow> 'z cache_state_scheme \<Rightarrow> bool" where
  "holds h v r s \<longleftrightarrow> cache_inv s \<and> bview s = v \<and> cache_state.more s = r \<and> (h \<longrightarrow> healthy (mach s))"

lemma cache_index_spec:
  "valid (holds h v r) (cache_index b)
     (\<lambda>i s. holds h v r s \<and> b < TOTAL_BLOCKS \<and> i < length (entries s) \<and> ce_block (entries s ! i) = b)
     (\<lambda>e s. holds h v r s \<and> e = Io \<and> (h \<longrightarrow> \<not> b < TOTAL_BLOCKS))"
proof (rule validI)
  fix s i t assume s: "holds h v r s" and ix: "cache_index b s = (Inr i, t)"
  have inv: "cache_inv s" using s by (simp add: holds_def)
  from cache_index_ok [OF inv ix]
  have ok: "cache_ok s t" and i: "b < TOTAL_BLOCKS" "i < length (entries t)" "ce_block (entries t ! i) = b" by auto
  have "healthy (mach t)" if h using cache_index_success [OF inv _ i(1)] s that ix by (auto simp: holds_def)
  then show "holds h v r t \<and> b < TOTAL_BLOCKS \<and> i < length (entries t) \<and> ce_block (entries t ! i) = b"
    using ok i s bview_same_view [of s t] by (simp add: holds_def cache_ok_def same_rest_def)
next
  fix s e t assume s: "holds h v r s" and ix: "cache_index b s = (Inl e, t)"
  have inv: "cache_inv s" using s by (simp add: holds_def)
  have io: "e = Io" using validD_err [OF cache_index_err _ ix] by simp
  have ok: "cache_ok s t" using cache_index_ok [OF inv ix] by simp
  have b: "\<not> b < TOTAL_BLOCKS" if h using cache_index_success [OF inv] s that ix by (fastforce simp: holds_def)
  then have "t = s" if h using that ix by (simp add: cache_index_def err_def not_less)
  then show "holds h v r t \<and> e = Io \<and> (h \<longrightarrow> \<not> b < TOTAL_BLOCKS)"
    using ok io s b bview_same_view [of s t] by (auto simp: holds_def cache_ok_def same_rest_def)
qed

lemma cache_get_spec:
  "valid (holds h v r) (cache_get b)
     (\<lambda>d s. holds h v r s \<and> b < TOTAL_BLOCKS \<and> d = block_at v (unat b))
     (\<lambda>e s. holds h v r s \<and> e = Io \<and> (h \<longrightarrow> \<not> b < TOTAL_BLOCKS))"
  unfolding cache_get_def
proof (rule valid_bnd [OF cache_index_spec], rule valid_gets)
  fix i s assume a: "holds h v r s \<and> b < TOTAL_BLOCKS \<and> i < length (entries s) \<and> ce_block (entries s ! i) = b"
  then have inv: "cache_inv s" and v: "v = bview s" by (auto simp: holds_def)
  have "ce_data (entries s ! i) = vblock s b" using vblock_nth [OF inv, of i] a by auto
  then show "holds h v r s \<and> b < TOTAL_BLOCKS \<and> ce_data (entries s ! i) = block_at v (unat b)"
    using a block_at_bview [OF inv] by (simp add: v)
qed

lemma cache_get_mut_spec:
  assumes f: "\<And>d. length d = BLOCK_SIZE \<Longrightarrow> length (f d) = BLOCK_SIZE"
  shows "valid (holds h v r) (cache_get_mut b f)
     (\<lambda>_ s. holds h (set_block v (unat b) (f (block_at v (unat b)))) r s \<and> b < TOTAL_BLOCKS)
     (\<lambda>e s. holds h v r s \<and> e = Io \<and> (h \<longrightarrow> \<not> b < TOTAL_BLOCKS))"
  unfolding cache_get_mut_def
proof (rule valid_bnd [OF cache_index_spec], rule valid_upd)
  fix i s assume a: "holds h v r s \<and> b < TOTAL_BLOCKS \<and> i < length (entries s) \<and> ce_block (entries s ! i) = b"
  then have inv: "cache_inv s" and v: "v = bview s" and b: "b < TOTAL_BLOCKS" and i: "i < length (entries s)"
    and eb: "ce_block (entries s ! i) = b" by (auto simp: holds_def)
  have ok: "entries_ok (entries s) (disk_block (mach s))" using inv by (simp add: cache_inv_def)
  have "ce_data (entries s ! i) = vblock s b" using vblock_nth [OF inv, of i] a by auto
  then have d: "ce_data (entries s ! i) = block_at v (unat b)" using block_at_bview [OF inv b] by (simp add: v)
  let ?e = "(entries s ! i)\<lparr>ce_dirty := True, ce_data := f (ce_data (entries s ! i))\<rparr>"
  let ?t = "s\<lparr>entries := (entries s)[i := ?e]\<rparr>"
  have "entries_ok (entries ?t) (disk_block (mach ?t))"
    using entries_ok_update_same [OF ok i, of ?e] f [OF entries_okD(2) [OF ok i]] by simp
  then have inv': "cache_inv ?t" using inv by (simp add: cache_inv_def)
  have "vblock ?t b' = (if b' = b then f (block_at v (unat b)) else vblock s b')" for b'
    using entry_view_update_same [OF ok i, of ?e b'] eb d by (simp add: vblock_def)
  then have "bview ?t = set_block (bview s) (unat b) (f (block_at v (unat b)))" by (rule bview_update [OF b])
  then show "holds h (set_block v (unat b) (f (block_at v (unat b)))) r ?t \<and> b < TOTAL_BLOCKS"
    using a inv' by (simp add: holds_def v)
qed

lemma flush_entry_step:
  assumes "cache_inv s" and "i < length (entries s)" and "flush_entry i s = (r, t)"
  shows "cache_ok s t" "length (entries t) = length (entries s)"
    "\<And>j. j \<noteq> i \<Longrightarrow> entries t ! j = entries s ! j"
    "r = Inr () \<Longrightarrow> \<not> ce_dirty (entries t ! i)"
    "healthy (mach s) \<Longrightarrow> r = Inr () \<and> healthy (mach t)"
proof -
  let ?e = "entries s ! i"
  have "cache_ok s t \<and> length (entries t) = length (entries s) \<and> (\<forall>j. j \<noteq> i \<longrightarrow> entries t ! j = entries s ! j) \<and>
    (r = Inr () \<longrightarrow> \<not> ce_dirty (entries t ! i)) \<and> (healthy (mach s) \<longrightarrow> r = Inr () \<and> healthy (mach t))"
  proof (cases "ce_dirty ?e")
    case False
    then have "r = Inr ()" "t = s" using assms(3) by (auto simp: flush_entry_def gets_def bnd_def ret_def)
    then show ?thesis using False assms(1) by (simp add: cache_ok_refl)
  next
    case True
    obtain r1 s1 where w: "write_disk_block (ce_block ?e) (ce_data ?e) s = (r1, s1)" by fastforce
    note wb = write_back_ok [OF assms(1,2) True w]
    have eq: "flush_entry i s = (case r1 of Inl e \<Rightarrow> (Inl e, s1) | Inr _ \<Rightarrow>
        (Inr (), s1\<lparr>entries := (entries s1)[i := (entries s1 ! i)\<lparr>ce_dirty := False\<rparr>]\<rparr>))"
      using True w by (simp add: flush_entry_def gets_def bnd_def upd_def)
    have b: "ce_block ?e < TOTAL_BLOCKS"
      using assms(1) entries_okD(1) [OF _ assms(2)] unfolding cache_inv_def by blast
    have h: "r1 = Inr () \<and> healthy (mach s1)" if "healthy (mach s)"
      using write_block_success [OF that b, of "ce_data ?e"] w by auto
    show ?thesis
    proof (cases r1)
      case (Inl e)
      then show ?thesis using eq assms(3) wb(1,2) h by auto
    next
      case (Inr x)
      let ?n = "(entries s1 ! i)\<lparr>ce_dirty := False\<rparr>"
      have t: "r = Inr ()" "t = s1\<lparr>entries := (entries s1)[i := ?n]\<rparr>" using eq assms(3) Inr by auto
      have inv1: "cache_inv s1" using wb(1) by (simp add: cache_ok_def)
      then have ok1: "entries_ok (entries s1) (disk_block (mach s1))" by (simp add: cache_inv_def)
      have i1: "i < length (entries s1)" using wb(2) assms(2) by simp
      have "entries_ok (entries t) (disk_block (mach t))"
        using entries_ok_update_same [OF ok1 i1, of ?n] entries_okD(2) [OF ok1 i1] wb(2) wb(4) [OF Inr] by (simp add: t)
      moreover have "vblock t b' = vblock s1 b'" for b'
        using entry_view_update_same [OF ok1 i1, of ?n b'] vblock_nth [OF inv1 i1] by (simp add: vblock_def t)
      ultimately have "cache_ok s1 t" using inv1 by (simp add: cache_ok_def cache_inv_def same_view_def t)
      from cache_ok_trans [OF wb(1) this] show ?thesis using t wb(2) i1 h by simp
    qed
  qed
  then show "cache_ok s t" "length (entries t) = length (entries s)"
    "\<And>j. j \<noteq> i \<Longrightarrow> entries t ! j = entries s ! j"
    "r = Inr () \<Longrightarrow> \<not> ce_dirty (entries t ! i)"
    "healthy (mach s) \<Longrightarrow> r = Inr () \<and> healthy (mach t)" by blast+
qed

lemma flush_entry_err: "valid (\<lambda>_. True) (flush_entry i) (\<lambda>_ _. True) (\<lambda>e _. e = Io)"
  unfolding flush_entry_def
  by (intro valid_bnd [where R = "\<lambda>_ _. True"] valid_gets valid_if write_disk_block_err valid_upd valid_ret) simp_all

lemma all_clean_disk:
  assumes "cache_inv s" and "\<forall>j < length (entries s). \<not> ce_dirty (entries s ! j)"
  shows "disk_block (mach s) b = vblock s b"
proof -
  have ok: "entries_ok (entries s) (disk_block (mach s))" using assms(1) by (simp add: cache_inv_def)
  show ?thesis
  proof (rule entry_view_cases [OF ok, of b])
    fix j assume "j < length (entries s)" "ce_block (entries s ! j) = b"
      "entry_view (entries s) (disk_block (mach s)) b = ce_data (entries s ! j)"
    then show ?thesis using assms(2) entries_okD(3) [OF ok, of j] by (simp add: vblock_def)
  qed (simp add: vblock_def)
qed

lemma cache_flush_spec:
  "valid (holds h v r) cache_flush
     (\<lambda>_ s. holds h v r s \<and> dirty_blocks s = 0 \<and> (\<forall>b < TOTAL_BLOCKS. disk_block (mach s) b = block_at v (unat b)))
     (\<lambda>e s. holds h v r s \<and> e = Io \<and> \<not> h)"
  unfolding cache_flush_def
proof (rule valid_bnd [where R = "\<lambda>n s. holds h v r s \<and> length (entries s) = n"])
  show "valid (holds h v r) (gets (\<lambda>s. length (entries s))) (\<lambda>n s. holds h v r s \<and> length (entries s) = n)
     (\<lambda>e s. holds h v r s \<and> e = Io \<and> \<not> h)" by (rule valid_gets) simp
  fix n
  let ?P = "\<lambda>i s. holds h v r s \<and> n = length (entries s) \<and> (\<forall>j < i. \<not> ce_dirty (entries s ! j))"
  have "valid (?P 0) (for_each [0..<n] flush_entry) (\<lambda>_. ?P n) (\<lambda>e s. holds h v r s \<and> e = Io \<and> \<not> h)"
  proof (rule valid_for_upt, rule validI)
    fix i s x t assume i: "i < n" and P: "?P i s" and f: "flush_entry i s = (Inr x, t)"
    have inv: "cache_inv s" and i': "i < length (entries s)" using P i by (simp_all add: holds_def)
    note st = flush_entry_step [OF inv i' f]
    have "holds h v r t" using st(1,5) P bview_same_view [of s t] by (auto simp: holds_def cache_ok_def same_rest_def)
    moreover have "\<not> ce_dirty (entries t ! j)" if "j < Suc i" for j
      using st(3) [of j] st(4) P that by (cases "j = i") auto
    ultimately show "?P (Suc i) t" using st(2) P by simp
  next
    fix i s e t assume i: "i < n" and P: "?P i s" and f: "flush_entry i s = (Inl e, t)"
    have inv: "cache_inv s" and i': "i < length (entries s)" using P i by (simp_all add: holds_def)
    note st = flush_entry_step [OF inv i' f]
    have "e = Io" using validD_err [OF flush_entry_err _ f] by simp
    moreover have "\<not> h" using st(5) P by (auto simp: holds_def)
    ultimately show "holds h v r t \<and> e = Io \<and> \<not> h"
      using st(1) P bview_same_view [of s t] by (auto simp: holds_def cache_ok_def same_rest_def)
  qed
  then show "valid (\<lambda>s. holds h v r s \<and> length (entries s) = n) (for_each [0..<n] flush_entry)
     (\<lambda>_ s. holds h v r s \<and> dirty_blocks s = 0 \<and> (\<forall>b < TOTAL_BLOCKS. disk_block (mach s) b = block_at v (unat b)))
     (\<lambda>e s. holds h v r s \<and> e = Io \<and> \<not> h)"
  proof (rule valid_weaken)
    fix x s assume P: "?P n s"
    then have inv: "cache_inv s" and v: "v = bview s" and c: "\<forall>j < length (entries s). \<not> ce_dirty (entries s ! j)"
      by (auto simp: holds_def)
    have "filter ce_dirty (entries s) = []" using c by (auto simp: filter_empty_conv in_set_conv_nth)
    then show "holds h v r s \<and> dirty_blocks s = 0 \<and> (\<forall>b < TOTAL_BLOCKS. disk_block (mach s) b = block_at v (unat b))"
      using P all_clean_disk [OF inv c] block_at_bview [OF inv] by (simp add: dirty_blocks_def v)
  qed auto
qed

lemma remove_clean:
  assumes ok: "entries_ok es dk" and i: "i < length es" and c: "\<not> ce_dirty (es ! i)"
  shows "entries_ok (remove_nth i es) dk" "entry_view (remove_nth i es) dk b = entry_view es dk b"
    "filter ce_dirty (remove_nth i es) = filter ce_dirty es" "length (remove_nth i es) = length es - 1"
proof -
  have es: "es = take i es @ es ! i # drop (Suc i) es" using i by (rule id_take_nth_drop)
  have fil: "filter p (take i es @ es ! i # drop (Suc i) es) = filter p es" for p using es by simp
  show "filter ce_dirty (remove_nth i es) = filter ce_dirty es"
    using fil [of ce_dirty] c by (simp add: remove_nth_def)
  show "length (remove_nth i es) = length es - 1" using i by (simp add: remove_nth_def)
  have sub: "set (remove_nth i es) \<subseteq> set es"
    using set_take_subset [of i es] set_drop_subset [of "Suc i" es] by (auto simp: remove_nth_def)
  have "distinct (map ce_block (take i es @ es ! i # drop (Suc i) es))" using ok es by (simp add: entries_ok_def)
  then have d: "distinct (map ce_block (remove_nth i es))"
    and nin: "ce_block (es ! i) \<notin> ce_block ` set (remove_nth i es)" by (auto simp: remove_nth_def)
  show "entries_ok (remove_nth i es) dk"
    using ok d sub \<open>length (remove_nth i es) = length es - 1\<close> by (auto simp: entries_ok_def)
  show "entry_view (remove_nth i es) dk b = entry_view es dk b"
  proof (cases "b = ce_block (es ! i)")
    case True
    then have "entry_view es dk b = ce_data (es ! i)"
      using ok i by (intro entry_view_nth) (simp_all add: entries_ok_def)
    then show ?thesis using True nin entries_okD(3) [OF ok i c] by (simp add: entry_view_notin)
  next
    case False
    have "find p (take i es @ es ! i # drop (Suc i) es) = find p es" for p using es by simp
    from this [of "\<lambda>e. ce_block e = b"] have "find (\<lambda>e. ce_block e = b) (remove_nth i es) = find (\<lambda>e. ce_block e = b) es"
      using False by (auto simp: remove_nth_def find_append split: option.splits)
    then show ?thesis by (simp add: entry_view_def)
  qed
qed

lemma trim_loop_spec:
  assumes "trim_loop keep es r = (es', r')" and "entries_ok es dk"
  shows "entries_ok es' dk \<and> (\<forall>b. entry_view es' dk b = entry_view es dk b) \<and>
    filter ce_dirty es' = filter ce_dirty es \<and> r' + length es' = r + length es \<and>
    (length es' \<le> keep \<or> (\<forall>e \<in> set es'. ce_dirty e \<or> ce_block e = 0))"
  using assms
proof (induction keep es r rule: trim_loop.induct)
  case (1 keep es r)
  show ?case
  proof (cases "length es > keep")
    case False
    then show ?thesis using "1.prems" by (auto simp: trim_loop.simps [of keep es])
  next
    case True
    show ?thesis
    proof (cases "trim_victim es")
      case None
      then have "filter (\<lambda>(_, e). \<not> ce_dirty e \<and> ce_block e \<noteq> 0) (enumerate 0 es) = []"
        by (simp add: trim_victim_def)
      then have "\<forall>i < length es. ce_dirty (es ! i) \<or> ce_block (es ! i) = 0"
        by (auto simp: filter_empty_conv in_set_enumerate_eq)
      then have "\<forall>e \<in> set es. ce_dirty e \<or> ce_block e = 0" by (simp add: all_set_conv_all_nth)
      then show ?thesis using "1.prems" True None by (auto simp: trim_loop.simps [of keep es])
    next
      case (Some i)
      have i: "i < length es" "\<not> ce_dirty (es ! i)" using trim_victim_Some [OF Some] by auto
      note rc = remove_clean [OF "1.prems"(2) i]
      have "trim_loop keep (remove_nth i es) (Suc r) = (es', r')"
        using "1.prems"(1) True Some by (simp add: trim_loop.simps [of keep es])
      from "1.IH" [OF True Some this rc(1)] show ?thesis using rc(2-4) i(1) by auto
    qed
  qed
qed

lemma cache_trim_clean_spec:
  "valid (\<lambda>s. holds h v r s \<and> filter ce_dirty (entries s) = D \<and> length (entries s) = n) (cache_trim_clean keep)
     (\<lambda>k s. holds h v r s \<and> filter ce_dirty (entries s) = D \<and> k = (n - length (entries s)) * BLOCK_SIZE \<and>
        (length (entries s) \<le> keep \<or> (\<forall>e \<in> set (entries s). ce_dirty e \<or> ce_block e = 0)))
     (\<lambda>_ _. False)"
proof (rule validI)
  fix s k t assume s: "holds h v r s \<and> filter ce_dirty (entries s) = D \<and> length (entries s) = n"
    and tr: "cache_trim_clean keep s = (Inr k, t)"
  obtain es' r' where l: "trim_loop keep (entries s) 0 = (es', r')" by fastforce
  have inv: "cache_inv s" and ok: "entries_ok (entries s) (disk_block (mach s))" using s by (simp_all add: holds_def cache_inv_def)
  have t: "t = s\<lparr>entries := es'\<rparr>" "k = min (r' * BLOCK_SIZE) (2 ^ 64 - 1)"
    using tr l by (simp_all add: cache_trim_clean_def)
  note sp = trim_loop_spec [OF l ok]
  have "same_view s t" using sp by (simp add: same_view_def vblock_def t)
  then have ht: "holds h v r t" using sp s bview_same_view [of s t] by (simp add: holds_def cache_inv_def t)
  have "r' \<le> 64" using sp ok by (simp add: entries_ok_def CACHE_SLOTS_def)
  moreover have "r' = n - length (entries t)" using sp s t(1) by auto
  ultimately have "k = (n - length (entries t)) * BLOCK_SIZE" using t(2) by (simp add: BLOCK_SIZE_def)
  then show "holds h v r t \<and> filter ce_dirty (entries t) = D \<and> k = (n - length (entries t)) * BLOCK_SIZE \<and>
        (length (entries t) \<le> keep \<or> (\<forall>e \<in> set (entries t). ce_dirty e \<or> ce_block e = 0))"
    using ht sp s t by simp
qed (simp add: cache_trim_clean_def split: prod.splits)

section \<open>The contract of a block store\<close>

locale block_store =
  fixes get :: "u32 \<Rightarrow> ('s, fs_error, bytes) sm"
    and getm :: "u32 \<Rightarrow> (bytes \<Rightarrow> bytes) \<Rightarrow> ('s, fs_error, unit) sm"
    and st :: "bool \<Rightarrow> (nat \<Rightarrow> u8) \<Rightarrow> 'r \<Rightarrow> 's \<Rightarrow> bool"
  assumes get_spec: "valid (st h v r) (get b)
      (\<lambda>d s. st h v r s \<and> b < TOTAL_BLOCKS \<and> d = block_at v (unat b))
      (\<lambda>e s. st h v r s \<and> e = Io \<and> (h \<longrightarrow> \<not> b < TOTAL_BLOCKS))"
    and getm_spec: "(\<And>d. length d = BLOCK_SIZE \<Longrightarrow> length (f d) = BLOCK_SIZE) \<Longrightarrow>
      valid (st h v r) (getm b f)
        (\<lambda>_ s. st h (set_block v (unat b) (f (block_at v (unat b)))) r s \<and> b < TOTAL_BLOCKS)
        (\<lambda>e s. st h v r s \<and> e = Io \<and> (h \<longrightarrow> \<not> b < TOTAL_BLOCKS))"

interpretation image_cache: block_store cache_get cache_get_mut holds
  by unfold_locales (fact cache_get_spec, rule cache_get_mut_spec)

section \<open>Properties\<close>

lemma block_at_set_block:
  assumes "length d = BLOCK_SIZE"
  shows "block_at (set_block v b d) b' = (if b' = b then d else block_at v b')"
  using assms by (auto simp: block_at_def set_block_def intro!: nth_equalityI)

text \<open>A cache just created over a blank disk, for the concrete instances below.\<close>

definition blank_cache :: cache_state where
  "blank_cache = \<lparr>entries = fst cache_new, clock = snd cache_new, mach =
     \<lparr>usb_storage_devices = [], nvme_devices = [], ahci_devices = [], dev_present = (\<lambda>_. True),
     dev_sectors = (\<lambda>_. 20480), media = (\<lambda>_ _. replicate 512 0), rd_fault = (\<lambda>_ _. False), wr_fault = (\<lambda>_ _. False),
     fl_fault = (\<lambda>_. False),
     root_slot = Some \<lparr>rt_device = Ide Ide0Slave, rt_base_lba = 2048, rt_sectors = 12288, rt_layout = MbrCoolFs\<rparr>\<rparr>\<rparr>"

lemma blank_cache_holds: "holds True (bview blank_cache) () blank_cache"
  by (simp add: holds_def blank_cache_def cache_new_def cache_inv_def media_wf_def entries_ok_def healthy_def
      resolved_def TOTAL_BLOCKS_def)

text \<open>On healthy hardware a block written through the cache is what the next read of it returns, and a read
  of any other block returns what was there before. This holds whatever is cached, dirty or evicted in between,
  and neither call fails on a block of the image.\<close>

theorem cache_write_then_read:
  assumes "\<And>d. length d = BLOCK_SIZE \<Longrightarrow> length (f d) = BLOCK_SIZE"
    and "b < TOTAL_BLOCKS" and "b' < TOTAL_BLOCKS"
  shows "valid (holds True v r) (bnd (cache_get_mut b f) (\<lambda>_. cache_get b'))
    (\<lambda>d s. d = (if b' = b then f (block_at v (unat b)) else block_at v (unat b')) \<and>
       holds True (set_block v (unat b) (f (block_at v (unat b)))) r s)
    (\<lambda>_ _. False)"
proof -
  have "length (f (block_at v (unat b))) = BLOCK_SIZE" by (rule assms(1)) simp
  note bs = block_at_set_block [OF this, of v "unat b" "unat b'"]
  have "valid (holds True v r) (bnd (cache_get_mut b f) (\<lambda>_. cache_get b'))
    (\<lambda>d s. holds True (set_block v (unat b) (f (block_at v (unat b)))) r s \<and> b' < TOTAL_BLOCKS \<and>
       d = block_at (set_block v (unat b) (f (block_at v (unat b)))) (unat b'))
    (\<lambda>_ _. False)"
    by (rule valid_bnd [OF valid_weaken [OF cache_get_mut_spec [OF assms(1)]] valid_weaken [OF cache_get_spec]])
      (use assms(2,3) in auto)
  then show ?thesis using bs by (elim valid_weaken) (auto simp: word_unat_eq_iff)
qed

theorem cache_write_then_read_witness:
  "holds True (bview blank_cache) () blank_cache \<and>
   valid (holds True (bview blank_cache) ()) (bnd (cache_get_mut 3 (\<lambda>d. d[0 := 7])) (\<lambda>_. cache_get 4))
    (\<lambda>d s. d = block_at (bview blank_cache) 4 \<and>
       holds True (set_block (bview blank_cache) 3 ((block_at (bview blank_cache) 3)[0 := 7])) () s) (\<lambda>_ _. False)"
  using cache_write_then_read [of "\<lambda>d. d[0 := 7]" 3 4 "bview blank_cache" "()"] blank_cache_holds
  by (simp add: TOTAL_BLOCKS_def)

text \<open>C30: A successful \<open>flush\<close> makes everything durable: no entry is dirty, every block of the image is on the
  root disk exactly as the cache shows it, and an empty cache started over the same disk shows the same bytes.
  A failing one reports \<open>Io\<close>, happens only on faulty hardware and loses nothing: the view is the same.\<close>

theorem cache_flush_durable:
  "valid (holds h v r) cache_flush
     (\<lambda>_ s. holds h v r s \<and> dirty_blocks s = 0 \<and>
        (\<forall>b < TOTAL_BLOCKS. disk_block (mach s) b = block_at v (unat b)) \<and>
        holds h v r (s\<lparr>entries := [], clock := 0\<rparr>))
     (\<lambda>e s. holds h v r s \<and> e = Io \<and> \<not> h)"
proof (rule valid_weaken [OF cache_flush_spec])
  fix x s
  assume a: "holds h v r s \<and> dirty_blocks s = 0 \<and> (\<forall>b < TOTAL_BLOCKS. disk_block (mach s) b = block_at v (unat b))"
  let ?t = "s\<lparr>entries := [], clock := 0\<rparr>"
  have inv: "cache_inv s" and v: "bview s = v" using a by (simp_all add: holds_def)
  have "same_view s ?t"
    using a block_at_bview [OF inv] by (simp add: same_view_def vblock_def entry_view_def v)
  moreover have "cache_inv ?t" using inv by (simp add: cache_inv_def entries_ok_def)
  ultimately have "holds h v r ?t" using a bview_same_view [of s ?t] by (simp add: holds_def)
  with a show "holds h v r s \<and> dirty_blocks s = 0 \<and>
        (\<forall>b < TOTAL_BLOCKS. disk_block (mach s) b = block_at v (unat b)) \<and> holds h v r ?t" by blast
qed auto

theorem cache_flush_durable_witness:
  "holds True (bview blank_cache) () blank_cache \<and>
   valid (holds True (bview blank_cache) ()) cache_flush
     (\<lambda>_ s. disk_block (mach s) 2 = block_at (bview blank_cache) 2 \<and>
        holds True (bview blank_cache) () (s\<lparr>entries := [], clock := 0\<rparr>))
     (\<lambda>_ _. False)"
  by (intro conjI blank_cache_holds valid_weaken [OF cache_flush_durable]) (auto simp: TOTAL_BLOCKS_def)

text \<open>Under any hardware fault a cached read returns the current content of the block or fails with
  \<open>Io\<close>; in both cases no byte the cache shows has changed, so neither filling a slot nor evicting a dirty block
  can lose or invent data. On healthy hardware it fails only for a block outside the image.\<close>

theorem cache_get_coherent:
  "valid (holds h v r) (cache_get b)
     (\<lambda>d s. holds h v r s \<and> d = block_at v (unat b)) 
     (\<lambda>e s. holds h v r s \<and> e = Io \<and> (h \<longrightarrow> TOTAL_BLOCKS \<le> b))"
  by (rule valid_weaken [OF cache_get_spec]) auto

theorem cache_get_coherent_witness:
  "holds True (bview blank_cache) () blank_cache \<and>
   valid (holds True (bview blank_cache) ()) (cache_get 5)
     (\<lambda>d s. holds True (bview blank_cache) () s \<and> d = block_at (bview blank_cache) 5) (\<lambda>_ _. False)"
  by (intro conjI blank_cache_holds valid_weaken [OF cache_get_coherent]) (auto simp: TOTAL_BLOCKS_def)

text \<open>\<open>trim_clean\<close> never fails, never drops a dirty entry and changes no byte the cache shows. It ends with at
  most \<open>keep\<close> entries or with nothing droppable left, and returns the number of bytes it released.\<close>

theorem cache_trim_clean_safe:
  "valid (\<lambda>s. holds h v r s \<and> filter ce_dirty (entries s) = D \<and> length (entries s) = n) (cache_trim_clean keep)
     (\<lambda>k s. holds h v r s \<and> filter ce_dirty (entries s) = D \<and> k = (n - length (entries s)) * BLOCK_SIZE \<and>
        (length (entries s) \<le> keep \<or> list_all (\<lambda>e. ce_dirty e \<or> ce_block e = 0) (entries s)))
     (\<lambda>_ _. False)"
  by (rule valid_weaken [OF cache_trim_clean_spec]) (auto simp: list_all_iff)

end
