(* ===== verification/CoolFS_Image.thy ===== *)
theory CoolFS_Image
  imports Block_Cache
begin

text \<open>
  The image of \<open>src/src/coolfs.rs\<close>: superblock, byte access across blocks, inodes, the block bitmap, allocation and
  the contents of inodes. The state is the block cache extended by the superblock. This theory holds the
  definitions and the contract of the byte loops; \<open>CoolFS_Inodes\<close> and \<open>CoolFS_Files\<close> relate the operations to the
  flat view, in which the image is an array of bytes, an inode is the decoding of 256 of them and a block is in use
  when its bit of the bitmap is set.
\<close>

section \<open>Constants and records\<close>

definition VERSION :: u32 where "VERSION = 1"
definition INODE_COUNT :: u32 where "INODE_COUNT = 512"
definition INODE_SIZE :: nat where "INODE_SIZE = 256"
definition DIRECT_BLOCKS :: nat where "DIRECT_BLOCKS = 48"
definition INDIRECT_ENTRIES :: nat where "INDIRECT_ENTRIES = BLOCK_SIZE div 4"
definition INODE_TABLE_START :: u32 where "INODE_TABLE_START = 1"
definition INODE_TABLE_BLOCKS :: u32 where
  "INODE_TABLE_BLOCKS = word_of_nat ((unat INODE_COUNT * INODE_SIZE + BLOCK_SIZE - 1) div BLOCK_SIZE)"
definition BITMAP_START :: u32 where "BITMAP_START = INODE_TABLE_START + INODE_TABLE_BLOCKS"
definition BITMAP_BLOCKS :: u32 where "BITMAP_BLOCKS = 1"
definition DATA_START :: u32 where "DATA_START = BITMAP_START + BITMAP_BLOCKS"
definition ROOT_INODE :: u32 where "ROOT_INODE = 0"
definition KIND_FREE :: u8 where "KIND_FREE = 0"
definition KIND_FILE :: u8 where "KIND_FILE = 1"
definition KIND_DIR :: u8 where "KIND_DIR = 2"
definition INODE_UID_OFFSET :: nat where "INODE_UID_OFFSET = 12 + DIRECT_BLOCKS * 4"
definition INODE_GID_OFFSET :: nat where "INODE_GID_OFFSET = INODE_UID_OFFSET + 4"
definition INODE_MODE_OFFSET :: nat where "INODE_MODE_OFFSET = INODE_GID_OFFSET + 4"
definition INODE_USED_BYTES :: nat where "INODE_USED_BYTES = INODE_MODE_OFFSET + 4"

text \<open>From \<open>src/src/security.rs\<close>; the modes are the octal 755, 644 and 777.\<close>

definition ROOT_UID :: u32 where "ROOT_UID = 0"
definition ROOT_GID :: u32 where "ROOT_GID = 0"
definition DEFAULT_DIR_MODE :: u16 where "DEFAULT_DIR_MODE = 493"
definition DEFAULT_FILE_MODE :: u16 where "DEFAULT_FILE_MODE = 420"
definition MODE_BITS :: u16 where "MODE_BITS = 511"

record superblock =
  total_blocks :: u32
  inode_count :: u32
  inode_table_start :: u32
  inode_table_blocks :: u32
  bitmap_start :: u32
  bitmap_blocks :: u32
  data_start :: u32
  root_inode :: u32

record inode =
  kind :: u8
  isize :: u32
  direct :: "u32 list"
  indirect :: u32
  iuid :: u32
  igid :: u32
  imode :: u16

record image_state = cache_state +
  sb :: superblock

section \<open>The superblock\<close>

definition superblock_new :: superblock where
  "superblock_new = \<lparr>total_blocks = TOTAL_BLOCKS, inode_count = INODE_COUNT,
     inode_table_start = INODE_TABLE_START, inode_table_blocks = INODE_TABLE_BLOCKS,
     bitmap_start = BITMAP_START, bitmap_blocks = BITMAP_BLOCKS, data_start = DATA_START, root_inode = ROOT_INODE\<rparr>"

text \<open>\<open>read_u32\<close> and \<open>write_u32\<close> at the end of \<open>coolfs.rs\<close>; the writer is only called in range.\<close>

definition cfs_read_u32 :: "bytes \<Rightarrow> nat \<Rightarrow> u32 option" where
  "cfs_read_u32 bs off =
     (if off + 4 > length bs then None else Some (from_le [bs ! off, bs ! (off + 1), bs ! (off + 2), bs ! (off + 3)]))"

definition cfs_write_u32 :: "bytes \<Rightarrow> nat \<Rightarrow> u32 \<Rightarrow> bytes" where
  "cfs_write_u32 bs off value = patch bs off (to_le 4 value)"

definition superblock_parse :: "bytes \<Rightarrow> superblock option" where
  "superblock_parse img =
     (if length img < BLOCK_SIZE \<or> rslice img 0 8 \<noteq> COOLFS_MAGIC then None else
      case (cfs_read_u32 img 8, cfs_read_u32 img 12, cfs_read_u32 img 24) of
        (Some version, Some block_size, Some inode_size) \<Rightarrow>
          if version \<noteq> VERSION \<or> block_size \<noteq> word_of_nat BLOCK_SIZE \<or> inode_size \<noteq> word_of_nat INODE_SIZE then None else
          (case (cfs_read_u32 img 16, cfs_read_u32 img 20, cfs_read_u32 img 28, cfs_read_u32 img 32) of
             (Some tb, Some ic, Some its, Some itb) \<Rightarrow>
               (case (cfs_read_u32 img 36, cfs_read_u32 img 40, cfs_read_u32 img 44, cfs_read_u32 img 48) of
                  (Some bs, Some bb, Some ds, Some ri) \<Rightarrow>
                    if tb = 0 \<or> ic = 0 \<or> ri \<ge> ic \<or> ds \<ge> tb \<or> bs + bb > ds then None
                    else Some \<lparr>total_blocks = tb, inode_count = ic, inode_table_start = its, inode_table_blocks = itb,
                               bitmap_start = bs, bitmap_blocks = bb, data_start = ds, root_inode = ri\<rparr>
                | _ \<Rightarrow> None)
           | _ \<Rightarrow> None)
      | _ \<Rightarrow> None)"

definition superblock_write :: "superblock \<Rightarrow> bytes \<Rightarrow> bytes" where
  "superblock_write q img =
     (let i0 = patch img 0 COOLFS_MAGIC;
          i1 = cfs_write_u32 i0 8 VERSION;
          i2 = cfs_write_u32 i1 12 (word_of_nat BLOCK_SIZE);
          i3 = cfs_write_u32 i2 16 (total_blocks q);
          i4 = cfs_write_u32 i3 20 (inode_count q);
          i5 = cfs_write_u32 i4 24 (word_of_nat INODE_SIZE);
          i6 = cfs_write_u32 i5 28 (inode_table_start q);
          i7 = cfs_write_u32 i6 32 (inode_table_blocks q);
          i8 = cfs_write_u32 i7 36 (bitmap_start q);
          i9 = cfs_write_u32 i8 40 (bitmap_blocks q);
          i10 = cfs_write_u32 i9 44 (data_start q)
      in cfs_write_u32 i10 48 (root_inode q))"

section \<open>Inodes as values\<close>

definition inode_free :: inode where
  "inode_free = \<lparr>kind = KIND_FREE, isize = 0, direct = replicate DIRECT_BLOCKS 0, indirect = 0,
     iuid = 0, igid = 0, imode = 0\<rparr>"

definition inode_new :: "u8 \<Rightarrow> inode" where
  "inode_new k = \<lparr>kind = k, isize = 0, direct = replicate DIRECT_BLOCKS 0, indirect = 0,
     iuid = ROOT_UID, igid = ROOT_GID,
     imode = (if k = KIND_DIR then DEFAULT_DIR_MODE else if k = KIND_FILE then DEFAULT_FILE_MODE else 0)\<rparr>"

definition new_with_metadata :: "u8 \<Rightarrow> u32 \<Rightarrow> u32 \<Rightarrow> u16 \<Rightarrow> inode" where
  "new_with_metadata k u g m = \<lparr>kind = k, isize = 0, direct = replicate DIRECT_BLOCKS 0, indirect = 0,
     iuid = u, igid = g, imode = and m MODE_BITS\<rparr>"

definition is_dir :: "inode \<Rightarrow> bool" where
  "is_dir i \<longleftrightarrow> kind i = KIND_DIR"

definition is_file :: "inode \<Rightarrow> bool" where
  "is_file i \<longleftrightarrow> kind i = KIND_FILE"

section \<open>Bytes of the image\<close>

definition fs_len :: "superblock \<Rightarrow> nat" where
  "fs_len q = unat (total_blocks q) * BLOCK_SIZE"

definition abs_parts :: "nat \<Rightarrow> nat \<Rightarrow> (u32 \<times> nat) option" where
  "abs_parts len off = (if off \<ge> len then None else Some (word_of_nat (off div BLOCK_SIZE), off mod BLOCK_SIZE))"

text \<open>The loops of \<open>read_into\<close>/\<open>read_vec\<close>, \<open>write_at\<close> and \<open>fill_at\<close> over the accessor of a block. Each step takes the
  part of the range inside one block, so the remaining length shrinks.\<close>

lemma abs_parts_Some:
  "abs_parts len off = Some (b, i) \<longleftrightarrow> off < len \<and> b = word_of_nat (off div BLOCK_SIZE) \<and> i = off mod BLOCK_SIZE"
  by (auto simp: abs_parts_def)

lemma mod_BLOCK_SIZE: "off mod BLOCK_SIZE < BLOCK_SIZE"
  by simp

function read_loop :: "(u32 \<Rightarrow> ('s, fs_error, bytes) sm) \<Rightarrow> nat \<Rightarrow> nat \<Rightarrow> nat \<Rightarrow> ('s, fs_error, bytes) sm" where
  "read_loop get len offset remaining =
     (if remaining = 0 then ret [] else
      case abs_parts len offset of
        None \<Rightarrow> err Io
      | Some (block, in_block) \<Rightarrow>
        let n = min remaining (BLOCK_SIZE - in_block) in
        bnd (get block) (\<lambda>data.
        bnd (read_loop get len (offset + n) (remaining - n)) (\<lambda>rest.
        ret (rslice data in_block (in_block + n) @ rest))))"
  by pat_completeness auto
termination
  by (relation "measure (\<lambda>(_, _, _, remaining). remaining)") (auto simp: abs_parts_Some)

function write_loop ::
  "(u32 \<Rightarrow> (bytes \<Rightarrow> bytes) \<Rightarrow> ('s, fs_error, unit) sm) \<Rightarrow> nat \<Rightarrow> nat \<Rightarrow> bytes \<Rightarrow> ('s, fs_error, unit) sm" where
  "write_loop getm len offset input =
     (if input = [] then ret () else
      case abs_parts len offset of
        None \<Rightarrow> err Io
      | Some (block, in_block) \<Rightarrow>
        let n = min (length input) (BLOCK_SIZE - in_block) in
        bnd (getm block (\<lambda>data. patch data in_block (take n input))) (\<lambda>_.
        write_loop getm len (offset + n) (drop n input)))"
  by pat_completeness auto
termination
  by (relation "measure (\<lambda>(_, _, _, input). length input)") (auto simp: abs_parts_Some)

function fill_loop ::
  "(u32 \<Rightarrow> (bytes \<Rightarrow> bytes) \<Rightarrow> ('s, fs_error, unit) sm) \<Rightarrow> nat \<Rightarrow> nat \<Rightarrow> nat \<Rightarrow> u8 \<Rightarrow> ('s, fs_error, unit) sm" where
  "fill_loop getm len offset remaining value =
     (if remaining = 0 then ret () else
      case abs_parts len offset of
        None \<Rightarrow> err Io
      | Some (block, in_block) \<Rightarrow>
        let n = min remaining (BLOCK_SIZE - in_block) in
        bnd (getm block (\<lambda>data. fill_range data in_block (in_block + n) value)) (\<lambda>_.
        fill_loop getm len (offset + n) (remaining - n) value))"
  by pat_completeness auto
termination
  by (relation "measure (\<lambda>(_, _, _, remaining, _). remaining)") (auto simp: abs_parts_Some)

declare read_loop.simps [simp del] write_loop.simps [simp del] fill_loop.simps [simp del]

text \<open>A range is rejected when its end overflows \<open>usize\<close> or lies beyond the file system.\<close>

definition in_range :: "superblock \<Rightarrow> nat \<Rightarrow> nat \<Rightarrow> bool" where
  "in_range q offset n \<longleftrightarrow> offset + n < 2 ^ 64 \<and> offset + n \<le> fs_len q"

definition read_into :: "nat \<Rightarrow> nat \<Rightarrow> (image_state, fs_error, bytes) sm" where
  "read_into offset n = bnd (gets sb) (\<lambda>q.
     if in_range q offset n then read_loop cache_get (fs_len q) offset n else err Io)"

definition read_vec :: "nat \<Rightarrow> nat \<Rightarrow> (image_state, fs_error, bytes) sm" where
  "read_vec offset n = bnd (gets sb) (\<lambda>q.
     if in_range q offset n then read_loop cache_get (fs_len q) offset n else err Io)"

definition write_at :: "nat \<Rightarrow> bytes \<Rightarrow> (image_state, fs_error, unit) sm" where
  "write_at offset input = bnd (gets sb) (\<lambda>q.
     if in_range q offset (length input) then write_loop cache_get_mut (fs_len q) offset input else err Io)"

definition fill_at :: "nat \<Rightarrow> nat \<Rightarrow> u8 \<Rightarrow> (image_state, fs_error, unit) sm" where
  "fill_at offset n value = bnd (gets sb) (\<lambda>q.
     if in_range q offset n then fill_loop cache_get_mut (fs_len q) offset n value else err Io)"

definition read_u8 :: "nat \<Rightarrow> (image_state, unit, u8) sm" where
  "read_u8 offset = bnd (gets sb) (\<lambda>q.
     bnd (lift_opt () (abs_parts (fs_len q) offset)) (\<lambda>(block, in_block).
     bnd (ok (cache_get block)) (\<lambda>data. ret (data ! in_block))))"

definition write_u8 :: "nat \<Rightarrow> u8 \<Rightarrow> (image_state, fs_error, unit) sm" where
  "write_u8 offset value = bnd (gets sb) (\<lambda>q.
     bnd (lift_opt Io (abs_parts (fs_len q) offset)) (\<lambda>(block, in_block).
     cache_get_mut block (\<lambda>data. data[in_block := value])))"

definition read_u32_at :: "nat \<Rightarrow> (image_state, unit, u32) sm" where
  "read_u32_at offset = bnd (ok (read_into offset 4)) (\<lambda>bytes. ret (from_le bytes))"

definition write_u32_at :: "nat \<Rightarrow> u32 \<Rightarrow> (image_state, fs_error, unit) sm" where
  "write_u32_at offset value = write_at offset (to_le 4 value)"

definition block_offset :: "u32 \<Rightarrow> (image_state, fs_error, nat) sm" where
  "block_offset block = bnd (gets sb) (\<lambda>q.
     if block \<ge> total_blocks q then err Io else ret (unat block * BLOCK_SIZE))"

definition zero_block :: "u32 \<Rightarrow> (image_state, fs_error, unit) sm" where
  "zero_block block = cache_get_mut block (map (\<lambda>_. 0))"

section \<open>Inodes in the image\<close>

definition inode_offset :: "superblock \<Rightarrow> u32 \<Rightarrow> nat option" where
  "inode_offset q idx =
     (let off = unat (inode_table_start q) * BLOCK_SIZE + unat idx * INODE_SIZE in
      if off < 2 ^ 64 \<and> off + INODE_SIZE \<le> fs_len q then Some off else None)"

definition unwrap_or :: "'a \<Rightarrow> ('s, unit, 'a) sm \<Rightarrow> ('s, 'e, 'a) sm" where
  "unwrap_or d m = bnd (attempt m) (\<lambda>r. ret (case r of Inl _ \<Rightarrow> d | Inr x \<Rightarrow> x))"

definition read_inode :: "u32 \<Rightarrow> (image_state, unit, inode) sm" where
  "read_inode idx = bnd (gets sb) (\<lambda>q.
     if idx \<ge> inode_count q then err () else
     bnd (lift_opt () (inode_offset q idx)) (\<lambda>off.
     bnd (read_u8 off) (\<lambda>k.
     bnd (read_u32_at (off + 4)) (\<lambda>size.
     bnd (map_each [0..<DIRECT_BLOCKS] (\<lambda>i. read_u32_at (off + 8 + i * 4))) (\<lambda>dir.
     bnd (read_u32_at (off + 8 + DIRECT_BLOCKS * 4)) (\<lambda>ind.
     bnd (unwrap_or 0 (read_u32_at (off + INODE_UID_OFFSET))) (\<lambda>u.
     bnd (unwrap_or 0 (read_u32_at (off + INODE_GID_OFFSET))) (\<lambda>g.
     bnd (unwrap_or 0 (bnd (read_u32_at (off + INODE_MODE_OFFSET)) (\<lambda>m. ret (and (ucast m) MODE_BITS)))) (\<lambda>m.
     ret ((inode_new k)\<lparr>isize := size, direct := dir, indirect := ind, iuid := u, igid := g,
       imode := (if k \<noteq> KIND_FREE \<and> m = 0
                 then (if k = KIND_DIR then DEFAULT_DIR_MODE else DEFAULT_FILE_MODE) else m)\<rparr>))))))))))"

definition write_inode :: "u32 \<Rightarrow> inode \<Rightarrow> (image_state, fs_error, unit) sm" where
  "write_inode idx i = bnd (gets sb) (\<lambda>q.
     bnd (lift_opt Io (inode_offset q idx)) (\<lambda>off.
     bnd (write_u8 off (kind i)) (\<lambda>_.
     bnd (fill_at (off + 1) 3 0) (\<lambda>_.
     bnd (write_u32_at (off + 4) (isize i)) (\<lambda>_.
     bnd (for_each [0..<DIRECT_BLOCKS] (\<lambda>j. write_u32_at (off + 8 + j * 4) (direct i ! j))) (\<lambda>_.
     bnd (write_u32_at (off + 8 + DIRECT_BLOCKS * 4) (indirect i)) (\<lambda>_.
     bnd (write_u32_at (off + INODE_UID_OFFSET) (iuid i)) (\<lambda>_.
     bnd (write_u32_at (off + INODE_GID_OFFSET) (igid i)) (\<lambda>_.
     bnd (write_u32_at (off + INODE_MODE_OFFSET) (ucast (and (imode i) MODE_BITS))) (\<lambda>_.
     fill_at (off + INODE_USED_BYTES) (INODE_SIZE - INODE_USED_BYTES) 0))))))))))"

section \<open>The block bitmap\<close>

definition bitmap_byte_bit :: "superblock \<Rightarrow> u32 \<Rightarrow> (nat \<times> u8) option" where
  "bitmap_byte_bit q block =
     (if block \<ge> total_blocks q then None else
      let byte = unat (bitmap_start q) * BLOCK_SIZE + unat block div 8 in
      if byte \<ge> fs_len q then None else Some (byte, push_bit (unat block mod 8) 1))"

definition block_used :: "u32 \<Rightarrow> (image_state, 'e, bool) sm" where
  "block_used block = bnd (gets sb) (\<lambda>q.
     unwrap_or True (bnd (lift_opt () (bitmap_byte_bit q block)) (\<lambda>(byte, mask).
       bnd (read_u8 byte) (\<lambda>value. ret (and value mask \<noteq> 0)))))"

definition set_block_used :: "u32 \<Rightarrow> bool \<Rightarrow> (image_state, fs_error, unit) sm" where
  "set_block_used block used = bnd (gets sb) (\<lambda>q.
     bnd (lift_opt Io (bitmap_byte_bit q block)) (\<lambda>(byte, mask).
     bnd (ok_or Io (read_u8 byte)) (\<lambda>value.
     write_u8 byte (if used then or value mask else and value (not mask)))))"

primrec alloc_loop :: "u32 list \<Rightarrow> (image_state, fs_error, u32) sm" where
  "alloc_loop [] = err NoSpace"
| "alloc_loop (block # blocks) = bnd (block_used block) (\<lambda>used.
     if \<not> used then
       bnd (set_block_used block True) (\<lambda>_.
       bnd (zero_block block) (\<lambda>_.
       ret block))
     else alloc_loop blocks)"

definition alloc_block :: "(image_state, fs_error, u32) sm" where
  "alloc_block = bnd (gets sb) (\<lambda>q.
     alloc_loop (map word_of_nat [unat (data_start q)..<unat (total_blocks q)]))"

definition free_block :: "u32 \<Rightarrow> (image_state, fs_error, unit) sm" where
  "free_block block = bnd (gets sb) (\<lambda>q.
     if block < data_start q \<or> block \<ge> total_blocks q then ret () else set_block_used block False)"

section \<open>Allocating inodes and their contents\<close>

primrec alloc_inode_loop :: "inode \<Rightarrow> u32 list \<Rightarrow> (image_state, fs_error, u32) sm" where
  "alloc_inode_loop new [] = err NoSpace"
| "alloc_inode_loop new (idx # idxs) =
     bnd (unwrap_or False (bnd (read_inode idx) (\<lambda>i. ret (kind i = KIND_FREE)))) (\<lambda>is_free.
     if is_free then bnd (write_inode idx new) (\<lambda>_. ret idx) else alloc_inode_loop new idxs)"

definition alloc_inode_with_metadata :: "u8 \<Rightarrow> u32 \<Rightarrow> u32 \<Rightarrow> u16 \<Rightarrow> (image_state, fs_error, u32) sm" where
  "alloc_inode_with_metadata k u g m = bnd (gets sb) (\<lambda>q.
     alloc_inode_loop (new_with_metadata k u g m) (map word_of_nat [1..<unat (inode_count q)]))"

definition needed_blocks :: "nat \<Rightarrow> nat" where
  "needed_blocks n = (n + BLOCK_SIZE - 1) div BLOCK_SIZE"

definition inode_data_blocks :: "inode \<Rightarrow> (image_state, fs_error, u32 list) sm" where
  "inode_data_blocks i =
     (let needed = needed_blocks (unat (isize i));
          dir = take (min needed DIRECT_BLOCKS) (direct i) in
      if 0 \<in> set dir then err Io else
      if needed > DIRECT_BLOCKS then
        if indirect i = 0 then err Io else
        bnd (block_offset (indirect i)) (\<lambda>start.
        bnd (map_each [0..<needed - DIRECT_BLOCKS] (\<lambda>idx.
          bnd (ok_or Io (read_u32_at (start + idx * 4))) (\<lambda>block.
          if block = 0 then err Io else ret block))) (\<lambda>ind.
        ret (dir @ ind)))
      else ret dir)"

primrec read_blocks :: "u32 list \<Rightarrow> nat \<Rightarrow> (image_state, fs_error, bytes \<times> nat) sm" where
  "read_blocks [] remaining = ret ([], remaining)"
| "read_blocks (block # blocks) remaining =
     (if remaining = 0 then ret ([], 0) else
      bnd (block_offset block) (\<lambda>start.
      let n = min remaining BLOCK_SIZE in
      bnd (read_vec start n) (\<lambda>data.
      bnd (read_blocks blocks (remaining - n)) (\<lambda>(out, rest).
      ret (data @ out, rest)))))"

definition read_inode_bytes :: "inode \<Rightarrow> (image_state, fs_error, bytes) sm" where
  "read_inode_bytes i =
     bnd (inode_data_blocks i) (\<lambda>blocks.
     bnd (read_blocks blocks (unat (isize i))) (\<lambda>(out, remaining).
     if remaining = 0 then ret out else err Io))"

definition discard :: "('s, 'e, 'a) sm \<Rightarrow> ('s, 'f, unit) sm" where
  "discard m = bnd (attempt m) (\<lambda>_. ret ())"

primrec alloc_many :: "nat \<Rightarrow> u32 list \<Rightarrow> (image_state, fs_error, u32 list) sm" where
  "alloc_many 0 new_blocks = ret new_blocks"
| "alloc_many (Suc n) new_blocks =
     bnd (attempt alloc_block) (\<lambda>r. case r of
       Inr block \<Rightarrow> alloc_many n (new_blocks @ [block])
     | Inl e \<Rightarrow> bnd (for_each new_blocks (\<lambda>b. discard (free_block b))) (\<lambda>_. err e))"

definition write_blocks :: "u32 list \<Rightarrow> bytes \<Rightarrow> (image_state, fs_error, unit) sm" where
  "write_blocks new_blocks bytes =
     for_each (enumerate 0 new_blocks) (\<lambda>(idx, block).
       bnd (zero_block block) (\<lambda>_.
       bnd (block_offset block) (\<lambda>off.
       let start = idx * BLOCK_SIZE; end = min (start + BLOCK_SIZE) (length bytes) in
       write_at off (rslice bytes start end))))"

definition write_indirect :: "u32 \<Rightarrow> u32 list \<Rightarrow> (image_state, fs_error, unit) sm" where
  "write_indirect indirect_block new_blocks =
     (if indirect_block \<noteq> 0 then
        bnd (zero_block indirect_block) (\<lambda>_.
        bnd (block_offset indirect_block) (\<lambda>start.
        for_each (enumerate 0 (drop DIRECT_BLOCKS new_blocks)) (\<lambda>(idx, block). write_u32_at (start + idx * 4) block)))
      else ret ())"

definition direct_of :: "u32 list \<Rightarrow> u32 list" where
  "direct_of new_blocks = map (\<lambda>i. if i < length new_blocks then new_blocks ! i else 0) [0..<DIRECT_BLOCKS]"

definition write_inode_bytes :: "u32 \<Rightarrow> bytes \<Rightarrow> (image_state, fs_error, unit) sm" where
  "write_inode_bytes idx bytes =
     (if length bytes > (DIRECT_BLOCKS + INDIRECT_ENTRIES) * BLOCK_SIZE \<or> length bytes > 2 ^ 32 - 1 then err NoSpace else
      let needed = needed_blocks (length bytes) in
      bnd (alloc_many needed []) (\<lambda>new_blocks.
      bnd (if needed > DIRECT_BLOCKS then
             bnd (attempt alloc_block) (\<lambda>r. case r of
               Inr block \<Rightarrow> ret block
             | Inl e \<Rightarrow> bnd (for_each new_blocks (\<lambda>b. discard (free_block b))) (\<lambda>_. err e))
           else ret 0) (\<lambda>indirect_block.
      bnd (write_blocks new_blocks bytes) (\<lambda>_.
      bnd (write_indirect indirect_block new_blocks) (\<lambda>_.
      bnd (ok_or NotFound (read_inode idx)) (\<lambda>i.
      bnd (inode_data_blocks i) (\<lambda>old_blocks.
      bnd (write_inode idx (i\<lparr>isize := word_of_nat (length bytes), direct := direct_of new_blocks,
             indirect := indirect_block\<rparr>)) (\<lambda>_.
      bnd (for_each old_blocks free_block) (\<lambda>_.
      if indirect i \<noteq> 0 then free_block (indirect i) else ret ())))))))))"

definition free_inode :: "u32 \<Rightarrow> (image_state, fs_error, unit) sm" where
  "free_inode idx =
     bnd (ok_or NotFound (read_inode idx)) (\<lambda>i.
     bnd (inode_data_blocks i) (\<lambda>blocks.
     bnd (for_each blocks free_block) (\<lambda>_.
     bnd (if indirect i \<noteq> 0 then free_block (indirect i) else ret ()) (\<lambda>_.
     write_inode idx inode_free))))"

definition image_flush :: "(image_state, fs_error, unit) sm" where
  "image_flush = cache_flush"

record coolfs_stats =
  st_total_blocks :: u32
  st_used_blocks :: u32
  st_free_blocks :: u32
  st_block_size :: u32
  st_files :: u32
  st_dirs :: u32
  st_cached_blocks :: u32
  st_dirty_blocks :: u32

definition count_kind :: "u8 \<Rightarrow> inode option list \<Rightarrow> nat" where
  "count_kind k is = length (filter (\<lambda>i. case i of Some n \<Rightarrow> kind n = k | None \<Rightarrow> False) is)"

definition image_stats :: "(image_state, unit, coolfs_stats) sm" where
  "image_stats = bnd (gets sb) (\<lambda>q.
     bnd (map_each (map word_of_nat [0..<unat (total_blocks q)]) block_used) (\<lambda>used.
     bnd (map_each (map word_of_nat [0..<unat (inode_count q)]) (\<lambda>idx.
            bnd (attempt (read_inode idx)) (\<lambda>r. ret (case r of Inr i \<Rightarrow> Some i | Inl _ \<Rightarrow> None)))) (\<lambda>inodes.
     let used_blocks = word_of_nat (length (filter id used)) in
     gets (\<lambda>s. \<lparr>st_total_blocks = total_blocks q, st_used_blocks = used_blocks,
       st_free_blocks = saturating_sub (total_blocks q) used_blocks, st_block_size = word_of_nat BLOCK_SIZE,
       st_files = word_of_nat (count_kind KIND_FILE inodes), st_dirs = word_of_nat (count_kind KIND_DIR inodes),
       st_cached_blocks = word_of_nat (cached_blocks s), st_dirty_blocks = word_of_nat (dirty_blocks s)\<rparr>))))"

section \<open>Mounting and formatting\<close>

text \<open>An image is built over the machine; on an error only the machine is left.\<close>

definition build_image ::
  "cache_entry list \<times> u64 \<Rightarrow> superblock \<Rightarrow> (image_state, fs_error, unit) sm \<Rightarrow> machine \<Rightarrow> (fs_error + image_state) \<times> machine" where
  "build_image cache q f m =
     (case f \<lparr>entries = fst cache, clock = snd cache, mach = m, sb = q\<rparr> of
        (Inl e, s) \<Rightarrow> (Inl e, mach s) | (Inr _, s) \<Rightarrow> (Inr s, mach s))"

definition format_steps :: "(image_state, fs_error, unit) sm" where
  "format_steps = bnd (gets sb) (\<lambda>q.
     bnd (for_each (map word_of_nat [0..<unat (data_start q)]) zero_block) (\<lambda>_.
     bnd (cache_get_mut 0 (\<lambda>block0. superblock_write q (map (\<lambda>_. 0) block0))) (\<lambda>_.
     bnd (for_each (map word_of_nat [0..<unat (data_start q)]) (\<lambda>block. set_block_used block True)) (\<lambda>_.
     write_inode (root_inode q) (inode_new KIND_DIR)))))"

definition format_image :: "machine \<Rightarrow> (fs_error + image_state) \<times> machine" where
  "format_image = build_image cache_new superblock_new format_steps"

definition load_or_format :: "machine \<Rightarrow> (fs_error + image_state) \<times> machine" where
  "load_or_format m =
     (case read_disk_block_with read_sector 0 m of
        (Inl e, m1) \<Rightarrow> (Inl e, m1)
      | (Inr first, m1) \<Rightarrow>
        let format = (case format_image m1 of
              (Inl e, m2) \<Rightarrow> (Inl e, m2)
            | (Inr img, m2) \<Rightarrow>
              (case image_flush img of (Inl e, s) \<Rightarrow> (Inl e, mach s) | (Inr _, s) \<Rightarrow> (Inr s, mach s))) in
        (case superblock_parse first of
           Some q \<Rightarrow>
             if 1024 \<le> total_blocks q \<and> total_blocks q \<le> TOTAL_BLOCKS
             then build_image (with_clean_block 0 first) q (ret ()) m1
             else format
         | None \<Rightarrow> format))"

section \<open>The flat view\<close>

definition splat :: "(nat \<Rightarrow> 'a) \<Rightarrow> nat \<Rightarrow> 'a list \<Rightarrow> nat \<Rightarrow> 'a" where
  "splat v off xs = (\<lambda>i. if off \<le> i \<and> i < off + length xs then xs ! (i - off) else v i)"

definition bytes_at :: "(nat \<Rightarrow> 'a) \<Rightarrow> nat \<Rightarrow> nat \<Rightarrow> 'a list" where
  "bytes_at v off n = map v [off..<off + n]"

definition agree_off :: "nat set \<Rightarrow> (nat \<Rightarrow> 'a) \<Rightarrow> (nat \<Rightarrow> 'a) \<Rightarrow> bool" where
  "agree_off A v w \<longleftrightarrow> (\<forall>i. i \<notin> A \<longrightarrow> w i = v i)"

lemma splat_Nil [simp]: "splat v off [] = v"
  by (rule ext) (auto simp: splat_def)

lemma splat_append: "splat (splat v off xs) (off + length xs) ys = splat v off (xs @ ys)"
  by (rule ext) (auto simp: splat_def nth_append)

lemma length_bytes_at [simp]: "length (bytes_at v off n) = n"
  by (simp add: bytes_at_def)

lemma nth_bytes_at [simp]: "i < n \<Longrightarrow> bytes_at v off n ! i = v (off + i)"
  by (simp add: bytes_at_def)

lemma bytes_at_0 [simp]: "bytes_at v off 0 = []"
  by (simp add: bytes_at_def)

lemma bytes_at_add: "bytes_at v off (m + n) = bytes_at v off m @ bytes_at v (off + m) n"
  by (rule nth_equalityI) (auto simp: nth_append)

lemma bytes_at_splat_same [simp]: "n = length xs \<Longrightarrow> bytes_at (splat v off xs) off n = xs"
  by (rule nth_equalityI) (auto simp: splat_def)

lemma bytes_at_splat_inside:
  "off \<le> a \<Longrightarrow> a + n \<le> off + length xs \<Longrightarrow> bytes_at (splat v off xs) a n = take n (drop (a - off) xs)"
  by (rule nth_equalityI) (auto simp: splat_def)

lemma bytes_at_splat_disjoint:
  "a + n \<le> off \<or> off + length xs \<le> a \<Longrightarrow> bytes_at (splat v off xs) a n = bytes_at v a n"
  by (rule nth_equalityI) (auto simp: splat_def)

lemma agree_off_refl [simp]: "agree_off A v v"
  by (simp add: agree_off_def)

lemma agree_off_trans: "agree_off A v w \<Longrightarrow> agree_off A w x \<Longrightarrow> agree_off A v x"
  by (simp add: agree_off_def)

lemma agree_off_mono: "agree_off A v w \<Longrightarrow> A \<subseteq> B \<Longrightarrow> agree_off B v w"
  by (auto simp: agree_off_def)

lemma agree_off_splat: "{off..<off + length xs} \<subseteq> A \<Longrightarrow> agree_off A v (splat v off xs)"
  by (auto simp: agree_off_def splat_def)

lemma agree_off_bytes_at: "agree_off A v w \<Longrightarrow> A \<inter> {off..<off + n} = {} \<Longrightarrow> bytes_at w off n = bytes_at v off n"
  by (rule nth_equalityI) (auto simp: agree_off_def disjoint_iff)

lemma set_block_patch:
  assumes "i + length xs \<le> BLOCK_SIZE"
  shows "set_block v b (patch (block_at v b) i xs) = splat v (b * BLOCK_SIZE + i) xs"
proof
  fix a
  show "set_block v b (patch (block_at v b) i xs) a = splat v (b * BLOCK_SIZE + i) xs a"
  proof (cases "a div BLOCK_SIZE = b")
    case True
    define j where "j = a mod BLOCK_SIZE"
    have a: "a = b * BLOCK_SIZE + j" and j: "j < BLOCK_SIZE"
      using True by (auto simp: j_def)
    have "set_block v b (patch (block_at v b) i xs) a = patch (block_at v b) i xs ! j"
      using True by (simp add: set_block_def j_def)
    also have "\<dots> = (if i \<le> j \<and> j < i + length xs then xs ! (j - i) else v a)"
      using j by (simp add: nth_patch a block_at_def)
    finally show ?thesis by (simp add: splat_def a)
  next
    case False
    have "\<not> (b * BLOCK_SIZE \<le> a \<and> a < b * BLOCK_SIZE + BLOCK_SIZE)"
    proof
      assume "b * BLOCK_SIZE \<le> a \<and> a < b * BLOCK_SIZE + BLOCK_SIZE"
      then have "a div BLOCK_SIZE = b" by (intro div_nat_eqI) (simp_all add: mult.commute)
      with False show False by simp
    qed
    then show ?thesis using False assms by (auto simp: set_block_def splat_def)
  qed
qed

lemma rslice_block_at:
  "i + n \<le> BLOCK_SIZE \<Longrightarrow> rslice (block_at v b) i (i + n) = bytes_at v (b * BLOCK_SIZE + i) n"
  by (rule nth_equalityI) (auto simp: block_at_def add.assoc)

lemma fill_range_patch: "b \<le> length xs \<Longrightarrow> fill_range xs a b x = patch xs a (replicate (b - a) x)"
  by (rule nth_equalityI) (auto simp: nth_fill_range nth_patch)

lemma block_of_offset:
  assumes "off < IMAGE_BYTES"
  shows "(word_of_nat (off div BLOCK_SIZE) :: u32) < TOTAL_BLOCKS"
    "unat (word_of_nat (off div BLOCK_SIZE) :: u32) * BLOCK_SIZE + off mod BLOCK_SIZE = off"
    "unat (word_of_nat (off div BLOCK_SIZE) :: u32) = off div BLOCK_SIZE"
proof -
  show u: "unat (word_of_nat (off div BLOCK_SIZE) :: u32) = off div BLOCK_SIZE"
    by (rule word_block [OF div_less_blocks [OF assms]])
  show "(word_of_nat (off div BLOCK_SIZE) :: u32) < TOTAL_BLOCKS"
    using div_less_blocks [OF assms] by (simp add: word_less_nat_alt u)
  show "unat (word_of_nat (off div BLOCK_SIZE) :: u32) * BLOCK_SIZE + off mod BLOCK_SIZE = off"
    by (simp add: u)
qed

lemma add_min_le: "a \<le> b \<Longrightarrow> a + min n (b - a) \<le> b" for a b n :: nat
  by simp

lemma in_block_min: "off mod BLOCK_SIZE + min n (BLOCK_SIZE - off mod BLOCK_SIZE) \<le> BLOCK_SIZE"
  by (rule add_min_le) (simp add: less_imp_le)

section \<open>The byte loops over a block store\<close>

text \<open>\<open>framed\<close>: an unfinished change inside the addresses \<open>A\<close>.\<close>

definition framed :: "(bool \<Rightarrow> (nat \<Rightarrow> u8) \<Rightarrow> 'r \<Rightarrow> 's \<Rightarrow> bool) \<Rightarrow> bool \<Rightarrow> nat set \<Rightarrow> (nat \<Rightarrow> u8) \<Rightarrow> 'r \<Rightarrow> 's \<Rightarrow> bool" where
  "framed st h A v r s \<longleftrightarrow> (\<exists>w. st h w r s \<and> agree_off A v w)"

lemma framed_refl: "st h v r s \<Longrightarrow> framed st h A v r s"
  unfolding framed_def using agree_off_refl by blast

lemma framed_trans: "agree_off A v w \<Longrightarrow> framed st h A w r s \<Longrightarrow> framed st h A v r s"
  unfolding framed_def using agree_off_trans by blast

lemma framed_mono: "framed st h A v r s \<Longrightarrow> A \<subseteq> B \<Longrightarrow> framed st h B v r s"
  unfolding framed_def using agree_off_mono by blast

context block_store
begin

lemma read_span:
  assumes "len \<le> IMAGE_BYTES" and "off + n \<le> len"
  shows "valid (st h v r) (read_loop get len off n)
    (\<lambda>d s. st h v r s \<and> d = bytes_at v off n) (\<lambda>e s. st h v r s \<and> e = Io \<and> \<not> h)"
  using assms(2)
proof (induction n arbitrary: off rule: less_induct)
  case (less n)
  show ?case
  proof (cases "n = 0")
    case True
    then show ?thesis by (subst read_loop.simps) (simp add: valid_ret)
  next
    case False
    let ?i = "off mod BLOCK_SIZE" and ?b = "word_of_nat (off div BLOCK_SIZE) :: u32"
    let ?n = "min n (BLOCK_SIZE - ?i)"
    have off: "off < len" "off < IMAGE_BYTES" using less.prems assms(1) False by simp_all
    have n: "0 < ?n" "?i + ?n \<le> BLOCK_SIZE" using False in_block_min by auto
    note b = block_of_offset [OF off(2)]
    have IH: "valid (st h v r) (read_loop get len (off + ?n) (n - ?n))
      (\<lambda>d s. st h v r s \<and> d = bytes_at v (off + ?n) (n - ?n)) (\<lambda>e s. st h v r s \<and> e = Io \<and> \<not> h)"
      by (rule less.IH) (use n(1) False less.prems in auto)
    have split: "bytes_at v off n = bytes_at v off ?n @ bytes_at v (off + ?n) (n - ?n)"
      using bytes_at_add [of v off ?n "n - ?n"] by simp
    have step: "read_loop get len off n = bnd (get ?b) (\<lambda>data. bnd (read_loop get len (off + ?n) (n - ?n))
        (\<lambda>rest. ret (rslice data ?i (?i + ?n) @ rest)))"
      using False off(1) by (subst read_loop.simps) (simp add: abs_parts_def Let_def)
    show ?thesis unfolding step
    proof (rule valid_bnd)
      show "valid (st h v r) (get ?b) (\<lambda>d s. st h v r s \<and> d = block_at v (unat ?b)) (\<lambda>e s. st h v r s \<and> e = Io \<and> \<not> h)"
        by (rule valid_weaken [OF get_spec]) (use b(1) in auto)
      fix d
      show "valid (\<lambda>s. st h v r s \<and> d = block_at v (unat ?b))
        (bnd (read_loop get len (off + ?n) (n - ?n)) (\<lambda>rest. ret (rslice d ?i (?i + ?n) @ rest)))
        (\<lambda>d s. st h v r s \<and> d = bytes_at v off n) (\<lambda>e s. st h v r s \<and> e = Io \<and> \<not> h)"
      proof (rule valid_assume, rule valid_bnd [OF IH], rule valid_ret)
        fix rest s assume d: "d = block_at v (unat ?b)"
          and a: "st h v r s \<and> rest = bytes_at v (off + ?n) (n - ?n)"
        have "rslice d ?i (?i + ?n) = bytes_at v off ?n" using rslice_block_at [OF n(2)] b(2) by (simp add: d)
        then show "st h v r s \<and> rslice d ?i (?i + ?n) @ rest = bytes_at v off n" using a split by simp
      qed
    qed
  qed
qed

lemma write_span:
  assumes "len \<le> IMAGE_BYTES" and "off + length xs \<le> len"
  shows "valid (st h v r) (write_loop getm len off xs)
    (\<lambda>_. st h (splat v off xs) r) (\<lambda>e s. framed st h {off..<off + length xs} v r s \<and> e = Io \<and> \<not> h)"
  using assms(2)
proof (induction xs arbitrary: off v rule: length_induct)
  case (1 xs)
  show ?case
  proof (cases "xs = []")
    case True
    then show ?thesis by (subst write_loop.simps) (simp add: valid_ret)
  next
    case False
    let ?i = "off mod BLOCK_SIZE" and ?b = "word_of_nat (off div BLOCK_SIZE) :: u32"
    let ?n = "min (length xs) (BLOCK_SIZE - ?i)"
    let ?v = "splat v off (take ?n xs)"
    have off: "off < len" "off < IMAGE_BYTES" using "1.prems" assms(1) False by (cases xs; simp)+
    have n: "0 < ?n" "?i + ?n \<le> BLOCK_SIZE" using False in_block_min by auto
    note b = block_of_offset [OF off(2)]
    have IH: "valid (st h ?v r) (write_loop getm len (off + ?n) (drop ?n xs))
      (\<lambda>_. st h (splat ?v (off + ?n) (drop ?n xs)) r)
      (\<lambda>e s. framed st h {off + ?n..<off + ?n + length (drop ?n xs)} ?v r s \<and> e = Io \<and> \<not> h)"
      by (rule "1.IH" [rule_format]) (use n(1) False "1.prems" in auto)
    have eq: "splat ?v (off + ?n) (drop ?n xs) = splat v off xs"
      using splat_append [of v off "take ?n xs" "drop ?n xs"] by simp
    have step: "write_loop getm len off xs = bnd (getm ?b (\<lambda>data. patch data ?i (take ?n xs)))
        (\<lambda>_. write_loop getm len (off + ?n) (drop ?n xs))"
      using False off(1) by (subst write_loop.simps) (simp add: abs_parts_def Let_def)
    show ?thesis unfolding step
    proof (rule valid_bnd)
      have "valid (st h v r) (getm ?b (\<lambda>d. patch d ?i (take ?n xs)))
        (\<lambda>_ s. st h (set_block v (unat ?b) (patch (block_at v (unat ?b)) ?i (take ?n xs))) r s \<and> ?b < TOTAL_BLOCKS)
        (\<lambda>e s. st h v r s \<and> e = Io \<and> (h \<longrightarrow> \<not> ?b < TOTAL_BLOCKS))"
        by (rule getm_spec) simp
      moreover have "set_block v (unat ?b) (patch (block_at v (unat ?b)) ?i (take ?n xs)) = ?v"
        using set_block_patch [of ?i "take ?n xs" v "unat ?b"] n(2) b(2) by simp
      ultimately show "valid (st h v r) (getm ?b (\<lambda>d. patch d ?i (take ?n xs))) (\<lambda>_. st h ?v r)
        (\<lambda>e s. framed st h {off..<off + length xs} v r s \<and> e = Io \<and> \<not> h)"
        by (elim valid_weaken) (use b(1) framed_refl in auto)
      show "valid (st h ?v r) (write_loop getm len (off + ?n) (drop ?n xs)) (\<lambda>_. st h (splat v off xs) r)
        (\<lambda>e s. framed st h {off..<off + length xs} v r s \<and> e = Io \<and> \<not> h)"
        using IH unfolding eq
      proof (rule valid_weaken)
        fix e s assume a: "framed st h {off + ?n..<off + ?n + length (drop ?n xs)} ?v r s \<and> e = Io \<and> \<not> h"
        have "agree_off {off..<off + length xs} v ?v" by (rule agree_off_splat) auto
        moreover have "framed st h {off..<off + length xs} ?v r s" by (rule framed_mono [OF conjunct1 [OF a]]) auto
        ultimately have "framed st h {off..<off + length xs} v r s" by (rule framed_trans)
        then show "framed st h {off..<off + length xs} v r s \<and> e = Io \<and> \<not> h" using a by simp
      qed auto
    qed
  qed
qed

lemma fill_span:
  assumes "len \<le> IMAGE_BYTES" and "off + n \<le> len"
  shows "valid (st h v r) (fill_loop getm len off n x)
    (\<lambda>_. st h (splat v off (replicate n x)) r) (\<lambda>e s. framed st h {off..<off + n} v r s \<and> e = Io \<and> \<not> h)"
  using assms(2)
proof (induction n arbitrary: off v rule: less_induct)
  case (less n)
  show ?case
  proof (cases "n = 0")
    case True
    then show ?thesis by (subst fill_loop.simps) (simp add: valid_ret)
  next
    case False
    let ?i = "off mod BLOCK_SIZE" and ?b = "word_of_nat (off div BLOCK_SIZE) :: u32"
    let ?n = "min n (BLOCK_SIZE - ?i)"
    let ?v = "splat v off (replicate ?n x)"
    have off: "off < len" "off < IMAGE_BYTES" using less.prems assms(1) False by simp_all
    have n: "0 < ?n" "?i + ?n \<le> BLOCK_SIZE" using False in_block_min by auto
    note b = block_of_offset [OF off(2)]
    have IH: "valid (st h ?v r) (fill_loop getm len (off + ?n) (n - ?n) x)
      (\<lambda>_. st h (splat ?v (off + ?n) (replicate (n - ?n) x)) r)
      (\<lambda>e s. framed st h {off + ?n..<off + ?n + (n - ?n)} ?v r s \<and> e = Io \<and> \<not> h)"
      by (rule less.IH) (use n(1) False less.prems in auto)
    have eq: "splat ?v (off + ?n) (replicate (n - ?n) x) = splat v off (replicate n x)"
      using splat_append [of v off "replicate ?n x" "replicate (n - ?n) x"] by (simp flip: replicate_add)
    have step: "fill_loop getm len off n x = bnd (getm ?b (\<lambda>data. fill_range data ?i (?i + ?n) x))
        (\<lambda>_. fill_loop getm len (off + ?n) (n - ?n) x)"
      using False off(1) by (subst fill_loop.simps) (simp add: abs_parts_def Let_def)
    show ?thesis unfolding step
    proof (rule valid_bnd)
      have "valid (st h v r) (getm ?b (\<lambda>d. fill_range d ?i (?i + ?n) x))
        (\<lambda>_ s. st h (set_block v (unat ?b) (fill_range (block_at v (unat ?b)) ?i (?i + ?n) x)) r s \<and> ?b < TOTAL_BLOCKS)
        (\<lambda>e s. st h v r s \<and> e = Io \<and> (h \<longrightarrow> \<not> ?b < TOTAL_BLOCKS))"
        by (rule getm_spec) simp
      moreover have "set_block v (unat ?b) (fill_range (block_at v (unat ?b)) ?i (?i + ?n) x) = ?v"
        using set_block_patch [of ?i "replicate ?n x" v "unat ?b"] n(2) b(2)
        by (simp add: fill_range_patch)
      ultimately show "valid (st h v r) (getm ?b (\<lambda>d. fill_range d ?i (?i + ?n) x)) (\<lambda>_. st h ?v r)
        (\<lambda>e s. framed st h {off..<off + n} v r s \<and> e = Io \<and> \<not> h)"
        by (elim valid_weaken) (use b(1) framed_refl in auto)
      show "valid (st h ?v r) (fill_loop getm len (off + ?n) (n - ?n) x) (\<lambda>_. st h (splat v off (replicate n x)) r)
        (\<lambda>e s. framed st h {off..<off + n} v r s \<and> e = Io \<and> \<not> h)"
        using IH unfolding eq
      proof (rule valid_weaken)
        fix e s assume a: "framed st h {off + ?n..<off + ?n + (n - ?n)} ?v r s \<and> e = Io \<and> \<not> h"
        have "agree_off {off..<off + n} v ?v" by (rule agree_off_splat) auto
        moreover have "framed st h {off..<off + n} ?v r s" by (rule framed_mono [OF conjunct1 [OF a]]) auto
        ultimately have "framed st h {off..<off + n} v r s" by (rule framed_trans)
        then show "framed st h {off..<off + n} v r s \<and> e = Io \<and> \<not> h" using a by simp
      qed auto
    qed
  qed
qed

end

section \<open>Byte access of the image\<close>

text \<open>\<open>img h v q s\<close>: the image \<open>s\<close> shows the bytes \<open>v\<close> and has the superblock \<open>q\<close>; with \<open>h\<close> set, on healthy hardware.\<close>

definition img :: "bool \<Rightarrow> (nat \<Rightarrow> u8) \<Rightarrow> superblock \<Rightarrow> image_state \<Rightarrow> bool" where
  "img h v q s \<longleftrightarrow> holds h v (image_state_ext q ()) s"

lemma img_sb: "img h v q s \<Longrightarrow> sb s = q"
  by (cases s) (simp add: img_def holds_def)

lemma valid_gets_sb:
  assumes "valid (img h v q) (f q) Q E"
  shows "valid (img h v q) (bnd (gets sb) f) Q E"
proof (rule validI)
  fix s x t assume i: "img h v q s" and "bnd (gets sb) f s = (Inr x, t)"
  then have "f q s = (Inr x, t)" using img_sb [OF i] by (simp add: bnd_def gets_def)
  then show "Q x t" by (rule validD [OF assms i])
next
  fix s e t assume i: "img h v q s" and "bnd (gets sb) f s = (Inl e, t)"
  then have "f q s = (Inl e, t)" using img_sb [OF i] by (simp add: bnd_def gets_def)
  then show "E e t" by (rule validD_err [OF assms i])
qed

interpretation image_bytes: block_store "cache_get" "cache_get_mut" img
proof (unfold_locales, goal_cases)
  case (1 h v r b)
  show ?case unfolding img_def by (rule cache_get_spec)
next
  case (2 f h v r b)
  then show ?case unfolding img_def by (intro cache_get_mut_spec)
qed

definition fits :: "superblock \<Rightarrow> bool" where
  "fits q \<longleftrightarrow> total_blocks q \<le> TOTAL_BLOCKS"

lemma fs_len_fits: "fits q \<Longrightarrow> fs_len q \<le> IMAGE_BYTES"
  by (simp add: fits_def fs_len_def IMAGE_BYTES_def word_le_nat_alt)

lemma fs_len_u64: "fits q \<Longrightarrow> fs_len q < 2 ^ 64"
  using fs_len_fits [of q] by (simp add: IMAGE_BYTES_def TOTAL_BLOCKS_def BLOCK_SIZE_def)

lemma in_range_fits: "fits q \<Longrightarrow> in_range q off n \<longleftrightarrow> off + n \<le> fs_len q"
  using fs_len_u64 [of q] by (auto simp: in_range_def)

lemma read_into_spec:
  assumes "fits q"
  shows "valid (img h v q) (read_into off n)
    (\<lambda>d s. img h v q s \<and> off + n \<le> fs_len q \<and> d = bytes_at v off n)
    (\<lambda>e s. img h v q s \<and> e = Io \<and> (h \<longrightarrow> \<not> off + n \<le> fs_len q))"
  unfolding read_into_def
  by (rule valid_gets_sb, rule valid_if, rule valid_weaken [OF image_bytes.read_span [OF fs_len_fits [OF assms]]])
    (auto simp: in_range_fits assms intro: valid_err)

lemma read_vec_read_into: "read_vec = read_into"
  by (simp add: fun_eq_iff read_vec_def read_into_def)

lemma write_at_spec:
  assumes "fits q"
  shows "valid (img h v q) (write_at off xs)
    (\<lambda>_ s. img h (splat v off xs) q s \<and> off + length xs \<le> fs_len q)
    (\<lambda>e s. framed img h {off..<off + length xs} v q s \<and> e = Io \<and> (h \<longrightarrow> \<not> off + length xs \<le> fs_len q))"
  unfolding write_at_def
  by (rule valid_gets_sb, rule valid_if, rule valid_weaken [OF image_bytes.write_span [OF fs_len_fits [OF assms]]])
    (auto simp: in_range_fits assms intro: valid_err framed_refl)

lemma fill_at_spec:
  assumes "fits q"
  shows "valid (img h v q) (fill_at off n x)
    (\<lambda>_ s. img h (splat v off (replicate n x)) q s \<and> off + n \<le> fs_len q)
    (\<lambda>e s. framed img h {off..<off + n} v q s \<and> e = Io \<and> (h \<longrightarrow> \<not> off + n \<le> fs_len q))"
  unfolding fill_at_def
  by (rule valid_gets_sb, rule valid_if, rule valid_weaken [OF image_bytes.fill_span [OF fs_len_fits [OF assms]]])
    (auto simp: in_range_fits assms intro: valid_err framed_refl)

lemma read_u8_spec:
  assumes "fits q"
  shows "valid (img h v q) (read_u8 off)
    (\<lambda>d s. img h v q s \<and> off < fs_len q \<and> d = v off) (\<lambda>_ s. img h v q s \<and> (h \<longrightarrow> \<not> off < fs_len q))"
proof (cases "off < fs_len q")
  case False
  then show ?thesis unfolding read_u8_def
    by (intro valid_gets_sb) (simp add: abs_parts_def lift_opt_def valid_err)
next
  case True
  then have off: "off < IMAGE_BYTES" using fs_len_fits [OF assms] by simp
  note b = block_of_offset [OF off]
  let ?b = "word_of_nat (off div BLOCK_SIZE) :: u32"
  have "valid (img h v q) (bnd (ok (cache_get ?b)) (\<lambda>data. ret (data ! (off mod BLOCK_SIZE))))
    (\<lambda>d s. img h v q s \<and> off < fs_len q \<and> d = v off) (\<lambda>_ s. img h v q s \<and> (h \<longrightarrow> \<not> off < fs_len q))"
    by (rule valid_bnd [where R = "\<lambda>d s. img h v q s \<and> d = block_at v (unat ?b)"],
        rule valid_map_err, rule valid_weaken [OF image_bytes.get_spec])
      (use b True in \<open>auto simp: block_at_def intro: valid_ret\<close>)
  then show ?thesis unfolding read_u8_def
    using True by (intro valid_gets_sb) (simp add: abs_parts_def lift_opt_def)
qed

lemma write_u8_spec:
  assumes "fits q"
  shows "valid (img h v q) (write_u8 off x)
    (\<lambda>_ s. img h (splat v off [x]) q s \<and> off < fs_len q)
    (\<lambda>e s. img h v q s \<and> e = Io \<and> (h \<longrightarrow> \<not> off < fs_len q))"
proof (cases "off < fs_len q")
  case False
  then show ?thesis unfolding write_u8_def
    by (intro valid_gets_sb) (simp add: abs_parts_def lift_opt_def valid_err)
next
  case True
  then have off: "off < IMAGE_BYTES" using fs_len_fits [OF assms] by simp
  note b = block_of_offset [OF off]
  let ?b = "word_of_nat (off div BLOCK_SIZE) :: u32"
  have "(block_at v (unat ?b))[off mod BLOCK_SIZE := x] = patch (block_at v (unat ?b)) (off mod BLOCK_SIZE) [x]"
    by (rule list_update_patch) simp
  then have eq: "set_block v (unat ?b) ((block_at v (unat ?b))[off mod BLOCK_SIZE := x]) = splat v off [x]"
    using set_block_patch [of "off mod BLOCK_SIZE" "[x]" v "unat ?b"] b(2) by (simp add: Suc_leI)
  have "valid (img h v q) (cache_get_mut ?b (\<lambda>d. d[off mod BLOCK_SIZE := x]))
    (\<lambda>_ s. img h (splat v off [x]) q s \<and> ?b < TOTAL_BLOCKS) (\<lambda>e s. img h v q s \<and> e = Io \<and> (h \<longrightarrow> \<not> ?b < TOTAL_BLOCKS))"
    using image_bytes.getm_spec [of "\<lambda>d. d[off mod BLOCK_SIZE := x]" h v q ?b] by (simp add: eq)
  then show ?thesis unfolding write_u8_def
    using True b(1) by (intro valid_gets_sb) (auto simp: abs_parts_def lift_opt_def elim!: valid_weaken)
qed

lemma read_u32_at_spec:
  assumes "fits q"
  shows "valid (img h v q) (read_u32_at off)
    (\<lambda>d s. img h v q s \<and> off + 4 \<le> fs_len q \<and> d = from_le (bytes_at v off 4))
    (\<lambda>_ s. img h v q s \<and> (h \<longrightarrow> \<not> off + 4 \<le> fs_len q))"
  unfolding read_u32_at_def
  by (rule valid_bnd [where R = "\<lambda>d s. img h v q s \<and> off + 4 \<le> fs_len q \<and> d = bytes_at v off 4"],
      rule valid_map_err, rule valid_weaken [OF read_into_spec [OF assms]])
    (auto intro: valid_ret)

lemma write_u32_at_spec:
  assumes "fits q"
  shows "valid (img h v q) (write_u32_at off x)
    (\<lambda>_ s. img h (splat v off (to_le 4 x)) q s \<and> off + 4 \<le> fs_len q)
    (\<lambda>e s. framed img h {off..<off + 4} v q s \<and> e = Io \<and> (h \<longrightarrow> \<not> off + 4 \<le> fs_len q))"
  using write_at_spec [OF assms, of h v off "to_le 4 x"] by (simp add: write_u32_at_def)

lemma block_offset_spec:
  "valid (img h v q) (block_offset b)
    (\<lambda>d s. img h v q s \<and> b < total_blocks q \<and> d = unat b * BLOCK_SIZE)
    (\<lambda>e s. img h v q s \<and> e = Io \<and> \<not> b < total_blocks q)"
  unfolding block_offset_def by (rule valid_gets_sb, rule valid_if) (auto intro: valid_err valid_ret)

lemma zero_block_spec:
  "valid (img h v q) (zero_block b)
    (\<lambda>_ s. img h (splat v (unat b * BLOCK_SIZE) (replicate BLOCK_SIZE 0)) q s \<and> b < TOTAL_BLOCKS)
    (\<lambda>e s. img h v q s \<and> e = Io \<and> (h \<longrightarrow> \<not> b < TOTAL_BLOCKS))"
proof -
  have "map (\<lambda>_. 0) (block_at v (unat b)) = patch (block_at v (unat b)) 0 (replicate BLOCK_SIZE 0)"
    by (rule nth_equalityI) (simp_all add: nth_patch)
  then have "set_block v (unat b) (map (\<lambda>_. 0) (block_at v (unat b))) =
      splat v (unat b * BLOCK_SIZE) (replicate BLOCK_SIZE 0)"
    using set_block_patch [of 0 "replicate BLOCK_SIZE 0" v "unat b"] by simp
  then show ?thesis
    using image_bytes.getm_spec [of "map (\<lambda>_. 0)" h v q b] by (simp add: zero_block_def)
qed

end
