(* ===== verification/CoolFS_Inodes.thy ===== *)
theory CoolFS_Inodes
  imports CoolFS_Image
begin

text \<open>
  Inodes, the superblock and the block bitmap of a CoolFS image in the flat view: reading an inode back gives what was
  written, a bit of the bitmap is changed without touching any other, and allocation and release of blocks and inodes
  do what their callers rely on.
\<close>

section \<open>Layout\<close>

text \<open>The regions of an image, in order: superblock, inode table, bitmap, data blocks. \<open>layout\<close> holds of the superblock
  of a formatted image and is kept: no operation changes the superblock.\<close>

definition layout :: "superblock \<Rightarrow> bool" where
  "layout q \<longleftrightarrow> fits q \<and> 0 < inode_table_start q \<and>
     unat (inode_table_start q) * BLOCK_SIZE + unat (inode_count q) * INODE_SIZE \<le> unat (bitmap_start q) * BLOCK_SIZE \<and>
     unat (bitmap_start q) * BLOCK_SIZE + (unat (total_blocks q) + 7) div 8 \<le> unat (data_start q) * BLOCK_SIZE \<and>
     data_start q \<le> total_blocks q \<and> root_inode q < inode_count q"

definition block_area :: "u32 \<Rightarrow> nat set" where
  "block_area b = {unat b * BLOCK_SIZE..<unat b * BLOCK_SIZE + BLOCK_SIZE}"

definition blocks_area :: "u32 set \<Rightarrow> nat set" where
  "blocks_area B = (\<Union>b \<in> B. block_area b)"

definition bitmap_area :: "superblock \<Rightarrow> nat set" where
  "bitmap_area q = {unat (bitmap_start q) * BLOCK_SIZE..<unat (data_start q) * BLOCK_SIZE}"

definition inode_area :: "nat \<Rightarrow> nat set" where
  "inode_area off = {off..<off + INODE_SIZE}"

definition data_blocks :: "superblock \<Rightarrow> u32 set" where
  "data_blocks q = {b. data_start q \<le> b \<and> b < total_blocks q}"

lemma layout_fits [simp]: "layout q \<Longrightarrow> fits q"
  by (simp add: layout_def)

lemma mult_stride: "a < b \<Longrightarrow> a * k + k \<le> b * k" for a b k :: nat
  using mult_le_mono1 [of "Suc a" b k] by simp

lemma unat_neq: "a \<noteq> b \<Longrightarrow> unat a < unat b \<or> unat b < unat a" for a b :: "'a::len word"
  using word_unat_eq_iff [of a b] by linarith

lemma block_area_disjoint: "b \<noteq> b' \<Longrightarrow> block_area b \<inter> block_area b' = {}"
proof -
  assume "b \<noteq> b'"
  then have "unat b < unat b' \<or> unat b' < unat b" by (rule unat_neq)
  then have "unat b * BLOCK_SIZE + BLOCK_SIZE \<le> unat b' * BLOCK_SIZE \<or> unat b' * BLOCK_SIZE + BLOCK_SIZE \<le> unat b * BLOCK_SIZE"
    using mult_stride by blast
  then show ?thesis unfolding block_area_def by fastforce
qed

lemma data_block_bound:
  assumes "b \<in> data_blocks q" 
  shows "unat (data_start q) * BLOCK_SIZE \<le> unat b * BLOCK_SIZE" "unat b * BLOCK_SIZE + BLOCK_SIZE \<le> fs_len q"
proof -
  have "unat (data_start q) \<le> unat b" "unat b < unat (total_blocks q)"
    using assms by (auto simp: data_blocks_def word_le_nat_alt word_less_nat_alt)
  then show "unat (data_start q) * BLOCK_SIZE \<le> unat b * BLOCK_SIZE" "unat b * BLOCK_SIZE + BLOCK_SIZE \<le> fs_len q"
    using mult_le_mono1 [of "Suc (unat b)" "unat (total_blocks q)" BLOCK_SIZE] by (simp_all add: fs_len_def)
qed

lemma blocks_area_data: "B \<subseteq> data_blocks q \<Longrightarrow> blocks_area B \<subseteq> {unat (data_start q) * BLOCK_SIZE..<fs_len q}"
proof
  fix x assume B: "B \<subseteq> data_blocks q" and "x \<in> blocks_area B"
  then obtain b where b: "b \<in> data_blocks q" "x \<in> block_area b" by (auto simp: blocks_area_def)
  from data_block_bound [OF b(1)] b(2) show "x \<in> {unat (data_start q) * BLOCK_SIZE..<fs_len q}"
    unfolding block_area_def atLeastLessThan_iff by linarith
qed

lemma disjoint_below: "A \<subseteq> {..<k} \<Longrightarrow> B \<subseteq> {k..<m} \<Longrightarrow> A \<inter> B = {}" for k m :: nat
  by fastforce

lemma blocks_area_disjoint: "B \<inter> B' = {} \<Longrightarrow> blocks_area B \<inter> blocks_area B' = {}"
proof (rule ccontr)
  assume d: "B \<inter> B' = {}" and "blocks_area B \<inter> blocks_area B' \<noteq> {}"
  then obtain x b b' where "b \<in> B" "b' \<in> B'" "x \<in> block_area b" "x \<in> block_area b'"
    unfolding blocks_area_def by blast
  moreover from this d have "b \<noteq> b'" by blast
  ultimately show False using block_area_disjoint [of b b'] by blast
qed

lemma bitmap_data_disjoint: "B \<subseteq> data_blocks q \<Longrightarrow> bitmap_area q \<inter> blocks_area B = {}"
  by (rule disjoint_below [OF _ blocks_area_data]) (auto simp: bitmap_area_def)

text \<open>The place of an inode; \<open>None\<close> for an index beyond the table.\<close>

definition inode_loc :: "superblock \<Rightarrow> u32 \<Rightarrow> nat option" where
  "inode_loc q idx = (if inode_count q \<le> idx then None else inode_offset q idx)"

lemma inode_loc_layout:
  assumes "layout q" and "idx < inode_count q"
  defines "off \<equiv> unat (inode_table_start q) * BLOCK_SIZE + unat idx * INODE_SIZE"
  shows "inode_loc q idx = Some off" "inode_offset q idx = Some off"
    "inode_area off \<subseteq> {unat (inode_table_start q) * BLOCK_SIZE..<unat (bitmap_start q) * BLOCK_SIZE}"
    "off + INODE_SIZE \<le> fs_len q"
proof -
  have "Suc (unat idx) \<le> unat (inode_count q)" using assms(2) by (simp add: word_less_nat_alt)
  then have "Suc (unat idx) * INODE_SIZE \<le> unat (inode_count q) * INODE_SIZE" by (rule mult_le_mono1)
  then have a: "off + INODE_SIZE \<le> unat (bitmap_start q) * BLOCK_SIZE"
    using assms(1) by (simp add: layout_def off_def)
  have "unat (bitmap_start q) * BLOCK_SIZE \<le> unat (data_start q) * BLOCK_SIZE"
    using assms(1) unfolding layout_def by linarith
  also have "\<dots> \<le> fs_len q" using assms(1) by (simp add: layout_def fs_len_def word_le_nat_alt)
  finally show b: "off + INODE_SIZE \<le> fs_len q" using a by simp
  have "off < 2 ^ 64" using b fs_len_u64 [of q] assms(1) by simp
  with b show "inode_offset q idx = Some off" by (simp add: inode_offset_def off_def Let_def)
  then show "inode_loc q idx = Some off" using assms(2) by (simp add: inode_loc_def not_le)
  show "inode_area off \<subseteq> {unat (inode_table_start q) * BLOCK_SIZE..<unat (bitmap_start q) * BLOCK_SIZE}"
    using a by (auto simp: inode_area_def off_def)
qed

lemma inode_loc_Some:
  assumes "layout q"
  shows "inode_loc q idx = Some off \<longleftrightarrow>
    idx < inode_count q \<and> off = unat (inode_table_start q) * BLOCK_SIZE + unat idx * INODE_SIZE"
  using inode_loc_layout(1) [OF assms, of idx] by (cases "idx < inode_count q") (auto simp: inode_loc_def)

lemma inode_loc_disjoint:
  assumes "layout q" "inode_loc q i = Some a" "inode_loc q j = Some b" "i \<noteq> j"
  shows "inode_area a \<inter> inode_area b = {}"
proof -
  have "unat i < unat j \<or> unat j < unat i" using assms(4) by (rule unat_neq)
  then have "unat i * INODE_SIZE + INODE_SIZE \<le> unat j * INODE_SIZE \<or> unat j * INODE_SIZE + INODE_SIZE \<le> unat i * INODE_SIZE"
    using mult_stride by blast
  then show ?thesis using assms(2,3) by (auto simp: inode_loc_Some [OF assms(1)] inode_area_def)
qed

lemma inode_area_table:
  assumes "layout q" and "inode_loc q i = Some a"
  shows "inode_area a \<subseteq> {unat (inode_table_start q) * BLOCK_SIZE..<unat (bitmap_start q) * BLOCK_SIZE}"
  using inode_loc_layout(3) [OF assms(1), of i] assms(2) inode_loc_Some [OF assms(1), of i a] by simp

lemma inode_loc_bitmap: "layout q \<Longrightarrow> inode_loc q i = Some a \<Longrightarrow> inode_area a \<inter> bitmap_area q = {}"
  unfolding bitmap_area_def
  by (rule disjoint_below [where k = "unat (bitmap_start q) * BLOCK_SIZE"], drule (1) inode_area_table) auto

lemma inode_loc_data: "layout q \<Longrightarrow> inode_loc q i = Some a \<Longrightarrow> B \<subseteq> data_blocks q \<Longrightarrow> inode_area a \<inter> blocks_area B = {}"
proof -
  assume l: "layout q" and i: "inode_loc q i = Some a" and B: "B \<subseteq> data_blocks q"
  have "inode_area a \<subseteq> {..<unat (data_start q) * BLOCK_SIZE}"
  proof -
    have "unat (bitmap_start q) * BLOCK_SIZE \<le> unat (data_start q) * BLOCK_SIZE" using l unfolding layout_def by linarith
    moreover have "inode_area a \<subseteq> {..<unat (bitmap_start q) * BLOCK_SIZE}"
      using inode_area_table [OF l i] by auto
    ultimately show ?thesis by (meson lessThan_subset_iff order_trans)
  qed
  then show ?thesis using blocks_area_data [OF B] by (rule disjoint_below)
qed

section \<open>The superblock on disk\<close>

lemma cfs_read_u32_rslice:
  "cfs_read_u32 bs off = (if off + 4 \<le> length bs then Some (from_le (rslice bs off (off + 4))) else None)"
  using rslice4 [of off bs] by (simp add: cfs_read_u32_def del: from_le.simps)

definition superblock_accepted :: "superblock \<Rightarrow> bool" where
  "superblock_accepted q \<longleftrightarrow> total_blocks q \<noteq> 0 \<and> inode_count q \<noteq> 0 \<and> root_inode q < inode_count q \<and>
     data_start q < total_blocks q \<and> bitmap_start q + bitmap_blocks q \<le> data_start q"

lemma superblock_write_parse:
  assumes "length bs = BLOCK_SIZE"
  shows "superblock_parse (superblock_write q bs) = (if superblock_accepted q then Some q else None)"
proof -
  let ?i = "superblock_write q bs"
  have len: "length ?i = 4096" using assms by (simp add: superblock_write_def cfs_write_u32_def Let_def BLOCK_SIZE_def)
  have m: "rslice ?i 0 8 = COOLFS_MAGIC"
    using assms by (simp add: superblock_write_def cfs_write_u32_def Let_def rslice_patch_disjoint rslice_patch_same
        COOLFS_MAGIC_def BLOCK_SIZE_def)
  have f: "cfs_read_u32 ?i 8 = Some VERSION" "cfs_read_u32 ?i 12 = Some (word_of_nat BLOCK_SIZE)"
    "cfs_read_u32 ?i 24 = Some (word_of_nat INODE_SIZE)" "cfs_read_u32 ?i 16 = Some (total_blocks q)"
    "cfs_read_u32 ?i 20 = Some (inode_count q)" "cfs_read_u32 ?i 28 = Some (inode_table_start q)"
    "cfs_read_u32 ?i 32 = Some (inode_table_blocks q)" "cfs_read_u32 ?i 36 = Some (bitmap_start q)"
    "cfs_read_u32 ?i 40 = Some (bitmap_blocks q)" "cfs_read_u32 ?i 44 = Some (data_start q)"
    "cfs_read_u32 ?i 48 = Some (root_inode q)"
    using assms unfolding cfs_read_u32_rslice len
    by (simp_all add: superblock_write_def cfs_write_u32_def Let_def rslice_patch_disjoint rslice_patch_same
        BLOCK_SIZE_def)
  have "superblock_parse ?i = (if superblock_accepted q then
      Some \<lparr>total_blocks = total_blocks q, inode_count = inode_count q, inode_table_start = inode_table_start q,
        inode_table_blocks = inode_table_blocks q, bitmap_start = bitmap_start q, bitmap_blocks = bitmap_blocks q,
        data_start = data_start q, root_inode = root_inode q\<rparr> else None)"
    using len by (simp add: superblock_parse_def m f BLOCK_SIZE_def superblock_accepted_def not_le not_less)
  then show ?thesis by simp
qed

section \<open>Inodes on disk\<close>

definition inode_bytes :: "inode \<Rightarrow> bytes" where
  "inode_bytes i = [kind i] @ replicate 3 0 @ to_le 4 (isize i) @ concat (map (to_le 4) (direct i)) @
     to_le 4 (indirect i) @ to_le 4 (iuid i) @ to_le 4 (igid i) @ to_le 4 (ucast (and (imode i) MODE_BITS) :: u32) @
     replicate 40 0"

text \<open>The inode that \<open>read_inode\<close> decodes at an offset.\<close>

definition inode_at :: "(nat \<Rightarrow> u8) \<Rightarrow> nat \<Rightarrow> inode" where
  "inode_at v off =
     (let k = v off; m = and (ucast (from_le (bytes_at v (off + INODE_MODE_OFFSET) 4) :: u32)) MODE_BITS in
      \<lparr>kind = k, isize = from_le (bytes_at v (off + 4) 4),
       direct = map (\<lambda>j. from_le (bytes_at v (off + 8 + j * 4) 4)) [0..<DIRECT_BLOCKS],
       indirect = from_le (bytes_at v (off + 8 + DIRECT_BLOCKS * 4) 4),
       iuid = from_le (bytes_at v (off + INODE_UID_OFFSET) 4), igid = from_le (bytes_at v (off + INODE_GID_OFFSET) 4),
       imode = (if k \<noteq> KIND_FREE \<and> m = 0 then (if k = KIND_DIR then DEFAULT_DIR_MODE else DEFAULT_FILE_MODE) else m)\<rparr>)"

text \<open>What reading an inode back makes of its mode: only the nine permission bits survive, and a live inode without
  permissions gets the default ones.\<close>

definition inode_norm :: "inode \<Rightarrow> inode" where
  "inode_norm i = \<lparr>kind = kind i, isize = isize i, direct = direct i, indirect = indirect i, iuid = iuid i, igid = igid i,
     imode = (let m = and (imode i) MODE_BITS in
     if kind i \<noteq> KIND_FREE \<and> m = 0 then (if kind i = KIND_DIR then DEFAULT_DIR_MODE else DEFAULT_FILE_MODE) else m)\<rparr>"

lemma length_concat_map_const:
  "(\<And>x. length (f x) = n) \<Longrightarrow> length (concat (map f xs)) = length xs * n"
  by (induction xs) simp_all

lemma chunk_concat:
  assumes "\<And>x. length (f x) = n" and "j < length xs"
  shows "take n (drop (j * n) (concat (map f xs) @ ys)) = f (xs ! j)"
  using assms(2)
proof (induction xs arbitrary: j)
  case (Cons x xs)
  then show ?case by (cases j) (simp_all add: assms(1))
qed simp

lemma length_inode_bytes: "length (direct i) = DIRECT_BLOCKS \<Longrightarrow> length (inode_bytes i) = INODE_SIZE"
  by (simp add: inode_bytes_def length_concat_map_const DIRECT_BLOCKS_def INODE_SIZE_def)

lemma ucast_mode: "ucast (ucast m :: u32) = m" for m :: u16
  by (rule bit_word_eqI) (simp add: bit_unsigned_iff)

lemma inode_at_splat:
  assumes "length (direct i) = DIRECT_BLOCKS"
  shows "inode_at (splat v off (inode_bytes i)) off = inode_norm i"
proof -
  let ?v = "splat v off (inode_bytes i)"
  have len: "length (inode_bytes i) = 256" using length_inode_bytes [OF assms] by (simp add: INODE_SIZE_def)
  have d: "length (direct i) = 48" using assms by (simp add: DIRECT_BLOCKS_def)
  have lc: "length (concat (map (to_le 4) (direct i))) = 192" using d by (simp add: length_concat_map_const)
  have f: "bytes_at ?v (off + k) n = take n (drop k (inode_bytes i))" if "k + n \<le> 256" for k n
    using bytes_at_splat_inside [of off "off + k" n "inode_bytes i" v] that len by simp
  have k: "?v off = kind i" by (simp add: splat_def inode_bytes_def)
  have t: "take 4 (drop 4 (inode_bytes i)) = to_le 4 (isize i)" "take 4 (drop 200 (inode_bytes i)) = to_le 4 (indirect i)"
    "take 4 (drop 204 (inode_bytes i)) = to_le 4 (iuid i)" "take 4 (drop 208 (inode_bytes i)) = to_le 4 (igid i)"
    "take 4 (drop 212 (inode_bytes i)) = to_le 4 (ucast (and (imode i) MODE_BITS) :: u32)"
    using lc by (simp_all add: inode_bytes_def)
  have a: "from_le (bytes_at ?v (off + 4) 4) = isize i"
    "(from_le (bytes_at ?v (200 + off) 4) :: u32) = indirect i" "(from_le (bytes_at ?v (off + 204) 4) :: u32) = iuid i"
    "(from_le (bytes_at ?v (off + 208) 4) :: u32) = igid i"
    "(from_le (bytes_at ?v (off + 212) 4) :: u32) = ucast (and (imode i) MODE_BITS)"
    using f [of 200 4] by (simp_all add: f t add.commute [of 200])
  have dir: "(from_le (bytes_at ?v (off + 8 + j * 4) 4) :: u32) = direct i ! j" if "j < 48" for j
  proof -
    define pre rest where "pre = [kind i] @ replicate 3 0 @ to_le 4 (isize i)"
      and "rest = to_le 4 (indirect i) @ to_le 4 (iuid i) @ to_le 4 (igid i) @
        to_le 4 (ucast (and (imode i) MODE_BITS) :: u32) @ replicate 40 0"
    have "inode_bytes i = pre @ concat (map (to_le 4) (direct i)) @ rest" "length pre = 8"
      by (simp_all add: inode_bytes_def pre_def rest_def)
    then have "drop (8 + j * 4) (inode_bytes i) = drop (j * 4) (concat (map (to_le 4) (direct i)) @ rest)"
      by (simp del: drop_append) (simp add: drop_append)
    moreover have "take 4 (drop (j * 4) (concat (map (to_le 4) (direct i)) @ rest)) = to_le 4 (direct i ! j)"
      by (rule chunk_concat) (use that d in simp_all)
    ultimately have "take 4 (drop (8 + j * 4) (inode_bytes i)) = to_le 4 (direct i ! j)" by metis
    then show ?thesis using f [of "8 + j * 4" 4] that by (simp add: add.assoc)
  qed
  have "map (\<lambda>j. from_le (bytes_at ?v (off + 8 + j * 4) 4)) [0..<48] = direct i"
    using d dir by (intro nth_equalityI) simp_all
  then show ?thesis
    by (simp add: inode_at_def inode_norm_def Let_def k a DIRECT_BLOCKS_def INODE_UID_OFFSET_def INODE_GID_OFFSET_def
        INODE_MODE_OFFSET_def ucast_mode and.assoc)
qed

lemma bytes_at_inode_area:
  assumes "agree_off A v w" and "A \<inter> inode_area off = {}" and "k + n \<le> INODE_SIZE"
  shows "bytes_at w (off + k) n = bytes_at v (off + k) n"
  by (rule agree_off_bytes_at [OF assms(1)]) (use assms(2,3) in \<open>auto simp: inode_area_def\<close>)

lemma inode_at_agree:
  assumes "agree_off A v w" and "A \<inter> inode_area off = {}"
  shows "inode_at w off = inode_at v off"
proof -
  note b = bytes_at_inode_area [OF assms]
  have "off \<notin> A" using assms(2) by (auto simp: inode_area_def INODE_SIZE_def)
  then have k: "w off = v off" using assms(1) by (simp add: agree_off_def)
  have "bytes_at w (off + 8 + j * 4) 4 = bytes_at v (off + 8 + j * 4) 4" if "j < 48" for j
    using b [of "8 + j * 4" 4] that by (simp add: INODE_SIZE_def add.assoc)
  then have m: "map (\<lambda>j. from_le (bytes_at w (off + 8 + j * 4) 4) :: u32) [0..<48] =
      map (\<lambda>j. from_le (bytes_at v (off + 8 + j * 4) 4)) [0..<48]" by simp
  have "bytes_at w (200 + off) 4 = bytes_at v (200 + off) 4"
    using b [of 200 4] by (simp add: INODE_SIZE_def add.commute)
  then show ?thesis
    using b [of 4 4] b [of 204 4] b [of 208 4] b [of 212 4]
    by (simp add: inode_at_def k m DIRECT_BLOCKS_def INODE_UID_OFFSET_def INODE_GID_OFFSET_def INODE_MODE_OFFSET_def
        INODE_SIZE_def)
qed

lemma append_write:
  assumes "fits q" and "off + N \<le> fs_len q" and "length xs + length ys \<le> N"
  shows "valid (img h (splat v off xs) q) (write_at (off + length xs) ys) (\<lambda>_. img h (splat v off (xs @ ys)) q)
    (\<lambda>e s. framed img h {off..<off + N} v q s \<and> e = Io \<and> \<not> h)"
proof (rule valid_weaken [OF write_at_spec [OF assms(1)]])
  fix e s
  assume a: "framed img h {off + length xs..<off + length xs + length ys} (splat v off xs) q s \<and> e = Io \<and>
    (h \<longrightarrow> \<not> off + length xs + length ys \<le> fs_len q)"
  have "agree_off {off..<off + N} v (splat v off xs)" using assms(3) by (intro agree_off_splat) auto
  moreover have "framed img h {off..<off + N} (splat v off xs) q s"
    by (rule framed_mono [OF conjunct1 [OF a]]) (use assms(3) in auto)
  ultimately have "framed img h {off..<off + N} v q s" by (rule framed_trans)
  then show "framed img h {off..<off + N} v q s \<and> e = Io \<and> \<not> h" using a assms(2,3) by auto
qed (auto simp: splat_append)

lemma append_fill:
  assumes "fits q" and "off + N \<le> fs_len q" and "length xs + n \<le> N"
  shows "valid (img h (splat v off xs) q) (fill_at (off + length xs) n x) (\<lambda>_. img h (splat v off (xs @ replicate n x)) q)
    (\<lambda>e s. framed img h {off..<off + N} v q s \<and> e = Io \<and> \<not> h)"
proof (rule valid_weaken [OF fill_at_spec [OF assms(1)]])
  fix e s
  assume a: "framed img h {off + length xs..<off + length xs + n} (splat v off xs) q s \<and> e = Io \<and>
    (h \<longrightarrow> \<not> off + length xs + n \<le> fs_len q)"
  have "agree_off {off..<off + N} v (splat v off xs)" using assms(3) by (intro agree_off_splat) auto
  moreover have "framed img h {off..<off + N} (splat v off xs) q s"
    by (rule framed_mono [OF conjunct1 [OF a]]) (use assms(3) in auto)
  ultimately have "framed img h {off..<off + N} v q s" by (rule framed_trans)
  then show "framed img h {off..<off + N} v q s \<and> e = Io \<and> \<not> h" using a assms(2,3) by auto
qed (auto simp: splat_append)

lemma write_inode_spec:
  assumes "fits q" and off: "inode_offset q idx = Some off" and dir: "length (direct i) = DIRECT_BLOCKS"
  shows "valid (img h v q) (write_inode idx i) (\<lambda>_. img h (splat v off (inode_bytes i)) q)
    (\<lambda>e s. framed img h (inode_area off) v q s \<and> e = Io \<and> \<not> h)"
proof -
  have len: "off + 256 \<le> fs_len q" using off by (auto simp: inode_offset_def Let_def INODE_SIZE_def split: if_splits)
  let ?E = "\<lambda>e s. framed img h {off..<off + 256} v q s \<and> e = Io \<and> \<not> h"
  let ?S = "\<lambda>xs (_::unit). img h (splat v off xs) q"
  define x1 where "x1 = kind i # replicate 3 0"
  define x2 where "x2 = x1 @ to_le 4 (isize i)"
  define x3 where "x3 = x2 @ concat (map (to_le 4) (direct i))"
  define x4 where "x4 = x3 @ to_le 4 (indirect i)"
  define x5 where "x5 = x4 @ to_le 4 (iuid i)"
  define x6 where "x6 = x5 @ to_le 4 (igid i)"
  define x7 where "x7 = x6 @ to_le 4 (ucast (and (imode i) MODE_BITS) :: u32)"
  have d: "length (direct i) = 48" using dir by (simp add: DIRECT_BLOCKS_def)
  have l: "length x1 = 4" "length x2 = 8" "length x3 = 200" "length x4 = 204" "length x5 = 208" "length x6 = 212"
    "length x7 = 216" using d
    by (simp_all add: x1_def x2_def x3_def x4_def x5_def x6_def x7_def length_concat_map_const)
  have w: "valid (img h (splat v off xs) q) (write_u32_at (off + length xs) y) (?S (xs @ to_le 4 y)) ?E"
    if "length xs + 4 \<le> 256" for xs y
    unfolding write_u32_at_def using append_write [OF assms(1) len, of xs "to_le 4 y" h v] that by simp
  have "valid (img h v q) (write_u8 off (kind i)) (?S [kind i]) ?E"
    by (rule valid_weaken [OF write_u8_spec [OF assms(1)]]) (use len in \<open>auto intro: framed_refl\<close>)
  moreover have "valid (img h (splat v off [kind i]) q) (fill_at (off + 1) 3 0) (?S x1) ?E"
    using append_fill [OF assms(1) len, of "[kind i]" 3 h v 0] by (simp add: x1_def)
  moreover have "valid (img h (splat v off x1) q) (write_u32_at (off + 4) (isize i)) (?S x2) ?E"
    using w [of x1 "isize i"] by (simp add: l x2_def)
  moreover have "valid (img h (splat v off x2) q)
    (for_each [0..<48] (\<lambda>j. write_u32_at (off + 8 + j * 4) (direct i ! j))) (?S x3) ?E"
  proof -
    have "valid (img h (splat v off (x2 @ concat (map (to_le 4) (take 0 (direct i))))) q)
      (for_each [0..<48] (\<lambda>j. write_u32_at (off + 8 + j * 4) (direct i ! j)))
      (\<lambda>_. img h (splat v off (x2 @ concat (map (to_le 4) (take 48 (direct i))))) q) ?E"
    proof (rule valid_for_upt)
      fix j :: nat assume j: "j < 48"
      let ?xs = "x2 @ concat (map (to_le 4) (take j (direct i)))"
      have lx: "length ?xs = 8 + j * 4" using j d by (simp add: l length_concat_map_const)
      have eq: "x2 @ concat (map (to_le 4) (take (Suc j) (direct i))) = ?xs @ to_le 4 (direct i ! j)"
        using j d by (simp add: take_Suc_conv_app_nth)
      have o: "off + 8 + j * 4 = off + length ?xs" using lx by simp
      show "valid (img h (splat v off ?xs) q) (write_u32_at (off + 8 + j * 4) (direct i ! j))
        (?S (x2 @ concat (map (to_le 4) (take (Suc j) (direct i))))) ?E"
        unfolding eq o by (rule w) (use lx j in simp)
    qed
    then show ?thesis using d by (simp add: x3_def)
  qed
  moreover have "valid (img h (splat v off x3) q) (write_u32_at (200 + off) (indirect i)) (?S x4) ?E"
    using w [of x3 "indirect i"] by (simp add: l x4_def add.commute [of 200])
  moreover have "valid (img h (splat v off x4) q) (write_u32_at (off + 204) (iuid i)) (?S x5) ?E"
    using w [of x4 "iuid i"] by (simp add: l x5_def)
  moreover have "valid (img h (splat v off x5) q) (write_u32_at (off + 208) (igid i)) (?S x6) ?E"
    using w [of x5 "igid i"] by (simp add: l x6_def)
  moreover have "valid (img h (splat v off x6) q) (write_u32_at (off + 212) (ucast (and (imode i) MODE_BITS))) (?S x7) ?E"
    using w [of x6 "ucast (and (imode i) MODE_BITS)"] by (simp add: l x7_def)
  moreover have "valid (img h (splat v off x7) q) (fill_at (off + 216) 40 0) (?S (inode_bytes i)) ?E"
    using append_fill [OF assms(1) len, of x7 40 h v 0]
    by (simp add: l) (simp add: x7_def x6_def x5_def x4_def x3_def x2_def x1_def inode_bytes_def)
  ultimately show ?thesis
    unfolding write_inode_def DIRECT_BLOCKS_def INODE_UID_OFFSET_def INODE_GID_OFFSET_def INODE_MODE_OFFSET_def
      INODE_USED_BYTES_def INODE_SIZE_def inode_area_def
    by (intro valid_gets_sb) (simp add: off lift_opt_def, intro valid_bnd)
qed

subsection \<open>Reading an inode\<close>

lemma valid_bnd_pure:
  assumes "valid P m (\<lambda>x s. P s \<and> x = a) E" and "valid P (f a) Q E"
  shows "valid P (bnd m f) Q E"
  by (rule valid_bnd [OF assms(1)], rule valid_assume) (use assms(2) in simp)

lemma valid_unwrap_or:
  assumes "valid P m (\<lambda>x s. P s \<and> x = a) (\<lambda>_ _. False)"
  shows "valid P (unwrap_or d m) (\<lambda>x s. P s \<and> x = a) E"
  unfolding unwrap_or_def
  by (rule valid_bnd [where R = "\<lambda>r s. P s \<and> r = Inr a"], rule valid_attempt, rule valid_weaken [OF assms])
    (auto intro: valid_ret)

lemma inode_loc_bound: "inode_loc q idx = Some off \<Longrightarrow> off + INODE_SIZE \<le> fs_len q \<and> idx < inode_count q"
  by (auto simp: inode_loc_def inode_offset_def Let_def not_le split: if_splits)

lemma read_inode_Some:
  assumes fits: "fits q" and loc: "inode_loc q idx = Some off"
  shows "valid (img True v q) (read_inode idx) (\<lambda>i s. img True v q s \<and> i = inode_at v off) E"
proof -
  have len: "off + 256 \<le> fs_len q" and ic: "\<not> inode_count q \<le> idx"
    using inode_loc_bound [OF loc] by (simp_all add: INODE_SIZE_def not_le)
  have io: "inode_offset q idx = Some off" using loc ic by (simp add: inode_loc_def)
  have r: "valid (img True v q) (read_u32_at (off + k)) (\<lambda>x s. img True v q s \<and> x = from_le (bytes_at v (off + k) 4)) E'"
    if "k + 4 \<le> 256" for k E'
    by (rule valid_weaken [OF read_u32_at_spec [OF fits]]) (use that len in auto)
  have k: "valid (img True v q) (read_u8 off) (\<lambda>x s. img True v q s \<and> x = v off) E"
    by (rule valid_weaken [OF read_u8_spec [OF fits]]) (use len in auto)
  have d: "valid (img True v q) (map_each [0..<48] (\<lambda>j. read_u32_at (off + 8 + j * 4)))
    (\<lambda>ds s. img True v q s \<and> ds = map (\<lambda>j. from_le (bytes_at v (off + 8 + j * 4) 4)) [0..<48]) E"
    by (rule valid_map_each) (use r [of "8 + _ * 4"] in \<open>simp add: add.assoc\<close>)
  have ind: "valid (img True v q) (read_u32_at (200 + off))
      (\<lambda>x s. img True v q s \<and> x = from_le (bytes_at v (200 + off) 4)) E"
    using r [of 200 E] by (simp add: add.commute [of 200])
  have m: "valid (img True v q) (bnd (read_u32_at (off + 212)) (\<lambda>m. ret (and (ucast m) MODE_BITS)))
    (\<lambda>x s. img True v q s \<and> x = and (ucast (from_le (bytes_at v (off + 212) 4) :: u32)) MODE_BITS) (\<lambda>_ _. False)"
    by (rule valid_bnd_pure [OF r]) (auto intro: valid_ret)
  show ?thesis
    unfolding read_inode_def DIRECT_BLOCKS_def INODE_UID_OFFSET_def INODE_GID_OFFSET_def INODE_MODE_OFFSET_def
    apply (rule valid_gets_sb)
    apply (simp add: ic io lift_opt_def)
    apply (rule valid_bnd_pure [OF k])
    apply (rule valid_bnd_pure [OF r [of 4]], simp)
    apply (rule valid_bnd_pure [OF d])
    apply (rule valid_bnd_pure [OF ind])
    apply (rule valid_bnd_pure [OF valid_unwrap_or [OF r [of 204]]], simp)
    apply (rule valid_bnd_pure [OF valid_unwrap_or [OF r [of 208]]], simp)
    apply (rule valid_bnd_pure [OF valid_unwrap_or [OF m]])
    apply (rule valid_ret)
    apply (simp add: inode_at_def inode_new_def Let_def DIRECT_BLOCKS_def INODE_UID_OFFSET_def INODE_GID_OFFSET_def
        INODE_MODE_OFFSET_def)
    done
qed

lemma read_inode_None:
  assumes "inode_loc q idx = None"
  shows "valid (img h v q) (read_inode idx) Q (\<lambda>_. img h v q)"
  unfolding read_inode_def using assms
  by (intro valid_gets_sb) (auto simp: inode_loc_def lift_opt_def intro: valid_err)

section \<open>The bitmap\<close>

definition bit_used :: "superblock \<Rightarrow> (nat \<Rightarrow> u8) \<Rightarrow> u32 \<Rightarrow> bool" where
  "bit_used q v b = bit (v (unat (bitmap_start q) * BLOCK_SIZE + unat b div 8)) (unat b mod 8)"

definition set_bit_used :: "superblock \<Rightarrow> (nat \<Rightarrow> u8) \<Rightarrow> u32 \<Rightarrow> bool \<Rightarrow> nat \<Rightarrow> u8" where
  "set_bit_used q v b u =
     (let byte = unat (bitmap_start q) * BLOCK_SIZE + unat b div 8; mask = push_bit (unat b mod 8) 1 in
      splat v byte [if u then or (v byte) mask else and (v byte) (not mask)])"

lemma bitmap_byte_layout:
  assumes "layout q" and "b < total_blocks q"
  shows "unat (bitmap_start q) * BLOCK_SIZE + unat b div 8 \<in> bitmap_area q"
    "unat (bitmap_start q) * BLOCK_SIZE + unat b div 8 < fs_len q"
    "bitmap_byte_bit q b = Some (unat (bitmap_start q) * BLOCK_SIZE + unat b div 8, push_bit (unat b mod 8) 1)"
proof -
  have "unat b < unat (total_blocks q)" using assms(2) by (simp add: word_less_nat_alt)
  then have "unat b div 8 < (unat (total_blocks q) + 7) div 8" by linarith
  moreover have "unat (bitmap_start q) * BLOCK_SIZE + (unat (total_blocks q) + 7) div 8 \<le> unat (data_start q) * BLOCK_SIZE"
    using assms(1) by (simp add: layout_def)
  ultimately have lt: "unat (bitmap_start q) * BLOCK_SIZE + unat b div 8 < unat (data_start q) * BLOCK_SIZE" by linarith
  then show "unat (bitmap_start q) * BLOCK_SIZE + unat b div 8 \<in> bitmap_area q" by (simp add: bitmap_area_def)
  have "unat (data_start q) * BLOCK_SIZE \<le> fs_len q"
    using assms(1) by (simp add: layout_def fs_len_def word_le_nat_alt)
  with lt show l: "unat (bitmap_start q) * BLOCK_SIZE + unat b div 8 < fs_len q" by linarith
  show "bitmap_byte_bit q b = Some (unat (bitmap_start q) * BLOCK_SIZE + unat b div 8, push_bit (unat b mod 8) 1)"
    using assms(2) l by (simp add: bitmap_byte_bit_def Let_def not_le)
qed

lemma bit_mask: "bit (2 ^ n :: u8) m \<longleftrightarrow> m = n" if "n < 8"
  using that by (auto simp: bit_exp_iff)

lemma and_mask_bit: "and x (2 ^ n) \<noteq> 0 \<longleftrightarrow> bit x n" if "n < 8" for x :: u8
proof
  assume "and x (2 ^ n) \<noteq> 0"
  then obtain m where "bit (and x (2 ^ n)) m" using bit_eqI [of "and x (2 ^ n)" 0] by auto
  then show "bit x n" using bit_mask [OF that, of m] by (auto simp: bit_and_iff)
next
  assume "bit x n"
  then have "bit (and x (2 ^ n)) n" using bit_mask [OF that, of n] by (simp add: bit_and_iff)
  then show "and x (2 ^ n) \<noteq> 0" by auto
qed

lemma bit_set_used:
  fixes x :: u8
  assumes "n < 8" and "m < 8"
  shows "bit (or x (2 ^ n)) m \<longleftrightarrow> bit x m \<or> m = n" "bit (and x (not (2 ^ n))) m \<longleftrightarrow> bit x m \<and> m \<noteq> n"
  using assms bit_mask [OF assms(1), of m] by (auto simp: bit_or_iff bit_and_iff bit_not_iff)

lemma div_mod_eq_iff: "a div n = c div n \<Longrightarrow> c mod n = a mod n \<longleftrightarrow> c = a" for a c n :: nat
  by (metis div_mult_mod_eq)

lemma set_bit_used_other:
  "a \<noteq> unat (bitmap_start q) * BLOCK_SIZE + unat b div 8 \<Longrightarrow> set_bit_used q v b u a = v a"
  unfolding set_bit_used_def Let_def splat_def by fastforce

lemma bit_used_set:
  "bit_used q (set_bit_used q v b u) b' = (if b' = b then u else bit_used q v b')"
proof (cases "unat b div 8 = unat b' div 8")
  case True
  let ?X = "v (unat (bitmap_start q) * BLOCK_SIZE + unat b div 8)"
  have iff: "unat b' mod 8 = unat b mod 8 \<longleftrightarrow> b' = b"
    using div_mod_eq_iff [OF True] unfolding word_unat_eq_iff [of b' b] .
  have "bit_used q (set_bit_used q v b u) b' =
      bit (if u then or ?X (2 ^ (unat b mod 8)) else and ?X (not (2 ^ (unat b mod 8)))) (unat b' mod 8)"
    unfolding bit_used_def set_bit_used_def Let_def splat_def True [symmetric] by simp
  also have "\<dots> = (if b' = b then u else bit ?X (unat b' mod 8))"
    unfolding iff [symmetric] using bit_set_used [of "unat b mod 8" "unat b' mod 8" ?X] by (cases u) simp_all
  also have "bit ?X (unat b' mod 8) = bit_used q v b'" unfolding bit_used_def True ..
  finally show ?thesis .
next
  case False
  then have "b' \<noteq> b" by auto
  have "set_bit_used q v b u (unat (bitmap_start q) * BLOCK_SIZE + unat b' div 8) =
      v (unat (bitmap_start q) * BLOCK_SIZE + unat b' div 8)"
    by (rule set_bit_used_other) (use False in simp)
  then show ?thesis using \<open>b' \<noteq> b\<close> by (simp add: bit_used_def)
qed

lemma set_bit_used_agree: "layout q \<Longrightarrow> b < total_blocks q \<Longrightarrow> agree_off (bitmap_area q) v (set_bit_used q v b u)"
  using bitmap_byte_layout(1) [of q b] by (auto simp: set_bit_used_def Let_def intro!: agree_off_splat)

lemma bit_used_agree:
  assumes "layout q" "b < total_blocks q" "agree_off A v w" "A \<inter> bitmap_area q = {}"
  shows "bit_used q w b = bit_used q v b"
  using bitmap_byte_layout(1) [OF assms(1,2)] assms(3,4) by (auto simp: bit_used_def agree_off_def)

lemma block_used_spec:
  assumes "layout q" and "b < total_blocks q"
  shows "valid (img True v q) (block_used b) (\<lambda>u s. img True v q s \<and> u = bit_used q v b) E"
proof -
  note bb = bitmap_byte_layout [OF assms]
  let ?o = "unat (bitmap_start q) * BLOCK_SIZE + unat b div 8"
  have r: "valid (img True v q) (read_u8 ?o) (\<lambda>x s. img True v q s \<and> x = v ?o) (\<lambda>_ _. False)"
    by (rule valid_weaken [OF read_u8_spec]) (use assms(1) bb(2) in auto)
  have "valid (img True v q) (bnd (read_u8 ?o) (\<lambda>value. ret (and value (2 ^ (unat b mod 8)) \<noteq> 0)))
    (\<lambda>u s. img True v q s \<and> u = bit_used q v b) (\<lambda>_ _. False)"
    by (rule valid_bnd_pure [OF r], rule valid_ret) (simp add: and_mask_bit bit_used_def)
  then show ?thesis unfolding block_used_def
    by (intro valid_gets_sb valid_unwrap_or) (simp add: bb(3) lift_opt_def)
qed

lemma set_block_used_spec:
  assumes "layout q" and "b < total_blocks q"
  shows "valid (img True v q) (set_block_used b u) (\<lambda>_. img True (set_bit_used q v b u) q) E"
proof -
  note bb = bitmap_byte_layout [OF assms]
  let ?o = "unat (bitmap_start q) * BLOCK_SIZE + unat b div 8"
  have r: "valid (img True v q) (ok_or Io (read_u8 ?o)) (\<lambda>x s. img True v q s \<and> x = v ?o) E"
    by (rule valid_map_err, rule valid_weaken [OF read_u8_spec]) (use assms(1) bb(2) in auto)
  have w: "valid (img True v q) (write_u8 ?o x) (\<lambda>_. img True (splat v ?o [x]) q) E" for x
    by (rule valid_weaken [OF write_u8_spec]) (use assms(1) bb(2) in auto)
  show ?thesis unfolding set_block_used_def
  proof (rule valid_gets_sb)
    have "valid (img True v q) (bnd (ok_or Io (read_u8 ?o)) (\<lambda>value.
        write_u8 ?o (if u then or value (push_bit (unat b mod 8) 1) else and value (not (push_bit (unat b mod 8) 1)))))
      (\<lambda>_. img True (set_bit_used q v b u) q) E"
      unfolding set_bit_used_def Let_def by (rule valid_bnd_pure [OF r], rule w)
    then show "valid (img True v q) (bnd (lift_opt Io (bitmap_byte_bit q b)) (\<lambda>(byte, mask).
      bnd (ok_or Io (read_u8 byte)) (\<lambda>value. write_u8 byte (if u then or value mask else and value (not mask)))))
      (\<lambda>_. img True (set_bit_used q v b u) q) E"
      unfolding bb(3) lift_opt_def option.case bnd_ret split_conv .
  qed
qed

section \<open>Allocating and releasing blocks\<close>

lemma alloc_loop_spec:
  assumes l: "layout q" and "set bs \<subseteq> data_blocks q"
  shows "valid (img True v q) (alloc_loop bs)
    (\<lambda>b. \<lambda>s. b \<in> set bs \<and> \<not> bit_used q v b \<and>
       img True (splat (set_bit_used q v b True) (unat b * BLOCK_SIZE) (replicate BLOCK_SIZE 0)) q s)
    (\<lambda>e s. img True v q s \<and> e = NoSpace \<and> (\<forall>b \<in> set bs. bit_used q v b))"
  using assms(2)
proof (induction bs)
  case Nil
  then show ?case by (simp add: valid_err)
next
  case (Cons b bs)
  then have b: "b < total_blocks q" by (auto simp: data_blocks_def)
  have bT: "b < TOTAL_BLOCKS" using b layout_fits [OF l] by (auto simp: fits_def)
  note IH = Cons.IH [OF subset_trans [OF set_subset_Cons Cons.prems]]
  let ?v = "set_bit_used q v b True"
  have z: "valid (img True ?v q) (bnd (zero_block b) (\<lambda>_. ret b))
    (\<lambda>x s. x = b \<and> img True (splat ?v (unat b * BLOCK_SIZE) (replicate BLOCK_SIZE 0)) q s) E" for E
    by (rule valid_bnd [where R = "\<lambda>_. img True (splat ?v (unat b * BLOCK_SIZE) (replicate BLOCK_SIZE 0)) q"],
        rule valid_weaken [OF zero_block_spec]) (use bT in \<open>auto intro: valid_ret\<close>)
  have set: "valid (img True v q) (bnd (set_block_used b True) (\<lambda>_. bnd (zero_block b) (\<lambda>_. ret b)))
    (\<lambda>x s. x = b \<and> img True (splat ?v (unat b * BLOCK_SIZE) (replicate BLOCK_SIZE 0)) q s) E" for E
    by (rule valid_bnd [OF set_block_used_spec [OF l b] z])
  show ?case unfolding alloc_loop.simps
  proof (rule valid_bnd_pure [OF block_used_spec [OF l b]])
    show "valid (img True v q) (if \<not> bit_used q v b then bnd (set_block_used b True) (\<lambda>_. bnd (zero_block b) (\<lambda>_. ret b))
        else alloc_loop bs)
      (\<lambda>x s. x \<in> set (b # bs) \<and> \<not> bit_used q v x \<and>
         img True (splat (set_bit_used q v x True) (unat x * BLOCK_SIZE) (replicate BLOCK_SIZE 0)) q s)
      (\<lambda>e s. img True v q s \<and> e = NoSpace \<and> (\<forall>b \<in> set (b # bs). bit_used q v b))"
      by (rule valid_if, rule valid_weaken [OF set], simp_all, rule valid_weaken [OF IH]) auto
  qed
qed

lemma data_block_list:
  assumes "layout q"
  shows "set (map word_of_nat [unat (data_start q)..<unat (total_blocks q)]) = data_blocks q"
proof -
  have "b \<in> word_of_nat ` {unat (data_start q)..<unat (total_blocks q)} \<longleftrightarrow> b \<in> data_blocks q" for b
  proof
    assume "b \<in> word_of_nat ` {unat (data_start q)..<unat (total_blocks q)}"
    then obtain n where n: "unat (data_start q) \<le> n" "n < unat (total_blocks q)" "b = word_of_nat n" by auto
    then have "unat b = n" using unsigned_less [of "total_blocks q", where 'a = nat] by (simp add: unat_of_nat)
    then show "b \<in> data_blocks q" using n by (simp add: data_blocks_def word_le_nat_alt word_less_nat_alt)
  next
    assume "b \<in> data_blocks q"
    then show "b \<in> word_of_nat ` {unat (data_start q)..<unat (total_blocks q)}"
      by (intro image_eqI [of _ _ "unat b"]) (simp_all add: data_blocks_def word_le_nat_alt word_less_nat_alt)
  qed
  then show ?thesis by auto
qed

lemma alloc_block_spec:
  assumes l: "layout q"
  shows "valid (img True v q) alloc_block
    (\<lambda>b s. b \<in> data_blocks q \<and> \<not> bit_used q v b \<and>
       img True (splat (set_bit_used q v b True) (unat b * BLOCK_SIZE) (replicate BLOCK_SIZE 0)) q s)
    (\<lambda>e s. img True v q s \<and> e = NoSpace \<and> (\<forall>b \<in> data_blocks q. bit_used q v b))"
  unfolding alloc_block_def
  by (rule valid_gets_sb, rule valid_weaken [OF alloc_loop_spec [OF l]])
    (simp_all add: data_block_list [OF l] del: set_map)

lemma free_block_spec:
  assumes l: "layout q"
  shows "valid (img True v q) (free_block b)
    (\<lambda>_. img True (if b \<in> data_blocks q then set_bit_used q v b False else v) q) E"
  unfolding free_block_def
  by (rule valid_gets_sb, rule valid_if)
    (auto simp: data_blocks_def not_less not_le intro: valid_ret set_block_used_spec [OF l])

text \<open>The blocks released by a loop of \<open>free_block\<close>.\<close>

definition release :: "superblock \<Rightarrow> u32 list \<Rightarrow> (nat \<Rightarrow> u8) \<Rightarrow> nat \<Rightarrow> u8" where
  "release q bs v = foldl (\<lambda>w b. if b \<in> data_blocks q then set_bit_used q w b False else w) v bs"

lemma free_blocks_spec:
  assumes l: "layout q"
  shows "valid (img True v q) (for_each bs free_block) (\<lambda>_. img True (release q bs v) q) E"
proof (induction bs arbitrary: v)
  case Nil
  then show ?case by (simp add: release_def valid_ret)
next
  case (Cons b bs)
  show ?case using valid_bnd [OF free_block_spec [OF l] Cons.IH] by (simp add: release_def)
qed

lemma release_used: "bit_used q (release q bs v) b \<longleftrightarrow> bit_used q v b \<and> \<not> (b \<in> set bs \<and> b \<in> data_blocks q)"
  by (induction bs arbitrary: v) (auto simp: release_def bit_used_set)

lemma release_agree: "layout q \<Longrightarrow> agree_off (bitmap_area q) v (release q bs v)"
proof (induction bs arbitrary: v)
  case (Cons b bs)
  let ?w = "if b \<in> data_blocks q then set_bit_used q v b False else v"
  have "agree_off (bitmap_area q) v ?w" using set_bit_used_agree [OF Cons.prems] by (simp add: data_blocks_def)
  from agree_off_trans [OF this Cons.IH [OF Cons.prems, of ?w]] show ?case by (simp add: release_def)
qed (simp add: release_def)

end
