(* ===== verification/CoolFS_Files.thy ===== *)
theory CoolFS_Files
  imports CoolFS_Inodes
begin

text \<open>
  File contents of a CoolFS image. The invariant \<open>fs_inv\<close> says that every live inode owns data blocks of its own that the
  bitmap marks in use; the abstraction \<open>files\<close> makes an image a map from inode numbers to files. Reading, writing and
  freeing an inode are lookup, update and removal on this map, and keep the invariant.
\<close>

section \<open>The content of a file\<close>

definition dblocks :: "(nat \<Rightarrow> u8) \<Rightarrow> inode \<Rightarrow> u32 list" where
  "dblocks v i =
     (let n = needed_blocks (unat (isize i)) in
      take (min n DIRECT_BLOCKS) (direct i) @
      map (\<lambda>j. from_le (bytes_at v (unat (indirect i) * BLOCK_SIZE + j * 4) 4)) [0..<n - DIRECT_BLOCKS])"

definition file_content :: "(nat \<Rightarrow> u8) \<Rightarrow> inode \<Rightarrow> bytes" where
  "file_content v i = take (unat (isize i)) (concat (map (\<lambda>b. bytes_at v (unat b * BLOCK_SIZE) BLOCK_SIZE) (dblocks v i)))"

definition owned :: "(nat \<Rightarrow> u8) \<Rightarrow> inode \<Rightarrow> u32 set" where
  "owned v i = set (dblocks v i) \<union> (if indirect i = 0 then {} else {indirect i})"

text \<open>A live inode is sound: it has an indirect block exactly when it is too large for the direct ones, all its blocks are
  data blocks marked in use, and none occurs twice.\<close>

definition inode_ok :: "superblock \<Rightarrow> (nat \<Rightarrow> u8) \<Rightarrow> inode \<Rightarrow> bool" where
  "inode_ok q v i \<longleftrightarrow>
     (let n = needed_blocks (unat (isize i)) in
      length (direct i) = DIRECT_BLOCKS \<and> n \<le> DIRECT_BLOCKS + INDIRECT_ENTRIES \<and> (indirect i = 0 \<longleftrightarrow> n \<le> DIRECT_BLOCKS) \<and>
      distinct (dblocks v i) \<and> indirect i \<notin> set (dblocks v i) \<and> owned v i \<subseteq> {b \<in> data_blocks q. bit_used q v b})"

definition ino :: "superblock \<Rightarrow> (nat \<Rightarrow> u8) \<Rightarrow> u32 \<Rightarrow> inode option" where
  "ino q v idx = (case inode_loc q idx of None \<Rightarrow> None
     | Some off \<Rightarrow> if kind (inode_at v off) = KIND_FREE then None else Some (inode_at v off))"

text \<open>The invariant of an image: block 0 holds its superblock, every live inode is sound and no two share a block.\<close>

definition fs_inv :: "superblock \<Rightarrow> (nat \<Rightarrow> u8) \<Rightarrow> bool" where
  "fs_inv q v \<longleftrightarrow> layout q \<and> superblock_parse (block_at v 0) = Some q \<and> (\<forall>idx i. ino q v idx = Some i \<longrightarrow> inode_ok q v i) \<and>
     (\<forall>a b i j. ino q v a = Some i \<and> ino q v b = Some j \<and> a \<noteq> b \<longrightarrow> owned v i \<inter> owned v j = {})"

text \<open>The abstraction: an image is a map from inode numbers to files.\<close>

record fs_file =
  fkind :: u8
  fuid :: u32
  fgid :: u32
  fmode :: u16
  fdata :: bytes

definition file_of :: "(nat \<Rightarrow> u8) \<Rightarrow> inode \<Rightarrow> fs_file" where
  "file_of v i = \<lparr>fkind = kind i, fuid = iuid i, fgid = igid i, fmode = imode i, fdata = file_content v i\<rparr>"

definition files :: "superblock \<Rightarrow> (nat \<Rightarrow> u8) \<Rightarrow> u32 \<Rightarrow> fs_file option" where
  "files q v idx = map_option (file_of v) (ino q v idx)"

lemma data_block_pos: "layout q \<Longrightarrow> b \<in> data_blocks q \<Longrightarrow> b \<noteq> 0"
proof
  assume l: "layout q" and b: "b \<in> data_blocks q" and "b = 0"
  then have "data_start q = 0" by (simp add: data_blocks_def)
  moreover have "unat (inode_table_start q) * BLOCK_SIZE \<le> unat (data_start q) * BLOCK_SIZE"
    using l unfolding layout_def by linarith
  ultimately have "unat (inode_table_start q) * BLOCK_SIZE = 0" by simp
  then show False using l by (simp add: layout_def BLOCK_SIZE_def unat_eq_0)
qed

lemma needed_le: "unat (isize i) \<le> needed_blocks (unat (isize i)) * BLOCK_SIZE"
proof -
  have "n \<le> (n + BLOCK_SIZE - 1) div BLOCK_SIZE * BLOCK_SIZE" for n
    using dividend_less_div_times [of BLOCK_SIZE "n + BLOCK_SIZE - 1"] by simp
  then show ?thesis by (simp add: needed_blocks_def)
qed

lemma length_dblocks: "length (direct i) = DIRECT_BLOCKS \<Longrightarrow> length (dblocks v i) = needed_blocks (unat (isize i))"
  by (simp add: dblocks_def Let_def min_def)

lemma inode_okD:
  assumes "inode_ok q v i"
  shows "length (direct i) = DIRECT_BLOCKS" "needed_blocks (unat (isize i)) \<le> DIRECT_BLOCKS + INDIRECT_ENTRIES"
    "indirect i = 0 \<longleftrightarrow> needed_blocks (unat (isize i)) \<le> DIRECT_BLOCKS"
    "set (dblocks v i) \<subseteq> data_blocks q" "indirect i \<noteq> 0 \<Longrightarrow> indirect i \<in> data_blocks q"
    "owned v i \<subseteq> data_blocks q" "\<And>b. b \<in> owned v i \<Longrightarrow> bit_used q v b" "distinct (dblocks v i)"
    "indirect i \<notin> set (dblocks v i)"
  using assms by (auto simp: inode_ok_def Let_def owned_def split: if_splits)

lemma dblocks_agree:
  assumes "agree_off A v w" and "n = needed_blocks (unat (isize i))" "n \<le> DIRECT_BLOCKS + INDIRECT_ENTRIES"
    and "n > DIRECT_BLOCKS \<Longrightarrow> A \<inter> block_area (indirect i) = {}"
  shows "dblocks w i = dblocks v i"
proof -
  have "bytes_at w (unat (indirect i) * BLOCK_SIZE + j * 4) 4 = bytes_at v (unat (indirect i) * BLOCK_SIZE + j * 4) 4"
    if j: "j < n - DIRECT_BLOCKS" for j
  proof (rule agree_off_bytes_at [OF assms(1)])
    have "j < INDIRECT_ENTRIES" using j assms(3) by simp
    then have "j * 4 + 4 \<le> BLOCK_SIZE" by (simp add: INDIRECT_ENTRIES_def BLOCK_SIZE_def)
    then have "{unat (indirect i) * BLOCK_SIZE + j * 4..<unat (indirect i) * BLOCK_SIZE + j * 4 + 4} \<subseteq> block_area (indirect i)"
      by (auto simp: block_area_def)
    moreover have "A \<inter> block_area (indirect i) = {}" using assms(4) j by simp
    ultimately show "A \<inter> {unat (indirect i) * BLOCK_SIZE + j * 4..<unat (indirect i) * BLOCK_SIZE + j * 4 + 4} = {}" by blast
  qed
  then show ?thesis unfolding dblocks_def Let_def assms(2) [symmetric] by simp
qed

lemma block_bytes_agree:
  assumes "agree_off A v w" and "A \<inter> block_area b = {}"
  shows "bytes_at w (unat b * BLOCK_SIZE) BLOCK_SIZE = bytes_at v (unat b * BLOCK_SIZE) BLOCK_SIZE"
  by (rule agree_off_bytes_at [OF assms(1)]) (use assms(2) in \<open>simp add: block_area_def\<close>)

text \<open>A change away from the blocks of a sound inode is invisible to it.\<close>

lemma inode_frame:
  assumes ok: "inode_ok q v i" and ag: "agree_off A v w" and d: "A \<inter> blocks_area (owned v i) = {}"
  shows "dblocks w i = dblocks v i" "file_content w i = file_content v i" "owned w i = owned v i" "file_of w i = file_of v i"
proof -
  have sub: "A \<inter> block_area b = {}" if "b \<in> owned v i" for b
    using d that by (auto simp: blocks_area_def)
  show db: "dblocks w i = dblocks v i"
  proof (rule dblocks_agree [OF ag refl inode_okD(2) [OF ok]])
    assume "needed_blocks (unat (isize i)) > DIRECT_BLOCKS"
    then have "indirect i \<in> owned v i" using inode_okD(3) [OF ok] by (simp add: owned_def)
    then show "A \<inter> block_area (indirect i) = {}" by (rule sub)
  qed
  have "bytes_at w (unat b * BLOCK_SIZE) BLOCK_SIZE = bytes_at v (unat b * BLOCK_SIZE) BLOCK_SIZE"
    if "b \<in> set (dblocks v i)" for b
    by (rule block_bytes_agree [OF ag sub]) (use that in \<open>simp add: owned_def\<close>)
  then show fc: "file_content w i = file_content v i" by (simp add: file_content_def db cong: map_cong)
  show "owned w i = owned v i" by (simp add: owned_def db)
  show "file_of w i = file_of v i" by (simp add: file_of_def fc)
qed

section \<open>Reading a file\<close>

lemma inode_data_blocks_spec:
  assumes ok: "inode_ok q v i" and l: "layout q"
  shows "valid (img True v q) (inode_data_blocks i) (\<lambda>bs s. img True v q s \<and> bs = dblocks v i) E"
proof -
  let ?n = "needed_blocks (unat (isize i))"
  let ?dir = "take (min ?n DIRECT_BLOCKS) (direct i)"
  let ?g = "\<lambda>j. from_le (bytes_at v (unat (indirect i) * BLOCK_SIZE + j * 4) 4) :: u32"
  have db: "dblocks v i = ?dir @ map ?g [0..<?n - DIRECT_BLOCKS]" by (simp add: dblocks_def Let_def)
  have nz: "b \<noteq> 0" if "b \<in> set (dblocks v i)" for b
    using data_block_pos [OF l] inode_okD(4) [OF ok] that by blast
  have z: "0 \<notin> set ?dir" using nz unfolding db by auto
  show ?thesis
  proof (cases "?n > DIRECT_BLOCKS")
    case False
    then show ?thesis unfolding inode_data_blocks_def Let_def using z db by (simp add: valid_ret)
  next
    case True
    then have ind: "indirect i \<noteq> 0" "indirect i \<in> data_blocks q"
      using inode_okD(3,5) [OF ok] by (simp_all add: not_le)
    have off: "valid (img True v q) (block_offset (indirect i)) (\<lambda>x s. img True v q s \<and> x = unat (indirect i) * BLOCK_SIZE) E"
      by (rule valid_weaken [OF block_offset_spec]) (use ind(2) in \<open>auto simp: data_blocks_def\<close>)
    have rd: "valid (img True v q) (bnd (ok_or Io (read_u32_at (unat (indirect i) * BLOCK_SIZE + j * 4)))
        (\<lambda>block. if block = 0 then err Io else ret block)) (\<lambda>x s. img True v q s \<and> x = ?g j) E"
      if j: "j \<in> set [0..<?n - DIRECT_BLOCKS]" for j
    proof -
      have "j < INDIRECT_ENTRIES" using j inode_okD(2) [OF ok] by simp
      then have "j * 4 + 4 \<le> BLOCK_SIZE" by (simp add: INDIRECT_ENTRIES_def BLOCK_SIZE_def)
      then have len: "unat (indirect i) * BLOCK_SIZE + j * 4 + 4 \<le> fs_len q" using data_block_bound(2) [OF ind(2)] by linarith
      have r: "valid (img True v q) (ok_or Io (read_u32_at (unat (indirect i) * BLOCK_SIZE + j * 4)))
        (\<lambda>x s. img True v q s \<and> x = ?g j) E"
        by (rule valid_map_err, rule valid_weaken [OF read_u32_at_spec]) (use l len in auto)
      have "?g j \<noteq> 0" using nz [of "?g j"] j unfolding db by auto
      then show ?thesis by (intro valid_bnd_pure [OF r]) (simp add: valid_ret)
    qed
    show ?thesis unfolding inode_data_blocks_def Let_def
      apply (simp only: z if_False True if_True ind(1))
      apply (rule valid_bnd_pure [OF off])
      apply (rule valid_bnd_pure [OF valid_map_each [OF rd]], assumption)
      apply (rule valid_ret)
      apply (simp add: db)
      done
  qed
qed

lemma read_blocks_spec:
  assumes l: "layout q" and "set bs \<subseteq> data_blocks q" and "n \<le> length bs * BLOCK_SIZE"
  shows "valid (img True v q) (read_blocks bs n)
    (\<lambda>(d, r) s. img True v q s \<and> r = 0 \<and> d = take n (concat (map (\<lambda>b. bytes_at v (unat b * BLOCK_SIZE) BLOCK_SIZE) bs))) E"
  using assms(2,3)
proof (induction bs arbitrary: n)
  case Nil
  then show ?case by (simp add: valid_ret)
next
  case (Cons b bs)
  show ?case
  proof (cases "n = 0")
    case True
    then show ?thesis by (simp add: valid_ret)
  next
    case False
    let ?m = "min n BLOCK_SIZE"
    let ?rest = "concat (map (\<lambda>b. bytes_at v (unat b * BLOCK_SIZE) BLOCK_SIZE) bs)"
    have b: "b \<in> data_blocks q" using Cons.prems by simp
    have off: "valid (img True v q) (block_offset b) (\<lambda>x s. img True v q s \<and> x = unat b * BLOCK_SIZE) E"
      by (rule valid_weaken [OF block_offset_spec]) (use b in \<open>auto simp: data_blocks_def\<close>)
    have rd: "valid (img True v q) (read_vec (unat b * BLOCK_SIZE) ?m)
      (\<lambda>d s. img True v q s \<and> d = bytes_at v (unat b * BLOCK_SIZE) ?m) E"
      unfolding read_vec_read_into
      by (rule valid_weaken [OF read_into_spec]) (use l data_block_bound(2) [OF b] in auto)
    have IH: "valid (img True v q) (read_blocks bs (n - ?m))
      (\<lambda>(d, r) s. img True v q s \<and> r = 0 \<and> d = take (n - ?m) ?rest) E"
      by (rule Cons.IH) (use Cons.prems in auto)
    have "bytes_at v (unat b * BLOCK_SIZE) ?m = take n (bytes_at v (unat b * BLOCK_SIZE) BLOCK_SIZE)"
      by (rule nth_equalityI) auto
    moreover have "n - ?m = n - BLOCK_SIZE" by simp
    ultimately have eq: "bytes_at v (unat b * BLOCK_SIZE) ?m @ take (n - ?m) ?rest =
        take n (concat (map (\<lambda>b. bytes_at v (unat b * BLOCK_SIZE) BLOCK_SIZE) (b # bs)))" by simp
    show ?thesis unfolding read_blocks.simps Let_def
      apply (simp only: False if_False)
      apply (rule valid_bnd_pure [OF off])
      apply (rule valid_bnd_pure [OF rd])
      apply (rule valid_bnd [OF IH])
      apply (clarsimp simp only: split_paired_all split_conv)
      apply (rule valid_ret)
      using eq apply simp
      done
  qed
qed

lemma read_inode_bytes_spec:
  assumes ok: "inode_ok q v i" and l: "layout q"
  shows "valid (img True v q) (read_inode_bytes i) (\<lambda>d s. img True v q s \<and> d = file_content v i) E"
  unfolding read_inode_bytes_def
proof (rule valid_bnd_pure [OF inode_data_blocks_spec [OF ok l]])
  have "unat (isize i) \<le> length (dblocks v i) * BLOCK_SIZE"
    using needed_le [of i] length_dblocks [OF inode_okD(1) [OF ok], of v] by simp
  from read_blocks_spec [OF l inode_okD(4) [OF ok] this, of v E]
  show "valid (img True v q) (bnd (read_blocks (dblocks v i) (unat (isize i)))
      (\<lambda>(out, remaining). if remaining = 0 then ret out else err Io)) (\<lambda>d s. img True v q s \<and> d = file_content v i) E"
    by (rule valid_bnd) (auto simp: file_content_def intro!: valid_ret valid_err)
qed

section \<open>Allocation during a write\<close>

definition free_blocks :: "superblock \<Rightarrow> (nat \<Rightarrow> u8) \<Rightarrow> u32 set" where
  "free_blocks q v = {b \<in> data_blocks q. \<not> bit_used q v b}"

text \<open>\<open>prepared q v N w\<close>: from \<open>v\<close> the blocks \<open>N\<close>, free before, were marked in use; nothing but the bitmap and blocks that
  were free in \<open>v\<close> has changed.\<close>

definition prepared :: "superblock \<Rightarrow> (nat \<Rightarrow> u8) \<Rightarrow> u32 set \<Rightarrow> (nat \<Rightarrow> u8) \<Rightarrow> bool" where
  "prepared q v N w \<longleftrightarrow> agree_off (bitmap_area q \<union> blocks_area (free_blocks q v)) v w \<and> N \<subseteq> free_blocks q v \<and>
     (\<forall>b < total_blocks q. bit_used q w b \<longleftrightarrow> bit_used q v b \<or> b \<in> N)"

abbreviation prepared_st :: "superblock \<Rightarrow> (nat \<Rightarrow> u8) \<Rightarrow> u32 set \<Rightarrow> image_state \<Rightarrow> bool" where
  "prepared_st q v N s \<equiv> \<exists>w. img True w q s \<and> prepared q v N w"

lemma valid_ex:
  assumes "\<And>w. valid (P w) m Q E"
  shows "valid (\<lambda>s. \<exists>w. P w s) m Q E"
proof (rule validI)
  fix s x t assume "\<exists>w. P w s" and m: "m s = (Inr x, t)"
  then obtain w where "P w s" by blast
  from validD [OF assms this m] show "Q x t" .
next
  fix s e t assume "\<exists>w. P w s" and m: "m s = (Inl e, t)"
  then obtain w where "P w s" by blast
  from validD_err [OF assms this m] show "E e t" .
qed

lemma prepared_refl: "prepared q v {} v"
  by (simp add: prepared_def)

lemma block_area_free: "b \<in> free_blocks q v \<Longrightarrow> block_area b \<subseteq> blocks_area (free_blocks q v)"
  by (auto simp: blocks_area_def)

lemma prepared_block_write:
  assumes l: "layout q" and p: "prepared q v N w" and b: "b \<in> free_blocks q v"
    and off: "unat b * BLOCK_SIZE \<le> off" "off + length xs \<le> unat b * BLOCK_SIZE + BLOCK_SIZE"
  shows "prepared q v N (splat w off xs)"
proof -
  have "{off..<off + length xs} \<subseteq> block_area b" using off by (auto simp: block_area_def)
  then have sub: "{off..<off + length xs} \<subseteq> blocks_area (free_blocks q v)" using block_area_free [OF b] by blast
  have ag: "agree_off {off..<off + length xs} w (splat w off xs)" by (rule agree_off_splat) simp
  have "free_blocks q v \<subseteq> data_blocks q" by (auto simp: free_blocks_def)
  then have "{off..<off + length xs} \<inter> bitmap_area q = {}" using sub bitmap_data_disjoint by blast
  then have "bit_used q (splat w off xs) c = bit_used q w c" if "c < total_blocks q" for c
    by (rule bit_used_agree [OF l that ag])
  moreover have "agree_off (bitmap_area q \<union> blocks_area (free_blocks q v)) v (splat w off xs)"
  proof (rule agree_off_trans)
    show "agree_off (bitmap_area q \<union> blocks_area (free_blocks q v)) v w" using p by (simp add: prepared_def)
    show "agree_off (bitmap_area q \<union> blocks_area (free_blocks q v)) w (splat w off xs)"
      by (rule agree_off_mono [OF ag]) (use sub in auto)
  qed
  ultimately show ?thesis using p by (simp add: prepared_def)
qed

lemma prepared_set_bit:
  assumes l: "layout q" and p: "prepared q v N w" and b: "b \<in> free_blocks q v"
  shows "prepared q v (if u then insert b N else N - {b}) (set_bit_used q w b u)"
proof -
  have bt: "b < total_blocks q" and nu: "\<not> bit_used q v b" using b by (auto simp: free_blocks_def data_blocks_def)
  have "agree_off (bitmap_area q \<union> blocks_area (free_blocks q v)) w (set_bit_used q w b u)"
    by (rule agree_off_mono [OF set_bit_used_agree [OF l bt]]) simp
  then show ?thesis using p b nu unfolding prepared_def
    by (auto simp: bit_used_set intro: agree_off_trans)
qed

lemma alloc_block_prepared:
  assumes l: "layout q"
  shows "valid (prepared_st q v N) alloc_block
    (\<lambda>b s. b \<in> free_blocks q v \<and> b \<notin> N \<and> prepared_st q v (insert b N) s)
    (\<lambda>e s. e = NoSpace \<and> prepared_st q v N s)"
proof (rule valid_ex, rule validI, goal_cases)
  case (1 w s b t)
  then have p: "prepared q v N w" and s: "img True w q s" by auto
  from validD [OF alloc_block_spec [OF l] s 1(2)]
  have b: "b \<in> data_blocks q" "\<not> bit_used q w b"
    and t: "img True (splat (set_bit_used q w b True) (unat b * BLOCK_SIZE) (replicate BLOCK_SIZE 0)) q t" by auto
  have bt: "b < total_blocks q" using b(1) by (simp add: data_blocks_def)
  have f: "b \<in> free_blocks q v" "b \<notin> N" using b p bt by (auto simp: prepared_def free_blocks_def)
  have "prepared q v (insert b N) (set_bit_used q w b True)" using prepared_set_bit [OF l p f(1), of True] by simp
  from prepared_block_write [OF l this f(1), of "unat b * BLOCK_SIZE" "replicate BLOCK_SIZE 0"] t f
  show ?case by auto
next
  case (2 w s e t)
  then have p: "prepared q v N w" and s: "img True w q s" by auto
  from validD_err [OF alloc_block_spec [OF l] s 2(2)] p show ?case by auto
qed

lemma free_block_prepared:
  assumes l: "layout q" and b: "b \<in> free_blocks q v"
  shows "valid (prepared_st q v N) (free_block b) (\<lambda>_. prepared_st q v (N - {b})) E"
proof (rule valid_ex, rule validI, goal_cases)
  case (1 w s x t)
  then have p: "prepared q v N w" and s: "img True w q s" by auto
  have "b \<in> data_blocks q" using b by (simp add: free_blocks_def)
  with validD [OF free_block_spec [OF l] s 1(2)] have "img True (set_bit_used q w b False) q t" by simp
  moreover have "prepared q v (N - {b}) (set_bit_used q w b False)" using prepared_set_bit [OF l p b, of False] by simp
  ultimately show ?case by blast
next
  case (2 w s e t)
  then have s: "img True w q s" by auto
  from validD_err [OF free_block_spec [OF l, where E = "\<lambda>_ _. False"] s 2(2)] show ?case by simp
qed

lemma discard_valid:
  assumes "valid P m (\<lambda>_. Q) (\<lambda>_. Q)"
  shows "valid P (discard m) (\<lambda>_. Q) E"
  unfolding discard_def
  by (rule valid_bnd [where R = "\<lambda>_. Q"], rule valid_attempt) (use assms in \<open>auto intro: valid_ret\<close>)

lemma rollback_prepared:
  assumes l: "layout q" and "set bs \<subseteq> free_blocks q v"
  shows "valid (prepared_st q v N) (for_each bs (\<lambda>b. discard (free_block b))) (\<lambda>_. prepared_st q v (N - set bs)) E"
  using assms(2)
proof (induction bs arbitrary: N)
  case Nil
  then show ?case by (simp add: valid_ret)
next
  case (Cons b bs)
  have "valid (prepared_st q v N) (discard (free_block b)) (\<lambda>_. prepared_st q v (N - {b})) E"
    by (rule discard_valid, rule free_block_prepared [OF l]) (use Cons.prems in simp)
  moreover have "N - {b} - set bs = N - set (b # bs)" by auto
  ultimately show ?case using Cons.IH [of "N - {b}"] Cons.prems by (auto intro: valid_bnd)
qed

lemma alloc_many_spec:
  assumes l: "layout q"
  shows "valid (\<lambda>s. prepared_st q v (set acc) s \<and> distinct acc \<and> set acc \<subseteq> free_blocks q v) (alloc_many n acc)
    (\<lambda>bs s. prepared_st q v (set bs) s \<and> distinct bs \<and> set bs \<subseteq> free_blocks q v \<and> length bs = length acc + n)
    (\<lambda>e s. e = NoSpace \<and> prepared_st q v {} s)"
proof (induction n arbitrary: acc)
  case 0
  then show ?case by (simp add: valid_ret)
next
  case (Suc n)
  let ?R = "\<lambda>r s. distinct acc \<and> set acc \<subseteq> free_blocks q v \<and> (case r of
      Inr b \<Rightarrow> b \<in> free_blocks q v \<and> b \<notin> set acc \<and> prepared_st q v (insert b (set acc)) s
    | Inl e \<Rightarrow> e = NoSpace \<and> prepared_st q v (set acc) s)"
  show ?case unfolding alloc_many.simps
  proof (rule valid_bnd [where R = ?R])
    show "valid (\<lambda>s. prepared_st q v (set acc) s \<and> distinct acc \<and> set acc \<subseteq> free_blocks q v) (attempt alloc_block) ?R
      (\<lambda>e s. e = NoSpace \<and> prepared_st q v {} s)"
    proof (rule valid_attempt)
      have "valid (\<lambda>s. prepared_st q v (set acc) s \<and> distinct acc \<and> set acc \<subseteq> free_blocks q v) alloc_block
        (\<lambda>b s. (b \<in> free_blocks q v \<and> b \<notin> set acc \<and> prepared_st q v (insert b (set acc)) s) \<and> distinct acc \<and> set acc \<subseteq> free_blocks q v)
        (\<lambda>e s. (e = NoSpace \<and> prepared_st q v (set acc) s) \<and> distinct acc \<and> set acc \<subseteq> free_blocks q v)"
        using alloc_block_prepared [OF l, of v "set acc"]
        by (fastforce simp: valid_def split: prod.splits sum.splits)
      then show "valid (\<lambda>s. prepared_st q v (set acc) s \<and> distinct acc \<and> set acc \<subseteq> free_blocks q v) alloc_block
        (\<lambda>x. ?R (Inr x)) (\<lambda>e. ?R (Inl e))" by (rule valid_weaken) auto
    qed
    fix r
    show "valid (?R r) (case r of Inr block \<Rightarrow> alloc_many n (acc @ [block])
       | Inl e \<Rightarrow> bnd (for_each acc (\<lambda>b. discard (free_block b))) (\<lambda>_. err e))
      (\<lambda>bs s. prepared_st q v (set bs) s \<and> distinct bs \<and> set bs \<subseteq> free_blocks q v \<and> length bs = length acc + Suc n)
      (\<lambda>e s. e = NoSpace \<and> prepared_st q v {} s)"
    proof (cases r)
      case (Inr b)
      show ?thesis unfolding Inr sum.case by (rule valid_weaken [OF Suc.IH [of "acc @ [b]"]]) auto
    next
      case (Inl e)
      show ?thesis unfolding Inl sum.case
      proof (rule validI, goal_cases)
        case (1 s x t)
        then show ?case by (simp add: bnd_def err_def split: prod.splits sum.splits)
      next
        case (2 s x t)
        then have a: "set acc \<subseteq> free_blocks q v" "e = NoSpace" "prepared_st q v (set acc) s" by auto
        have "valid (prepared_st q v (set acc)) (bnd (for_each acc (\<lambda>b. discard (free_block b))) (\<lambda>_. err e))
          (\<lambda>_ _. False) (\<lambda>e s. e = NoSpace \<and> prepared_st q v {} s)"
          by (rule valid_bnd [OF rollback_prepared [OF l a(1)]], rule valid_err) (simp add: a(2))
        from validD_err [OF this a(3) 2(2)] show ?case by simp
      qed
    qed
  qed
qed

section \<open>Writing the blocks\<close>

definition chunk :: "bytes \<Rightarrow> nat \<Rightarrow> bytes" where
  "chunk bytes j = rslice bytes (j * BLOCK_SIZE) (min (j * BLOCK_SIZE + BLOCK_SIZE) (length bytes))"

definition chunks_at :: "(nat \<Rightarrow> u8) \<Rightarrow> u32 list \<Rightarrow> bytes \<Rightarrow> nat \<Rightarrow> bool" where
  "chunks_at w bs bytes k \<longleftrightarrow> (\<forall>j < k. bytes_at w (unat (bs ! j) * BLOCK_SIZE) (length (chunk bytes j)) = chunk bytes j)"

definition entries_at :: "(nat \<Rightarrow> u8) \<Rightarrow> u32 \<Rightarrow> u32 list \<Rightarrow> nat \<Rightarrow> bool" where
  "entries_at w ind xs k \<longleftrightarrow> (\<forall>j < k. from_le (bytes_at w (unat ind * BLOCK_SIZE + j * 4) 4) = xs ! j)"

lemma length_chunk: "length (chunk bytes j) \<le> BLOCK_SIZE"
  by (simp add: chunk_def)

lemma for_each_map: "for_each (map g ys) f = for_each ys (\<lambda>y. f (g y))"
  by (induction ys) simp_all

lemma for_each_enumerate: "for_each (enumerate 0 xs) f = for_each [0..<length xs] (\<lambda>j. f (j, xs ! j))"
proof -
  have "enumerate 0 xs = map (\<lambda>j. (j, xs ! j)) [0..<length xs]"
    by (rule nth_equalityI) (simp_all add: nth_enumerate_eq)
  then show ?thesis by (simp add: for_each_map)
qed

lemma bytes_at_other_block:
  assumes "b \<noteq> c" and "n \<le> BLOCK_SIZE" and "unat b * BLOCK_SIZE \<le> off" "off + length xs \<le> unat b * BLOCK_SIZE + BLOCK_SIZE"
    and "unat c * BLOCK_SIZE \<le> a" "a + n \<le> unat c * BLOCK_SIZE + BLOCK_SIZE"
  shows "bytes_at (splat w off xs) a n = bytes_at w a n"
proof -
  have "unat b * BLOCK_SIZE + BLOCK_SIZE \<le> unat c * BLOCK_SIZE \<or> unat c * BLOCK_SIZE + BLOCK_SIZE \<le> unat b * BLOCK_SIZE"
    using unat_neq [OF assms(1)] mult_stride [of "unat b" "unat c" BLOCK_SIZE] mult_stride [of "unat c" "unat b" BLOCK_SIZE]
    by linarith
  then have "a + n \<le> off \<or> off + length xs \<le> a" using assms(3-6) by linarith
  then show ?thesis by (rule bytes_at_splat_disjoint)
qed

lemma write_blocks_spec:
  assumes l: "layout q" and d: "distinct bs" and N: "set bs \<subseteq> free_blocks q v"
  shows "valid (prepared_st q v N) (write_blocks bs bytes)
    (\<lambda>_ s. \<exists>w. img True w q s \<and> prepared q v N w \<and> chunks_at w bs bytes (length bs)) E"
  unfolding write_blocks_def for_each_enumerate
proof -
  let ?P = "\<lambda>k s. \<exists>w. img True w q s \<and> prepared q v N w \<and> chunks_at w bs bytes k"
  have "valid (?P 0) (for_each [0..<length bs] (\<lambda>k. case (k, bs ! k) of (idx, block) \<Rightarrow>
      bnd (zero_block block) (\<lambda>_. bnd (block_offset block) (\<lambda>off.
       let start = idx * BLOCK_SIZE; end = min (start + BLOCK_SIZE) (length bytes) in write_at off (rslice bytes start end)))))
    (\<lambda>_. ?P (length bs)) E"
  proof (rule valid_for_upt, rule valid_ex)
    fix k and w :: "nat \<Rightarrow> u8" assume k: "k < length bs"
    let ?b = "bs ! k" and ?c = "chunk bytes k"
    let ?o = "unat ?b * BLOCK_SIZE"
    let ?w1 = "splat w ?o (replicate BLOCK_SIZE 0)"
    let ?w2 = "splat ?w1 ?o ?c"
    have b: "?b \<in> free_blocks q v" using N k by auto
    then have bd: "?b \<in> data_blocks q" and bt: "?b < total_blocks q" by (auto simp: free_blocks_def data_blocks_def)
    have bT: "?b < TOTAL_BLOCKS" using bt layout_fits [OF l] by (auto simp: fits_def)
    have "valid (img True w q) (bnd (zero_block ?b) (\<lambda>_. bnd (block_offset ?b) (\<lambda>off. write_at off ?c)))
      (\<lambda>_. img True ?w2 q) E"
    proof (rule valid_bnd [where R = "\<lambda>_. img True ?w1 q"])
      show "valid (img True w q) (zero_block ?b) (\<lambda>_. img True ?w1 q) E"
        by (rule valid_weaken [OF zero_block_spec]) (use bT in auto)
      have o: "valid (img True ?w1 q) (block_offset ?b) (\<lambda>x s. img True ?w1 q s \<and> x = ?o) E"
        by (rule valid_weaken [OF block_offset_spec]) (use bt in auto)
      have "valid (img True ?w1 q) (write_at ?o ?c) (\<lambda>_. img True ?w2 q) E"
        by (rule valid_weaken [OF write_at_spec])
          (use l data_block_bound(2) [OF bd] length_chunk [of bytes k] in \<open>auto dest: order_trans\<close>)
      then show "valid (img True ?w1 q) (bnd (block_offset ?b) (\<lambda>off. write_at off ?c)) (\<lambda>_. img True ?w2 q) E"
        by (rule valid_bnd_pure [OF o])
    qed
    then have step: "valid (img True w q) (case (k, ?b) of (idx, block) \<Rightarrow>
      bnd (zero_block block) (\<lambda>_. bnd (block_offset block) (\<lambda>off.
       let start = idx * BLOCK_SIZE; end = min (start + BLOCK_SIZE) (length bytes) in write_at off (rslice bytes start end))))
      (\<lambda>_. img True ?w2 q) E" by (simp add: chunk_def Let_def)
    have post: "prepared q v N ?w2 \<and> chunks_at ?w2 bs bytes (Suc k)"
      if p: "prepared q v N w" and c: "chunks_at w bs bytes k"
    proof -
      have "prepared q v N ?w1" by (rule prepared_block_write [OF l p b]) simp_all
      then have "prepared q v N ?w2" by (rule prepared_block_write [OF l _ b]) (simp_all add: length_chunk)
      moreover have "bytes_at ?w2 (unat (bs ! j) * BLOCK_SIZE) (length (chunk bytes j)) = chunk bytes j" if "j < Suc k" for j
      proof (cases "j = k")
        case True
        then show ?thesis by simp
      next
        case False
        then have j: "j < k" using that by simp
        then have ne: "?b \<noteq> bs ! j" using d k by (simp add: nth_eq_iff_index_eq)
        have "bytes_at ?w2 (unat (bs ! j) * BLOCK_SIZE) (length (chunk bytes j)) =
            bytes_at ?w1 (unat (bs ! j) * BLOCK_SIZE) (length (chunk bytes j))"
          by (rule bytes_at_other_block [OF ne length_chunk]) (simp_all add: length_chunk)
        also have "\<dots> = bytes_at w (unat (bs ! j) * BLOCK_SIZE) (length (chunk bytes j))"
          by (rule bytes_at_other_block [OF ne length_chunk]) (simp_all add: length_chunk)
        finally show ?thesis using c j by (simp add: chunks_at_def)
      qed
      ultimately show ?thesis by (simp add: chunks_at_def)
    qed
    show "valid (\<lambda>s. img True w q s \<and> prepared q v N w \<and> chunks_at w bs bytes k) (case (k, ?b) of (idx, block) \<Rightarrow>
      bnd (zero_block block) (\<lambda>_. bnd (block_offset block) (\<lambda>off.
       let start = idx * BLOCK_SIZE; end = min (start + BLOCK_SIZE) (length bytes) in write_at off (rslice bytes start end))))
      (\<lambda>_. ?P (Suc k)) E"
      by (rule valid_assume, rule valid_weaken [OF step]) (use post in blast)+
  qed
  then show "valid (prepared_st q v N) (for_each [0..<length bs] (\<lambda>k. case (k, bs ! k) of (idx, block) \<Rightarrow>
      bnd (zero_block block) (\<lambda>_. bnd (block_offset block) (\<lambda>off.
       let start = idx * BLOCK_SIZE; end = min (start + BLOCK_SIZE) (length bytes) in write_at off (rslice bytes start end)))))
    (\<lambda>_. ?P (length bs)) E"
    by (rule valid_pre) (auto simp: chunks_at_def)
qed

lemma block_offset_data:
  "b \<in> data_blocks q \<Longrightarrow> valid (img h w q) (block_offset b) (\<lambda>x s. img h w q s \<and> x = unat b * BLOCK_SIZE) E"
  by (rule valid_weaken [OF block_offset_spec]) (auto simp: data_blocks_def)

lemma entry_in_block: "j < INDIRECT_ENTRIES \<Longrightarrow> b + j * 4 + 4 \<le> b + BLOCK_SIZE"
  by (simp add: INDIRECT_ENTRIES_def BLOCK_SIZE_def)

lemma write_entries_spec:
  assumes l: "layout q" and ind: "ind \<in> free_blocks q v" "ind \<notin> set bs" and len: "length xs \<le> INDIRECT_ENTRIES"
  shows "valid (\<lambda>s. \<exists>w. img True w q s \<and> prepared q v N w \<and> chunks_at w bs bytes (length bs))
    (for_each (enumerate 0 xs) (\<lambda>(idx, block). write_u32_at (unat ind * BLOCK_SIZE + idx * 4) block))
    (\<lambda>_ s. \<exists>w. img True w q s \<and> prepared q v N w \<and> chunks_at w bs bytes (length bs) \<and> entries_at w ind xs (length xs)) E"
  unfolding for_each_enumerate
proof -
  let ?P = "\<lambda>k s. \<exists>w. img True w q s \<and> prepared q v N w \<and> chunks_at w bs bytes (length bs) \<and> entries_at w ind xs k"
  have "valid (?P 0) (for_each [0..<length xs] (\<lambda>k. case (k, xs ! k) of (idx, block) \<Rightarrow>
      write_u32_at (unat ind * BLOCK_SIZE + idx * 4) block)) (\<lambda>_. ?P (length xs)) E"
  proof (rule valid_for_upt, rule valid_ex)
    fix k and w :: "nat \<Rightarrow> u8" assume k: "k < length xs"
    let ?o = "unat ind * BLOCK_SIZE + k * 4"
    let ?w = "splat w ?o (to_le 4 (xs ! k))"
    have o: "unat ind * BLOCK_SIZE \<le> ?o" "?o + 4 \<le> unat ind * BLOCK_SIZE + BLOCK_SIZE"
      using entry_in_block [of k] k len by simp_all
    have d: "ind \<in> data_blocks q" using ind(1) by (simp add: free_blocks_def)
    have step: "valid (img True w q) (write_u32_at ?o (xs ! k)) (\<lambda>_. img True ?w q) E"
      by (rule valid_weaken [OF write_u32_at_spec]) (use l o(2) data_block_bound(2) [OF d] in auto)
    have post: "prepared q v N ?w \<and> chunks_at ?w bs bytes (length bs) \<and> entries_at ?w ind xs (Suc k)"
      if p: "prepared q v N w" and c: "chunks_at w bs bytes (length bs)" and e: "entries_at w ind xs k"
    proof (intro conjI)
      show "prepared q v N ?w" by (rule prepared_block_write [OF l p ind(1)]) (use o in simp_all)
      show "chunks_at ?w bs bytes (length bs)" unfolding chunks_at_def
      proof (intro allI impI)
        fix j assume j: "j < length bs"
        then have ne: "ind \<noteq> bs ! j" using ind(2) nth_mem by blast
        have "bytes_at ?w (unat (bs ! j) * BLOCK_SIZE) (length (chunk bytes j)) =
            bytes_at w (unat (bs ! j) * BLOCK_SIZE) (length (chunk bytes j))"
          by (rule bytes_at_other_block [OF ne length_chunk]) (use o in \<open>simp_all add: length_chunk\<close>)
        then show "bytes_at ?w (unat (bs ! j) * BLOCK_SIZE) (length (chunk bytes j)) = chunk bytes j"
          using c j by (simp add: chunks_at_def)
      qed
      show "entries_at ?w ind xs (Suc k)" unfolding entries_at_def
      proof (intro allI impI)
        fix j assume "j < Suc k"
        show "from_le (bytes_at ?w (unat ind * BLOCK_SIZE + j * 4) 4) = xs ! j"
        proof (cases "j = k")
          case False
          then have j: "j < k" using \<open>j < Suc k\<close> by simp
          have "bytes_at ?w (unat ind * BLOCK_SIZE + j * 4) 4 = bytes_at w (unat ind * BLOCK_SIZE + j * 4) 4"
            by (rule bytes_at_splat_disjoint) (use j in simp)
          then show ?thesis using e j by (simp add: entries_at_def)
        qed simp
      qed
    qed
    show "valid (\<lambda>s. img True w q s \<and> prepared q v N w \<and> chunks_at w bs bytes (length bs) \<and> entries_at w ind xs k)
      (case (k, xs ! k) of (idx, block) \<Rightarrow> write_u32_at (unat ind * BLOCK_SIZE + idx * 4) block) (\<lambda>_. ?P (Suc k)) E"
      unfolding split_conv
      by (rule valid_assume, rule valid_weaken [OF step]) (use post in blast)+
  qed
  then show "valid (\<lambda>s. \<exists>w. img True w q s \<and> prepared q v N w \<and> chunks_at w bs bytes (length bs))
    (for_each [0..<length xs] (\<lambda>k. case (k, xs ! k) of (idx, block) \<Rightarrow>
      write_u32_at (unat ind * BLOCK_SIZE + idx * 4) block)) (\<lambda>_. ?P (length xs)) E"
    by (rule valid_pre) (auto simp: entries_at_def)
qed

lemma write_indirect_spec:
  assumes l: "layout q" and ind: "ind \<in> free_blocks q v" "ind \<notin> set bs" and len: "length bs \<le> DIRECT_BLOCKS + INDIRECT_ENTRIES"
  shows "valid (\<lambda>s. \<exists>w. img True w q s \<and> prepared q v N w \<and> chunks_at w bs bytes (length bs))
    (write_indirect ind bs)
    (\<lambda>_ s. \<exists>w. img True w q s \<and> prepared q v N w \<and> chunks_at w bs bytes (length bs) \<and>
       entries_at w ind (drop DIRECT_BLOCKS bs) (length bs - DIRECT_BLOCKS)) E"
proof -
  have d: "ind \<in> data_blocks q" using ind(1) by (simp add: free_blocks_def)
  have nz: "ind \<noteq> 0" using data_block_pos [OF l d] .
  have bT: "ind < TOTAL_BLOCKS" using d layout_fits [OF l] by (auto simp: data_blocks_def fits_def)
  let ?C = "\<lambda>s. \<exists>w. img True w q s \<and> prepared q v N w \<and> chunks_at w bs bytes (length bs)"
  have z: "valid ?C (zero_block ind) (\<lambda>_. ?C) E"
  proof (rule valid_ex)
    fix w :: "nat \<Rightarrow> u8"
    let ?w = "splat w (unat ind * BLOCK_SIZE) (replicate BLOCK_SIZE 0)"
    have st: "valid (img True w q) (zero_block ind) (\<lambda>_. img True ?w q) E"
      by (rule valid_weaken [OF zero_block_spec]) (use bT in auto)
    have post: "prepared q v N ?w \<and> chunks_at ?w bs bytes (length bs)"
      if p: "prepared q v N w" and c: "chunks_at w bs bytes (length bs)"
    proof
      show "prepared q v N ?w" by (rule prepared_block_write [OF l p ind(1)]) simp_all
      show "chunks_at ?w bs bytes (length bs)" unfolding chunks_at_def
      proof (intro allI impI)
        fix j assume j: "j < length bs"
        then have ne: "ind \<noteq> bs ! j" using ind(2) nth_mem by blast
        have "bytes_at ?w (unat (bs ! j) * BLOCK_SIZE) (length (chunk bytes j)) =
            bytes_at w (unat (bs ! j) * BLOCK_SIZE) (length (chunk bytes j))"
          by (rule bytes_at_other_block [OF ne length_chunk]) (simp_all add: length_chunk)
        then show "bytes_at ?w (unat (bs ! j) * BLOCK_SIZE) (length (chunk bytes j)) = chunk bytes j"
          using c j by (simp add: chunks_at_def)
      qed
    qed
    show "valid (\<lambda>s. img True w q s \<and> prepared q v N w \<and> chunks_at w bs bytes (length bs)) (zero_block ind) (\<lambda>_. ?C) E"
      by (rule valid_assume, rule valid_weaken [OF st]) (use post in blast)+
  qed
  have o: "valid ?C (block_offset ind) (\<lambda>x s. ?C s \<and> x = unat ind * BLOCK_SIZE) E"
  proof (rule valid_ex)
    fix w
    show "valid (\<lambda>s. img True w q s \<and> prepared q v N w \<and> chunks_at w bs bytes (length bs)) (block_offset ind)
      (\<lambda>x s. ?C s \<and> x = unat ind * BLOCK_SIZE) E"
      by (rule valid_assume, rule valid_weaken [OF block_offset_data [OF d]]) blast+
  qed
  have "length (drop DIRECT_BLOCKS bs) \<le> INDIRECT_ENTRIES" using len by simp
  from write_entries_spec [OF l ind this, of N bytes E]
  have "valid ?C (bnd (block_offset ind) (\<lambda>start.
      for_each (enumerate 0 (drop DIRECT_BLOCKS bs)) (\<lambda>(idx, block). write_u32_at (start + idx * 4) block)))
    (\<lambda>_ s. \<exists>w. img True w q s \<and> prepared q v N w \<and> chunks_at w bs bytes (length bs) \<and>
       entries_at w ind (drop DIRECT_BLOCKS bs) (length bs - DIRECT_BLOCKS)) E"
    by (intro valid_bnd_pure [OF o]) simp
  then show ?thesis unfolding write_indirect_def using nz by (simp add: valid_bnd [OF z])
qed

section \<open>The new content\<close>

lemma nth_concat_const:
  assumes "\<And>x. length (f x) = n" and "0 < n" and "i < length xs * n"
  shows "concat (map f xs) ! i = f (xs ! (i div n)) ! (i mod n)"
  using assms(3)
proof (induction xs arbitrary: i)
  case (Cons x xs)
  show ?case
  proof (cases "i < n")
    case True
    then show ?thesis by (simp add: nth_append assms(1))
  next
    case False
    then have "i div n = Suc ((i - n) div n)" "i mod n = (i - n) mod n"
      using assms(2) by (simp_all add: le_div_geq le_mod_geq)
    moreover have "i - n < length xs * n" using Cons.prems False by simp
    ultimately show ?thesis using Cons.IH [of "i - n"] False by (simp add: nth_append assms(1))
  qed
qed simp

lemma needed_bounds: "n \<le> needed_blocks n * BLOCK_SIZE" "i < n \<Longrightarrow> i div BLOCK_SIZE < needed_blocks n"
proof -
  show a: "n \<le> needed_blocks n * BLOCK_SIZE"
    using dividend_less_div_times [of BLOCK_SIZE "n + BLOCK_SIZE - 1"] by (simp add: needed_blocks_def)
  show "i div BLOCK_SIZE < needed_blocks n" if "i < n"
    using less_le_trans [OF that a] by (simp add: less_mult_imp_div_less)
qed

lemma content_of_chunks:
  assumes "length bs = needed_blocks (length bytes)" and "chunks_at w bs bytes (length bs)"
  shows "take (length bytes) (concat (map (\<lambda>b. bytes_at w (unat b * BLOCK_SIZE) BLOCK_SIZE) bs)) = bytes"
proof (rule nth_equalityI)
  have len: "length (concat (map (\<lambda>b. bytes_at w (unat b * BLOCK_SIZE) BLOCK_SIZE) bs)) = length bs * BLOCK_SIZE"
    by (rule length_concat_map_const) simp
  then show "length (take (length bytes) (concat (map (\<lambda>b. bytes_at w (unat b * BLOCK_SIZE) BLOCK_SIZE) bs))) = length bytes"
    using needed_bounds(1) [of "length bytes"] assms(1) by simp
  fix i assume "i < length (take (length bytes) (concat (map (\<lambda>b. bytes_at w (unat b * BLOCK_SIZE) BLOCK_SIZE) bs)))"
  then have i: "i < length bytes" by simp
  let ?j = "i div BLOCK_SIZE" and ?k = "i mod BLOCK_SIZE"
  have j: "?j < length bs" using needed_bounds(2) [OF i] assms(1) by simp
  have ik: "i = ?j * BLOCK_SIZE + ?k" by simp
  have k: "?k < length (chunk bytes ?j)"
    unfolding chunk_def length_rslice using i ik mod_BLOCK_SIZE [of i] by linarith
  have "concat (map (\<lambda>b. bytes_at w (unat b * BLOCK_SIZE) BLOCK_SIZE) bs) ! i = w (unat (bs ! ?j) * BLOCK_SIZE + ?k)"
    using nth_concat_const [of "\<lambda>b. bytes_at w (unat b * BLOCK_SIZE) BLOCK_SIZE" BLOCK_SIZE i bs] i
      needed_bounds(1) [of "length bytes"] assms(1) by simp
  also have "\<dots> = bytes_at w (unat (bs ! ?j) * BLOCK_SIZE) (length (chunk bytes ?j)) ! ?k" using k by simp
  also have "\<dots> = chunk bytes ?j ! ?k" using assms(2) j by (simp add: chunks_at_def)
  also have "\<dots> = bytes ! i" using k i unfolding chunk_def length_rslice by (subst nth_rslice) simp_all
  finally show "take (length bytes) (concat (map (\<lambda>b. bytes_at w (unat b * BLOCK_SIZE) BLOCK_SIZE) bs)) ! i = bytes ! i"
    using i by simp
qed

section \<open>The effect on the files\<close>

lemma inode_at_normal: "inode_norm (inode_at v off) = inode_at v off"
proof -
  have "and (and x MODE_BITS) MODE_BITS = and x MODE_BITS" for x by (simp add: and.assoc)
  moreover have "and DEFAULT_DIR_MODE MODE_BITS = DEFAULT_DIR_MODE" "and DEFAULT_FILE_MODE MODE_BITS = DEFAULT_FILE_MODE"
    by (simp_all add: DEFAULT_DIR_MODE_def DEFAULT_FILE_MODE_def MODE_BITS_def)
  moreover have "DEFAULT_DIR_MODE \<noteq> 0" "DEFAULT_FILE_MODE \<noteq> 0"
    by (simp_all add: DEFAULT_DIR_MODE_def DEFAULT_FILE_MODE_def)
  ultimately show ?thesis by (simp add: inode_norm_def inode_at_def Let_def)
qed

lemma inode_norm_mode:
  assumes "inode_norm i = i" and "kind j = kind i" and "imode j = imode i"
  shows "inode_norm j = j"
proof -
  have "imode (inode_norm i) = imode i" using assms(1) by simp
  moreover have "imode (inode_norm j) = imode (inode_norm i)" by (simp only: inode_norm_def inode.simps assms(2,3))
  ultimately have "imode (inode_norm j) = imode j" using assms(3) by simp
  then show ?thesis by (simp add: inode_norm_def)
qed

lemma ino_Some: "ino q v idx = Some i \<longleftrightarrow> (\<exists>off. inode_loc q idx = Some off \<and> i = inode_at v off \<and> kind i \<noteq> KIND_FREE)"
  by (auto simp: ino_def split: option.splits if_splits)

lemma ino_agree:
  assumes "layout q" and "agree_off A v w" and "\<And>off. inode_loc q idx = Some off \<Longrightarrow> A \<inter> inode_area off = {}"
  shows "ino q w idx = ino q v idx"
  using inode_at_agree [OF assms(2)] assms(3) by (auto simp: ino_def split: option.splits)

lemma fs_invD:
  assumes "fs_inv q v" and "ino q v idx = Some i"
  shows "layout q" "inode_ok q v i" "\<And>b j. ino q v b = Some j \<Longrightarrow> b \<noteq> idx \<Longrightarrow> owned v i \<inter> owned v j = {}"
proof -
  show "layout q" "inode_ok q v i" using assms by (auto simp: fs_inv_def)
  show "owned v i \<inter> owned v j = {}" if "ino q v b = Some j" "b \<noteq> idx" for b j
    using assms that unfolding fs_inv_def by metis
qed

lemma free_owned_disjoint: "inode_ok q v i \<Longrightarrow> free_blocks q v \<inter> owned v i = {}"
  using inode_okD(7) [of q v i] by (auto simp: free_blocks_def)

lemma free_data: "free_blocks q v \<subseteq> data_blocks q"
  by (auto simp: free_blocks_def)

lemma block0_agree: "agree_off A v w \<Longrightarrow> A \<subseteq> {BLOCK_SIZE..} \<Longrightarrow> block_at w 0 = block_at v 0"
  by (fastforce simp: block_at_def agree_off_def)

lemma area_above_block0:
  assumes "layout q"
  shows "bitmap_area q \<subseteq> {BLOCK_SIZE..}" "blocks_area (free_blocks q v) \<subseteq> {BLOCK_SIZE..}"
    "inode_loc q idx = Some off \<Longrightarrow> inode_area off \<subseteq> {BLOCK_SIZE..}"
proof -
  have "0 < unat (inode_table_start q)" using assms unfolding layout_def by (metis unat_gt_0 word_neq_0_conv)
  then have t: "BLOCK_SIZE \<le> unat (inode_table_start q) * BLOCK_SIZE" by simp
  moreover have "unat (inode_table_start q) * BLOCK_SIZE \<le> unat (bitmap_start q) * BLOCK_SIZE"
    "unat (bitmap_start q) * BLOCK_SIZE \<le> unat (data_start q) * BLOCK_SIZE"
    using assms unfolding layout_def by linarith+
  ultimately have b: "BLOCK_SIZE \<le> unat (bitmap_start q) * BLOCK_SIZE" "BLOCK_SIZE \<le> unat (data_start q) * BLOCK_SIZE"
    by linarith+
  show "bitmap_area q \<subseteq> {BLOCK_SIZE..}" unfolding bitmap_area_def using b(1) by (meson atLeast_iff atLeastLessThan_iff order_trans subsetI)
  show "blocks_area (free_blocks q v) \<subseteq> {BLOCK_SIZE..}"
    using blocks_area_data [OF free_data, of q v] b(2) by (meson atLeast_iff atLeastLessThan_iff order_trans subsetI subsetD)
  show "inode_area off \<subseteq> {BLOCK_SIZE..}" if "inode_loc q idx = Some off"
    using inode_area_table [OF assms that] t by (meson atLeast_iff atLeastLessThan_iff order_trans subsetI subsetD)
qed

lemma prepared_frame:
  assumes inv: "fs_inv q v" and p: "prepared q v N w"
  shows "ino q w idx = ino q v idx"
    and "ino q v idx = Some i \<Longrightarrow> dblocks w i = dblocks v i \<and> file_of w i = file_of v i \<and> owned w i = owned v i"
proof -
  have l: "layout q" using inv by (simp add: fs_inv_def)
  have ag: "agree_off (bitmap_area q \<union> blocks_area (free_blocks q v)) v w" using p by (simp add: prepared_def)
  show "ino q w idx = ino q v idx"
    by (rule ino_agree [OF l ag])
      (use inode_loc_bitmap [OF l] inode_loc_data [OF l _ free_data] in blast)
  show "dblocks w i = dblocks v i \<and> file_of w i = file_of v i \<and> owned w i = owned v i" if i: "ino q v idx = Some i"
  proof -
    have ok: "inode_ok q v i" by (rule fs_invD(2) [OF inv i])
    have "(bitmap_area q \<union> blocks_area (free_blocks q v)) \<inter> blocks_area (owned v i) = {}"
      using bitmap_data_disjoint [OF inode_okD(6) [OF ok]] blocks_area_disjoint [OF free_owned_disjoint [OF ok]] by blast
    from inode_frame [OF ok ag this] show ?thesis by simp
  qed
qed

text \<open>Blocks freed and taken without a change of any live inode: the files stay.\<close>

lemma prepared_files:
  assumes inv: "fs_inv q v" and p: "prepared q v N w"
  shows "fs_inv q w" and "files q w = files q v"
proof -
  have l: "layout q" using inv by (simp add: fs_inv_def)
  have in_eq: "ino q w = ino q v" using prepared_frame(1) [OF inv p] by blast
  note fr = prepared_frame(2) [OF inv p]
  show "files q w = files q v"
  proof
    fix idx show "files q w idx = files q v idx" using fr [of idx] by (cases "ino q v idx") (simp_all add: files_def in_eq)
  qed
  have bits: "bit_used q w b" if "b \<in> data_blocks q" "bit_used q v b" for b
    using p that by (auto simp: prepared_def data_blocks_def)
  have "inode_ok q w i" if i: "ino q v idx = Some i" for idx i
  proof -
    have ok: "inode_ok q v i" by (rule fs_invD(2) [OF inv i])
    have "owned w i \<subseteq> {b \<in> data_blocks q. bit_used q w b}"
      using bits ok fr [OF i] unfolding inode_ok_def Let_def by auto
    then show ?thesis using ok fr [OF i] by (simp add: inode_ok_def Let_def)
  qed
  moreover have "owned w i \<inter> owned w j = {}" if "ino q v a = Some i" "ino q v b = Some j" "a \<noteq> b" for a b i j
    using fs_invD(3) [OF inv that(1,2)] fr [OF that(1)] fr [OF that(2)] that(3) by simp
  moreover have "block_at w 0 = block_at v 0"
    by (rule block0_agree [where A = "bitmap_area q \<union> blocks_area (free_blocks q v)"])
      (use p area_above_block0 [OF l] in \<open>auto simp: prepared_def\<close>)
  ultimately show "fs_inv q w" using inv l unfolding fs_inv_def in_eq by metis
qed

lemma direct_of_blocks:
  "length (direct_of bs) = DIRECT_BLOCKS" "take (min (length bs) DIRECT_BLOCKS) (direct_of bs) = take DIRECT_BLOCKS bs"
  by (auto simp: direct_of_def intro!: nth_equalityI)

lemma dblocks_new:
  assumes "unat (isize j) = length bytes" and "direct j = direct_of bs" and "length bs = needed_blocks (length bytes)"
    and "length bs > DIRECT_BLOCKS \<Longrightarrow> entries_at w (indirect j) (drop DIRECT_BLOCKS bs) (length bs - DIRECT_BLOCKS)"
  shows "dblocks w j = bs"
proof -
  have "map (\<lambda>k. from_le (bytes_at w (unat (indirect j) * BLOCK_SIZE + k * 4) 4)) [0..<length bs - DIRECT_BLOCKS] = drop DIRECT_BLOCKS bs"
    using assms(4) by (intro nth_equalityI) (auto simp: entries_at_def)
  then show ?thesis
    unfolding dblocks_def Let_def assms(1,2) assms(3) [symmetric] direct_of_blocks(2) by simp
qed

text \<open>A step that changes one inode, the bitmap and blocks free before, keeps the invariant and every other file, provided
  it frees only blocks of that inode and the new inode owns only its old blocks and free ones.\<close>

definition old_owned :: "superblock \<Rightarrow> (nat \<Rightarrow> u8) \<Rightarrow> u32 \<Rightarrow> u32 set" where
  "old_owned q v idx = (case ino q v idx of None \<Rightarrow> {} | Some i \<Rightarrow> owned v i)"

definition touched :: "superblock \<Rightarrow> (nat \<Rightarrow> u8) \<Rightarrow> nat \<Rightarrow> nat set" where
  "touched q v off = inode_area off \<union> bitmap_area q \<union> blocks_area (free_blocks q v)"

lemma old_owned_disjoint:
  assumes inv: "fs_inv q v" and "ino q v a = Some k" "a \<noteq> idx"
  shows "old_owned q v idx \<inter> owned v k = {}"
  using fs_invD(3) [OF inv _ assms(2)] assms(3) by (auto simp: old_owned_def split: option.splits)

lemma touched_frame:
  assumes inv: "fs_inv q v" and off: "inode_loc q idx = Some off" and ag: "agree_off (touched q v off) v x"
  shows "a \<noteq> idx \<Longrightarrow> ino q x a = ino q v a"
    and "ino q v a = Some k \<Longrightarrow> dblocks x k = dblocks v k \<and> file_of x k = file_of v k \<and> owned x k = owned v k"
proof -
  have l: "layout q" using inv by (simp add: fs_inv_def)
  show "ino q x a = ino q v a" if "a \<noteq> idx"
  proof (rule ino_agree [OF l ag])
    fix o' assume o': "inode_loc q a = Some o'"
    show "touched q v off \<inter> inode_area o' = {}"
      using inode_loc_disjoint [OF l o' off that] inode_loc_bitmap [OF l o'] inode_loc_data [OF l o' free_data]
      unfolding touched_def by blast
  qed
  show "dblocks x k = dblocks v k \<and> file_of x k = file_of v k \<and> owned x k = owned v k" if k: "ino q v a = Some k"
  proof -
    have okk: "inode_ok q v k" by (rule fs_invD(2) [OF inv k])
    have "touched q v off \<inter> blocks_area (owned v k) = {}"
      using inode_loc_data [OF l off inode_okD(6) [OF okk]] bitmap_data_disjoint [OF inode_okD(6) [OF okk]]
        blocks_area_disjoint [OF free_owned_disjoint [OF okk]] unfolding touched_def by blast
    from inode_frame [OF okk ag this] show ?thesis by simp
  qed
qed

lemma fs_update:
  assumes inv: "fs_inv q v" and off: "inode_loc q idx = Some off" and ag: "agree_off (touched q v off) v x"
    and bits: "\<And>b. b \<in> data_blocks q \<Longrightarrow> bit_used q v b \<Longrightarrow> b \<notin> old_owned q v idx \<Longrightarrow> bit_used q x b"
    and new: "\<And>j. ino q x idx = Some j \<Longrightarrow> inode_ok q x j \<and> owned x j \<subseteq> old_owned q v idx \<union> free_blocks q v"
  shows "fs_inv q x" and "files q x = (files q v)(idx := map_option (file_of x) (ino q x idx))"
proof -
  have l: "layout q" using inv by (simp add: fs_inv_def)
  note others = touched_frame(1) [OF inv off ag] and fr = touched_frame(2) [OF inv off ag]
  have okk: "inode_ok q x k" if k: "ino q v a = Some k" "a \<noteq> idx" for a k
  proof -
    have ok': "inode_ok q v k" by (rule fs_invD(2) [OF inv k(1)])
    have "owned v k \<subseteq> {b \<in> data_blocks q. bit_used q x b}"
      using inode_okD(6,7) [OF ok'] bits old_owned_disjoint [OF inv k] by blast
    then show ?thesis using ok' fr [OF k(1)] by (simp add: inode_ok_def Let_def)
  qed
  have new_disj: "owned x j \<inter> owned x k = {}" if "ino q x idx = Some j" "ino q v a = Some k" "a \<noteq> idx" for j k a
    using new [OF that(1)] old_owned_disjoint [OF inv that(2,3)] free_owned_disjoint [OF fs_invD(2) [OF inv that(2)]]
      fr [OF that(2)] by blast
  have disj: "owned x a' \<inter> owned x b' = {}" if ab: "ino q x a = Some a'" "ino q x b = Some b'" "a \<noteq> b" for a b a' b'
  proof (cases "a = idx \<or> b = idx")
    case True
    then show ?thesis
    proof
      assume a: "a = idx"
      then have "ino q v b = Some b'" using ab others [of b] by simp
      then show ?thesis using new_disj [of a' b b'] a ab by simp
    next
      assume b: "b = idx"
      then have "ino q v a = Some a'" using ab others [of a] by simp
      then show ?thesis using new_disj [of b' a a'] b ab by (simp add: Int_commute)
    qed
  next
    case False
    then have v: "ino q v a = Some a'" "ino q v b = Some b'" using ab others by auto
    show ?thesis using fs_invD(3) [OF inv v] fr [OF v(1)] fr [OF v(2)] ab(3) by simp
  qed
  have ok_all: "inode_ok q x k" if k: "ino q x a = Some k" for a k
  proof (cases "a = idx")
    case True
    then show ?thesis using k new by blast
  next
    case False
    then show ?thesis using okk [of a k] k others [of a] by simp
  qed
  have "block_at x 0 = block_at v 0"
    by (rule block0_agree [OF ag]) (use area_above_block0 [OF l] off in \<open>auto simp: touched_def\<close>)
  moreover have "superblock_parse (block_at v 0) = Some q" using inv by (simp add: fs_inv_def)
  ultimately have "superblock_parse (block_at x 0) = Some q" by simp
  with l ok_all disj show "fs_inv q x" unfolding fs_inv_def by blast
  show "files q x = (files q v)(idx := map_option (file_of x) (ino q x idx))"
  proof
    fix a
    show "files q x a = ((files q v)(idx := map_option (file_of x) (ino q x idx))) a"
      using fr [of a] others [of a] by (cases "ino q v a") (auto simp: files_def)
  qed
qed

lemma write_final:
  assumes inv: "fs_inv q v" and i: "ino q v idx = Some i" and off: "inode_loc q idx = Some off"
    and p: "prepared q v N w" and ch: "chunks_at w bs bytes (length bs)"
    and len: "length bs = needed_blocks (length bytes)" "length bs \<le> DIRECT_BLOCKS + INDIRECT_ENTRIES" "length bytes < 2 ^ 32"
    and bs: "distinct bs" "set bs \<subseteq> free_blocks q v"
    and ind: "length bs > DIRECT_BLOCKS \<Longrightarrow> ind \<in> free_blocks q v \<and> ind \<notin> set bs \<and>
        entries_at w ind (drop DIRECT_BLOCKS bs) (length bs - DIRECT_BLOCKS)" "length bs \<le> DIRECT_BLOCKS \<Longrightarrow> ind = 0"
    and N: "N = set bs \<union> (if ind = 0 then {} else {ind})"
  defines "j \<equiv> i\<lparr>isize := word_of_nat (length bytes), direct := direct_of bs, indirect := ind\<rparr>"
  defines "x \<equiv> release q (dblocks v i @ (if indirect i = 0 then [] else [indirect i])) (splat w off (inode_bytes j))"
  shows "fs_inv q x \<and> files q x = (files q v)(idx \<mapsto> (file_of v i)\<lparr>fdata := bytes\<rparr>)"
proof -
  let ?w3 = "splat w off (inode_bytes j)"
  let ?rel = "dblocks v i @ (if indirect i = 0 then [] else [indirect i])"
  have l: "layout q" and ok: "inode_ok q v i" using fs_invD [OF inv i] by auto
  have i_at: "i = inode_at v off" and live: "kind i \<noteq> KIND_FREE" using i off by (auto simp: ino_Some)
  have rel: "set ?rel = owned v i" by (auto simp: owned_def)
  have dj: "length (direct j) = DIRECT_BLOCKS" by (simp add: j_def direct_of_blocks)
  have ag1: "agree_off (inode_area off) w ?w3"
    using length_inode_bytes [OF dj] by (intro agree_off_splat) (simp add: inode_area_def)
  have ag2: "agree_off (bitmap_area q) ?w3 x" unfolding x_def by (rule release_agree [OF l])
  have agwx: "agree_off (inode_area off \<union> bitmap_area q) w x"
    by (rule agree_off_trans [OF agree_off_mono [OF ag1] agree_off_mono [OF ag2]]) auto
  have agvw: "agree_off (bitmap_area q \<union> blocks_area (free_blocks q v)) v w" using p by (simp add: prepared_def)
  have agvx: "agree_off (touched q v off) v x"
    by (rule agree_off_trans [OF agree_off_mono [OF agvw] agree_off_mono [OF agwx]]) (auto simp: touched_def)
  have bits: "bit_used q x b \<longleftrightarrow> (bit_used q v b \<or> b \<in> N) \<and> b \<notin> owned v i" if "b < total_blocks q" for b
    using bit_used_agree [OF l that ag1 inode_loc_bitmap [OF l off]] p that inode_okD(6) [OF ok]
    unfolding x_def release_used rel prepared_def by auto
  have nj: "inode_norm j = j"
    by (rule inode_norm_mode [OF inode_at_normal [of v off]]) (simp_all add: j_def i_at)
  have "inode_at x off = inode_at ?w3 off"
    by (rule inode_at_agree [OF ag2]) (use inode_loc_bitmap [OF l off] in blast)
  then have at_x: "inode_at x off = j" using inode_at_splat [OF dj, of w off] nj by simp
  have xj: "ino q x idx = Some j" using off at_x live by (auto simp: ino_Some j_def)
  have Nf: "N \<subseteq> free_blocks q v" and Nd: "N \<subseteq> data_blocks q" using p free_data by (auto simp: prepared_def)
  have sz: "unat (isize j) = length bytes" using len(3) by (simp add: j_def unat_of_nat)
  have "(inode_area off \<union> bitmap_area q) \<inter> blocks_area N = {}"
    using inode_loc_data [OF l off Nd] bitmap_data_disjoint [OF Nd] by blast
  then have sub: "(inode_area off \<union> bitmap_area q) \<inter> block_area b = {}" if "b \<in> N" for b
    using that unfolding blocks_area_def by blast
  have indN: "DIRECT_BLOCKS < length bs \<Longrightarrow> ind \<in> N" using ind(1) data_block_pos [OF l] free_data N by auto
  have "dblocks w j = bs" by (rule dblocks_new [OF sz _ len(1)]) (use ind(1) in \<open>simp_all add: j_def\<close>)
  moreover have "dblocks x j = dblocks w j"
    by (rule dblocks_agree [OF agwx refl]) (use len(1,2) sz sub indN in \<open>auto simp: j_def\<close>)
  ultimately have dbx: "dblocks x j = bs" by simp
  have own: "owned x j = N" unfolding owned_def dbx N by (simp add: j_def)
  have "bytes_at x (unat b * BLOCK_SIZE) BLOCK_SIZE = bytes_at w (unat b * BLOCK_SIZE) BLOCK_SIZE" if "b \<in> set bs" for b
    by (rule block_bytes_agree [OF agwx sub]) (use that N in auto)
  then have m: "map (\<lambda>b. bytes_at x (unat b * BLOCK_SIZE) BLOCK_SIZE) bs = map (\<lambda>b. bytes_at w (unat b * BLOCK_SIZE) BLOCK_SIZE) bs"
    by simp
  have content: "file_content x j = bytes" unfolding file_content_def dbx sz m by (rule content_of_chunks [OF len(1) ch])
  have okj: "inode_ok q x j"
  proof -
    have "N \<subseteq> {b \<in> data_blocks q. bit_used q x b}"
      using bits Nd Nf free_owned_disjoint [OF ok] by (auto simp: data_blocks_def)
    moreover have "ind = 0 \<longleftrightarrow> length bs \<le> DIRECT_BLOCKS" "ind \<notin> set bs"
      using ind bs(2) data_block_pos [OF l] free_data by (metis not_le subsetD)+
    ultimately show ?thesis
      unfolding inode_ok_def Let_def own dbx sz len(1) [symmetric] using dj bs(1) len(2) by (auto simp: j_def)
  qed
  have oo: "old_owned q v idx = owned v i" using i by (simp add: old_owned_def)
  have "fs_inv q x" "files q x = (files q v)(idx := map_option (file_of x) (ino q x idx))"
    by (rule fs_update [OF inv off agvx]; use bits xj okj own Nf oo in \<open>auto simp: data_blocks_def\<close>)+
  moreover have "file_of x j = (file_of v i)\<lparr>fdata := bytes\<rparr>" using content by (simp add: file_of_def j_def)
  ultimately show ?thesis using xj by simp
qed

section \<open>Writing a file\<close>

text \<open>The blocks \<open>bs\<close> and the indirect block \<open>ind\<close> are taken for a file of \<open>n\<close> blocks.\<close>

definition taken :: "superblock \<Rightarrow> (nat \<Rightarrow> u8) \<Rightarrow> nat \<Rightarrow> u32 list \<Rightarrow> u32 \<Rightarrow> bool" where
  "taken q v n bs ind \<longleftrightarrow> distinct bs \<and> set bs \<subseteq> free_blocks q v \<and> length bs = n \<and>
     (if n > DIRECT_BLOCKS then ind \<in> free_blocks q v \<and> ind \<notin> set bs else ind = 0)"

abbreviation taken_set :: "u32 list \<Rightarrow> u32 \<Rightarrow> u32 set" where
  "taken_set bs ind \<equiv> set bs \<union> (if ind = 0 then {} else {ind})"

definition files_kept :: "superblock \<Rightarrow> (nat \<Rightarrow> u8) \<Rightarrow> image_state \<Rightarrow> bool" where
  "files_kept q v s \<longleftrightarrow> (\<exists>w. img True w q s \<and> fs_inv q w \<and> files q w = files q v)"

lemma prepared_kept: "fs_inv q v \<Longrightarrow> prepared_st q v N s \<Longrightarrow> files_kept q v s"
  unfolding files_kept_def using prepared_files by metis

lemma alloc_indirect_spec:
  assumes l: "layout q" and d: "distinct bs" "set bs \<subseteq> free_blocks q v" "length bs = n"
  shows "valid (prepared_st q v (set bs))
    (if n > DIRECT_BLOCKS then
       bnd (attempt alloc_block) (\<lambda>r. case r of Inr block \<Rightarrow> ret block
         | Inl e \<Rightarrow> bnd (for_each bs (\<lambda>b. discard (free_block b))) (\<lambda>_. err e))
     else ret 0)
    (\<lambda>ind s. prepared_st q v (taken_set bs ind) s \<and> taken q v n bs ind)
    (\<lambda>e s. e = NoSpace \<and> prepared_st q v {} s)"
proof (rule valid_if)
  assume n: "n > DIRECT_BLOCKS"
  let ?R = "\<lambda>r s. case r of Inr b \<Rightarrow> b \<in> free_blocks q v \<and> b \<notin> set bs \<and> prepared_st q v (insert b (set bs)) s
    | Inl e \<Rightarrow> e = NoSpace \<and> prepared_st q v (set bs) s"
  show "valid (prepared_st q v (set bs)) (bnd (attempt alloc_block) (\<lambda>r. case r of Inr block \<Rightarrow> ret block
         | Inl e \<Rightarrow> bnd (for_each bs (\<lambda>b. discard (free_block b))) (\<lambda>_. err e)))
    (\<lambda>ind s. prepared_st q v (taken_set bs ind) s \<and> taken q v n bs ind)
    (\<lambda>e s. e = NoSpace \<and> prepared_st q v {} s)"
  proof (rule valid_bnd [where R = ?R])
    show "valid (prepared_st q v (set bs)) (attempt alloc_block) ?R (\<lambda>e s. e = NoSpace \<and> prepared_st q v {} s)"
      by (rule valid_attempt, rule valid_weaken [OF alloc_block_prepared [OF l]]) simp_all
    fix r
    show "valid (?R r) (case r of Inr block \<Rightarrow> ret block
         | Inl e \<Rightarrow> bnd (for_each bs (\<lambda>b. discard (free_block b))) (\<lambda>_. err e))
      (\<lambda>ind s. prepared_st q v (taken_set bs ind) s \<and> taken q v n bs ind)
      (\<lambda>e s. e = NoSpace \<and> prepared_st q v {} s)"
    proof (cases r)
      case (Inr b)
      have "b \<in> free_blocks q v \<Longrightarrow> b \<noteq> 0" using data_block_pos [OF l] free_data by blast
      then show ?thesis unfolding Inr sum.case using d n by (intro valid_ret) (auto simp: taken_def)
    next
      case (Inl e)
      show ?thesis unfolding Inl sum.case
      proof (rule valid_pre [OF valid_assume])
        assume "e = NoSpace"
        then show "valid (prepared_st q v (set bs)) (bnd (for_each bs (\<lambda>b. discard (free_block b))) (\<lambda>_. err e))
          (\<lambda>ind s. prepared_st q v (taken_set bs ind) s \<and> taken q v n bs ind)
          (\<lambda>e s. e = NoSpace \<and> prepared_st q v {} s)"
          by (intro valid_bnd [OF rollback_prepared [OF l d(2)]] valid_err) simp
      qed auto
    qed
  qed
next
  assume "\<not> n > DIRECT_BLOCKS"
  then show "valid (prepared_st q v (set bs)) (ret 0)
    (\<lambda>ind s. prepared_st q v (taken_set bs ind) s \<and> taken q v n bs ind)
    (\<lambda>e s. e = NoSpace \<and> prepared_st q v {} s)"
    using d by (intro valid_ret) (simp add: taken_def)
qed

text \<open>The data are written and, when needed, the indirect block.\<close>

definition filled :: "superblock \<Rightarrow> (nat \<Rightarrow> u8) \<Rightarrow> u32 list \<Rightarrow> u32 \<Rightarrow> bytes \<Rightarrow> (nat \<Rightarrow> u8) \<Rightarrow> bool" where
  "filled q v bs ind bytes w \<longleftrightarrow> prepared q v (taken_set bs ind) w \<and> chunks_at w bs bytes (length bs) \<and>
     (length bs > DIRECT_BLOCKS \<longrightarrow> entries_at w ind (drop DIRECT_BLOCKS bs) (length bs - DIRECT_BLOCKS))"

lemma fill_spec:
  assumes l: "layout q" and t: "taken q v n bs ind" and n: "n \<le> DIRECT_BLOCKS + INDIRECT_ENTRIES"
    and rest: "\<And>w. filled q v bs ind bytes w \<Longrightarrow> valid (img True w q) m Q E"
  shows "valid (prepared_st q v (taken_set bs ind)) (bnd (write_blocks bs bytes) (\<lambda>_. bnd (write_indirect ind bs) (\<lambda>_. m))) Q E"
proof -
  let ?N = "taken_set bs ind"
  let ?C = "\<lambda>s. \<exists>w. img True w q s \<and> prepared q v ?N w \<and> chunks_at w bs bytes (length bs)"
  let ?F = "\<lambda>s. \<exists>w. img True w q s \<and> filled q v bs ind bytes w"
  have bs: "distinct bs" "set bs \<subseteq> free_blocks q v" "length bs = n" using t by (simp_all add: taken_def)
  have 1: "valid (prepared_st q v ?N) (write_blocks bs bytes) (\<lambda>_. ?C) E" by (rule write_blocks_spec [OF l bs(1,2)])
  have 2: "valid ?C (write_indirect ind bs) (\<lambda>_. ?F) E"
  proof (cases "n > DIRECT_BLOCKS")
    case True
    then have ind: "ind \<in> free_blocks q v" "ind \<notin> set bs" using t by (simp_all add: taken_def)
    show ?thesis
      by (rule valid_weaken [OF write_indirect_spec [OF l ind, of ?N bytes E]]) (use n bs(3) in \<open>auto simp: filled_def\<close>)
  next
    case False
    then have "ind = 0" using t by (simp add: taken_def)
    then show ?thesis using False bs(3) by (simp add: write_indirect_def filled_def valid_ret)
  qed
  have 3: "valid ?F m Q E"
  proof (rule valid_ex)
    fix w show "valid (\<lambda>s. img True w q s \<and> filled q v bs ind bytes w) m Q E" by (rule valid_assume) (rule rest)
  qed
  show ?thesis by (rule valid_bnd [OF 1], rule valid_bnd [OF 2 3])
qed

lemma release_append: "release q (as @ bs) v = release q bs (release q as v)" "release q [] v = v"
  by (simp_all add: release_def)

lemma free_block_release: "layout q \<Longrightarrow> valid (img True v q) (free_block b) (\<lambda>_. img True (release q [b] v) q) E"
  using free_block_spec [of q v b E] by (simp add: release_def)

lemma commit_spec:
  assumes inv: "fs_inv q v" and i: "ino q v idx = Some i" and t: "taken q v n bs ind"
    and f: "filled q v bs ind bytes w"
    and n: "n = needed_blocks (length bytes)" "n \<le> DIRECT_BLOCKS + INDIRECT_ENTRIES" "length bytes < 2 ^ 32"
  shows "valid (img True w q)
    (bnd (ok_or NotFound (read_inode idx)) (\<lambda>i.
      bnd (inode_data_blocks i) (\<lambda>old_blocks.
      bnd (write_inode idx (i\<lparr>isize := word_of_nat (length bytes), direct := direct_of bs, indirect := ind\<rparr>)) (\<lambda>_.
      bnd (for_each old_blocks free_block) (\<lambda>_.
      if indirect i \<noteq> 0 then free_block (indirect i) else ret ())))))
    (\<lambda>_ s. \<exists>w. img True w q s \<and> fs_inv q w \<and> files q w = (files q v)(idx \<mapsto> (file_of v i)\<lparr>fdata := bytes\<rparr>)) E"
proof -
  let ?j = "i\<lparr>isize := word_of_nat (length bytes), direct := direct_of bs, indirect := ind\<rparr>"
  have l: "layout q" and ok: "inode_ok q v i" using fs_invD [OF inv i] by auto
  obtain off where off: "inode_loc q idx = Some off" and i_at: "i = inode_at v off" using i by (auto simp: ino_Some)
  have p: "prepared q v (taken_set bs ind) w" using f by (simp add: filled_def)
  have iw: "ino q w idx = Some i" "inode_at w off = i"
    using prepared_frame(1) [OF inv p, of idx] i off by (auto simp: ino_def split: if_splits)
  have okw: "inode_ok q w i" and dbw: "dblocks w i = dblocks v i"
    using fs_invD(2) [OF prepared_files(1) [OF inv p] iw(1)] prepared_frame(2) [OF inv p i] by auto
  have rd: "valid (img True w q) (ok_or NotFound (read_inode idx)) (\<lambda>x s. img True w q s \<and> x = i) E"
    using valid_map_err [OF read_inode_Some [OF layout_fits [OF l] off, of w]] iw(2) by simp
  have db: "valid (img True w q) (inode_data_blocks i) (\<lambda>x s. img True w q s \<and> x = dblocks v i) E"
    using inode_data_blocks_spec [OF okw l] dbw by simp
  have io: "inode_offset q idx = Some off" using off by (auto simp: inode_loc_def split: if_splits)
  have dj: "length (direct ?j) = DIRECT_BLOCKS" by (simp add: direct_of_blocks)
  let ?w3 = "splat w off (inode_bytes ?j)"
  have wr: "valid (img True w q) (write_inode idx ?j) (\<lambda>_. img True ?w3 q) E"
    by (rule valid_weaken [OF write_inode_spec [OF layout_fits [OF l] io dj]]) auto
  let ?x = "release q (dblocks v i @ (if indirect i = 0 then [] else [indirect i])) ?w3"
  have fr: "valid (img True ?w3 q) (bnd (for_each (dblocks v i) free_block)
      (\<lambda>_. if indirect i \<noteq> 0 then free_block (indirect i) else ret ())) (\<lambda>_. img True ?x q) E"
  proof (rule valid_bnd [OF free_blocks_spec [OF l]])
    show "valid (img True (release q (dblocks v i) ?w3) q) (if indirect i \<noteq> 0 then free_block (indirect i) else ret ())
      (\<lambda>_. img True ?x q) E"
      using free_block_release [OF l] by (simp add: release_append valid_ret)
  qed
  have "fs_inv q ?x \<and> files q ?x = (files q v)(idx \<mapsto> (file_of v i)\<lparr>fdata := bytes\<rparr>)"
    by (rule write_final [OF inv i off p]) (use t f n in \<open>auto simp: taken_def filled_def\<close>)
  then have fin: "valid (img True ?w3 q) (bnd (for_each (dblocks v i) free_block)
      (\<lambda>_. if indirect i \<noteq> 0 then free_block (indirect i) else ret ()))
    (\<lambda>_ s. \<exists>w. img True w q s \<and> fs_inv q w \<and> files q w = (files q v)(idx \<mapsto> (file_of v i)\<lparr>fdata := bytes\<rparr>)) E"
    by (intro valid_weaken [OF fr]) blast+
  show ?thesis by (rule valid_bnd_pure [OF rd], rule valid_bnd_pure [OF db], rule valid_bnd [OF wr fin])
qed

lemma write_inode_bytes_spec:
  assumes inv: "fs_inv q v" and i: "ino q v idx = Some i"
  shows "valid (img True v q) (write_inode_bytes idx bytes)
    (\<lambda>_ s. \<exists>w. img True w q s \<and> fs_inv q w \<and> files q w = (files q v)(idx \<mapsto> (file_of v i)\<lparr>fdata := bytes\<rparr>))
    (\<lambda>e s. e = NoSpace \<and> files_kept q v s)"
proof (cases "length bytes > (DIRECT_BLOCKS + INDIRECT_ENTRIES) * BLOCK_SIZE \<or> length bytes > 2 ^ 32 - 1")
  case True
  then show ?thesis unfolding write_inode_bytes_def using inv by (auto simp: files_kept_def intro!: valid_err)
next
  case False
  let ?n = "needed_blocks (length bytes)"
  have l: "layout q" using inv by (simp add: fs_inv_def)
  have len: "length bytes \<le> (DIRECT_BLOCKS + INDIRECT_ENTRIES) * BLOCK_SIZE" "length bytes < 2 ^ 32" using False by auto
  have n: "?n \<le> DIRECT_BLOCKS + INDIRECT_ENTRIES"
  proof -
    have "?n \<le> ((DIRECT_BLOCKS + INDIRECT_ENTRIES) * BLOCK_SIZE + BLOCK_SIZE - 1) div BLOCK_SIZE"
      unfolding needed_blocks_def using len(1) by (intro div_le_mono) simp
    also have "\<dots> = DIRECT_BLOCKS + INDIRECT_ENTRIES"
      by (simp add: DIRECT_BLOCKS_def INDIRECT_ENTRIES_def BLOCK_SIZE_def)
    finally show ?thesis .
  qed
  let ?Q = "\<lambda>_ s. \<exists>w. img True w q s \<and> fs_inv q w \<and> files q w = (files q v)(idx \<mapsto> (file_of v i)\<lparr>fdata := bytes\<rparr>)"
  let ?E = "\<lambda>e s. e = NoSpace \<and> files_kept q v s"
  have kept: "e = NoSpace \<and> prepared_st q v {} s \<Longrightarrow> ?E e s" for e s using prepared_kept [OF inv] by blast
  let ?B = "\<lambda>bs s. prepared_st q v (set bs) s \<and> distinct bs \<and> set bs \<subseteq> free_blocks q v \<and> length bs = ?n"
  have 1: "valid (img True v q) (alloc_many ?n []) ?B ?E"
    by (rule valid_weaken [OF alloc_many_spec [OF l, of v "[]" ?n]]) (use prepared_refl kept in auto)
  let ?T = "\<lambda>bs ind s. prepared_st q v (taken_set bs ind) s \<and> taken q v ?n bs ind"
  show ?thesis unfolding write_inode_bytes_def Let_def
    apply (simp only: False if_False)
    apply (rule valid_bnd [OF 1])
    subgoal for bs
      apply (rule valid_pre [where P' = "\<lambda>s. prepared_st q v (set bs) s \<and> (distinct bs \<and> set bs \<subseteq> free_blocks q v \<and> length bs = ?n)"])
       apply (rule valid_assume)
       apply (rule valid_bnd [where R = "?T bs"])
        apply (rule valid_weaken [OF alloc_indirect_spec [OF l]])
             apply (simp_all only: conj_assoc)
        apply (rule kept, assumption)
       apply (rule valid_assume)
       apply (rule fill_spec [OF l _ n], assumption)
       apply (rule commit_spec [OF inv i _ _ refl n len(2)], assumption+)
      done
    done
qed

end
