(* ===== verification/CoolFS_Store.thy ===== *)
theory CoolFS_Store
  imports CoolFS_Files
begin

text \<open>
  The remaining operations on inodes of a CoolFS image as operations on the map \<open>files\<close>: removing an inode, allocating
  one, changing its metadata. Then the life of an image: formatting gives an image with an empty root directory, and an
  image that was flushed is found again, with the same files, when the machine mounts it.
\<close>

definition coolfs :: "superblock \<Rightarrow> (u32 \<Rightarrow> fs_file option) \<Rightarrow> image_state \<Rightarrow> bool" where
  "coolfs q F s \<longleftrightarrow> (\<exists>v. img True v q s \<and> fs_inv q v \<and> files q v = F)"

lemma coolfsI: "img True v q s \<Longrightarrow> fs_inv q v \<Longrightarrow> files q v = F \<Longrightarrow> coolfs q F s"
  by (auto simp: coolfs_def)

lemma valid_coolfs:
  assumes "\<And>v. fs_inv q v \<Longrightarrow> files q v = F \<Longrightarrow> valid (img True v q) m Q E"
  shows "valid (coolfs q F) m Q E"
  unfolding coolfs_def
proof (rule valid_ex)
  fix v show "valid (\<lambda>s. img True v q s \<and> fs_inv q v \<and> files q v = F) m Q E"
    by (rule valid_assume) (use assms in blast)
qed

lemma files_kept_coolfs: "files_kept q v = coolfs q (files q v)"
  by (simp add: files_kept_def coolfs_def fun_eq_iff)

lemma write_inode_bytes_coolfs:
  assumes "F idx = Some f"
  shows "valid (coolfs q F) (write_inode_bytes idx bytes) (\<lambda>_. coolfs q (F(idx \<mapsto> f\<lparr>fdata := bytes\<rparr>)))
    (\<lambda>e s. e = NoSpace \<and> coolfs q F s)"
proof (rule valid_coolfs)
  fix v assume inv: "fs_inv q v" and F: "files q v = F"
  obtain i where i: "ino q v idx = Some i" "f = file_of v i" using assms F by (auto simp: files_def)
  show "valid (img True v q) (write_inode_bytes idx bytes) (\<lambda>_. coolfs q (F(idx \<mapsto> f\<lparr>fdata := bytes\<rparr>)))
    (\<lambda>e s. e = NoSpace \<and> coolfs q F s)"
    by (rule valid_weaken [OF write_inode_bytes_spec [OF inv i(1)]])
      (auto simp: coolfs_def files_kept_def F i(2))
qed

section \<open>Removing an inode\<close>

lemma inode_free_at: "inode_norm inode_free = inode_free" "length (direct inode_free) = DIRECT_BLOCKS" "kind inode_free = KIND_FREE"
  by (simp_all add: inode_norm_def inode_free_def KIND_FREE_def)

text \<open>The common end of all steps that write an inode \<open>j\<close> after freeing the blocks \<open>rel\<close>.\<close>

lemma put_inode_agree:
  fixes rel :: "u32 list"
  assumes inv: "fs_inv q v" and off: "inode_loc q idx = Some off" and dj: "length (direct j) = DIRECT_BLOCKS"
  defines "x \<equiv> splat (release q rel v) off (inode_bytes j)"
  shows "agree_off (touched q v off) v x" and "inode_at x off = inode_norm j"
    and "b \<in> data_blocks q \<Longrightarrow> bit_used q x b \<longleftrightarrow> bit_used q v b \<and> b \<notin> set rel"
proof -
  have l: "layout q" using inv by (simp add: fs_inv_def)
  have ag2: "agree_off (inode_area off) (release q rel v) x" unfolding x_def
    using length_inode_bytes [OF dj] by (intro agree_off_splat) (simp add: inode_area_def)
  show "agree_off (touched q v off) v x"
    by (rule agree_off_trans [OF agree_off_mono [OF release_agree [OF l]] agree_off_mono [OF ag2]]) (auto simp: touched_def)
  show "inode_at x off = inode_norm j" unfolding x_def by (rule inode_at_splat [OF dj])
  assume b: "b \<in> data_blocks q"
  then have "b < total_blocks q" by (simp add: data_blocks_def)
  from bit_used_agree [OF l this ag2 inode_loc_bitmap [OF l off]] b
  show "bit_used q x b \<longleftrightarrow> bit_used q v b \<and> b \<notin> set rel" by (simp add: release_used)
qed

lemma free_inode_coolfs:
  assumes "F idx = Some f"
  shows "valid (coolfs q F) (free_inode idx) (\<lambda>_. coolfs q (F(idx := None))) E"
proof (rule valid_coolfs)
  fix v assume inv: "fs_inv q v" and F: "files q v = F"
  obtain i where i: "ino q v idx = Some i" using assms F by (auto simp: files_def)
  have l: "layout q" and ok: "inode_ok q v i" using fs_invD [OF inv i] by auto
  obtain off where off: "inode_loc q idx = Some off" and i_at: "i = inode_at v off" using i by (auto simp: ino_Some)
  have io: "inode_offset q idx = Some off" using off by (auto simp: inode_loc_def split: if_splits)
  let ?rel = "dblocks v i @ (if indirect i = 0 then [] else [indirect i])"
  let ?x = "splat (release q ?rel v) off (inode_bytes inode_free)"
  note put = put_inode_agree [OF inv off inode_free_at(2), where rel = ?rel]
  have rd: "valid (img True v q) (ok_or NotFound (read_inode idx)) (\<lambda>x s. img True v q s \<and> x = i) E"
    using valid_map_err [OF read_inode_Some [OF layout_fits [OF l] off, of v]] i_at by simp
  have ind: "valid (img True (release q (dblocks v i) v) q) (if indirect i \<noteq> 0 then free_block (indirect i) else ret ())
      (\<lambda>_. img True (release q ?rel v) q) E"
    using free_block_release [OF l] by (simp add: release_append valid_ret)
  have wr: "valid (img True (release q ?rel v) q) (write_inode idx inode_free) (\<lambda>_. img True ?x q) E"
    by (rule valid_weaken [OF write_inode_spec [OF layout_fits [OF l] io inode_free_at(2)]]) auto
  have "valid (img True v q) (free_inode idx) (\<lambda>_. img True ?x q) E"
    unfolding free_inode_def
    by (rule valid_bnd_pure [OF rd], rule valid_bnd_pure [OF inode_data_blocks_spec [OF ok l]],
        rule valid_bnd [OF free_blocks_spec [OF l]], rule valid_bnd [OF ind wr])
  moreover have gone: "ino q ?x idx = None" using off put(2) by (simp add: ino_def inode_free_at)
  have "set ?rel = old_owned q v idx" using i by (auto simp: old_owned_def owned_def)
  then have "fs_inv q ?x" "files q ?x = F(idx := None)"
    using fs_update [OF inv off put(1)] put(3) gone by (auto simp: F)
  ultimately show "valid (img True v q) (free_inode idx) (\<lambda>_. coolfs q (F(idx := None))) E"
    by (auto elim!: valid_weaken intro: coolfsI)
qed

section \<open>Writing an inode\<close>

text \<open>An inode with the same size and blocks and other metadata.\<close>

lemma write_meta_coolfs:
  assumes inv: "fs_inv q v" and i: "ino q v idx = Some i"
    and j: "isize j = isize i" "direct j = direct i" "indirect j = indirect i" "kind j = kind i"
  shows "valid (img True v q) (write_inode idx j)
    (\<lambda>_. coolfs q ((files q v)(idx \<mapsto> (file_of v i)\<lparr>fuid := iuid j, fgid := igid j, fmode := imode (inode_norm j)\<rparr>))) E"
proof -
  have l: "layout q" and ok: "inode_ok q v i" using fs_invD [OF inv i] by auto
  obtain off where off: "inode_loc q idx = Some off" and live: "kind i \<noteq> KIND_FREE" using i by (auto simp: ino_Some)
  have io: "inode_offset q idx = Some off" using off by (auto simp: inode_loc_def split: if_splits)
  have dj: "length (direct j) = DIRECT_BLOCKS" using inode_okD(1) [OF ok] j by simp
  let ?x = "splat v off (inode_bytes j)" and ?n = "inode_norm j"
  have n: "isize ?n = isize i" "direct ?n = direct i" "indirect ?n = indirect i" "kind ?n = kind i" "iuid ?n = iuid j" "igid ?n = igid j"
    using j by (simp_all add: inode_norm_def)
  note put = put_inode_agree [OF inv off dj, where rel = "[]", unfolded release_append]
  have wr: "valid (img True v q) (write_inode idx j) (\<lambda>_. img True ?x q) E"
    by (rule valid_weaken [OF write_inode_spec [OF layout_fits [OF l] io dj]]) auto
  have at_x: "ino q ?x idx = Some ?n" using off put(2) live n by (simp add: ino_def)
  have fr: "dblocks ?x i = dblocks v i" "file_of ?x i = file_of v i" "owned ?x i = owned v i"
    using touched_frame(2) [OF inv off put(1) i] by auto
  have same: "dblocks ?x ?n = dblocks v i" "owned ?x ?n = owned v i"
    using fr n by (simp_all add: dblocks_def owned_def)
  have "file_content ?x ?n = file_content ?x i" using same(1) fr(1) n(1) by (simp add: file_content_def)
  then have fo: "file_of ?x ?n = (file_of v i)\<lparr>fuid := iuid j, fgid := igid j, fmode := imode ?n\<rparr>"
    using fr(2) n by (simp add: file_of_def)
  have okj: "inode_ok q ?x ?n"
    using ok put(3) same n by (auto simp: inode_ok_def Let_def)
  have "old_owned q v idx = owned v i" using i by (simp add: old_owned_def)
  then have "fs_inv q ?x" "files q ?x = (files q v)(idx \<mapsto> file_of ?x ?n)"
    using fs_update [OF inv off put(1)] put(3) at_x okj same by auto
  then show ?thesis using fo by (intro valid_weaken [OF wr]) (auto intro: coolfsI)
qed

section \<open>Allocating an inode\<close>

definition empty_file :: "u8 \<Rightarrow> u32 \<Rightarrow> u32 \<Rightarrow> u16 \<Rightarrow> fs_file" where
  "empty_file k u g m = \<lparr>fkind = k, fuid = u, fgid = g,
     fmode = imode (inode_norm (new_with_metadata k u g m)), fdata = []\<rparr>"

lemma needed_0: "needed_blocks 0 = 0"
  by (simp add: needed_blocks_def BLOCK_SIZE_def)

lemma put_new_inode:
  fixes u g :: u32 and m :: u16
  assumes inv: "fs_inv q v" and none: "ino q v idx = None" and off: "inode_loc q idx = Some off" and k: "k \<noteq> KIND_FREE"
  defines "x \<equiv> splat v off (inode_bytes (new_with_metadata k u g m))"
  shows "fs_inv q x" and "files q x = (files q v)(idx \<mapsto> empty_file k u g m)"
proof -
  let ?j = "new_with_metadata k u g m"
  let ?n = "inode_norm ?j"
  have dj: "length (direct ?j) = DIRECT_BLOCKS" by (simp add: new_with_metadata_def)
  note put = put_inode_agree [OF inv off dj, where rel = "[]", unfolded release_append, folded x_def]
  have at_x: "ino q x idx = Some ?n" using off put(2) k by (simp add: ino_def inode_norm_def new_with_metadata_def)
  have "dblocks x ?n = []" by (simp add: dblocks_def inode_norm_def new_with_metadata_def needed_0)
  moreover have "indirect ?n = 0" "isize ?n = 0" "length (direct ?n) = DIRECT_BLOCKS"
    by (simp_all add: inode_norm_def new_with_metadata_def)
  ultimately have n: "inode_ok q x ?n" "owned x ?n = {}" "file_of x ?n = empty_file k u g m"
    by (simp_all add: inode_ok_def owned_def needed_0 file_of_def file_content_def empty_file_def)
      (simp_all add: inode_norm_def new_with_metadata_def)
  show "fs_inv q x" and "files q x = (files q v)(idx \<mapsto> empty_file k u g m)"
    using fs_update [OF inv off put(1)] put(3) at_x n by auto
qed

lemma is_free_spec:
  assumes inv: "fs_inv q v" and idx: "idx < inode_count q"
  shows "valid (img True v q) (unwrap_or False (bnd (read_inode idx) (\<lambda>i. ret (kind i = KIND_FREE))))
    (\<lambda>b s. img True v q s \<and> b = (ino q v idx = None)) E"
proof -
  have l: "layout q" using inv by (simp add: fs_inv_def)
  obtain off where off: "inode_loc q idx = Some off" using inode_loc_layout(1) [OF l idx] by blast
  have "ino q v idx = None \<longleftrightarrow> kind (inode_at v off) = KIND_FREE" using off by (simp add: ino_def)
  then show ?thesis
    by (intro valid_unwrap_or valid_bnd_pure [OF read_inode_Some [OF layout_fits [OF l] off]] valid_ret) simp
qed

lemma alloc_inode_loop_spec:
  assumes inv: "fs_inv q v" and k: "k \<noteq> KIND_FREE" and "\<And>idx. idx \<in> set idxs \<Longrightarrow> idx < inode_count q"
  shows "valid (img True v q) (alloc_inode_loop (new_with_metadata k u g m) idxs)
    (\<lambda>idx s. idx \<in> set idxs \<and> files q v idx = None \<and> coolfs q ((files q v)(idx \<mapsto> empty_file k u g m)) s)
    (\<lambda>e s. e = NoSpace \<and> img True v q s)"
  using assms(3)
proof (induction idxs)
  case Nil
  then show ?case by (simp add: valid_err)
next
  case (Cons idx idxs)
  have l: "layout q" using inv by (simp add: fs_inv_def)
  have idx: "idx < inode_count q" using Cons.prems by simp
  then obtain off where off: "inode_loc q idx = Some off" "inode_offset q idx = Some off"
    using inode_loc_layout(1,2) [OF l idx] by blast
  have dj: "length (direct (new_with_metadata k u g m)) = DIRECT_BLOCKS" by (simp add: new_with_metadata_def)
  let ?Q = "\<lambda>i s. i \<in> set (idx # idxs) \<and> files q v i = None \<and> coolfs q ((files q v)(i \<mapsto> empty_file k u g m)) s"
  let ?E = "\<lambda>e s. e = NoSpace \<and> img True v q s"
  have wr: "valid (img True v q) (bnd (write_inode idx (new_with_metadata k u g m)) (\<lambda>_. ret idx)) ?Q ?E" if "ino q v idx = None"
  proof (rule valid_bnd)
    let ?x = "splat v off (inode_bytes (new_with_metadata k u g m))"
    show "valid (img True v q) (write_inode idx (new_with_metadata k u g m)) (\<lambda>_. img True ?x q) ?E"
      by (rule valid_weaken [OF write_inode_spec [OF layout_fits [OF l] off(2) dj]]) auto
    show "valid (img True ?x q) (ret idx) ?Q ?E"
      using put_new_inode [OF inv that off(1) k] that by (intro valid_ret) (auto simp: files_def intro: coolfsI)
  qed
  have "valid (img True v q) (alloc_inode_loop (new_with_metadata k u g m) idxs) ?Q ?E"
    by (rule valid_weaken [OF Cons.IH]) (use Cons.prems in \<open>auto simp: fun_upd_def\<close>)
  with wr show ?case
    unfolding alloc_inode_loop.simps
    by (intro valid_bnd_pure [OF is_free_spec [OF inv idx]] valid_if) (auto simp: fun_upd_def)
qed

lemma alloc_inode_coolfs:
  assumes k: "k \<noteq> KIND_FREE"
  shows "valid (coolfs q F) (alloc_inode_with_metadata k u g m)
    (\<lambda>idx s. F idx = None \<and> idx \<noteq> 0 \<and> coolfs q (F(idx \<mapsto> empty_file k u g m)) s) (\<lambda>e s. e = NoSpace \<and> coolfs q F s)"
proof (rule valid_coolfs)
  fix v assume inv: "fs_inv q v" and F: "files q v = F"
  let ?is = "map word_of_nat [1..<unat (inode_count q)] :: u32 list"
  have u: "unat (word_of_nat n :: u32) = n" if "n < unat (inode_count q)" for n
    using that unsigned_less [of "inode_count q", where 'a = nat] by (simp add: unat_of_nat)
  have is_: "idx < inode_count q \<and> idx \<noteq> 0" if "idx \<in> set ?is" for idx
    using that u by (auto simp: word_less_nat_alt) (metis Suc_le_eq less_irrefl u unat_0)
  show "valid (img True v q) (alloc_inode_with_metadata k u g m)
    (\<lambda>idx s. F idx = None \<and> idx \<noteq> 0 \<and> coolfs q (F(idx \<mapsto> empty_file k u g m)) s) (\<lambda>e s. e = NoSpace \<and> coolfs q F s)"
    unfolding alloc_inode_with_metadata_def
    by (rule valid_gets_sb, rule valid_weaken [OF alloc_inode_loop_spec [OF inv k]])
      (use is_ inv F in \<open>auto intro: coolfsI\<close>)
qed

section \<open>Formatting\<close>

lemma u32_of_nat: "n < unat (a :: u32) \<Longrightarrow> unat (word_of_nat n :: u32) = n"
  using unsigned_less [of a, where 'a = nat] by (simp add: unat_of_nat)

lemma zero_prefix:
  assumes "n \<le> unat TOTAL_BLOCKS"
  shows "valid (img True v q) (for_each (map word_of_nat [0..<n]) zero_block)
    (\<lambda>_ s. \<exists>w. img True w q s \<and> (\<forall>a < n * BLOCK_SIZE. w a = 0)) E"
proof -
  let ?P = "\<lambda>n s. \<exists>w. img True w q s \<and> (\<forall>a < n * BLOCK_SIZE. w a = 0)"
  have "valid (?P 0) (for_each [0..<n] (\<lambda>b. zero_block (word_of_nat b))) (\<lambda>_. ?P n) E"
  proof (rule valid_for_upt, rule valid_ex)
    fix b and w :: "nat \<Rightarrow> u8" assume "b < n"
    then have b: "b < unat TOTAL_BLOCKS" using assms by simp
    have u: "unat (word_of_nat b :: u32) = b" by (rule u32_of_nat [OF b])
    then have lt: "(word_of_nat b :: u32) < TOTAL_BLOCKS" using b by (simp add: word_less_nat_alt)
    have z: "splat w (b * BLOCK_SIZE) (replicate BLOCK_SIZE 0) a = 0"
      if "\<forall>a < b * BLOCK_SIZE. w a = 0" "a < Suc b * BLOCK_SIZE" for a
      using that by (cases "a < b * BLOCK_SIZE") (auto simp: splat_def)
    show "valid (\<lambda>s. img True w q s \<and> (\<forall>a < b * BLOCK_SIZE. w a = 0)) (zero_block (word_of_nat b)) (\<lambda>_. ?P (Suc b)) E"
    proof (rule valid_assume)
      assume w: "\<forall>a < b * BLOCK_SIZE. w a = 0"
      show "valid (img True w q) (zero_block (word_of_nat b)) (\<lambda>_. ?P (Suc b)) E"
        by (rule valid_weaken [OF zero_block_spec]) (use lt z [OF w] in \<open>auto simp only: u simp_thms\<close>)
    qed
  qed
  then show ?thesis unfolding for_each_map by (rule valid_pre) auto
qed

lemma mark_prefix:
  assumes l: "layout q" and n: "n \<le> unat (total_blocks q)"
  shows "valid (img True v q) (for_each (map word_of_nat [0..<n]) (\<lambda>b. set_block_used b True))
    (\<lambda>_ s. \<exists>w. img True w q s \<and> agree_off (bitmap_area q) v w \<and> (\<forall>b. bit_used q w b \<longleftrightarrow> bit_used q v b \<or> unat b < n)) E"
proof -
  let ?I = "\<lambda>n (w :: nat \<Rightarrow> u8). agree_off (bitmap_area q) v w \<and> (\<forall>b. bit_used q w b \<longleftrightarrow> bit_used q v b \<or> unat b < n)"
  let ?P = "\<lambda>n s. \<exists>w. img True w q s \<and> ?I n w"
  have "valid (?P 0) (for_each [0..<n] (\<lambda>b. set_block_used (word_of_nat b) True)) (\<lambda>_. ?P n) E"
  proof (rule valid_for_upt, rule valid_ex, rule valid_assume)
    fix k w assume "k < n" and w: "?I k w"
    then have k: "k < unat (total_blocks q)" using n by simp
    have u: "unat (word_of_nat k :: u32) = k" by (rule u32_of_nat [OF k])
    then have lt: "(word_of_nat k :: u32) < total_blocks q" using k by (simp add: word_less_nat_alt)
    let ?w = "set_bit_used q w (word_of_nat k) True"
    have "unat b < Suc k \<longleftrightarrow> unat b < k \<or> b = word_of_nat k" for b :: u32
      using u by (auto simp: less_Suc_eq word_unat_eq_iff)
    then have "?I (Suc k) ?w"
      using w agree_off_trans [OF _ set_bit_used_agree [OF l lt]] by (auto simp: bit_used_set)
    then show "valid (img True w q) (set_block_used (word_of_nat k) True) (\<lambda>_. ?P (Suc k)) E"
      by (intro valid_weaken [OF set_block_used_spec [OF l lt]]) auto
  qed
  then show ?thesis unfolding for_each_map by (rule valid_pre) auto
qed

lemmas superblock_new_simps = superblock_new_def TOTAL_BLOCKS_def INODE_COUNT_def INODE_TABLE_START_def
  INODE_TABLE_BLOCKS_def BITMAP_START_def BITMAP_BLOCKS_def DATA_START_def ROOT_INODE_def BLOCK_SIZE_def INODE_SIZE_def

lemma superblock_new_layout: "layout superblock_new" "superblock_accepted superblock_new"
  by (simp_all add: layout_def fits_def superblock_accepted_def superblock_new_simps)

lemma superblock_write_spec:
  "valid (img True v q) (cache_get_mut 0 (\<lambda>block0. superblock_write q (map (\<lambda>_. 0) block0)))
    (\<lambda>_ s. \<exists>w. img True w q s \<and> agree_off (block_area 0) v w \<and>
       block_at w 0 = superblock_write q (map (\<lambda>_. 0) (block_at v 0))) E"
proof -
  have len: "length (superblock_write q (map (\<lambda>_. 0) d)) = BLOCK_SIZE" if "length d = BLOCK_SIZE" for d
    using that by (simp add: superblock_write_def cfs_write_u32_def Let_def BLOCK_SIZE_def)
  let ?d = "superblock_write q (map (\<lambda>_. 0) (block_at v 0))"
  have "length ?d = BLOCK_SIZE" using len [of "block_at v 0"] by simp
  then have "block_at (set_block v 0 ?d) 0 = ?d" by (simp only: block_at_set_block simp_thms if_True)
  moreover have "agree_off (block_area 0) v (set_block v 0 ?d)"
    by (simp add: agree_off_def set_block_def block_area_def div_eq_0_iff BLOCK_SIZE_def)
  ultimately show ?thesis
    by (intro valid_weaken [OF image_bytes.getm_spec [OF len]]) (auto simp: TOTAL_BLOCKS_def)
qed

text \<open>An image with an accepted superblock, zeroed inode table and marked metadata blocks has no live inode.\<close>

lemma blank_image:
  assumes l: "layout q" and p: "superblock_parse (block_at w 0) = Some q"
    and z: "\<And>a. BLOCK_SIZE \<le> a \<Longrightarrow> a < unat (bitmap_start q) * BLOCK_SIZE \<Longrightarrow> w a = 0"
  shows "fs_inv q w" and "files q w = Map.empty" and "ino q w idx = None"
proof -
  have none: "ino q w idx = None" for idx
  proof (cases "inode_loc q idx")
    case (Some off)
    have "off \<in> inode_area off" by (simp add: inode_area_def INODE_SIZE_def)
    then have "off < unat (bitmap_start q) * BLOCK_SIZE" "BLOCK_SIZE \<le> off"
      using inode_area_table [OF l Some] area_above_block0(3) [OF l Some] by auto
    then have "w off = 0" by (intro z)
    then show ?thesis using Some by (simp add: ino_def inode_at_def Let_def KIND_FREE_def)
  qed (simp add: ino_def)
  show "fs_inv q w" "files q w = Map.empty" "ino q w idx = None"
    using none l p by (simp_all add: fs_inv_def files_def fun_eq_iff)
qed

definition formatted :: "superblock \<Rightarrow> (nat \<Rightarrow> u8) \<Rightarrow> bool" where
  "formatted q v \<longleftrightarrow> fs_inv q v \<and> files q v = [root_inode q \<mapsto> empty_file KIND_DIR ROOT_UID ROOT_GID DEFAULT_DIR_MODE] \<and>
     free_blocks q v = data_blocks q"

lemma inode_new_dir: "inode_new KIND_DIR = new_with_metadata KIND_DIR ROOT_UID ROOT_GID DEFAULT_DIR_MODE"
  by (simp add: inode_new_def new_with_metadata_def DEFAULT_DIR_MODE_def MODE_BITS_def)

lemma write_root_spec:
  assumes l: "layout q" and inv: "fs_inv q v" and none: "files q v = Map.empty" and free: "free_blocks q v = data_blocks q"
  shows "valid (img True v q) (write_inode (root_inode q) (inode_new KIND_DIR))
    (\<lambda>_ s. \<exists>w. img True w q s \<and> formatted q w) E"
proof -
  let ?j = "new_with_metadata KIND_DIR ROOT_UID ROOT_GID DEFAULT_DIR_MODE"
  have r: "root_inode q < inode_count q" using l by (simp add: layout_def)
  obtain off where off: "inode_loc q (root_inode q) = Some off" "inode_offset q (root_inode q) = Some off"
    using inode_loc_layout(1,2) [OF l r] by blast
  have dj: "length (direct ?j) = DIRECT_BLOCKS" by (simp add: new_with_metadata_def)
  let ?w = "splat v off (inode_bytes ?j)"
  have n: "ino q v (root_inode q) = None" using none by (metis files_def map_option_is_None)
  have k: "KIND_DIR \<noteq> KIND_FREE" by (simp add: KIND_DIR_def KIND_FREE_def)
  note new = put_new_inode [OF inv n off(1) k, of ROOT_UID ROOT_GID DEFAULT_DIR_MODE]
  have "free_blocks q ?w = free_blocks q v"
    using put_inode_agree(3) [OF inv off(1) dj, where rel = "[]", unfolded release_append]
    by (auto simp: free_blocks_def)
  then have "formatted q ?w" using new none free by (simp add: formatted_def)
  then show ?thesis unfolding inode_new_dir
    by (intro valid_weaken [OF write_inode_spec [OF layout_fits [OF l] off(2) dj]]) auto
qed

lemma layout_bounds:
  assumes "layout q"
  shows "1 \<le> unat (bitmap_start q)" "unat (bitmap_start q) \<le> unat (data_start q)" "unat (data_start q) \<le> unat (total_blocks q)"
    "unat (total_blocks q) \<le> unat TOTAL_BLOCKS"
proof -
  have "0 < unat (inode_table_start q)" using assms unfolding layout_def by (metis unat_gt_0 word_neq_0_conv)
  moreover have "unat (inode_table_start q) * BLOCK_SIZE \<le> unat (bitmap_start q) * BLOCK_SIZE"
    using assms unfolding layout_def by linarith
  ultimately show "1 \<le> unat (bitmap_start q)" by (simp add: BLOCK_SIZE_def)
  have "unat (bitmap_start q) * BLOCK_SIZE \<le> unat (data_start q) * BLOCK_SIZE"
    using assms unfolding layout_def by linarith
  then show "unat (bitmap_start q) \<le> unat (data_start q)" by (simp add: BLOCK_SIZE_def)
  show "unat (data_start q) \<le> unat (total_blocks q)" "unat (total_blocks q) \<le> unat TOTAL_BLOCKS"
    using assms by (simp_all add: layout_def fits_def word_le_nat_alt)
qed

lemma bit_used_zero:
  assumes "layout q" and "unat b < unat (total_blocks q)" and "\<And>a. a \<in> bitmap_area q \<Longrightarrow> w a = 0"
  shows "\<not> bit_used q w b"
  using bitmap_byte_layout(1) [OF assms(1)] assms(2,3) by (simp add: bit_used_def word_less_nat_alt)

lemma format_tail:
  assumes l: "layout q" and acc: "superblock_accepted q" and z: "\<And>a. a < unat (data_start q) * BLOCK_SIZE \<Longrightarrow> v a = 0"
  shows "valid (img True v q)
    (bnd (cache_get_mut 0 (\<lambda>block0. superblock_write q (map (\<lambda>_. 0) block0))) (\<lambda>_.
     bnd (for_each (map word_of_nat [0..<unat (data_start q)]) (\<lambda>block. set_block_used block True)) (\<lambda>_.
     write_inode (root_inode q) (inode_new KIND_DIR))))
    (\<lambda>_ s. \<exists>w. img True w q s \<and> formatted q w) E"
proof (rule valid_bnd [OF superblock_write_spec], rule valid_ex, rule valid_assume)
  fix w assume w: "agree_off (block_area 0) v w \<and> block_at w 0 = superblock_write q (map (\<lambda>_. 0) (block_at v 0))"
  note b = layout_bounds [OF l]
  have wz: "w a = 0" if "BLOCK_SIZE \<le> a" "a < unat (data_start q) * BLOCK_SIZE" for a
    using w z [of a] that by (simp add: agree_off_def block_area_def)
  have sbp: "superblock_parse (block_at w 0) = Some q" using w acc by (simp add: superblock_write_parse)
  show "valid (img True w q)
    (bnd (for_each (map word_of_nat [0..<unat (data_start q)]) (\<lambda>block. set_block_used block True)) (\<lambda>_.
     write_inode (root_inode q) (inode_new KIND_DIR))) (\<lambda>_ s. \<exists>w. img True w q s \<and> formatted q w) E"
  proof (rule valid_bnd [OF mark_prefix [OF l b(3)]], rule valid_ex, rule valid_assume)
    fix x assume x: "agree_off (bitmap_area q) w x \<and> (\<forall>b. bit_used q x b \<longleftrightarrow> bit_used q w b \<or> unat b < unat (data_start q))"
    have ds: "unat (bitmap_start q) * BLOCK_SIZE \<le> unat (data_start q) * BLOCK_SIZE" using b(2) by simp
    have xz: "x a = 0" if "BLOCK_SIZE \<le> a" "a < unat (bitmap_start q) * BLOCK_SIZE" for a
      using x wz [of a] that ds by (simp add: agree_off_def bitmap_area_def)
    have "block_at x 0 = block_at w 0"
      by (rule block0_agree [where A = "bitmap_area q"]) (use x area_above_block0(1) [OF l] in auto)
    then have xp: "superblock_parse (block_at x 0) = Some q" using sbp by simp
    have "\<not> bit_used q w c" if "c < total_blocks q" for c
      by (rule bit_used_zero [OF l]) (use that area_above_block0(1) [OF l] wz in \<open>auto simp: word_less_nat_alt bitmap_area_def\<close>)
    then have free: "free_blocks q x = data_blocks q"
      using x by (auto simp: free_blocks_def data_blocks_def word_le_nat_alt)
    note bl = blank_image [OF l xp xz]
    show "valid (img True x q) (write_inode (root_inode q) (inode_new KIND_DIR)) (\<lambda>_ s. \<exists>w. img True w q s \<and> formatted q w) E"
      by (rule write_root_spec [OF l bl(1,2) free])
  qed
qed

lemma format_steps_spec:
  assumes l: "layout q" and acc: "superblock_accepted q"
  shows "valid (img True v q) format_steps (\<lambda>_ s. \<exists>w. img True w q s \<and> formatted q w) E"
  unfolding format_steps_def
proof (rule valid_gets_sb, rule valid_bnd [OF zero_prefix], use layout_bounds [OF l] in simp, rule valid_ex, rule valid_assume)
  fix w :: "nat \<Rightarrow> u8" assume z: "\<forall>a < unat (data_start q) * BLOCK_SIZE. w a = 0"
  then show "valid (img True w q)
    (bnd (cache_get_mut 0 (\<lambda>block0. superblock_write q (map (\<lambda>_. 0) block0))) (\<lambda>_.
     bnd (for_each (map word_of_nat [0..<unat (data_start q)]) (\<lambda>block. set_block_used block True)) (\<lambda>_.
     write_inode (root_inode q) (inode_new KIND_DIR))))
    (\<lambda>_ s. \<exists>w. img True w q s \<and> formatted q w) E" by (intro format_tail [OF l acc]) simp
qed

lemma format_image_spec:
  assumes "media_wf m" and "healthy m"
  obtains s v where "format_image m = (Inr s, mach s)" "img True v superblock_new s" "formatted superblock_new v"
proof -
  let ?s0 = "\<lparr>entries = fst cache_new, clock = snd cache_new, mach = m, sb = superblock_new\<rparr>"
  have "img True (bview ?s0) superblock_new ?s0"
    using assms by (simp add: img_def holds_def cache_inv_def entries_ok_def cache_new_def)
  note ex = valid_success [OF format_steps_spec [OF superblock_new_layout] this]
  show thesis
  proof (rule ex)
    fix x s assume f: "format_steps ?s0 = (Inr x, s)" and "\<exists>v. img True v superblock_new s \<and> formatted superblock_new v"
    then obtain v where "img True v superblock_new s" "formatted superblock_new v" by blast
    with f show thesis by (intro that [of s v]) (simp_all add: format_image_def build_image_def)
  qed
qed

section \<open>Mounting\<close>

lemma read_block_healthy:
  assumes "media_wf m" and "healthy m" and "b < TOTAL_BLOCKS"
  obtains m1 where "read_disk_block_with read_sector b m = (Inr (disk_block m b), m1)" "media_wf m1" "healthy m1"
    "disk_block m1 = disk_block m"
proof -
  obtain d m1 where rd: "read_disk_block_with read_sector b m = (Inr d, m1)" and h: "healthy m1"
    using valid_success [OF healthy_read_block [OF assms(3)] assms(2)] by blast
  let ?s = "\<lparr>entries = [], clock = 0, mach = m\<rparr> :: cache_state"
  have "read_disk_block b ?s = (Inr d, ?s\<lparr>mach := m1\<rparr>)" using rd by (simp add: read_disk_block_def on_mach_def)
  from read_disk_block_state [OF this] assms(1) rd h show thesis by (intro that [of m1]) auto
qed

lemma remount_spec:
  assumes s: "img True v q t" and disk: "\<And>b. b < TOTAL_BLOCKS \<Longrightarrow> disk_block (mach t) b = block_at v (unat b)"
    and p: "superblock_parse (block_at v 0) = Some q" "1024 \<le> total_blocks q" "fits q"
  obtains s' m' where "load_or_format (mach t) = (Inr s', m')" "img True v q s'"
proof -
  have inv: "cache_inv t" and h: "healthy (mach t)" and v: "bview t = v" using s by (auto simp: img_def holds_def)
  then have wf: "media_wf (mach t)" by (simp add: cache_inv_def)
  have lt: "(0::u32) < TOTAL_BLOCKS" by (simp add: TOTAL_BLOCKS_def)
  obtain m1 where rd: "read_disk_block_with read_sector 0 (mach t) = (Inr (block_at v 0), m1)"
    and m1: "media_wf m1" "healthy m1" "disk_block m1 = disk_block (mach t)"
    using read_block_healthy [OF wf h lt] disk [OF lt] by auto
  let ?c = "with_clean_block 0 (block_at v 0)"
  let ?s = "\<lparr>entries = fst ?c, clock = snd ?c, mach = m1, sb = q\<rparr>"
  have 1: "load_or_format (mach t) = (Inr ?s, m1)"
    using rd p by (simp add: load_or_format_def build_image_def ret_def fits_def)
  have ok: "cache_inv ?s"
    using m1 lt disk [OF lt] by (simp add: cache_inv_def entries_ok_def with_clean_block_def CACHE_SLOTS_def)
  have "vblock ?s b = block_at v (unat b)" if "b < TOTAL_BLOCKS" for b
    using disk [OF that] m1(3) by (simp add: vblock_def entry_view_def with_clean_block_def)
  moreover have "vblock t b = block_at v (unat b)" if "b < TOTAL_BLOCKS" for b
    using block_at_bview [OF inv that] v by simp
  ultimately have "same_view (t :: image_state) ?s" by (simp add: same_view_def)
  then have "bview ?s = v" using bview_same_view v by blast
  then have "img True v q ?s" using ok m1 by (simp add: img_def holds_def)
  with 1 show thesis by (rule that)
qed

lemma image_flush_spec:
  assumes "img True v q s"
  obtains t where "image_flush s = (Inr (), t)" "img True v q t" "dirty_blocks t = 0"
    "\<And>b. b < TOTAL_BLOCKS \<Longrightarrow> disk_block (mach t) b = block_at v (unat b)"
proof -
  have "valid (img True v q) image_flush (\<lambda>_ s. img True v q s \<and> dirty_blocks s = 0 \<and>
      (\<forall>b < TOTAL_BLOCKS. disk_block (mach s) b = block_at v (unat b))) (\<lambda>_ _. False)"
    unfolding img_def image_flush_def by (rule valid_weaken [OF cache_flush_spec]) auto
  note ex = valid_success [OF this assms]
  show thesis
  proof (rule ex)
    fix x t assume "image_flush s = (Inr x, t)" "img True v q t \<and> dirty_blocks t = 0 \<and>
      (\<forall>b < TOTAL_BLOCKS. disk_block (mach t) b = block_at v (unat b))"
    then show thesis by (intro that [of t]) auto
  qed
qed

section \<open>Properties\<close>

text \<open>C28: Files survive a restart. Flushing an image always succeeds on healthy hardware, and mounting the disk again, with
  an empty cache, gives an image with the same superblock and exactly the same files.\<close>

theorem flush_then_remount:
  assumes "coolfs q F s" and "1024 \<le> total_blocks q"
  shows "\<exists>t s' m'. image_flush s = (Inr (), t) \<and> load_or_format (mach t) = (Inr s', m') \<and> coolfs q F s'"
proof -
  obtain v where v: "img True v q s" "fs_inv q v" "files q v = F" using assms(1) by (auto simp: coolfs_def)
  obtain t where t: "image_flush s = (Inr (), t)" "img True v q t"
    "\<And>b. b < TOTAL_BLOCKS \<Longrightarrow> disk_block (mach t) b = block_at v (unat b)"
    using image_flush_spec [OF v(1)] by metis
  have p: "superblock_parse (block_at v 0) = Some q" "fits q" using v(2) by (auto simp: fs_inv_def)
  obtain s' m' where "load_or_format (mach t) = (Inr s', m')" "img True v q s'"
    using remount_spec [OF t(2,3) p(1) assms(2) p(2)] by metis
  then show ?thesis using t(1) v(2,3) coolfsI by blast
qed

lemma formatted_coolfs:
  "img True v q s \<Longrightarrow> formatted q v \<Longrightarrow>
    coolfs q [root_inode q \<mapsto> empty_file KIND_DIR ROOT_UID ROOT_GID DEFAULT_DIR_MODE] s"
  by (auto simp: formatted_def intro: coolfsI)


text \<open>The root directory of a new image, and a concrete image: a blank disk, formatted.\<close>

abbreviation root_dir :: fs_file where
  "root_dir \<equiv> empty_file KIND_DIR ROOT_UID ROOT_GID DEFAULT_DIR_MODE"

definition fresh_image :: image_state where
  "fresh_image = projr (fst (format_image (mach blank_cache)))"

lemma blank_machine: "media_wf (mach blank_cache)" "healthy (mach blank_cache)"
  using blank_cache_holds by (simp_all add: holds_def cache_inv_def)

lemma fresh_image_coolfs: "coolfs superblock_new [0 \<mapsto> root_dir] fresh_image"
proof -
  obtain s v where s: "format_image (mach blank_cache) = (Inr s, mach s)" "img True v superblock_new s"
    "formatted superblock_new v" using format_image_spec [OF blank_machine] by metis
  then show ?thesis
    using formatted_coolfs [OF s(2,3)] by (simp add: fresh_image_def superblock_new_def ROOT_INODE_def)
qed

theorem flush_then_remount_witness:
  "coolfs superblock_new [0 \<mapsto> root_dir] fresh_image \<and>
   (\<exists>t s' m'. image_flush fresh_image = (Inr (), t) \<and> load_or_format (mach t) = (Inr s', m') \<and>
      coolfs superblock_new [0 \<mapsto> root_dir] s')"
  using flush_then_remount [OF fresh_image_coolfs] fresh_image_coolfs by (simp add: superblock_new_def TOTAL_BLOCKS_def)

lemma blank_block0: "superblock_parse (disk_block (mach blank_cache) 0) = None"
proof -
  have "disk_block (mach blank_cache) 0 ! 0 = 0"
    by (simp add: disk_block_def block_of_def root_content_def blank_cache_def resolved_def SECTORS_PER_BLOCK_def upt_rec nth_append)
  moreover have "length (disk_block (mach blank_cache) 0) = BLOCK_SIZE"
    using root_store.length_block_of blank_machine(1) by (simp add: disk_block_def BLOCK_SIZE_def)
  ultimately have "rslice (disk_block (mach blank_cache) 0) 0 8 ! 0 \<noteq> COOLFS_MAGIC ! 0"
    by (simp add: rslice_def BLOCK_SIZE_def COOLFS_MAGIC_def byte_of_def as_bytes_def)
  then show ?thesis by (auto simp: superblock_parse_def)
qed


section \<open>Reading back\<close>

lemma read_inode_live:
  assumes inv: "fs_inv q v"
  shows "valid (img True v q) (read_inode idx)
    (\<lambda>i s. img True v q s \<and> (if kind i = KIND_FREE then ino q v idx = None else ino q v idx = Some i))
    (\<lambda>_ s. img True v q s \<and> ino q v idx = None)"
proof (cases "inode_loc q idx")
  case None
  then show ?thesis using read_inode_None [OF None] by (auto elim!: valid_weaken simp: ino_def)
next
  case (Some off)
  have l: "layout q" using inv by (simp add: fs_inv_def)
  show ?thesis
    by (rule valid_weaken [OF read_inode_Some [OF layout_fits [OF l] Some]]) (auto simp: ino_def Some)
qed

lemma read_inode_bytes_live:
  assumes inv: "fs_inv q v" and i: "ino q v idx = Some i"
  shows "valid (img True v q) (read_inode_bytes i) (\<lambda>d s. img True v q s \<and> d = file_content v i) E"
  using read_inode_bytes_spec [OF fs_invD(2,1) [OF inv i]] by simp

text \<open>Writing an inode is an update of the file map: the write either succeeds, after which reading the inode returns
  exactly the bytes written and every other file, and the owner, mode and kind of this one, are as before; or it fails
  with \<open>NoSpace\<close> and no file has changed. The invariant of the image is kept in both cases.\<close>

theorem write_then_read_inode:
  assumes "F idx = Some f"
  shows "valid (coolfs q F)
    (bnd (write_inode_bytes idx bytes) (\<lambda>_. bnd (ok_or NotFound (read_inode idx)) read_inode_bytes))
    (\<lambda>d s. d = bytes \<and> coolfs q (F(idx \<mapsto> f\<lparr>fdata := bytes\<rparr>)) s) (\<lambda>e s. e = NoSpace \<and> coolfs q F s)"
proof (rule valid_bnd [OF write_inode_bytes_coolfs [of F idx f, OF assms]], rule valid_coolfs)
  fix w assume inv: "fs_inv q w" and F: "files q w = F(idx \<mapsto> f\<lparr>fdata := bytes\<rparr>)"
  obtain i where i: "ino q w idx = Some i" "file_of w i = f\<lparr>fdata := bytes\<rparr>"
    using fun_cong [OF F, of idx] by (auto simp: files_def)
  have d: "file_content w i = bytes" using arg_cong [OF i(2), of fdata] by (simp add: file_of_def)
  let ?E = "\<lambda>e s. e = NoSpace \<and> coolfs q F s"
  have "valid (img True w q) (ok_or NotFound (read_inode idx)) (\<lambda>x s. img True w q s \<and> x = i) ?E"
    by (rule valid_map_err, rule valid_weaken [OF read_inode_live [OF inv, of idx]]) (auto simp: i split: if_splits)
  then show "valid (img True w q) (bnd (ok_or NotFound (read_inode idx)) read_inode_bytes)
    (\<lambda>d s. d = bytes \<and> coolfs q (F(idx \<mapsto> f\<lparr>fdata := bytes\<rparr>)) s) ?E"
    by (rule valid_bnd_pure, intro valid_weaken [OF read_inode_bytes_live [OF inv i(1)]])
      (use d inv F in \<open>auto intro: coolfsI\<close>)
qed

theorem write_then_read_inode_witness:
  "coolfs superblock_new [0 \<mapsto> root_dir] fresh_image \<and>
   valid (coolfs superblock_new [0 \<mapsto> root_dir])
    (bnd (write_inode_bytes 0 [7, 8]) (\<lambda>_. bnd (ok_or NotFound (read_inode 0)) read_inode_bytes))
    (\<lambda>d s. d = [7, 8] \<and> coolfs superblock_new [0 \<mapsto> root_dir\<lparr>fdata := [7, 8]\<rparr>] s)
    (\<lambda>e s. e = NoSpace \<and> coolfs superblock_new [0 \<mapsto> root_dir] s)"
  using write_then_read_inode [of "[0 \<mapsto> root_dir]" 0 root_dir superblock_new "[7, 8]"] fresh_image_coolfs by simp

text \<open>Allocating an inode returns a number that was free and is not the reserved number 0, makes it an empty file of the
  requested kind, owner and mode, and leaves every other file alone; with no free number it fails with \<open>NoSpace\<close> and
  changes nothing. Freeing the inode again gives back the original files.\<close>

theorem alloc_then_free_inode:
  assumes "k \<noteq> KIND_FREE"
  shows "valid (coolfs q F) (alloc_inode_with_metadata k u g m)
      (\<lambda>idx s. F idx = None \<and> idx \<noteq> 0 \<and> coolfs q (F(idx \<mapsto> empty_file k u g m)) s) (\<lambda>e s. e = NoSpace \<and> coolfs q F s) \<and>
    valid (coolfs q F) (bnd (alloc_inode_with_metadata k u g m) free_inode) (\<lambda>_. coolfs q F) (\<lambda>e s. e = NoSpace \<and> coolfs q F s)"
proof (rule conjI [OF alloc_inode_coolfs [OF assms]], rule valid_bnd [OF alloc_inode_coolfs [OF assms]])
  fix idx
  show "valid (\<lambda>s. F idx = None \<and> idx \<noteq> 0 \<and> coolfs q (F(idx \<mapsto> empty_file k u g m)) s) (free_inode idx)
    (\<lambda>_. coolfs q F) (\<lambda>e s. e = NoSpace \<and> coolfs q F s)"
  proof (rule valid_pre [where P' = "\<lambda>s. coolfs q (F(idx \<mapsto> empty_file k u g m)) s \<and> F idx = None"], rule valid_assume)
    assume "F idx = None"
    then have "(F(idx \<mapsto> empty_file k u g m))(idx := None) = F" by (simp add: fun_upd_idem)
    then show "valid (coolfs q (F(idx \<mapsto> empty_file k u g m))) (free_inode idx) (\<lambda>_. coolfs q F) (\<lambda>e s. e = NoSpace \<and> coolfs q F s)"
      using free_inode_coolfs [of "F(idx \<mapsto> empty_file k u g m)" idx "empty_file k u g m" q] by simp
  qed auto
qed

theorem alloc_then_free_inode_witness:
  "coolfs superblock_new [0 \<mapsto> root_dir] fresh_image \<and>
   valid (coolfs superblock_new [0 \<mapsto> root_dir]) (bnd (alloc_inode_with_metadata KIND_FILE 5 6 420) free_inode)
     (\<lambda>_. coolfs superblock_new [0 \<mapsto> root_dir]) (\<lambda>e s. e = NoSpace \<and> coolfs superblock_new [0 \<mapsto> root_dir] s)"
  using alloc_then_free_inode [of KIND_FILE superblock_new "[0 \<mapsto> root_dir]" 5 6 420] fresh_image_coolfs
  by (simp add: KIND_FILE_def KIND_FREE_def)

end
