(* ===== verification/Change_Log.thy ===== *)
theory Change_Log
  imports Cool_Base "HOL-Library.Sublist" "HOL-Library.Product_Lexorder" "HOL-Library.List_Lexorder" "HOL-Library.Char_ord"
begin

text \<open>
  What the kernel remembers about changes of the file system, all in memory and bounded: the profiler events of
  \<open>src/src/profiler.rs\<close>, the queue of deferred work of \<open>src/src/deferred.rs\<close>, the journal of
  \<open>src/src/fs_hardening.rs\<close>, the dirty paths and the entries of \<open>src/src/search_index.rs\<close>, and the pending items
  of \<open>src/src/writeback.rs\<close>. Also \<open>normalize_path\<close> of \<open>src/src/vfs.rs\<close>, which gives every path its canonical form.
\<close>

section \<open>Canonical paths\<close>

definition push_part :: "string list \<Rightarrow> string \<Rightarrow> string list" where
  "push_part parts part =
     (if part = '''' \<or> part = ''.'' then parts
      else if part = ''..'' then butlast parts
      else parts @ [part])"

definition path_parts :: "string \<Rightarrow> string list" where
  "path_parts path = foldl push_part [] (split_on CHR ''/'' path)"

definition join_parts :: "string list \<Rightarrow> string" where
  "join_parts parts = concat (map (\<lambda>part. CHR ''/'' # part) parts)"

definition normalize_path :: "string \<Rightarrow> string" where
  "normalize_path path = (let parts = path_parts path in if parts = [] then ''/'' else join_parts parts)"

text \<open>A part that a canonical path may have.\<close>

definition plain_part :: "string \<Rightarrow> bool" where
  "plain_part p \<longleftrightarrow> p \<noteq> '''' \<and> p \<noteq> ''.'' \<and> p \<noteq> ''..'' \<and> CHR ''/'' \<notin> set p"

lemma push_part_plain:
  "CHR ''/'' \<notin> set p \<Longrightarrow> list_all plain_part parts \<Longrightarrow> list_all plain_part (push_part parts p)"
  by (auto simp: push_part_def plain_part_def list_all_iff dest: in_set_butlastD)

lemma foldl_push_part_plain:
  "(\<And>p. p \<in> set ps \<Longrightarrow> CHR ''/'' \<notin> set p) \<Longrightarrow> list_all plain_part parts \<Longrightarrow>
    list_all plain_part (foldl push_part parts ps)"
  by (induction ps arbitrary: parts) (simp_all add: push_part_plain)

lemma path_parts_plain: "list_all plain_part (path_parts path)"
  unfolding path_parts_def by (rule foldl_push_part_plain) (use split_on_no_sep in auto)

lemma foldl_push_plain: "list_all plain_part ps \<Longrightarrow> foldl push_part parts ps = parts @ ps"
  by (induction ps arbitrary: parts) (simp_all add: push_part_def plain_part_def)

lemma split_join_parts: "list_all plain_part parts \<Longrightarrow> split_on CHR ''/'' (join_parts parts) = [] # parts"
proof (induction parts)
  case (Cons p parts)
  then have p: "CHR ''/'' \<notin> set p" by (simp add: plain_part_def)
  show ?case
  proof (cases parts)
    case Nil
    then show ?thesis using p by (simp add: join_parts_def split_on_single)
  next
    case (Cons p' parts')
    then have "join_parts (p # parts) = CHR ''/'' # p @ CHR ''/'' # tl (join_parts parts)" by (simp add: join_parts_def)
    moreover have "split_on CHR ''/'' (tl (join_parts parts)) = parts"
      using Cons.IH Cons.prems Cons by (simp add: join_parts_def)
    ultimately show ?thesis using split_on_append_sep [OF p] by simp
  qed
qed (simp add: join_parts_def)

lemma path_parts_join: "list_all plain_part parts \<Longrightarrow> path_parts (join_parts parts) = parts"
  by (simp add: path_parts_def split_join_parts foldl_push_plain push_part_def)

lemma path_parts_normalize: "path_parts (normalize_path p) = path_parts p"
  by (auto simp: normalize_path_def Let_def path_parts_join path_parts_plain) (simp add: path_parts_def push_part_def)

section \<open>The state\<close>

record profile_event =
  pe_tick :: u64
  pe_kind :: string
  pe_name :: string
  pe_detail :: string
  pe_duration :: u64

datatype deferred_work =
  FlushKernelLog | FlushFilesystemJournal | FlushWriteback | PersistTaskSnapshot | RefreshSearchIndex | UpdateSearchIndex

record search_entry =
  se_path :: string
  se_name :: string
  se_kind :: string
  se_snippet :: string

record writeback_item =
  wi_kind :: string
  wi_path :: string
  wi_tick :: u64

record writeback_state =
  pending :: "writeback_item list"
  queued :: u64
  completed :: u64
  barriers :: u64
  failures :: u64
  last_error :: "string option"

record change_log =
  ticks :: u64
  heap_ready :: bool
  settings_loaded :: bool
  storage_writeback_enabled :: bool
  prof_events :: "profile_event list"
  work_queue :: "deferred_work list"
  journal :: "string list"
  journal_dirty :: bool
  dirty_paths :: "string list"
  search_entries :: "search_entry list"
  writeback :: writeback_state

definition MAX_EVENTS :: nat where "MAX_EVENTS = 160"
definition MAX_QUEUE :: nat where "MAX_QUEUE = 32"
definition MAX_JOURNAL :: nat where "MAX_JOURNAL = 80"
definition MAX_PENDING :: nat where "MAX_PENDING = 24"
definition MAX_DIRTY_PATHS :: nat where "MAX_DIRTY_PATHS = 64"
definition JOURNAL_PATH :: string where "JOURNAL_PATH = ''/LOGS/FSJOURNAL.TXT''"

section \<open>Profiler and deferred work\<close>

definition record_with_duration :: "string \<Rightarrow> string \<Rightarrow> string \<Rightarrow> u64 \<Rightarrow> change_log \<Rightarrow> change_log" where
  "record_with_duration k n d dur s =
     (if \<not> heap_ready s then s else
      let events = prof_events s @ [\<lparr>pe_tick = ticks s, pe_kind = k, pe_name = n, pe_detail = d, pe_duration = dur\<rparr>] in
      s\<lparr>prof_events := (if length events > MAX_EVENTS then tl events else events)\<rparr>)"

definition profiler_record :: "string \<Rightarrow> string \<Rightarrow> string \<Rightarrow> change_log \<Rightarrow> change_log" where
  "profiler_record k n d = record_with_duration k n d 0"

primrec work_label :: "deferred_work \<Rightarrow> string" where
  "work_label FlushKernelLog = ''flush-kernel-log''"
| "work_label FlushFilesystemJournal = ''flush-fs-journal''"
| "work_label FlushWriteback = ''flush-writeback''"
| "work_label PersistTaskSnapshot = ''persist-task-table''"
| "work_label RefreshSearchIndex = ''refresh-search-index''"
| "work_label UpdateSearchIndex = ''update-search-index''"

definition deferred_enqueue :: "deferred_work \<Rightarrow> change_log \<Rightarrow> change_log" where
  "deferred_enqueue work s =
     (if \<not> heap_ready s then s
      else if work \<in> set (work_queue s) then s
      else
        let queue = (if length (work_queue s) \<ge> MAX_QUEUE then tl (work_queue s) else work_queue s) in
        profiler_record ''deferred'' (work_label work) ''queued'' (s\<lparr>work_queue := queue @ [work]\<rparr>))"

definition pop_work :: "change_log \<Rightarrow> deferred_work option \<times> change_log" where
  "pop_work s = (case work_queue s of [] \<Rightarrow> (None, s) | work # queue \<Rightarrow> (Some work, s\<lparr>work_queue := queue\<rparr>))"

section \<open>Journal, dirty paths and write-back\<close>

definition journal_operation :: "string \<Rightarrow> string \<Rightarrow> change_log \<Rightarrow> change_log" where
  "journal_operation op path s =
     (if eq_ignore_ascii_case path JOURNAL_PATH \<or> eq_ignore_ascii_case path ''/LOGS'' then s else
      let line = dec_string (unat (ticks s)) @ ''  '' @ op @ ''  '' @ path;
          journal' = journal s @ [line] in
      deferred_enqueue FlushFilesystemJournal
        (s\<lparr>journal_dirty := True, journal := (if length journal' > MAX_JOURNAL then tl journal' else journal')\<rparr>))"

definition record_change :: "string \<Rightarrow> change_log \<Rightarrow> change_log" where
  "record_change path s =
     (if \<not> heap_ready s then s else
      let path = normalize_path path;
          dirty = dirty_paths s in
      deferred_enqueue UpdateSearchIndex
        (if list_ex (\<lambda>entry. eq_ignore_ascii_case entry path) dirty then s
         else s\<lparr>dirty_paths := (if length dirty \<ge> MAX_DIRTY_PATHS then tl dirty else dirty) @ [path]\<rparr>))"

definition writeback_enqueue :: "string \<Rightarrow> string \<Rightarrow> change_log \<Rightarrow> change_log" where
  "writeback_enqueue k path s =
     (if \<not> heap_ready s then s
      else if settings_loaded s \<and> \<not> storage_writeback_enabled s then s
      else
        let w = writeback s;
            items = (if length (pending w) \<ge> MAX_PENDING then tl (pending w) else pending w) in
        deferred_enqueue FlushWriteback
          (s\<lparr>writeback := w\<lparr>pending := items @ [\<lparr>wi_kind = k, wi_path = path, wi_tick = ticks s\<rparr>],
             queued := saturating_add (queued w) 1\<rparr>\<rparr>))"

definition record_failure :: "string \<Rightarrow> change_log \<Rightarrow> change_log" where
  "record_failure msg s =
     s\<lparr>writeback := (writeback s)\<lparr>failures := saturating_add (failures (writeback s)) 1, last_error := Some msg\<rparr>\<rparr>"

section \<open>The search index\<close>

definition contains_ignore_ascii :: "string \<Rightarrow> string \<Rightarrow> bool" where
  "contains_ignore_ascii haystack needle =
     (if needle = '''' then True
      else if length needle > length haystack then False
      else list_ex (\<lambda>start. list_all (\<lambda>i. to_ascii_lower (haystack ! (start + i)) = to_ascii_lower (needle ! i)) [0..<length needle])
        [0..<length haystack - length needle + 1])"

text \<open>The first position from \<open>pos\<close> on with a character equal to \<open>nb\<close> up to case.\<close>

definition find_from :: "string \<Rightarrow> nat \<Rightarrow> char \<Rightarrow> nat option" where
  "find_from hay pos nb = find (\<lambda>idx. to_ascii_lower (hay ! idx) = to_ascii_lower nb) [pos..<length hay]"

primrec fuzzy_loop :: "string \<Rightarrow> string \<Rightarrow> nat \<Rightarrow> nat \<Rightarrow> nat option" where
  "fuzzy_loop hay [] pos score = Some score"
| "fuzzy_loop hay (nb # needle) pos score =
     (case find_from hay pos nb of
        None \<Rightarrow> None
      | Some idx \<Rightarrow> fuzzy_loop hay needle (idx + 1) (score + (if idx = pos then 8 else 3)))"

definition fuzzy_score :: "string \<Rightarrow> string \<Rightarrow> nat option" where
  "fuzzy_score haystack needle =
     (if needle = '''' then Some 1
      else case fuzzy_loop haystack needle 0 0 of
        None \<Rightarrow> None
      | Some score \<Rightarrow> Some (if contains_ignore_ascii haystack needle then score + 20 else score))"

definition unwrap_score :: "nat option \<Rightarrow> nat" where
  "unwrap_score r = (case r of None \<Rightarrow> 0 | Some n \<Rightarrow> n)"

definition score_entry :: "search_entry \<Rightarrow> string \<Rightarrow> nat option" where
  "score_entry entry query =
     (let s0 = unwrap_score (fuzzy_score (se_name entry) query);
          s1 = max s0 (unwrap_score (fuzzy_score (se_path entry) query) - 2);
          s2 = max s1 (unwrap_score (fuzzy_score (se_snippet entry) query) - 4)
      in if s2 = 0 then None else Some s2)"

text \<open>\<open>search\<close> after it has trimmed the query. \<open>sort_by\<close> is stable: best score first, then by path.\<close>

definition scored :: "string \<Rightarrow> search_entry list \<Rightarrow> (nat \<times> search_entry) list" where
  "scored query index = List.map_filter (\<lambda>entry. map_option (\<lambda>score. (score, entry)) (score_entry entry query)) index"

definition search_trimmed :: "string \<Rightarrow> nat \<Rightarrow> change_log \<Rightarrow> search_entry list" where
  "search_trimmed query limit s =
     (if query = '''' then [] else
      map snd (take limit (sort_key (\<lambda>(score, entry). (- int score, se_path entry)) (scored query (search_entries s)))))"

definition starts_with_ignore_ascii :: "string \<Rightarrow> string \<Rightarrow> bool" where
  "starts_with_ignore_ascii value pre \<longleftrightarrow>
     length value \<ge> length pre \<and> eq_ignore_ascii_case (take (length pre) value) pre"

definition ends_with_slash :: "string \<Rightarrow> bool" where
  "ends_with_slash p \<longleftrightarrow> p \<noteq> '''' \<and> last p = CHR ''/''"

definition remove_path_prefix :: "search_entry list \<Rightarrow> string \<Rightarrow> search_entry list" where
  "remove_path_prefix index path =
     (let pre = (if ends_with_slash path then path else path @ ''/'') in
      filter (\<lambda>entry. \<not> eq_ignore_ascii_case (se_path entry) path \<and> \<not> starts_with_ignore_ascii (se_path entry) pre) index)"

definition search_file_name :: "string \<Rightarrow> string" where
  "search_file_name path = last (split_on CHR ''/'' path)"

definition search_join_path :: "string \<Rightarrow> string \<Rightarrow> string" where
  "search_join_path parent name = (if parent = ''/'' then ''/'' @ name else parent @ ''/'' @ name)"

definition to_ascii_upper :: "char \<Rightarrow> char" where
  "to_ascii_upper c = (let n = of_char c :: nat in if 97 \<le> n \<and> n \<le> 122 then char_of (n - 32) else c)"

definition is_skipped_dir :: "string \<Rightarrow> bool" where
  "is_skipped_dir path = (let upper = map to_ascii_upper path in upper = ''/DEV'' \<or> upper = ''/LOGS'')"

section \<open>Matching\<close>

abbreviation lower :: "string \<Rightarrow> string" where
  "lower \<equiv> map to_ascii_lower"

lemma contains_at:
  assumes "start + length needle \<le> length haystack"
  shows "(\<forall>i < length needle. to_ascii_lower (haystack ! (start + i)) = to_ascii_lower (needle ! i)) \<longleftrightarrow>
    take (length needle) (drop start (lower haystack)) = lower needle"
  using assms by (auto simp: list_eq_iff_nth_eq)

lemma sublist_iff_at:
  "sublist ys xs \<longleftrightarrow> (\<exists>k. k + length ys \<le> length xs \<and> take (length ys) (drop k xs) = ys)"
proof
  assume "\<exists>k. k + length ys \<le> length xs \<and> take (length ys) (drop k xs) = ys"
  then show "sublist ys xs" by (metis sublist_drop sublist_take sublist_order.order_trans)
next
  assume "sublist ys xs"
  then obtain ps ss where "xs = ps @ ys @ ss" by (auto simp: sublist_def)
  then show "\<exists>k. k + length ys \<le> length xs \<and> take (length ys) (drop k xs) = ys"
    by (intro exI [of _ "length ps"]) simp
qed

lemma contains_iff: "contains_ignore_ascii haystack needle \<longleftrightarrow> sublist (lower needle) (lower haystack)"
proof (cases "needle = '''' \<or> length needle > length haystack")
  case True
  then show ?thesis using sublist_length_le [of "lower needle" "lower haystack"] by (auto simp: contains_ignore_ascii_def)
next
  case False
  let ?at = "\<lambda>start. \<forall>i < length needle. to_ascii_lower (haystack ! (start + i)) = to_ascii_lower (needle ! i)"
  have "contains_ignore_ascii haystack needle \<longleftrightarrow> (\<exists>start. start + length needle \<le> length haystack \<and> ?at start)"
  proof -
    have "contains_ignore_ascii haystack needle \<longleftrightarrow> (\<exists>start \<in> set [0..<length haystack - length needle + 1]. ?at start)"
      using False by (simp add: contains_ignore_ascii_def list_ex_iff list_all_iff Ball_def del: upt_Suc)
    also have "\<dots> \<longleftrightarrow> (\<exists>start. start + length needle \<le> length haystack \<and> ?at start)"
      using False by (simp only: set_upt atLeastLessThan_iff Bex_def) (simp add: less_diff_conv2 less_Suc_eq_le le_diff_conv2)
    finally show ?thesis .
  qed
  also have "\<dots> \<longleftrightarrow> (\<exists>start. start + length needle \<le> length haystack \<and>
      take (length needle) (drop start (lower haystack)) = lower needle)"
    using contains_at by blast
  finally show ?thesis by (simp add: sublist_iff_at)
qed

lemma find_from_None: "find_from hay pos nb = None \<longleftrightarrow> to_ascii_lower nb \<notin> set (lower (drop pos hay))"
proof -
  have "set (drop pos hay) = (!) hay ` set [pos..<length hay]"
    by (metis drop_map map_nth drop_upt list.set_map add.left_neutral)
  then have "set (lower (drop pos hay)) = (\<lambda>i. to_ascii_lower (hay ! i)) ` {pos..<length hay}"
    by (simp add: image_image)
  then show ?thesis by (force simp: find_from_def find_None_iff image_iff)
qed

lemma find_from_Some:
  assumes "find_from hay pos nb = Some idx"
  shows "pos \<le> idx" "idx < length hay" "lower (drop pos hay) = lower (take (idx - pos) (drop pos hay)) @ to_ascii_lower nb # lower (drop (idx + 1) hay)"
    "to_ascii_lower nb \<notin> set (lower (take (idx - pos) (drop pos hay)))"
proof -
  obtain i where i: "i < length hay - pos" "idx = pos + i" "to_ascii_lower (hay ! (pos + i)) = to_ascii_lower nb"
    "\<forall>j < i. to_ascii_lower (hay ! (pos + j)) \<noteq> to_ascii_lower nb"
    using assms by (auto simp: find_from_def find_Some_iff)
  show "pos \<le> idx" "idx < length hay" using i by auto
  have "drop pos hay = take i (drop pos hay) @ hay ! (pos + i) # drop (pos + i + 1) hay"
    using i(1) id_take_nth_drop [of i "drop pos hay"] by (simp add: add.commute)
  then show "lower (drop pos hay) = lower (take (idx - pos) (drop pos hay)) @ to_ascii_lower nb # lower (drop (idx + 1) hay)"
    using i by (metis (no_types, lifting) add_diff_cancel_left' list.simps(9) map_append)
  show "to_ascii_lower nb \<notin> set (lower (take (idx - pos) (drop pos hay)))"
  proof
    assume "to_ascii_lower nb \<in> set (lower (take (idx - pos) (drop pos hay)))"
    then obtain j where j: "j < length (take i (drop pos hay))" "to_ascii_lower (take i (drop pos hay) ! j) = to_ascii_lower nb"
      using i(2) by (auto simp: in_set_conv_nth)
    then have "j < i" "to_ascii_lower (hay ! (pos + j)) = to_ascii_lower nb" using i(1) by (auto simp: nth_append)
    with i(4) show False by blast
  qed
qed

text \<open>Taking the first match is enough: skipping a prefix without the next character loses no embedding.\<close>

lemma subseq_skip: "x \<notin> set xs \<Longrightarrow> subseq (x # ys) (xs @ zs) \<longleftrightarrow> subseq (x # ys) zs"
  by (induction xs) auto

lemma subseq_absent: "x \<notin> set xs \<Longrightarrow> \<not> subseq (x # ys) xs"
  using subseq_skip [of x xs ys "[]"] by simp

lemma fuzzy_loop_iff: "fuzzy_loop hay needle pos score \<noteq> None \<longleftrightarrow> subseq (lower needle) (lower (drop pos hay))"
proof (induction needle arbitrary: pos score)
  case (Cons nb needle)
  show ?case
  proof (cases "find_from hay pos nb")
    case None
    then have "to_ascii_lower nb \<notin> set (lower (drop pos hay))" unfolding find_from_None .
    then have "\<not> subseq (lower (nb # needle)) (lower (drop pos hay))" by (simp add: subseq_absent)
    then show ?thesis using None by simp
  next
    case (Some idx)
    note f = find_from_Some [OF Some]
    have "subseq (lower (nb # needle)) (lower (drop pos hay)) \<longleftrightarrow> subseq (lower needle) (lower (drop (idx + 1) hay))"
      unfolding f(3) using subseq_skip [OF f(4)] by simp
    then show ?thesis using Some Cons.IH by simp
  qed
qed simp

lemma fuzzy_loop_ge: "fuzzy_loop hay needle pos score = Some n \<Longrightarrow> score + 3 * length needle \<le> n \<and> n \<le> score + 8 * length needle"
proof (induction needle arbitrary: pos score)
  case (Cons nb needle)
  then show ?case by (fastforce split: option.splits if_splits)
qed simp

section \<open>The invariant of the log\<close>

text \<open>All queues keep their bound, no work is queued twice, and the dirty paths are canonical and different even when
  case is ignored.\<close>

lemma in_tlD: "x \<in> set (tl xs) \<Longrightarrow> x \<in> set xs"
  by (cases xs) simp_all

definition distinct_paths :: "string list \<Rightarrow> bool" where
  "distinct_paths ps \<longleftrightarrow> sorted_wrt (\<lambda>p q. \<not> eq_ignore_ascii_case p q) ps"

definition log_inv :: "change_log \<Rightarrow> bool" where
  "log_inv s \<longleftrightarrow>
     length (prof_events s) \<le> MAX_EVENTS \<and>
     distinct (work_queue s) \<and> length (work_queue s) \<le> MAX_QUEUE \<and>
     length (journal s) \<le> MAX_JOURNAL \<and>
     length (dirty_paths s) \<le> MAX_DIRTY_PATHS \<and> distinct_paths (dirty_paths s) \<and>
     list_all (\<lambda>p. normalize_path p = p) (dirty_paths s) \<and>
     length (pending (writeback s)) \<le> MAX_PENDING"

lemma normalize_idem: "normalize_path (normalize_path p) = normalize_path p"
proof -
  have "normalize_path (normalize_path p) = (if path_parts p = [] then ''/'' else join_parts (path_parts p))"
    unfolding normalize_path_def [of "normalize_path p"] path_parts_normalize by simp
  then show ?thesis by (simp add: normalize_path_def Let_def)
qed

lemma record_with_duration_inv: "log_inv s \<Longrightarrow> log_inv (record_with_duration k n d dur s)"
  by (auto simp: record_with_duration_def log_inv_def Let_def MAX_EVENTS_def)

lemma deferred_enqueue_inv: "log_inv s \<Longrightarrow> log_inv (deferred_enqueue work s)"
  unfolding deferred_enqueue_def profiler_record_def Let_def
  by (auto intro!: record_with_duration_inv)
    (auto simp: log_inv_def MAX_QUEUE_def distinct_tl dest: in_tlD)

lemma pop_work_inv: "log_inv s \<Longrightarrow> log_inv (snd (pop_work s))"
  by (auto simp: pop_work_def log_inv_def split: list.splits)

lemma journal_operation_inv: "log_inv s \<Longrightarrow> log_inv (journal_operation op path s)"
  unfolding journal_operation_def Let_def
  by (auto intro!: deferred_enqueue_inv) (auto simp: log_inv_def MAX_JOURNAL_def)

lemma distinct_paths_snoc:
  "distinct_paths ps \<Longrightarrow> \<not> list_ex (\<lambda>p. eq_ignore_ascii_case p q) ps \<Longrightarrow> distinct_paths (ps @ [q])"
  by (auto simp: distinct_paths_def sorted_wrt_append list_ex_iff)

lemma distinct_paths_tl: "distinct_paths ps \<Longrightarrow> distinct_paths (tl ps)"
  by (cases ps) (auto simp: distinct_paths_def)

lemma record_change_inv: "log_inv s \<Longrightarrow> log_inv (record_change path s)"
proof -
  assume inv: "log_inv s"
  let ?p = "normalize_path path" and ?d = "dirty_paths s"
  let ?d' = "(if length ?d \<ge> MAX_DIRTY_PATHS then tl ?d else ?d)"
  have "log_inv (s\<lparr>dirty_paths := ?d' @ [?p]\<rparr>)" if "\<not> list_ex (\<lambda>entry. eq_ignore_ascii_case entry ?p) ?d"
  proof -
    have "\<not> list_ex (\<lambda>entry. eq_ignore_ascii_case entry ?p) ?d'" using that by (auto simp: list_ex_iff dest: in_tlD)
    moreover have "distinct_paths ?d'" using inv distinct_paths_tl by (simp add: log_inv_def)
    ultimately have "distinct_paths (?d' @ [?p])" by (rule distinct_paths_snoc [rotated])
    moreover have "list_all (\<lambda>p. normalize_path p = p) (?d' @ [?p])"
      using inv by (auto simp: log_inv_def list_all_iff normalize_idem dest: in_tlD)
    moreover have "length (?d' @ [?p]) \<le> MAX_DIRTY_PATHS" using inv by (auto simp: log_inv_def MAX_DIRTY_PATHS_def)
    ultimately show ?thesis using inv by (simp add: log_inv_def)
  qed
  with inv show ?thesis unfolding record_change_def Let_def by (auto intro!: deferred_enqueue_inv)
qed

lemma writeback_enqueue_inv: "log_inv s \<Longrightarrow> log_inv (writeback_enqueue k path s)"
  unfolding writeback_enqueue_def Let_def
  by (auto intro!: deferred_enqueue_inv) (auto simp: log_inv_def MAX_PENDING_def)

lemmas log_inv_intros = record_with_duration_inv deferred_enqueue_inv pop_work_inv journal_operation_inv record_change_inv
  writeback_enqueue_inv

section \<open>What an operation leaves alone\<close>

lemma deferred_enqueue_frame [simp]:
  "journal (deferred_enqueue w s) = journal s" "dirty_paths (deferred_enqueue w s) = dirty_paths s"
  "writeback (deferred_enqueue w s) = writeback s" "heap_ready (deferred_enqueue w s) = heap_ready s"
  "ticks (deferred_enqueue w s) = ticks s" "journal_dirty (deferred_enqueue w s) = journal_dirty s"
  "settings_loaded (deferred_enqueue w s) = settings_loaded s"
  "storage_writeback_enabled (deferred_enqueue w s) = storage_writeback_enabled s"
  "search_entries (deferred_enqueue w s) = search_entries s"
  by (simp_all add: deferred_enqueue_def profiler_record_def record_with_duration_def Let_def)

lemma deferred_enqueue_queue:
  "heap_ready s \<Longrightarrow> log_inv s \<Longrightarrow> set (work_queue (deferred_enqueue w s)) = insert w (set (work_queue s))"
proof -
  assume h: "heap_ready s" and inv: "log_inv s"
  have "card (set (work_queue s)) \<le> card {FlushKernelLog, FlushFilesystemJournal, FlushWriteback, PersistTaskSnapshot,
      RefreshSearchIndex, UpdateSearchIndex}"
    by (rule card_mono) (auto, metis deferred_work.exhaust)
  then have "length (work_queue s) \<le> 6" using inv distinct_card [of "work_queue s"] by (simp add: log_inv_def)
  then show ?thesis using h
    by (auto simp: deferred_enqueue_def profiler_record_def record_with_duration_def Let_def MAX_QUEUE_def)
qed

section \<open>Properties\<close>


text \<open>The fuzzy search accepts exactly the entries that contain the letters of the query in order, ignoring case, and its
  score is between 3 and 8 points per letter, with 20 more exactly when the query occurs in one piece. Taking the first
  match of every letter loses no entry.\<close>

theorem fuzzy_score_correct:
  assumes "needle \<noteq> ''''"
  shows "(fuzzy_score haystack needle \<noteq> None \<longleftrightarrow> subseq (lower needle) (lower haystack)) \<and>
    (fuzzy_score haystack needle = Some score \<longrightarrow>
       (let bonus = (if sublist (lower needle) (lower haystack) then 20 else 0) in
        3 * length needle + bonus \<le> score \<and> score \<le> 8 * length needle + bonus))"
proof
  show "fuzzy_score haystack needle \<noteq> None \<longleftrightarrow> subseq (lower needle) (lower haystack)"
    using assms fuzzy_loop_iff [of haystack needle 0 0] by (auto simp: fuzzy_score_def split: option.splits)
  show "fuzzy_score haystack needle = Some score \<longrightarrow>
       (let bonus = (if sublist (lower needle) (lower haystack) then 20 else 0) in
        3 * length needle + bonus \<le> score \<and> score \<le> 8 * length needle + bonus)"
    using assms fuzzy_loop_ge [of haystack needle 0 0]
    by (auto simp: fuzzy_score_def contains_iff Let_def split: option.splits if_splits)
qed

theorem fuzzy_score_correct_witness:
  "''t'' \<noteq> '''' \<and> fuzzy_score ''Note'' ''T'' = Some 23 \<and> subseq (lower ''T'') (lower ''Note'') \<and> fuzzy_score ''Note'' ''x'' = None"
proof -
  have 1: "fuzzy_score ''Note'' ''T'' = Some 23" "fuzzy_score ''Note'' ''x'' = None" by code_simp+
  have "fuzzy_score ''Note'' ''T'' \<noteq> None \<longleftrightarrow> subseq (lower ''T'') (lower ''Note'')"
    by (rule conjunct1 [OF fuzzy_score_correct]) simp
  then have "subseq (lower ''T'') (lower ''Note'')" unfolding 1(1) by blast
  then show ?thesis using 1 by blast
qed

end
