(* ===== verification/CoolFS_Dirs.thy ===== *)
theory CoolFS_Dirs
  imports CoolFS_Store Change_Log
begin

text \<open>
  Paths and directories of \<open>src/src/coolfs.rs\<close>: splitting and checking paths, the encoding of directory entries,
  looking up a path. A directory is a file whose content is a sequence of 32-byte entries; the operations on it are
  related to pure functions on the map \<open>files\<close>, and the entries written are the entries read back.
\<close>

section \<open>Paths and names\<close>

definition DIR_ENTRY_SIZE :: nat where "DIR_ENTRY_SIZE = 32"
definition MAX_NAME_LEN :: nat where "MAX_NAME_LEN = 27"

fun trim_end :: "string \<Rightarrow> nat \<Rightarrow> nat" where
  "trim_end path 0 = 0"
| "trim_end path (Suc n) = (if n > 0 \<and> path ! n = CHR ''/'' then trim_end path n else Suc n)"

definition trim_abs_path :: "string \<Rightarrow> fs_error + string" where
  "trim_abs_path path =
     (if path = '''' \<or> hd path \<noteq> CHR ''/'' then Inl InvalidPath else Inr (take (trim_end path (length path)) path))"

definition name_byte :: "char \<Rightarrow> bool" where
  "name_byte c \<longleftrightarrow> 0x20 \<le> (of_char c :: nat) \<and> (of_char c :: nat) \<le> 0x7e \<and> c \<noteq> CHR ''/''"

definition validate_name :: "string \<Rightarrow> fs_error + unit" where
  "validate_name name =
     (if name = '''' \<or> name = ''.'' \<or> name = ''..'' \<or> length name > MAX_NAME_LEN then Inl UnsupportedName
      else if \<not> list_all name_byte name then Inl UnsupportedName
      else Inr ())"

text \<open>\<open>path.rfind('/')\<close>.\<close>

definition rfind_slash :: "string \<Rightarrow> nat option" where
  "rfind_slash path = find (\<lambda>i. path ! i = CHR ''/'') (rev [0..<length path])"

definition split_parent_and_name :: "string \<Rightarrow> fs_error + string \<times> string" where
  "split_parent_and_name path =
     (case trim_abs_path path of
        Inl e \<Rightarrow> Inl e
      | Inr path \<Rightarrow>
        if path = ''/'' then Inl InvalidPath else
        (case rfind_slash path of
           None \<Rightarrow> Inl InvalidPath
         | Some slash \<Rightarrow>
           let parent = (if slash = 0 then ''/'' else take slash path);
               name = drop (slash + 1) path in
           (case validate_name name of Inl e \<Rightarrow> Inl e | Inr _ \<Rightarrow> Inr (parent, name))))"

definition names_equal :: "string \<Rightarrow> string \<Rightarrow> bool" where
  "names_equal left right = eq_ignore_ascii_case left right"

section \<open>Directory entries\<close>

record dir_entry =
  de_inode :: u32
  de_name :: string

function parse_dir_entries :: "bytes \<Rightarrow> fs_error + dir_entry list" where
  "parse_dir_entries bytes =
     (if length bytes < DIR_ENTRY_SIZE then Inr [] else
      let chunk = take DIR_ENTRY_SIZE bytes; rest = drop DIR_ENTRY_SIZE bytes in
      (case cfs_read_u32 chunk 0 of
         None \<Rightarrow> Inl Io
       | Some idx \<Rightarrow>
         let name_len = unat (chunk ! 4) in
         if idx = 0 \<or> name_len = 0 \<or> name_len > MAX_NAME_LEN then parse_dir_entries rest
         else (case from_utf8 (rslice chunk 5 (5 + name_len)) of
             None \<Rightarrow> Inl Io
           | Some name \<Rightarrow> map_sum id (\<lambda>es. \<lparr>de_inode = idx, de_name = name\<rparr> # es) (parse_dir_entries rest))))"
  by pat_completeness auto
termination by (relation "measure length") (auto simp: DIR_ENTRY_SIZE_def)

declare parse_dir_entries.simps [simp del]

definition entry_raw :: "dir_entry \<Rightarrow> bytes" where
  "entry_raw entry =
     (let raw0 = cfs_write_u32 (replicate DIR_ENTRY_SIZE 0) 0 (de_inode entry);
          raw1 = raw0[4 := word_of_nat (length (de_name entry))]
      in patch raw1 5 (as_bytes (de_name entry)))"

primrec encode_entries :: "dir_entry list \<Rightarrow> fs_error + bytes" where
  "encode_entries [] = Inr []"
| "encode_entries (entry # ents) =
     (case validate_name (de_name entry) of
        Inl e \<Rightarrow> Inl e
      | Inr _ \<Rightarrow> map_sum id (\<lambda>bytes. entry_raw entry @ bytes) (encode_entries ents))"

definition read_dir_entries :: "u32 \<Rightarrow> (image_state, fs_error, dir_entry list) sm" where
  "read_dir_entries inode_idx =
     bnd (ok_or NotFound (read_inode inode_idx)) (\<lambda>i.
     if \<not> is_dir i then err NotDirectory else
     bnd (read_inode_bytes i) (\<lambda>bytes.
     lift_res (parse_dir_entries bytes)))"

definition write_dir_entries :: "u32 \<Rightarrow> dir_entry list \<Rightarrow> (image_state, fs_error, unit) sm" where
  "write_dir_entries inode_idx ents =
     bnd (lift_res (encode_entries ents)) (\<lambda>bytes. write_inode_bytes inode_idx bytes)"

section \<open>Resolving a path\<close>

definition path_components :: "string \<Rightarrow> string list" where
  "path_components path = filter (\<lambda>c. c \<noteq> '''') (split_on CHR ''/'' path)"

definition find_entry :: "dir_entry list \<Rightarrow> string \<Rightarrow> dir_entry option" where
  "find_entry ents name = find (\<lambda>entry. names_equal (de_name entry) name) ents"

primrec resolve_loop :: "string list \<Rightarrow> u32 \<Rightarrow> (image_state, fs_error, u32) sm" where
  "resolve_loop [] inode_idx = ret inode_idx"
| "resolve_loop (component # components) inode_idx =
     bnd (ok_or NotFound (read_inode inode_idx)) (\<lambda>i.
     if \<not> is_dir i then err NotDirectory else
     bnd (read_dir_entries inode_idx) (\<lambda>ents.
     bnd (lift_opt NotFound (find_entry ents component)) (\<lambda>entry.
     resolve_loop components (de_inode entry))))"

definition resolve_path :: "string \<Rightarrow> (image_state, fs_error, u32) sm" where
  "resolve_path path =
     bnd (lift_res (trim_abs_path path)) (\<lambda>path.
     bnd (gets sb) (\<lambda>q.
     if path = ''/'' then ret (root_inode q)
     else resolve_loop (path_components path) (root_inode q)))"

section \<open>Reading without changing anything\<close>

text \<open>\<open>reads q v m r\<close>: on an image with the bytes \<open>v\<close>, \<open>m\<close> returns \<open>r\<close> and the bytes stay.\<close>

definition reads :: "superblock \<Rightarrow> (nat \<Rightarrow> u8) \<Rightarrow> (image_state, 'e, 'a) sm \<Rightarrow> 'e + 'a \<Rightarrow> bool" where
  "reads q v m r \<longleftrightarrow> valid (img True v q) m (\<lambda>x s. img True v q s \<and> r = Inr x) (\<lambda>e s. img True v q s \<and> r = Inl e)"

named_theorems reads_intros \<open>rules for \<open>reads\<close>\<close>

lemma readsD:
  assumes "reads q v m r" and "img True v q s"
  obtains t where "m s = (r, t)" "img True v q t"
proof (cases "m s")
  case (Pair r' t)
  have "r' = r \<and> img True v q t"
    using validD [OF assms(1) [unfolded reads_def] assms(2)] validD_err [OF assms(1) [unfolded reads_def] assms(2)] Pair
    by (cases r') auto
  then show thesis using Pair that by blast
qed

lemma reads_ret [reads_intros]: "reads q v (ret x) (Inr x)"
  by (simp add: reads_def valid_ret)

lemma reads_err [reads_intros]: "reads q v (err e) (Inl e)"
  by (simp add: reads_def valid_err)

lemma reads_lift_res [reads_intros]: "reads q v (lift_res r) r"
  by (cases r) (simp_all add: reads_def valid_def lift_res_def)

lemma reads_lift_opt [reads_intros]: "reads q v (lift_opt e r) (case r of None \<Rightarrow> Inl e | Some x \<Rightarrow> Inr x)"
  by (cases r) (simp_all add: lift_opt_def reads_ret reads_err)

definition bind_res :: "'e + 'a \<Rightarrow> ('a \<Rightarrow> 'e + 'b) \<Rightarrow> 'e + 'b" where
  "bind_res r f = (case r of Inl e \<Rightarrow> Inl e | Inr x \<Rightarrow> f x)"

lemma bind_res_simps [simp]: "bind_res (Inl e) f = Inl e" "bind_res (Inr x) f = f x"
  by (simp_all add: bind_res_def)

lemma bind_res_Inr: "bind_res r f = Inr y \<longleftrightarrow> (\<exists>x. r = Inr x \<and> f x = Inr y)"
  by (cases r) simp_all

lemma reads_bnd [reads_intros]:
  assumes "reads q v m r" and "\<And>x. r = Inr x \<Longrightarrow> reads q v (f x) (g x)"
  shows "reads q v (bnd m f) (bind_res r g)"
  unfolding reads_def
proof (rule valid_bnd [where R = "\<lambda>x s. img True v q s \<and> r = Inr x"])
  show "valid (img True v q) m (\<lambda>x s. img True v q s \<and> r = Inr x) (\<lambda>e s. img True v q s \<and> bind_res r g = Inl e)"
    using assms(1) unfolding reads_def by (rule valid_weaken) auto
  fix x
  show "valid (\<lambda>s. img True v q s \<and> r = Inr x) (f x) (\<lambda>x s. img True v q s \<and> bind_res r g = Inr x)
    (\<lambda>e s. img True v q s \<and> bind_res r g = Inl e)"
    by (rule valid_assume) (use assms(2) [of x] in \<open>simp add: reads_def\<close>)
qed

lemma reads_if [reads_intros]:
  "(b \<Longrightarrow> reads q v m r) \<Longrightarrow> (\<not> b \<Longrightarrow> reads q v m' r') \<Longrightarrow> reads q v (if b then m else m') (if b then r else r')"
  by simp

lemma reads_gets_sb: "reads q v (f q) r \<Longrightarrow> reads q v (bnd (gets sb) f) r"
  unfolding reads_def by (rule valid_gets_sb)

lemma reads_map_err [reads_intros]: "reads q v m r \<Longrightarrow> reads q v (map_err g m) (map_sum g id r)"
  unfolding reads_def by (rule valid_map_err, rule valid_weaken, assumption) auto

text \<open>The file map decides what a read finds, except that a number beyond the table is told apart from a free inode.\<close>

definition stat_of :: "superblock \<Rightarrow> (nat \<Rightarrow> u8) \<Rightarrow> u32 \<Rightarrow> unit + inode" where
  "stat_of q v idx = (case inode_loc q idx of None \<Rightarrow> Inl () | Some off \<Rightarrow> Inr (inode_at v off))"

lemma reads_inode: "fs_inv q v \<Longrightarrow> reads q v (read_inode idx) (stat_of q v idx)"
proof (cases "inode_loc q idx")
  case None
  then show ?thesis using read_inode_None [OF None] by (simp add: reads_def stat_of_def valid_def split: sum.splits prod.splits)
next
  case (Some off)
  assume "fs_inv q v"
  then have "layout q" by (simp add: fs_inv_def)
  from read_inode_Some [OF layout_fits [OF this] Some] show ?thesis
    unfolding reads_def by (rule valid_weaken) (auto simp: stat_of_def Some)
qed

definition entries_of :: "superblock \<Rightarrow> (u32 \<Rightarrow> fs_file option) \<Rightarrow> u32 \<Rightarrow> fs_error + dir_entry list" where
  "entries_of q F idx =
     (case F idx of
        None \<Rightarrow> Inl (if idx < inode_count q then NotDirectory else NotFound)
      | Some f \<Rightarrow> if fkind f = KIND_DIR then parse_dir_entries (fdata f) else Inl NotDirectory)"

lemma stat_of_live: "ino q v idx = Some i \<Longrightarrow> stat_of q v idx = Inr i"
  by (auto simp: ino_Some stat_of_def)

lemma stat_of_dead:
  assumes "fs_inv q v" and "ino q v idx = None"
  shows "if idx < inode_count q then \<exists>i. stat_of q v idx = Inr i \<and> kind i = KIND_FREE else stat_of q v idx = Inl ()"
proof -
  have "layout q" using assms by (simp add: fs_inv_def)
  then show ?thesis using assms(2) inode_loc_layout(1) [of q idx] inode_loc_bound [of q idx]
    by (cases "inode_loc q idx") (auto simp: stat_of_def ino_def split: if_splits)
qed

lemma kinds_distinct [simp]: "KIND_FREE \<noteq> KIND_DIR" "KIND_DIR \<noteq> KIND_FREE" "KIND_FREE \<noteq> KIND_FILE" "KIND_FILE \<noteq> KIND_FREE"
  "KIND_FILE \<noteq> KIND_DIR" "KIND_DIR \<noteq> KIND_FILE"
  by (simp_all add: KIND_FREE_def KIND_DIR_def KIND_FILE_def)

lemma reads_inode_bytes:
  assumes "fs_inv q v" and "ino q v idx = Some i"
  shows "reads q v (read_inode_bytes i) (Inr (file_content v i))"
  unfolding reads_def by (rule valid_weaken [OF read_inode_bytes_live [OF assms]]) auto

lemma reads_dir_entries:
  assumes inv: "fs_inv q v"
  shows "reads q v (read_dir_entries idx) (entries_of q (files q v) idx)"
proof -
  note rd = reads_map_err [OF reads_inode [OF inv, of idx], of "\<lambda>_. NotFound"]
  show ?thesis
  proof (cases "ino q v idx")
    case (Some i)
    have "reads q v (read_dir_entries idx) (bind_res (map_sum (\<lambda>_. NotFound) id (stat_of q v idx)) (\<lambda>i.
      if \<not> is_dir i then Inl NotDirectory else bind_res (Inr (file_content v i)) parse_dir_entries))"
      unfolding read_dir_entries_def
      by (rule reads_bnd [OF rd], rule reads_if, rule reads_err, rule reads_bnd [OF reads_inode_bytes [OF inv]])
        (use Some stat_of_live [OF Some] in \<open>auto intro: reads_lift_res\<close>)
    then show ?thesis using stat_of_live [OF Some] Some
      by (cases "kind i = KIND_DIR") (simp_all add: entries_of_def files_def file_of_def is_dir_def)
  next
    case None
    note d = stat_of_dead [OF inv None]
    have "reads q v (read_dir_entries idx) (bind_res (map_sum (\<lambda>_. NotFound) id (stat_of q v idx)) (\<lambda>i. Inl NotDirectory))"
      unfolding read_dir_entries_def
    proof (rule reads_bnd [OF rd])
      fix i assume "map_sum (\<lambda>_. NotFound) id (stat_of q v idx) = Inr i"
      then have "\<not> is_dir i" using d by (cases "stat_of q v idx") (auto simp: is_dir_def split: if_splits)
      then show "reads q v (if \<not> is_dir i then err NotDirectory else bnd (read_inode_bytes i) (\<lambda>bytes. lift_res (parse_dir_entries bytes)))
        (Inl NotDirectory)" by (simp add: reads_err)
    qed
    then show ?thesis using d None by (auto simp: entries_of_def files_def split: if_splits)
  qed
qed

section \<open>Looking up a path in the file map\<close>

definition dir_lookup :: "superblock \<Rightarrow> (u32 \<Rightarrow> fs_file option) \<Rightarrow> u32 \<Rightarrow> string \<Rightarrow> fs_error + u32" where
  "dir_lookup q F idx c =
     bind_res (entries_of q F idx) (\<lambda>es. case find_entry es c of None \<Rightarrow> Inl NotFound | Some e \<Rightarrow> Inr (de_inode e))"

primrec walk :: "superblock \<Rightarrow> (u32 \<Rightarrow> fs_file option) \<Rightarrow> string list \<Rightarrow> u32 \<Rightarrow> fs_error + u32" where
  "walk q F [] idx = Inr idx"
| "walk q F (c # cs) idx = bind_res (dir_lookup q F idx c) (walk q F cs)"

definition resolve :: "superblock \<Rightarrow> (u32 \<Rightarrow> fs_file option) \<Rightarrow> string \<Rightarrow> fs_error + u32" where
  "resolve q F path = bind_res (trim_abs_path path) (\<lambda>p. walk q F (path_components p) (root_inode q))"

lemma bind_res_assoc: "bind_res (bind_res r f) g = bind_res r (\<lambda>x. bind_res (f x) g)"
  by (cases r) simp_all

lemma stat_entries:
  assumes inv: "fs_inv q v"
  shows "bind_res (map_sum (\<lambda>_. NotFound) id (stat_of q v idx)) (\<lambda>i.
      if \<not> is_dir i then Inl NotDirectory else bind_res (entries_of q (files q v) idx) g) =
    bind_res (entries_of q (files q v) idx) g"
proof (cases "ino q v idx")
  case (Some i)
  then show ?thesis using stat_of_live [OF Some] by (simp add: entries_of_def files_def file_of_def is_dir_def)
next
  case None
  then show ?thesis using stat_of_dead [OF inv None]
    by (auto simp: entries_of_def files_def is_dir_def split: if_splits)
qed

lemma reads_resolve_loop:
  assumes inv: "fs_inv q v"
  shows "reads q v (resolve_loop cs idx) (walk q (files q v) cs idx)"
proof (induction cs arbitrary: idx)
  case Nil
  then show ?case by (simp add: reads_ret)
next
  case (Cons c cs)
  let ?F = "files q v"
  let ?g = "\<lambda>es. bind_res (case find_entry es c of None \<Rightarrow> Inl NotFound | Some e \<Rightarrow> Inr e) (\<lambda>e. walk q ?F cs (de_inode e))"
  have "reads q v (resolve_loop (c # cs) idx) (bind_res (map_sum (\<lambda>_. NotFound) id (stat_of q v idx)) (\<lambda>i.
      if \<not> is_dir i then Inl NotDirectory else bind_res (entries_of q ?F idx) ?g))"
    unfolding resolve_loop.simps
    by (intro reads_intros reads_inode [OF inv] reads_dir_entries [OF inv] Cons.IH)
  then have 1: "reads q v (resolve_loop (c # cs) idx) (bind_res (entries_of q ?F idx) ?g)"
    unfolding stat_entries [OF inv] .
  have "bind_res (entries_of q ?F idx) ?g = walk q ?F (c # cs) idx"
    by (cases "entries_of q ?F idx") (auto simp: dir_lookup_def split: option.splits)
  with 1 show ?case by simp
qed

lemma path_components_root: "path_components ''/'' = []"
  by (simp add: path_components_def)

lemma reads_resolve_path:
  assumes inv: "fs_inv q v"
  shows "reads q v (resolve_path path) (resolve q (files q v) path)"
  unfolding resolve_path_def resolve_def
proof (rule reads_bnd [OF reads_lift_res], rule reads_gets_sb)
  fix p
  show "reads q v (if p = ''/'' then ret (root_inode q) else resolve_loop (path_components p) (root_inode q))
    (walk q (files q v) (path_components p) (root_inode q))"
    using reads_resolve_loop [OF inv] by (simp add: path_components_root reads_ret)
qed

section \<open>Entries written are read back\<close>

definition entry_ok :: "dir_entry \<Rightarrow> bool" where
  "entry_ok e \<longleftrightarrow> de_inode e \<noteq> 0 \<and> validate_name (de_name e) = Inr ()"

lemma validate_name_ok:
  "validate_name n = Inr () \<longleftrightarrow> n \<noteq> '''' \<and> n \<noteq> ''.'' \<and> n \<noteq> ''..'' \<and> length n \<le> MAX_NAME_LEN \<and> list_all name_byte n"
  by (auto simp: validate_name_def)

lemma validate_name_cases: "validate_name n = Inr () \<or> validate_name n = Inl UnsupportedName"
  by (auto simp: validate_name_def)

lemma encode_entries_Inr:
  "encode_entries es = Inr bs \<longleftrightarrow> list_all (\<lambda>e. validate_name (de_name e) = Inr ()) es \<and> bs = concat (map entry_raw es)"
proof (induction es arbitrary: bs)
  case (Cons e es)
  show ?case
  proof (cases "validate_name (de_name e) = Inr ()")
    case True
    then show ?thesis using Cons.IH by (cases "encode_entries es") auto
  next
    case False
    then have "validate_name (de_name e) = Inl UnsupportedName" using validate_name_cases by blast
    then show ?thesis by simp
  qed
qed auto

lemma encode_entries_Inl: "encode_entries es = Inl e \<Longrightarrow> e = UnsupportedName"
proof (induction es)
  case (Cons x es)
  then show ?case using validate_name_cases [of "de_name x"] by (cases "encode_entries es") auto
qed simp

lemma length_entry_raw: "length (entry_raw e) = DIR_ENTRY_SIZE"
  by (simp add: entry_raw_def Let_def cfs_write_u32_def)

lemma entry_raw_fields:
  assumes "length (de_name e) \<le> MAX_NAME_LEN"
  shows "cfs_read_u32 (entry_raw e) 0 = Some (de_inode e)" "entry_raw e ! 4 = word_of_nat (length (de_name e))"
    "rslice (entry_raw e) 5 (5 + length (de_name e)) = as_bytes (de_name e)"
proof -
  let ?r0 = "cfs_write_u32 (replicate DIR_ENTRY_SIZE 0) 0 (de_inode e)"
  let ?r1 = "?r0[4 := word_of_nat (length (de_name e))]"
  have l: "length ?r1 = 32" "5 + length (as_bytes (de_name e)) \<le> 32"
    using assms by (simp_all add: cfs_write_u32_def DIR_ENTRY_SIZE_def MAX_NAME_LEN_def as_bytes_def)
  have raw: "entry_raw e = patch ?r1 5 (as_bytes (de_name e))" by (simp add: entry_raw_def Let_def)
  show "rslice (entry_raw e) 5 (5 + length (de_name e)) = as_bytes (de_name e)"
    unfolding raw using rslice_patch_same [of 5 "as_bytes (de_name e)" ?r1] l by (simp add: as_bytes_def)
  show "entry_raw e ! 4 = word_of_nat (length (de_name e))"
    unfolding raw using l by (simp add: nth_patch cfs_write_u32_def DIR_ENTRY_SIZE_def)
  have "rslice (entry_raw e) 0 4 = to_le 4 (de_inode e)"
  proof (rule nth_equalityI)
    show "length (rslice (entry_raw e) 0 4) = length (to_le 4 (de_inode e))" using length_entry_raw [of e] by (simp add: DIR_ENTRY_SIZE_def)
    fix i assume "i < length (rslice (entry_raw e) 0 4)"
    then have i: "i < 4" by simp
    then show "rslice (entry_raw e) 0 4 ! i = to_le 4 (de_inode e) ! i"
      unfolding raw using l
      by (simp add: rslice_def nth_patch cfs_write_u32_def DIR_ENTRY_SIZE_def)
  qed
  then show "cfs_read_u32 (entry_raw e) 0 = Some (de_inode e)"
    using length_entry_raw [of e] by (simp add: cfs_read_u32_rslice DIR_ENTRY_SIZE_def)
qed

lemma name_byte_ascii: "name_byte c \<Longrightarrow> (of_char c :: nat) < 0x80"
  unfolding name_byte_def by linarith

lemma name_utf8:
  assumes "validate_name n = Inr ()"
  shows "from_utf8 (as_bytes n) = Some n"
proof -
  have "list_all name_byte n" using assms by (simp add: validate_name_ok)
  then have "\<forall>c \<in> set n. (of_char c :: nat) < 0x80" using name_byte_ascii by (simp add: list_all_iff)
  then have "utf8_valid (map unat (as_bytes n))" by (intro utf8_valid_ascii) (simp add: as_bytes_def)
  then show ?thesis by (simp add: from_utf8_def)
qed

lemma parse_entry_raw:
  assumes "entry_ok e"
  shows "parse_dir_entries (entry_raw e @ bs) = map_sum id ((#) e) (parse_dir_entries bs)"
proof -
  have n: "validate_name (de_name e) = Inr ()" "de_inode e \<noteq> 0" using assms by (simp_all add: entry_ok_def)
  then have len: "length (de_name e) \<le> MAX_NAME_LEN" "length (de_name e) \<noteq> 0" by (simp_all add: validate_name_ok)
  have u: "unat (word_of_nat (length (de_name e)) :: u8) = length (de_name e)"
    using len(1) by (simp add: unat_of_nat MAX_NAME_LEN_def)
  note f = entry_raw_fields [OF len(1)]
  have eta: "\<lparr>de_inode = de_inode e, de_name = de_name e\<rparr> = e" by simp
  have t: "take DIR_ENTRY_SIZE (entry_raw e @ bs) = entry_raw e" "drop DIR_ENTRY_SIZE (entry_raw e @ bs) = bs"
    "\<not> length (entry_raw e @ bs) < DIR_ENTRY_SIZE" by (simp_all add: length_entry_raw)
  show ?thesis
    unfolding parse_dir_entries.simps [of "entry_raw e @ bs"] t Let_def f(1,2) option.case u f(3) name_utf8 [OF n(1)]
    using t(3) n(2) len eta by (simp only: if_False simp_thms not_less) simp
qed

lemma parse_nil: "parse_dir_entries [] = Inr []"
  by (simp add: parse_dir_entries.simps DIR_ENTRY_SIZE_def)

lemma parse_encode: "list_all entry_ok es \<Longrightarrow> parse_dir_entries (concat (map entry_raw es)) = Inr es"
  by (induction es) (simp_all add: parse_nil parse_entry_raw)

section \<open>Splitting a path\<close>

lemma split_on_append: "split_on c (xs @ c # ys) = split_on c xs @ split_on c ys"
  by (induction c xs rule: split_on.induct) (auto split: list.splits)

lemma components_append: "path_components (xs @ CHR ''/'' # ys) = path_components xs @ path_components ys"
  by (simp add: path_components_def split_on_append)

lemma components_name: "name \<noteq> '''' \<Longrightarrow> CHR ''/'' \<notin> set name \<Longrightarrow> path_components name = [name]"
  by (simp add: path_components_def split_on_single)

lemma components_trim: "n \<le> length p \<Longrightarrow> path_components (take (trim_end p n) p) = path_components (take n p)"
proof (induction n)
  case (Suc n)
  have "take (Suc n) p = take n p @ p ! n # []" using Suc.prems by (simp add: take_Suc_conv_app_nth)
  then show ?case using Suc components_append [of "take n p" "[]"] by (simp add: path_components_def)
qed simp

lemma trim_end_pos: "0 < n \<Longrightarrow> 0 < trim_end p n"
  by (induction n) auto

lemma trim_abs_Inr:
  assumes "trim_abs_path path = Inr p"
  shows "path_components p = path_components path" "\<exists>t. p = CHR ''/'' # t" "\<exists>t. path = CHR ''/'' # t"
proof -
  from assms have path: "path \<noteq> ''''" "hd path = CHR ''/''" and p: "p = take (trim_end path (length path)) path"
    by (auto simp: trim_abs_path_def split: if_splits)
  show "path_components p = path_components path" using components_trim [of "length path" path] p by simp
  show "\<exists>t. path = CHR ''/'' # t" using path by (cases path) auto
  then show "\<exists>t. p = CHR ''/'' # t" using p trim_end_pos [of "length path" path] by (auto simp: take_Cons split: nat.splits)
qed

lemma trim_abs_slash: "\<exists>p. trim_abs_path (CHR ''/'' # t) = Inr p"
  by (simp add: trim_abs_path_def)

lemma rfind_slash_Some:
  assumes "rfind_slash p = Some k"
  shows "k < length p" "p = take k p @ CHR ''/'' # drop (k + 1) p" "CHR ''/'' \<notin> set (drop (k + 1) p)"
proof -
  obtain i where i: "i < length p" "k = rev [0..<length p] ! i" "p ! k = CHR ''/''"
    "\<And>j. j < i \<Longrightarrow> p ! (rev [0..<length p] ! j) \<noteq> CHR ''/''"
    using assms by (auto simp: rfind_slash_def find_Some_iff)
  have k: "k = length p - 1 - i" using i(1,2) by (simp add: rev_nth)
  show "k < length p" using i(1) k by simp
  then show "p = take k p @ CHR ''/'' # drop (k + 1) p" using i(3) id_take_nth_drop [of k p] by simp
  show "CHR ''/'' \<notin> set (drop (k + 1) p)"
  proof
    assume "CHR ''/'' \<in> set (drop (k + 1) p)"
    then obtain m where "m < length (drop (k + 1) p)" "drop (k + 1) p ! m = CHR ''/''" unfolding in_set_conv_nth by blast
    then have m: "k + 1 + m < length p" "p ! (k + 1 + m) = CHR ''/''" by simp_all
    let ?j = "length p - 1 - (k + 1 + m)"
    have "?j < i" "rev [0..<length p] ! ?j = k + 1 + m" using m(1) k i(1) by (auto simp: rev_nth)
    then show False using i(4) [of ?j] m(2) by simp
  qed
qed

lemma split_parent_Inr:
  assumes "split_parent_and_name path = Inr (pp, name)"
  shows "validate_name name = Inr ()" "path_components path = path_components pp @ [name]" "\<exists>t. pp = CHR ''/'' # t"
    "\<exists>t. path = CHR ''/'' # t"
proof -
  obtain p k where p: "trim_abs_path path = Inr p" "p \<noteq> ''/''" "rfind_slash p = Some k"
    and pp: "pp = (if k = 0 then ''/'' else take k p)" and name: "name = drop (k + 1) p" "validate_name name = Inr ()"
    using assms unfolding split_parent_and_name_def Let_def by (auto split: sum.splits if_splits option.splits)
  note t = trim_abs_Inr [OF p(1)] and r = rfind_slash_Some [OF p(3)]
  show "validate_name name = Inr ()" by (rule name(2))
  have "name \<noteq> ''''" using name(2) by (simp add: validate_name_ok)
  then have "path_components name = [name]" using r(3) name(1) by (intro components_name) simp_all
  moreover have "path_components pp = path_components (take k p)" using pp by (simp add: path_components_def)
  moreover have "path_components p = path_components (take k p) @ path_components name"
    using components_append [of "take k p" name] r(2) name(1) by simp
  ultimately show "path_components path = path_components pp @ [name]" using t(1) by simp
  show "\<exists>t. pp = CHR ''/'' # t" using pp t(2) by (auto simp: take_Cons split: nat.splits)
  show "\<exists>t. path = CHR ''/'' # t" by (rule t(3))
qed

section \<open>Walking\<close>

lemma walk_append: "walk q F (cs @ ds) idx = bind_res (walk q F cs idx) (walk q F ds)"
proof (induction cs arbitrary: idx)
  case (Cons c cs)
  then show ?case by (cases "dir_lookup q F idx c") simp_all
qed simp

lemma resolve_slash: "resolve q F (CHR ''/'' # t) = walk q F (path_components (CHR ''/'' # t)) (root_inode q)"
proof -
  obtain p where p: "trim_abs_path (CHR ''/'' # t) = Inr p" using trim_abs_slash by blast
  then show ?thesis using trim_abs_Inr(1) [OF p] by (simp add: resolve_def)
qed

lemma resolve_split:
  assumes "split_parent_and_name path = Inr (pp, name)"
  shows "resolve q F path = bind_res (resolve q F pp) (\<lambda>d. dir_lookup q F d name)"
proof -
  note s = split_parent_Inr [OF assms]
  have "walk q F [name] d = dir_lookup q F d name" for d by (cases "dir_lookup q F d name") simp_all
  then have "walk q F [name] = (\<lambda>d. dir_lookup q F d name)" by blast
  then show ?thesis using s resolve_slash walk_append by metis
qed

text \<open>A step that keeps every successful lookup keeps every path that was found.\<close>

lemma walk_mono:
  assumes "\<And>d c i. dir_lookup q F d c = Inr i \<Longrightarrow> dir_lookup q F' d c = Inr i"
  shows "walk q F cs d = Inr i \<Longrightarrow> walk q F' cs d = Inr i"
proof (induction cs arbitrary: d)
  case (Cons c cs)
  then show ?case using assms by (auto simp: bind_res_Inr)
qed simp

lemma resolve_mono:
  assumes "\<And>d c i. dir_lookup q F d c = Inr i \<Longrightarrow> dir_lookup q F' d c = Inr i" and "resolve q F path = Inr i"
  shows "resolve q F' path = Inr i"
  using assms(2) walk_mono [OF assms(1)] by (auto simp: resolve_def bind_res_Inr)

text \<open>Only directories matter for a walk.\<close>

lemma walk_cong:
  assumes "\<And>d. entries_of q F' d = entries_of q F d"
  shows "walk q F' cs idx = walk q F cs idx" and "resolve q F' path = resolve q F path"
proof -
  have l: "dir_lookup q F' = dir_lookup q F" by (simp add: dir_lookup_def fun_eq_iff assms)
  have w: "walk q F' cs idx = walk q F cs idx" for cs idx
  proof (induction cs arbitrary: idx)
    case (Cons c cs)
    have "walk q F' cs = walk q F cs" using Cons by blast
    then show ?case by (simp add: l)
  qed simp
  show "walk q F' cs idx = walk q F cs idx" by (rule w)
  show "resolve q F' path = resolve q F path" by (simp add: resolve_def w)
qed

end
