(* ===== verification/CoolFS_Tree.thy ===== *)
theory CoolFS_Tree
  imports CoolFS_Dirs
begin

text \<open>
  The directory structure of a CoolFS image. \<open>tree_inv\<close> says that every inode is a file or a well-formed directory,
  that directories have no two names equal up to case, and that every live inode but the root is named by exactly one
  directory entry. The operations that change directories keep it.
\<close>

section \<open>Trees of entries\<close>

definition distinct_names :: "dir_entry list \<Rightarrow> bool" where
  "distinct_names es \<longleftrightarrow> sorted_wrt (\<lambda>a b. \<not> names_equal (de_name a) (de_name b)) es"

text \<open>\<open>r\<close> is the root, \<open>L\<close> the live inodes and \<open>X d\<close> the entries of \<open>d\<close>.\<close>

definition tree :: "u32 \<Rightarrow> u32 set \<Rightarrow> (u32 \<Rightarrow> dir_entry list) \<Rightarrow> bool" where
  "tree r L X \<longleftrightarrow>
     (\<forall>d. list_all entry_ok (X d) \<and> distinct_names (X d)) \<and>
     (\<forall>d e. e \<in> set (X d) \<longrightarrow> de_inode e \<in> L \<and> de_inode e \<noteq> r) \<and>
     (\<forall>i \<in> L. i \<noteq> r \<longrightarrow> (\<exists>d e. e \<in> set (X d) \<and> de_inode e = i)) \<and>
     (\<forall>d d' e e'. e \<in> set (X d) \<and> e' \<in> set (X d') \<and> de_inode e = de_inode e' \<longrightarrow> d = d' \<and> e = e')"

lemma treeD:
  assumes "tree r L X"
  shows "list_all entry_ok (X d)" "distinct_names (X d)" "e \<in> set (X d) \<Longrightarrow> de_inode e \<in> L" "e \<in> set (X d) \<Longrightarrow> de_inode e \<noteq> r"
    "i \<in> L \<Longrightarrow> i \<noteq> r \<Longrightarrow> \<exists>d e. e \<in> set (X d) \<and> de_inode e = i"
    "e \<in> set (X d) \<Longrightarrow> e' \<in> set (X d') \<Longrightarrow> de_inode e = de_inode e' \<Longrightarrow> d = d' \<and> e = e'"
  using assms unfolding tree_def by blast+

lemma treeI:
  assumes "\<And>d. list_all entry_ok (X d)" "\<And>d. distinct_names (X d)"
    "\<And>d e. e \<in> set (X d) \<Longrightarrow> de_inode e \<in> L" "\<And>d e. e \<in> set (X d) \<Longrightarrow> de_inode e \<noteq> r"
    "\<And>i. i \<in> L \<Longrightarrow> i \<noteq> r \<Longrightarrow> \<exists>d e. e \<in> set (X d) \<and> de_inode e = i"
    "\<And>d d' e e'. e \<in> set (X d) \<Longrightarrow> e' \<in> set (X d') \<Longrightarrow> de_inode e = de_inode e' \<Longrightarrow> d = d' \<and> e = e'"
  shows "tree r L X"
  unfolding tree_def using assms by blast

lemma distinct_names_remove: "distinct_names (xs @ e # ys) \<Longrightarrow> distinct_names (xs @ ys) \<and> e \<notin> set (xs @ ys)"
  by (auto simp: distinct_names_def sorted_wrt_append names_equal_def)

lemma distinct_names_rename:
  assumes "distinct_names (xs @ e # ys)" and "\<And>x. x \<in> set (xs @ ys) \<Longrightarrow> \<not> names_equal (de_name x) n"
  shows "distinct_names (xs @ e\<lparr>de_name := n\<rparr> # ys)"
  using assms eq_ignore_ascii_case_sym by (auto simp: distinct_names_def sorted_wrt_append names_equal_def)

lemma tree_add:
  assumes t: "tree r L X" and i: "i \<notin> L" "i \<noteq> 0" and r: "r \<in> L" and n: "validate_name n = Inr ()"
    and new: "\<And>e. e \<in> set (X d) \<Longrightarrow> \<not> names_equal (de_name e) n"
  shows "tree r (insert i L) (X(d := X d @ [\<lparr>de_inode = i, de_name = n\<rparr>]))"
proof -
  let ?e = "\<lparr>de_inode = i, de_name = n\<rparr>"
  let ?Y = "X(d := X d @ [?e])"
  have mem: "e \<in> set (?Y d') \<longleftrightarrow> e \<in> set (X d') \<or> (d' = d \<and> e = ?e)" for e d' by auto
  show ?thesis
  proof (rule treeI)
    show "list_all entry_ok (?Y d')" for d' using treeD(1) [OF t] i n by (simp add: entry_ok_def)
    have "distinct_names (X d @ [?e])" using treeD(2) [OF t, of d] new by (auto simp: distinct_names_def sorted_wrt_append)
    then show "distinct_names (?Y d')" for d' using treeD(2) [OF t] by simp
    show "de_inode e \<in> insert i L" if "e \<in> set (?Y d')" for d' e using that treeD(3) [OF t, of e d'] unfolding mem by auto
    show "de_inode e \<noteq> r" if "e \<in> set (?Y d')" for d' e using that treeD(4) [OF t, of e d'] i r unfolding mem by auto
    show "\<exists>d' e. e \<in> set (?Y d') \<and> de_inode e = j" if j: "j \<in> insert i L" "j \<noteq> r" for j
    proof (cases "j = i")
      case True
      then show ?thesis by (intro exI [of _ d] exI [of _ ?e]) simp
    next
      case False
      then obtain d' e where "e \<in> set (X d')" "de_inode e = j" using treeD(5) [OF t] j by blast
      then show ?thesis using mem by blast
    qed
    show "a = b \<and> e = e'" if "e \<in> set (?Y a)" "e' \<in> set (?Y b)" "de_inode e = de_inode e'" for a b e e'
      using that treeD(3) [OF t, of e a] treeD(3) [OF t, of e' b] treeD(6) [OF t, of e a e' b] i(1) unfolding mem by auto
  qed
qed

lemma tree_remove:
  assumes t: "tree r L X" and X: "X d = xs @ e # ys"
  shows "tree r (L - {de_inode e}) (X(d := xs @ ys))"
proof -
  let ?Y = "X(d := xs @ ys)"
  note dn = distinct_names_remove [OF treeD(2) [OF t, of d, unfolded X]]
  have sub: "e' \<in> set (?Y a) \<Longrightarrow> e' \<in> set (X a)" for e' a using X by (auto split: if_splits)
  have ne: "de_inode e' \<noteq> de_inode e" if "e' \<in> set (?Y a)" for e' a
  proof
    assume "de_inode e' = de_inode e"
    then have "a = d \<and> e' = e" using treeD(6) [OF t sub [OF that], of e d] X by simp
    then show False using that dn by auto
  qed
  show ?thesis
  proof (rule treeI)
    show "list_all entry_ok (?Y a)" for a using treeD(1) [OF t, of a] X by auto
    show "distinct_names (?Y a)" for a using treeD(2) [OF t] dn by simp
    show "de_inode e' \<in> L - {de_inode e}" if "e' \<in> set (?Y a)" for a e' using treeD(3) [OF t sub [OF that]] ne [OF that] by simp
    show "de_inode e' \<noteq> r" if "e' \<in> set (?Y a)" for a e' by (rule treeD(4) [OF t sub [OF that]])
    show "\<exists>a e'. e' \<in> set (?Y a) \<and> de_inode e' = j" if j: "j \<in> L - {de_inode e}" "j \<noteq> r" for j
    proof -
      obtain a e' where a: "e' \<in> set (X a)" "de_inode e' = j" using treeD(5) [OF t] j by blast
      then have "e' \<noteq> e" using j by auto
      then have "e' \<in> set (?Y a)" using a X by auto
      then show ?thesis using a by blast
    qed
    show "a = b \<and> e1 = e2" if "e1 \<in> set (?Y a)" "e2 \<in> set (?Y b)" "de_inode e1 = de_inode e2" for a b e1 e2
      by (rule treeD(6) [OF t sub [OF that(1)] sub [OF that(2)] that(3)])
  qed
qed

lemma tree_rename:
  assumes t: "tree r L X" and X: "X d = xs @ e # ys" and n: "validate_name n = Inr ()"
    and new: "\<And>x. x \<in> set (xs @ ys) \<Longrightarrow> \<not> names_equal (de_name x) n"
  shows "tree r L (X(d := xs @ e\<lparr>de_name := n\<rparr> # ys))"
proof -
  let ?e = "e\<lparr>de_name := n\<rparr>"
  let ?Y = "X(d := xs @ ?e # ys)"
  note dn = distinct_names_remove [OF treeD(2) [OF t, of d, unfolded X]]
  have old: "x \<in> set (?Y a) \<Longrightarrow> (if a = d \<and> x = ?e then e else x) \<in> set (X a)" for x a using X by (auto split: if_splits)
  have in_d: "\<exists>x'. x' \<in> set (?Y a) \<and> de_inode x' = de_inode x" if "x \<in> set (X a)" for x a
  proof (cases "a = d \<and> x = e")
    case True
    then show ?thesis by (intro exI [of _ ?e]) simp
  next
    case False
    then have "x \<in> set (?Y a)" using that X by auto
    then show ?thesis by blast
  qed
  show ?thesis
  proof (rule treeI)
    show "list_all entry_ok (?Y a)" for a using treeD(1) [OF t, of a] X n by (auto simp: entry_ok_def)
    show "distinct_names (?Y a)" for a
      using treeD(2) [OF t] distinct_names_rename [OF treeD(2) [OF t, of d, unfolded X] new] by simp
    show "de_inode x \<in> L" "de_inode x \<noteq> r" if "x \<in> set (?Y a)" for a x
      using treeD(3,4) [OF t old [OF that]] by (auto split: if_splits)
    show "\<exists>a x. x \<in> set (?Y a) \<and> de_inode x = j" if "j \<in> L" "j \<noteq> r" for j
      using treeD(5) [OF t that] in_d by metis
    show "a = b \<and> x = y" if x: "x \<in> set (?Y a)" "y \<in> set (?Y b)" "de_inode x = de_inode y" for a b x y
    proof -
      have "a = b \<and> (if a = d \<and> x = ?e then e else x) = (if b = d \<and> y = ?e then e else y)"
        by (rule treeD(6) [OF t old [OF x(1)] old [OF x(2)]]) (use x(3) in auto)
      moreover have "z \<in> set (xs @ ys) \<Longrightarrow> z \<noteq> e" for z using dn by blast
      ultimately show ?thesis using x(1,2) by (auto split: if_splits)
    qed
  qed
qed

section \<open>The tree of an image\<close>

definition dir_ents :: "superblock \<Rightarrow> (u32 \<Rightarrow> fs_file option) \<Rightarrow> u32 \<Rightarrow> dir_entry list" where
  "dir_ents q F d = (case entries_of q F d of Inr es \<Rightarrow> es | Inl _ \<Rightarrow> [])"

definition node_ok :: "superblock \<Rightarrow> (u32 \<Rightarrow> fs_file option) \<Rightarrow> u32 \<Rightarrow> bool" where
  "node_ok q F i \<longleftrightarrow> (case F i of None \<Rightarrow> True | Some f \<Rightarrow>
     fkind f = KIND_FILE \<or> (fkind f = KIND_DIR \<and> entries_of q F i = Inr (dir_ents q F i)))"

definition tree_inv :: "superblock \<Rightarrow> (u32 \<Rightarrow> fs_file option) \<Rightarrow> bool" where
  "tree_inv q F \<longleftrightarrow> (\<exists>f. F (root_inode q) = Some f \<and> fkind f = KIND_DIR) \<and> (\<forall>i. node_ok q F i) \<and>
     tree (root_inode q) (dom F) (dir_ents q F)"

lemma entries_of_Inr:
  "entries_of q F d = Inr es \<longleftrightarrow> (\<exists>f. F d = Some f \<and> fkind f = KIND_DIR \<and> parse_dir_entries (fdata f) = Inr es)"
  by (auto simp: entries_of_def split: option.splits)

lemma dir_entsI: "entries_of q F d = Inr es \<Longrightarrow> dir_ents q F d = es"
  by (simp add: dir_ents_def)

lemma tree_inv_entries:
  assumes "tree_inv q F" and "F d = Some f" and "fkind f = KIND_DIR"
  shows "entries_of q F d = Inr (dir_ents q F d)"
proof -
  have "node_ok q F d" using assms(1) by (simp add: tree_inv_def)
  then show ?thesis using assms(2,3) by (simp add: node_ok_def)
qed

lemma tree_inv_cases: "tree_inv q F \<Longrightarrow> F i = Some f \<Longrightarrow> fkind f = KIND_FILE \<or> fkind f = KIND_DIR"
proof -
  assume "tree_inv q F" and f: "F i = Some f"
  then have "node_ok q F i" by (simp add: tree_inv_def)
  then show ?thesis using f by (auto simp: node_ok_def)
qed

text \<open>A directory gets new entries.\<close>

definition set_entries :: "(u32 \<Rightarrow> fs_file option) \<Rightarrow> u32 \<Rightarrow> fs_file \<Rightarrow> dir_entry list \<Rightarrow> u32 \<Rightarrow> fs_file option" where
  "set_entries F d f es = F(d \<mapsto> f\<lparr>fdata := concat (map entry_raw es)\<rparr>)"

lemma entries_set_entries:
  assumes "F d = Some f" "fkind f = KIND_DIR" "list_all entry_ok es"
  shows "entries_of q (set_entries F d f es) a = (if a = d then Inr es else entries_of q F a)"
  using assms by (simp add: entries_of_def set_entries_def parse_encode)

text \<open>The common part of all updates: kinds stay and only the entries of \<open>d\<close> change.\<close>

lemma tree_inv_update:
  assumes root: "\<exists>f. G (root_inode q) = Some f \<and> fkind f = KIND_DIR"
    and nodes: "\<And>i f. G i = Some f \<Longrightarrow> fkind f = KIND_FILE \<or> (fkind f = KIND_DIR \<and> entries_of q G i = Inr (X i))"
    and X: "dir_ents q G = X" and t: "tree (root_inode q) (dom G) X"
  shows "tree_inv q G"
proof -
  have "node_ok q G i" for i using nodes [of i] by (cases "G i") (simp_all add: node_ok_def X)
  then show ?thesis using root t by (simp add: tree_inv_def X)
qed

subsection \<open>Creating\<close>

definition create_at ::
  "(u32 \<Rightarrow> fs_file option) \<Rightarrow> u32 \<Rightarrow> dir_entry list \<Rightarrow> string \<Rightarrow> u32 \<Rightarrow> fs_file \<Rightarrow> u32 \<Rightarrow> fs_file option" where
  "create_at F d es name idx new =
     set_entries (F(idx \<mapsto> new)) d (the (F d)) (es @ [\<lparr>de_inode = idx, de_name = name\<rparr>])"

lemma create_entries:
  assumes inv: "tree_inv q F" and d: "entries_of q F d = Inr es" and idx: "F idx = None" "idx \<noteq> 0"
    and n: "validate_name name = Inr ()" and new: "fkind new = KIND_FILE \<or> fkind new = KIND_DIR" "fdata new = []"
  shows "entries_of q (create_at F d es name idx new) a =
    (if a = d then Inr (es @ [\<lparr>de_inode = idx, de_name = name\<rparr>])
     else if a = idx then (if fkind new = KIND_DIR then Inr [] else Inl NotDirectory) else entries_of q F a)"
proof -
  obtain f where f: "F d = Some f" "fkind f = KIND_DIR" using d by (auto simp: entries_of_Inr)
  have ok: "list_all entry_ok es"
    using treeD(1) [of "root_inode q" "dom F" "dir_ents q F" d] inv dir_entsI [OF d] by (simp add: tree_inv_def)
  have "d \<noteq> idx" using f idx by auto
  then have "(F(idx \<mapsto> new)) d = Some f" using f by simp
  moreover have "list_all entry_ok (es @ [\<lparr>de_inode = idx, de_name = name\<rparr>])" using ok idx n by (simp add: entry_ok_def)
  ultimately show ?thesis
    unfolding create_at_def using entries_set_entries [of "F(idx \<mapsto> new)" d f] f new \<open>d \<noteq> idx\<close>
    by (auto simp: entries_of_def [of q "F(idx \<mapsto> new)"] entries_of_def [of q F] parse_nil)
qed

lemma create_tree_inv:
  assumes inv: "tree_inv q F" and d: "entries_of q F d = Inr es" and idx: "F idx = None" "idx \<noteq> 0"
    and n: "validate_name name = Inr ()" "\<not> list_ex (\<lambda>e. names_equal (de_name e) name) es"
    and new: "fkind new = KIND_FILE \<or> fkind new = KIND_DIR" "fdata new = []"
  shows "tree_inv q (create_at F d es name idx new)"
proof -
  let ?G = "create_at F d es name idx new"
  let ?X = "dir_ents q F"
  note e = create_entries [OF inv d idx n(1) new]
  obtain f where f: "F d = Some f" "fkind f = KIND_DIR" using d by (auto simp: entries_of_Inr)
  have ne: "d \<noteq> idx" using f idx by auto
  have t: "tree (root_inode q) (dom F) ?X" and r: "\<exists>f. F (root_inode q) = Some f \<and> fkind f = KIND_DIR"
    using inv by (auto simp: tree_inv_def)
  have Xi: "?X idx = []" using idx by (simp add: dir_ents_def entries_of_def)
  have Xd: "?X d = es" by (rule dir_entsI [OF d])
  let ?Y = "?X(d := ?X d @ [\<lparr>de_inode = idx, de_name = name\<rparr>])"
  have Y: "dir_ents q ?G = ?Y"
  proof
    fix a show "dir_ents q ?G a = ?Y a" using e [of a] Xi Xd by (auto simp: dir_ents_def)
  qed
  have dom: "dom ?G = insert idx (dom F)" using f by (auto simp: create_at_def set_entries_def)
  have G: "?G a = (if a = d then Some (f\<lparr>fdata := concat (map entry_raw (es @ [\<lparr>de_inode = idx, de_name = name\<rparr>]))\<rparr>)
      else if a = idx then Some new else F a)" for a using f by (simp add: create_at_def set_entries_def)
  show ?thesis
  proof (rule tree_inv_update [OF _ _ Y])
    show "\<exists>f. ?G (root_inode q) = Some f \<and> fkind f = KIND_DIR" using r f idx by (auto simp: G)
    show "tree (root_inode q) (dom ?G) ?Y" unfolding dom
      by (rule tree_add [OF t]) (use idx r n Xd in \<open>auto simp: list_ex_iff\<close>)
    show "fkind g = KIND_FILE \<or> (fkind g = KIND_DIR \<and> entries_of q ?G i = Inr (?Y i))" if g: "?G i = Some g" for i g
    proof (cases "i = d \<or> i = idx")
      case True
      then show ?thesis using g f new Xd Xi ne e [of i] by (auto simp: G split: if_splits)
    next
      case False
      then have "F i = Some g" using g by (simp add: G)
      then show ?thesis using tree_inv_cases [OF inv] tree_inv_entries [OF inv] e [of i] False by auto
    qed
  qed
qed

lemma tree_inv_tree: "tree_inv q F \<Longrightarrow> tree (root_inode q) (dom F) (dir_ents q F)"
  by (simp add: tree_inv_def)

lemma tree_inv_ok:
  assumes "tree_inv q F" and "entries_of q F d = Inr es"
  shows "list_all entry_ok es" "distinct_names es"
  using treeD(1,2) [OF tree_inv_tree [OF assms(1)], of d] dir_entsI [OF assms(2)] by simp_all

lemma find_entry_append: "find_entry (xs @ ys) c = (case find_entry xs c of None \<Rightarrow> find_entry ys c | Some e \<Rightarrow> Some e)"
  by (induction xs) (simp_all add: find_entry_def)

lemma find_entry_None: "find_entry es c = None \<longleftrightarrow> \<not> list_ex (\<lambda>e. names_equal (de_name e) c) es"
  by (auto simp: find_entry_def find_None_iff list_ex_iff)

lemma find_entry_Some: "find_entry es c = Some e \<Longrightarrow> e \<in> set es \<and> names_equal (de_name e) c"
  by (auto simp: find_entry_def find_Some_iff)

lemma dir_lookup_Inr:
  "dir_lookup q F d c = Inr i \<longleftrightarrow> (\<exists>es e. entries_of q F d = Inr es \<and> find_entry es c = Some e \<and> de_inode e = i)"
  by (auto simp: dir_lookup_def bind_res_Inr split: option.splits)

lemma create_resolve:
  assumes inv: "tree_inv q F" and d: "entries_of q F d = Inr es" and idx: "F idx = None" "idx \<noteq> 0"
    and n: "validate_name name = Inr ()" "\<not> list_ex (\<lambda>e. names_equal (de_name e) name) es"
    and new: "fkind new = KIND_FILE \<or> fkind new = KIND_DIR" "fdata new = []"
  shows "dir_lookup q (create_at F d es name idx new) d name = Inr idx"
    and "resolve q F path = Inr i \<Longrightarrow> resolve q (create_at F d es name idx new) path = Inr i"
proof -
  note e = create_entries [OF inv d idx n(1) new]
  show "dir_lookup q (create_at F d es name idx new) d name = Inr idx"
    using n(2) by (simp add: dir_lookup_def e find_entry_append find_entry_None [symmetric])
      (simp add: find_entry_def names_equal_def)
  have mono: "dir_lookup q (create_at F d es name idx new) a c = Inr j" if l: "dir_lookup q F a c = Inr j" for a c j
  proof -
    obtain es' x where x: "entries_of q F a = Inr es'" "find_entry es' c = Some x" "de_inode x = j"
      using l by (auto simp: dir_lookup_Inr)
    have "a \<noteq> idx" using x(1) idx by (auto simp: entries_of_Inr)
    then show ?thesis using x d e [of a] by (auto simp: dir_lookup_def find_entry_append)
  qed
  show "resolve q (create_at F d es name idx new) path = Inr i" if "resolve q F path = Inr i"
    by (rule resolve_mono [OF mono that])
qed

subsection \<open>Deleting\<close>

definition delete_at :: "(u32 \<Rightarrow> fs_file option) \<Rightarrow> u32 \<Rightarrow> dir_entry list \<Rightarrow> nat \<Rightarrow> u32 \<Rightarrow> fs_file option" where
  "delete_at F d es pos = (set_entries F d (the (F d)) (take pos es @ drop (Suc pos) es))(de_inode (es ! pos) := None)"

lemma list_all_remove: "list_all P es \<Longrightarrow> list_all P (take k es @ drop (Suc k) es)"
  by (auto simp: list_all_iff dest: in_set_takeD in_set_dropD)

lemma delete_entries:
  assumes inv: "tree_inv q F" and d: "entries_of q F d = Inr es" and pos: "pos < length es"
    and leaf: "dir_ents q F (de_inode (es ! pos)) = []"
  shows "dir_ents q (delete_at F d es pos) a = (if a = d then take pos es @ drop (Suc pos) es else dir_ents q F a)"
    and "a \<noteq> de_inode (es ! pos) \<Longrightarrow> entries_of q (delete_at F d es pos) a =
      (if a = d then Inr (take pos es @ drop (Suc pos) es) else entries_of q F a)"
    and "d \<noteq> de_inode (es ! pos)"
proof -
  let ?t = "de_inode (es ! pos)"
  obtain f where f: "F d = Some f" "fkind f = KIND_DIR" using d by (auto simp: entries_of_Inr)
  show ne: "d \<noteq> ?t" using leaf dir_entsI [OF d] pos by auto
  note se = entries_set_entries [of F d f "take pos es @ drop (Suc pos) es" q, OF f list_all_remove [OF tree_inv_ok(1) [OF inv d]]]
  show e: "entries_of q (delete_at F d es pos) a = (if a = d then Inr (take pos es @ drop (Suc pos) es) else entries_of q F a)"
    if "a \<noteq> ?t" for a
    using that se [of a] f by (simp add: delete_at_def entries_of_def)
  have "dir_ents q (delete_at F d es pos) ?t = []" by (simp add: dir_ents_def delete_at_def entries_of_def)
  then show "dir_ents q (delete_at F d es pos) a = (if a = d then take pos es @ drop (Suc pos) es else dir_ents q F a)"
    using e [of a] leaf ne by (cases "a = ?t") (auto simp: dir_ents_def)
qed

lemma delete_tree_inv:
  assumes inv: "tree_inv q F" and d: "entries_of q F d = Inr es" and pos: "pos < length es"
    and leaf: "dir_ents q F (de_inode (es ! pos)) = []"
  shows "tree_inv q (delete_at F d es pos)"
proof -
  let ?t = "de_inode (es ! pos)"
  let ?G = "delete_at F d es pos"
  let ?Y = "(dir_ents q F)(d := take pos es @ drop (Suc pos) es)"
  note e = delete_entries [OF inv d pos leaf] and t = tree_inv_tree [OF inv]
  have X: "dir_ents q F d = take pos es @ es ! pos # drop (Suc pos) es"
    using dir_entsI [OF d] id_take_nth_drop [OF pos] by simp
  have Y: "dir_ents q ?G = ?Y" using e(1) by (auto simp: fun_eq_iff)
  obtain f where f: "F d = Some f" "fkind f = KIND_DIR" using d by (auto simp: entries_of_Inr)
  have G: "?G a = (if a = ?t then None else if a = d then Some (f\<lparr>fdata := concat (map entry_raw (take pos es @ drop (Suc pos) es))\<rparr>) else F a)" for a
    using f by (simp add: delete_at_def set_entries_def)
  have dom: "dom ?G = dom F - {?t}" using f by (auto simp: G dom_def)
  have "?t \<noteq> root_inode q" using treeD(4) [OF t, of "es ! pos" d] X by simp
  then have root: "\<exists>f. ?G (root_inode q) = Some f \<and> fkind f = KIND_DIR" using inv f by (auto simp: G tree_inv_def)
  show ?thesis
  proof (rule tree_inv_update [OF root _ Y])
    show "tree (root_inode q) (dom ?G) ?Y" unfolding dom by (rule tree_remove [OF t X])
    show "fkind g = KIND_FILE \<or> (fkind g = KIND_DIR \<and> entries_of q ?G i = Inr (?Y i))" if g: "?G i = Some g" for i g
    proof -
      have i: "i \<noteq> ?t" using g by (auto simp: G)
      show ?thesis
      proof (cases "i = d")
        case True
        then show ?thesis using g f e(2) [OF i] i by (auto simp: G)
      next
        case False
        then have "F i = Some g" using g i by (simp add: G)
        then show ?thesis using tree_inv_cases [OF inv] tree_inv_entries [OF inv] e(2) [OF i] False by auto
      qed
    qed
  qed
qed

lemma find_entry_remove:
  assumes "pos < length es" and "find_entry es c = Some x" and "x \<noteq> es ! pos"
  shows "find_entry (take pos es @ drop (Suc pos) es) c = Some x"
proof -
  have "find_entry es c = find_entry (take pos es @ [es ! pos] @ drop (Suc pos) es) c"
    using id_take_nth_drop [OF assms(1)] by simp
  then show ?thesis using assms(2,3)
    unfolding find_entry_append by (auto simp: find_entry_def split: option.splits if_splits)
qed

lemma delete_walk:
  assumes inv: "tree_inv q F" and d: "entries_of q F d = Inr es" and pos: "pos < length es"
    and leaf: "dir_ents q F (de_inode (es ! pos)) = []"
  shows "walk q F cs a = Inr i \<Longrightarrow> i \<noteq> de_inode (es ! pos) \<Longrightarrow> walk q (delete_at F d es pos) cs a = Inr i"
proof (induction cs arbitrary: a)
  case (Cons c cs)
  let ?t = "de_inode (es ! pos)" and ?G = "delete_at F d es pos"
  obtain b where b: "dir_lookup q F a c = Inr b" "walk q F cs b = Inr i" using Cons.prems(1) by (auto simp: bind_res_Inr)
  obtain es' x where x: "entries_of q F a = Inr es'" "find_entry es' c = Some x" "de_inode x = b"
    using b(1) by (auto simp: dir_lookup_Inr)
  have at: "a \<noteq> ?t" using dir_entsI [OF x(1)] leaf x(2) by (auto simp: find_entry_def)
  have bt: "b \<noteq> ?t"
  proof
    assume bt: "b = ?t"
    have "cs = []"
    proof (cases cs)
      case (Cons c' cs')
      then obtain j where "dir_lookup q F ?t c' = Inr j" using b(2) bt by (auto simp: bind_res_Inr)
      then obtain es'' x' where y: "entries_of q F ?t = Inr es''" "find_entry es'' c' = Some x'" by (auto simp: dir_lookup_Inr)
      have "es'' = []" using dir_entsI [OF y(1)] leaf by simp
      then show ?thesis using y(2) by (simp add: find_entry_def)
    qed simp
    then show False using b(2) bt Cons.prems(2) by simp
  qed
  have "dir_lookup q ?G a c = Inr b"
  proof (cases "a = d")
    case True
    then have es': "es' = es" using x(1) d by simp
    have "x \<noteq> es ! pos" using x(3) bt by auto
    then have "find_entry (take pos es @ drop (Suc pos) es) c = Some x" using find_entry_remove [OF pos] x(2) es' by blast
    then show ?thesis using delete_entries(2) [OF inv d pos leaf at] True x(3) by (simp add: dir_lookup_def)
  next
    case False
    then show ?thesis using delete_entries(2) [OF inv d pos leaf at] x by (simp add: dir_lookup_def)
  qed
  then show ?case using Cons.IH [OF b(2) Cons.prems(2)] by simp
qed simp

lemma distinct_names_other:
  assumes "distinct_names (xs @ e # ys)" and "names_equal (de_name e) c" and "x \<in> set (xs @ ys)"
  shows "\<not> names_equal (de_name x) c"
proof -
  have "\<not> names_equal (de_name x) (de_name e) \<or> \<not> names_equal (de_name e) (de_name x)"
    using assms(1,3) by (auto simp: distinct_names_def sorted_wrt_append)
  then show ?thesis using assms(2) by (auto simp: names_equal_def eq_ignore_ascii_case_def)
qed

lemma delete_gone:
  assumes inv: "tree_inv q F" and d: "entries_of q F d = Inr es" and pos: "pos < length es"
    and leaf: "dir_ents q F (de_inode (es ! pos)) = []" and n: "names_equal (de_name (es ! pos)) c"
  shows "dir_lookup q (delete_at F d es pos) d c = Inl NotFound"
proof -
  have "distinct_names (take pos es @ es ! pos # drop (Suc pos) es)"
    using tree_inv_ok(2) [OF inv d] id_take_nth_drop [OF pos] by simp
  then have "\<not> list_ex (\<lambda>e. names_equal (de_name e) c) (take pos es @ drop (Suc pos) es)"
    using distinct_names_other [OF _ n] unfolding list_ex_iff by blast
  then have "find_entry (take pos es @ drop (Suc pos) es) c = None" by (simp only: find_entry_None simp_thms)
  then show ?thesis using delete_entries(2) [OF inv d pos leaf delete_entries(3) [OF inv d pos leaf]]
    by (simp add: dir_lookup_def)
qed

subsection \<open>Every inode has one place\<close>

lemma walk_snoc: "walk q F (cs @ [c]) a = bind_res (walk q F cs a) (\<lambda>d. dir_lookup q F d c)"
proof -
  have "walk q F [c] d = dir_lookup q F d c" for d by (cases "dir_lookup q F d c") simp_all
  then have "walk q F [c] = (\<lambda>d. dir_lookup q F d c)" by blast
  then show ?thesis by (simp only: walk_append)
qed

lemma lookup_edge: "dir_lookup q F d c = Inr i \<Longrightarrow> \<exists>e. e \<in> set (dir_ents q F d) \<and> de_inode e = i \<and> names_equal (de_name e) c"
  using find_entry_Some by (fastforce simp: dir_lookup_Inr dest: dir_entsI)

text \<open>Two walks from the root to the same inode take the same directories, with names equal up to case.\<close>

lemma walk_unique:
  assumes inv: "tree_inv q F"
  shows "walk q F cs (root_inode q) = Inr i \<Longrightarrow> walk q F cs' (root_inode q) = Inr i \<Longrightarrow> list_all2 names_equal cs cs'"
proof (induction cs arbitrary: cs' i rule: rev_induct)
  note t = tree_inv_tree [OF inv]
  case Nil
  then have i: "i = root_inode q" by simp
  show ?case
  proof (cases cs' rule: rev_exhaust)
    case (snoc ds d)
    then obtain a where "dir_lookup q F a d = Inr i" using Nil.prems(2) by (auto simp: walk_snoc bind_res_Inr)
    then show ?thesis using lookup_edge treeD(4) [OF t] i by blast
  qed simp
next
  note t = tree_inv_tree [OF inv]
  case (snoc c cs)
  obtain a where a: "walk q F cs (root_inode q) = Inr a" "dir_lookup q F a c = Inr i"
    using snoc.prems(1) by (auto simp: walk_snoc bind_res_Inr)
  obtain e where e: "e \<in> set (dir_ents q F a)" "de_inode e = i" "names_equal (de_name e) c" using lookup_edge [OF a(2)] by blast
  have "i \<noteq> root_inode q" using treeD(4) [OF t e(1)] e(2) by simp
  then obtain ds d where cs': "cs' = ds @ [d]" using snoc.prems(2) by (cases cs' rule: rev_exhaust) auto
  obtain b where b: "walk q F ds (root_inode q) = Inr b" "dir_lookup q F b d = Inr i"
    using snoc.prems(2) cs' by (auto simp: walk_snoc bind_res_Inr)
  obtain e' where e': "e' \<in> set (dir_ents q F b)" "de_inode e' = i" "names_equal (de_name e') d" using lookup_edge [OF b(2)] by blast
  have ab: "a = b" "e = e'" using treeD(6) [OF t e(1) e'(1)] e(2) e'(2) by auto
  have "names_equal c d" using e(3) e'(3) ab by (auto simp: names_equal_def eq_ignore_ascii_case_def)
  then show ?case using snoc.IH [OF a(1)] b(1) ab cs' by (simp add: list_all2_appendI)
qed

subsection \<open>Renaming\<close>

definition rename_at :: "(u32 \<Rightarrow> fs_file option) \<Rightarrow> u32 \<Rightarrow> dir_entry list \<Rightarrow> nat \<Rightarrow> string \<Rightarrow> u32 \<Rightarrow> fs_file option" where
  "rename_at F d es pos n = set_entries F d (the (F d)) (es[pos := (es ! pos)\<lparr>de_name := n\<rparr>])"

lemma rename_entries:
  assumes inv: "tree_inv q F" and d: "entries_of q F d = Inr es" and pos: "pos < length es" and n: "validate_name n = Inr ()"
  shows "entries_of q (rename_at F d es pos n) a = (if a = d then Inr (es[pos := (es ! pos)\<lparr>de_name := n\<rparr>]) else entries_of q F a)"
proof -
  obtain f where f: "F d = Some f" "fkind f = KIND_DIR" using d by (auto simp: entries_of_Inr)
  have "entry_ok (es ! pos)" using tree_inv_ok(1) [OF inv d] pos by (simp add: list_all_length)
  then have "list_all entry_ok (es[pos := (es ! pos)\<lparr>de_name := n\<rparr>])"
    using tree_inv_ok(1) [OF inv d] n pos by (simp add: list_all_length nth_list_update entry_ok_def)
  from entries_set_entries [of F d f, OF f this] show ?thesis using f by (simp add: rename_at_def)
qed

lemma rename_tree_inv:
  assumes inv: "tree_inv q F" and d: "entries_of q F d = Inr es" and pos: "pos < length es"
    and n: "validate_name n = Inr ()" "\<not> list_ex (\<lambda>e. names_equal (de_name e) n) es"
  shows "tree_inv q (rename_at F d es pos n)"
proof -
  let ?G = "rename_at F d es pos n" and ?es = "es[pos := (es ! pos)\<lparr>de_name := n\<rparr>]"
  let ?Y = "(dir_ents q F)(d := ?es)"
  note e = rename_entries [OF inv d pos n(1)] and t = tree_inv_tree [OF inv]
  have X: "dir_ents q F d = take pos es @ es ! pos # drop (Suc pos) es"
    using dir_entsI [OF d] id_take_nth_drop [OF pos] by simp
  have es: "?es = take pos es @ (es ! pos)\<lparr>de_name := n\<rparr> # drop (Suc pos) es" using pos by (rule upd_conv_take_nth_drop)
  have Y: "dir_ents q ?G = ?Y" using e by (auto simp: fun_eq_iff dir_ents_def)
  obtain f where f: "F d = Some f" "fkind f = KIND_DIR" using d by (auto simp: entries_of_Inr)
  have G: "?G a = (if a = d then Some (f\<lparr>fdata := concat (map entry_raw ?es)\<rparr>) else F a)" for a
    using f by (simp add: rename_at_def set_entries_def)
  have dom: "dom ?G = dom F" using f by (auto simp: G dom_def)
  have root: "\<exists>f. ?G (root_inode q) = Some f \<and> fkind f = KIND_DIR" using inv f by (auto simp: G tree_inv_def)
  show ?thesis
  proof (rule tree_inv_update [OF root _ Y])
    show "tree (root_inode q) (dom ?G) ?Y" unfolding dom es
      by (rule tree_rename [OF t X n(1)]) (use n(2) in \<open>auto simp: list_ex_iff dest: in_set_takeD in_set_dropD\<close>)
    show "fkind g = KIND_FILE \<or> (fkind g = KIND_DIR \<and> entries_of q ?G i = Inr (?Y i))" if g: "?G i = Some g" for i g
      using g f e [of i] tree_inv_cases [OF inv, of i] tree_inv_entries [OF inv, of i] by (cases "i = d") (auto simp: G)
  qed
qed

lemma walk_avoid:
  assumes e: "\<And>a. a \<noteq> d \<Longrightarrow> entries_of q G a = entries_of q F a"
  shows "walk q F cs r = Inr i \<Longrightarrow> (\<And>ps rest. cs = ps @ rest \<Longrightarrow> rest \<noteq> [] \<Longrightarrow> walk q F ps r \<noteq> Inr d) \<Longrightarrow> walk q G cs r = Inr i"
proof (induction cs arbitrary: i rule: rev_induct)
  case (snoc c cs)
  obtain a where a: "walk q F cs r = Inr a" "dir_lookup q F a c = Inr i" using snoc.prems(1) by (auto simp: walk_snoc bind_res_Inr)
  have "a \<noteq> d" using snoc.prems(2) [of cs "[c]"] a(1) by auto
  then have "dir_lookup q G a c = Inr i" using a(2) e by (simp add: dir_lookup_def)
  moreover have "walk q G cs r = Inr a" using snoc.prems(2) by (intro snoc.IH [OF a(1)]) auto
  ultimately show ?case by (simp add: walk_snoc)
qed simp

lemma rename_resolve:
  assumes inv: "tree_inv q F" and d: "entries_of q F d = Inr es" and pos: "pos < length es"
    and n: "validate_name n = Inr ()" "\<not> list_ex (\<lambda>e. names_equal (de_name e) n) es"
    and old: "names_equal (de_name (es ! pos)) c" "\<not> names_equal n c"
  shows "dir_lookup q (rename_at F d es pos n) d n = Inr (de_inode (es ! pos))"
    and "dir_lookup q (rename_at F d es pos n) d c = Inl NotFound"
    and "resolve q F p = Inr d \<Longrightarrow> resolve q (rename_at F d es pos n) p = Inr d"
proof -
  let ?G = "rename_at F d es pos n" and ?es = "es[pos := (es ! pos)\<lparr>de_name := n\<rparr>]"
  note e = rename_entries [OF inv d pos n(1)]
  have es: "?es = take pos es @ [(es ! pos)\<lparr>de_name := n\<rparr>] @ drop (Suc pos) es" using upd_conv_take_nth_drop [OF pos] by simp
  have none: "\<not> list_ex (\<lambda>e. names_equal (de_name e) n) (take pos es)"
    using n(2) by (auto simp: list_ex_iff dest: in_set_takeD)
  show "dir_lookup q ?G d n = Inr (de_inode (es ! pos))"
    using none [folded find_entry_None] by (simp add: dir_lookup_def e es find_entry_append) (simp add: find_entry_def names_equal_def)
  have "distinct_names (take pos es @ es ! pos # drop (Suc pos) es)"
    using tree_inv_ok(2) [OF inv d] id_take_nth_drop [OF pos] by simp
  then have "\<not> list_ex (\<lambda>e. names_equal (de_name e) c) ?es"
    using distinct_names_other [OF _ old(1)] old(2) unfolding es list_ex_iff by auto
  then have "find_entry ?es c = None" by (simp only: find_entry_None simp_thms)
  then show "dir_lookup q ?G d c = Inl NotFound" by (simp add: dir_lookup_def e)
  show "resolve q ?G p = Inr d" if p: "resolve q F p = Inr d"
  proof -
    obtain p' where p': "trim_abs_path p = Inr p'" "walk q F (path_components p') (root_inode q) = Inr d"
      using p by (auto simp: resolve_def bind_res_Inr)
    have "walk q ?G (path_components p') (root_inode q) = Inr d"
    proof (rule walk_avoid [OF _ p'(2)])
      show "entries_of q ?G a = entries_of q F a" if "a \<noteq> d" for a using e [of a] that by simp
      fix ps rest assume s: "path_components p' = ps @ rest" "rest \<noteq> []"
      show "walk q F ps (root_inode q) \<noteq> Inr d"
      proof
        assume "walk q F ps (root_inode q) = Inr d"
        then have "length ps = length (path_components p')" using walk_unique [OF inv _ p'(2)] list_all2_lengthD by blast
        then show False using s by simp
      qed
    qed
    then show ?thesis using p' by (simp add: resolve_def)
  qed
qed

subsection \<open>Writing files and metadata\<close>

lemma entries_of_put:
  assumes "F idx = Some f" and "fkind g = fkind f" and "fkind f = KIND_DIR \<Longrightarrow> fdata g = fdata f"
  shows "entries_of q (F(idx \<mapsto> g)) a = entries_of q F a"
  using assms by (auto simp: entries_of_def)

lemma put_tree_inv:
  assumes inv: "tree_inv q F" and "F idx = Some f" and "fkind g = fkind f" and "fkind f = KIND_DIR \<Longrightarrow> fdata g = fdata f"
  shows "tree_inv q (F(idx \<mapsto> g))"
proof -
  let ?G = "F(idx \<mapsto> g)"
  have e: "entries_of q ?G a = entries_of q F a" for a using entries_of_put [of F idx f g q a] assms(2-4) by blast
  have Y: "dir_ents q ?G = dir_ents q F" by (simp add: dir_ents_def e fun_eq_iff)
  have dom: "dom ?G = dom F" using assms(2) by auto
  have root: "\<exists>f. ?G (root_inode q) = Some f \<and> fkind f = KIND_DIR" using inv assms(2,3) by (auto simp: tree_inv_def)
  show ?thesis
  proof (rule tree_inv_update [OF root _ Y])
    show "tree (root_inode q) (dom ?G) (dir_ents q F)" unfolding dom by (rule tree_inv_tree [OF inv])
    show "fkind h = KIND_FILE \<or> (fkind h = KIND_DIR \<and> entries_of q ?G i = Inr (dir_ents q F i))" if h: "?G i = Some h" for i h
      using h e tree_inv_cases [OF inv, of i] tree_inv_entries [OF inv, of i] assms(2,3) by (cases "i = idx") auto
  qed
qed

end
