(* ===== verification/CoolFS_Ops.thy ===== *)
theory CoolFS_Ops
  imports CoolFS_Tree
begin

text \<open>
  The operations of \<open>src/src/coolfs.rs\<close> on paths, each the closure it runs on the locked image. Every operation is
  related to the file map: reads find what \<open>resolve\<close> finds, changes are one of the updates of \<open>CoolFS_Tree\<close>, and
  a failing operation leaves all files as they were.
\<close>

section \<open>Operations on the image\<close>

record metadata_info =
  md_uid :: u32
  md_gid :: u32
  md_mode :: u16
  md_size :: u32
  md_is_dir :: bool
  md_is_file :: bool

record dir_entry_info =
  di_name :: string
  di_is_dir :: bool
  di_size :: u32

definition list_dir_op :: "string \<Rightarrow> (image_state, unit, dir_entry_info list) sm" where
  "list_dir_op path =
     bnd (ok (resolve_path path)) (\<lambda>inode_idx.
     bnd (read_inode inode_idx) (\<lambda>i.
     if \<not> is_dir i then err () else
     bnd (ok (read_dir_entries inode_idx)) (\<lambda>ents.
     bnd (map_each ents (\<lambda>entry.
       bnd (attempt (read_inode (de_inode entry))) (\<lambda>r. ret (case r of
         Inr child \<Rightarrow> [\<lparr>di_name = de_name entry, di_is_dir = is_dir child, di_size = isize child\<rparr>]
       | Inl _ \<Rightarrow> [])))) (\<lambda>out.
     ret (concat out)))))"

definition read_file_op :: "string \<Rightarrow> (image_state, unit, bytes) sm" where
  "read_file_op path =
     bnd (ok (resolve_path path)) (\<lambda>inode_idx.
     bnd (read_inode inode_idx) (\<lambda>i.
     if \<not> is_file i then err () else
     ok (read_inode_bytes i)))"

definition metadata_op :: "string \<Rightarrow> (image_state, unit, metadata_info) sm" where
  "metadata_op path =
     bnd (ok (resolve_path path)) (\<lambda>inode_idx.
     bnd (read_inode inode_idx) (\<lambda>i.
     ret \<lparr>md_uid = iuid i, md_gid = igid i, md_mode = imode i, md_size = isize i, md_is_dir = is_dir i, md_is_file = is_file i\<rparr>))"

definition chmod_op :: "string \<Rightarrow> u16 \<Rightarrow> (image_state, fs_error, unit) sm" where
  "chmod_op path mode =
     bnd (resolve_path path) (\<lambda>inode_idx.
     bnd (ok_or NotFound (read_inode inode_idx)) (\<lambda>i.
     if kind i = KIND_FREE then err NotFound else
     write_inode inode_idx (i\<lparr>imode := and mode MODE_BITS\<rparr>)))"

definition chown_op :: "string \<Rightarrow> u32 \<Rightarrow> u32 \<Rightarrow> (image_state, fs_error, unit) sm" where
  "chown_op path u g =
     bnd (resolve_path path) (\<lambda>inode_idx.
     bnd (ok_or NotFound (read_inode inode_idx)) (\<lambda>i.
     if kind i = KIND_FREE then err NotFound else
     write_inode inode_idx (i\<lparr>iuid := u, igid := g\<rparr>)))"

definition write_file_op :: "string \<Rightarrow> bytes \<Rightarrow> (image_state, fs_error, unit) sm" where
  "write_file_op path data =
     bnd (resolve_path path) (\<lambda>inode_idx.
     bnd (ok_or NotFound (read_inode inode_idx)) (\<lambda>i.
     if \<not> is_file i then err InvalidPath else
     write_inode_bytes inode_idx data))"

definition delete_file_op :: "string \<Rightarrow> (image_state, fs_error, unit) sm" where
  "delete_file_op path =
     bnd (lift_res (split_parent_and_name path)) (\<lambda>(parent_path, name).
     bnd (resolve_path parent_path) (\<lambda>parent_inode.
     bnd (read_dir_entries parent_inode) (\<lambda>ents.
     bnd (lift_opt NotFound (position (\<lambda>entry. names_equal (de_name entry) name) ents)) (\<lambda>pos.
     let target_inode = de_inode (ents ! pos) in
     bnd (ok_or NotFound (read_inode target_inode)) (\<lambda>target.
     bnd (if is_dir target
          then bnd (read_dir_entries target_inode) (\<lambda>children. if children \<noteq> [] then err NotEmpty else ret ())
          else ret ()) (\<lambda>_.
     bnd (write_dir_entries parent_inode (take pos ents @ drop (Suc pos) ents)) (\<lambda>_.
     free_inode target_inode)))))))"

definition rename_op :: "string \<Rightarrow> string \<Rightarrow> (image_state, fs_error, bool) sm" where
  "rename_op path new_name =
     bnd (lift_res (split_parent_and_name path)) (\<lambda>(parent_path, old_name).
     if names_equal old_name new_name then ret False else
     bnd (resolve_path parent_path) (\<lambda>parent_inode.
     bnd (read_dir_entries parent_inode) (\<lambda>ents.
     if list_ex (\<lambda>entry. names_equal (de_name entry) new_name) ents then err AlreadyExists else
     bnd (lift_opt NotFound (position (\<lambda>entry. names_equal (de_name entry) old_name) ents)) (\<lambda>pos.
     bnd (write_dir_entries parent_inode (ents[pos := (ents ! pos)\<lparr>de_name := new_name\<rparr>])) (\<lambda>_.
     ret True)))))"

definition create_node_op :: "string \<Rightarrow> u8 \<Rightarrow> u32 \<Rightarrow> u32 \<Rightarrow> u16 \<Rightarrow> (image_state, fs_error, unit) sm" where
  "create_node_op path k u g m =
     bnd (lift_res (split_parent_and_name path)) (\<lambda>(parent_path, name).
     bnd (lift_res (validate_name name)) (\<lambda>_.
     bnd (resolve_path parent_path) (\<lambda>parent_inode.
     bnd (read_dir_entries parent_inode) (\<lambda>ents.
     if list_ex (\<lambda>entry. names_equal (de_name entry) name) ents then err AlreadyExists else
     bnd (alloc_inode_with_metadata k u g m) (\<lambda>inode_idx.
     bnd (attempt (write_dir_entries parent_inode (ents @ [\<lparr>de_inode = inode_idx, de_name = name\<rparr>]))) (\<lambda>r. case r of
       Inr _ \<Rightarrow> ret ()
     | Inl e \<Rightarrow> bnd (discard (free_inode inode_idx)) (\<lambda>_. err e)))))))"

section \<open>Reading first\<close>

lemma reads_then:
  assumes "reads q v m r" and "\<And>x. r = Inr x \<Longrightarrow> valid (img True v q) (f x) Q E"
    and "\<And>e s. r = Inl e \<Longrightarrow> img True v q s \<Longrightarrow> E e s"
  shows "valid (img True v q) (bnd m f) Q E"
proof (rule valid_bnd [where R = "\<lambda>x s. img True v q s \<and> r = Inr x"])
  show "valid (img True v q) m (\<lambda>x s. img True v q s \<and> r = Inr x) E"
    using assms(1) unfolding reads_def by (rule valid_weaken) (use assms(3) in auto)
  show "valid (\<lambda>s. img True v q s \<and> r = Inr x) (f x) Q E" for x by (rule valid_assume) (rule assms(2))
qed

lemma write_dir_spec:
  assumes "F d = Some f"
  shows "valid (coolfs q F) (write_dir_entries d es)
    (\<lambda>_ s. coolfs q (set_entries F d f es) s \<and> list_all (\<lambda>e. validate_name (de_name e) = Inr ()) es)
    (\<lambda>e s. coolfs q F s \<and> (e = NoSpace \<or> e = UnsupportedName \<and> encode_entries es = Inl UnsupportedName))"
proof (cases "encode_entries es")
  case (Inl e)
  then show ?thesis unfolding write_dir_entries_def Inl using encode_entries_Inl [OF Inl]
    by (simp add: valid_def bnd_def lift_res_def)
next
  case (Inr bs)
  have bs: "list_all (\<lambda>e. validate_name (de_name e) = Inr ()) es" "bs = concat (map entry_raw es)" using Inr by (auto simp: encode_entries_Inr)
  have "bnd (lift_res (Inr bs)) (write_inode_bytes d) = write_inode_bytes d bs" by (simp add: bnd_def lift_res_def)
  then show ?thesis unfolding write_dir_entries_def Inr
    using bs by (auto simp: set_entries_def intro!: valid_weaken [OF write_inode_bytes_coolfs [of F d f, OF assms]])
qed

section \<open>What an operation checks before it changes anything\<close>

definition parent_of :: "superblock \<Rightarrow> (u32 \<Rightarrow> fs_file option) \<Rightarrow> string \<Rightarrow> fs_error + u32 \<times> dir_entry list \<times> string" where
  "parent_of q F path =
     bind_res (split_parent_and_name path) (\<lambda>(pp, name).
     bind_res (resolve q F pp) (\<lambda>d.
     bind_res (entries_of q F d) (\<lambda>es. Inr (d, es, name))))"

definition create_check :: "superblock \<Rightarrow> (u32 \<Rightarrow> fs_file option) \<Rightarrow> string \<Rightarrow> fs_error + u32 \<times> dir_entry list \<times> string" where
  "create_check q F path = bind_res (parent_of q F path) (\<lambda>(d, es, name).
     if list_ex (\<lambda>e. names_equal (de_name e) name) es then Inl AlreadyExists else Inr (d, es, name))"

definition delete_check :: "superblock \<Rightarrow> (u32 \<Rightarrow> fs_file option) \<Rightarrow> string \<Rightarrow> fs_error + u32 \<times> dir_entry list \<times> nat" where
  "delete_check q F path = bind_res (parent_of q F path) (\<lambda>(d, es, name).
     case position (\<lambda>e. names_equal (de_name e) name) es of
       None \<Rightarrow> Inl NotFound
     | Some pos \<Rightarrow> if dir_ents q F (de_inode (es ! pos)) \<noteq> [] then Inl NotEmpty else Inr (d, es, pos))"

lemma parent_of_Inr:
  "parent_of q F path = Inr (d, es, name) \<longleftrightarrow>
    (\<exists>pp. split_parent_and_name path = Inr (pp, name) \<and> resolve q F pp = Inr d \<and> entries_of q F d = Inr es)"
  by (cases "split_parent_and_name path") (auto simp: parent_of_def bind_res_Inr)

lemma parent_resolve:
  assumes "parent_of q F path = Inr (d, es, name)"
  shows "resolve q F path = (case find_entry es name of None \<Rightarrow> Inl NotFound | Some e \<Rightarrow> Inr (de_inode e))"
    "validate_name name = Inr ()"
  using assms resolve_split split_parent_Inr(1) by (auto simp: parent_of_Inr dir_lookup_def)

text \<open>The common prefix of all operations on a directory.\<close>

lemma parent_then:
  assumes inv: "fs_inv q v"
    and f: "\<And>d es name. parent_of q (files q v) path = Inr (d, es, name) \<Longrightarrow> valid (img True v q) (f name d es) Q E"
    and e: "\<And>e s. parent_of q (files q v) path = Inl e \<Longrightarrow> img True v q s \<Longrightarrow> E e s"
  shows "valid (img True v q)
    (bnd (lift_res (split_parent_and_name path)) (\<lambda>(pp, name). bnd (resolve_path pp) (\<lambda>d. bnd (read_dir_entries d) (f name d)))) Q E"
proof (rule reads_then [OF reads_lift_res])
  fix x assume x: "split_parent_and_name path = Inr x"
  obtain pp name where pn: "x = (pp, name)" by (cases x)
  show "valid (img True v q) (case x of (pp, name) \<Rightarrow> bnd (resolve_path pp) (\<lambda>d. bnd (read_dir_entries d) (f name d))) Q E"
    unfolding pn prod.case
  proof (rule reads_then [OF reads_resolve_path [OF inv]], rule_tac [1] reads_then [OF reads_dir_entries [OF inv]])
    fix d es assume "resolve q (files q v) pp = Inr d" "entries_of q (files q v) d = Inr es"
    then show "valid (img True v q) (f name d es) Q E" using x pn by (intro f) (simp add: parent_of_Inr)
  next
    fix d e s assume "resolve q (files q v) pp = Inr d" "entries_of q (files q v) d = Inl e" "img True v q s"
    then show "E e s" using x pn by (intro e) (simp_all add: parent_of_def)
  next
    fix e s assume "resolve q (files q v) pp = Inl e" "img True v q s"
    then show "E e s" using x pn by (intro e) (simp_all add: parent_of_def)
  qed
qed (use e in \<open>simp add: parent_of_def\<close>)

lemma create_check_Inr:
  "create_check q F path = Inr (d, es, name) \<longleftrightarrow>
    parent_of q F path = Inr (d, es, name) \<and> \<not> list_ex (\<lambda>e. names_equal (de_name e) name) es"
  by (auto simp: create_check_def bind_res_Inr split: if_splits)

lemma bnd_lift_Inr: "bnd (lift_res (Inr x)) f = f x"
  by (simp add: bnd_def lift_res_def)

lemma create_validates:
  "create_node_op path k u g m =
     bnd (lift_res (split_parent_and_name path)) (\<lambda>(parent_path, name).
     bnd (resolve_path parent_path) (\<lambda>parent_inode.
     bnd (read_dir_entries parent_inode) (\<lambda>ents.
     if list_ex (\<lambda>entry. names_equal (de_name entry) name) ents then err AlreadyExists else
     bnd (alloc_inode_with_metadata k u g m) (\<lambda>inode_idx.
     bnd (attempt (write_dir_entries parent_inode (ents @ [\<lparr>de_inode = inode_idx, de_name = name\<rparr>]))) (\<lambda>r. case r of
       Inr _ \<Rightarrow> ret ()
     | Inl e \<Rightarrow> bnd (discard (free_inode inode_idx)) (\<lambda>_. err e))))))"
proof (cases "split_parent_and_name path")
  case (Inr x)
  obtain pp name where x: "x = (pp, name)" by (cases x)
  have "validate_name name = Inr ()" using split_parent_Inr(1) Inr x by simp
  then show ?thesis unfolding create_node_op_def Inr bnd_lift_Inr x prod.case by (simp only: bnd_lift_Inr)
next
  case (Inl e)
  then show ?thesis by (simp add: create_node_op_def bnd_def lift_res_def)
qed

lemma kind_cases: "k = KIND_FILE \<or> k = KIND_DIR \<Longrightarrow> k \<noteq> KIND_FREE"
  by auto

lemma empty_file_simps [simp]: "fkind (empty_file k u g m) = k" "fdata (empty_file k u g m) = []" "fuid (empty_file k u g m) = u"
  "fgid (empty_file k u g m) = g"
  by (simp_all add: empty_file_def)

lemma create_tail:
  assumes tr: "tree_inv q F" and c: "create_check q F path = Inr (d, es, name)" and k: "k = KIND_FILE \<or> k = KIND_DIR"
  shows "valid (coolfs q F)
     (bnd (alloc_inode_with_metadata k u g m) (\<lambda>inode_idx.
     bnd (attempt (write_dir_entries d (es @ [\<lparr>de_inode = inode_idx, de_name = name\<rparr>]))) (\<lambda>r. case r of
       Inr _ \<Rightarrow> ret ()
     | Inl e \<Rightarrow> bnd (discard (free_inode inode_idx)) (\<lambda>_. err e))))
    (\<lambda>_ s. \<exists>idx. F idx = None \<and> idx \<noteq> 0 \<and> coolfs q (create_at F d es name idx (empty_file k u g m)) s)
    (\<lambda>e s. e = NoSpace \<and> coolfs q F s)"
proof -
  let ?new = "empty_file k u g m"
  let ?es = "\<lambda>idx. es @ [\<lparr>de_inode = idx, de_name = name\<rparr>]"
  let ?Q = "\<lambda>_ s. \<exists>idx. F idx = None \<and> idx \<noteq> 0 \<and> coolfs q (create_at F d es name idx ?new) s"
  let ?E = "\<lambda>e s. e = NoSpace \<and> coolfs q F s"
  obtain f where f: "F d = Some f" using c by (auto simp: create_check_Inr parent_of_Inr entries_of_Inr)
  have p: "parent_of q F path = Inr (d, es, name)" using c by (simp add: create_check_Inr)
  have d: "entries_of q F d = Inr es" using p by (auto simp: parent_of_Inr)
  note n = parent_resolve(2) [OF p]
  have ok: "encode_entries (?es idx) \<noteq> Inl UnsupportedName" for idx
  proof -
    have "list_all (\<lambda>e. validate_name (de_name e) = Inr ()) (?es idx)"
      using tree_inv_ok(1) [OF tr d] n by (auto simp: list_all_iff entry_ok_def)
    then have "encode_entries (?es idx) = Inr (concat (map entry_raw (?es idx)))" unfolding encode_entries_Inr by blast
    then show ?thesis by simp
  qed
  have tail: "valid (coolfs q (F(idx \<mapsto> ?new))) (bnd (attempt (write_dir_entries d (?es idx))) (\<lambda>r. case r of
       Inr _ \<Rightarrow> ret () | Inl e \<Rightarrow> bnd (discard (free_inode idx)) (\<lambda>_. err e))) ?Q ?E"
    if idx: "F idx = None" "idx \<noteq> 0" for idx
  proof -
    let ?F1 = "F(idx \<mapsto> ?new)"
    have f1: "?F1 d = Some f" using f idx by auto
    let ?R = "\<lambda>r s. case r of Inr _ \<Rightarrow> coolfs q (set_entries ?F1 d f (?es idx)) s | Inl e \<Rightarrow> e = NoSpace \<and> coolfs q ?F1 s"
    have 1: "valid (coolfs q ?F1) (attempt (write_dir_entries d (?es idx))) ?R ?E"
      by (rule valid_attempt, rule valid_weaken [OF write_dir_spec [of ?F1 d f, OF f1]]) (use ok [of idx] in auto)
    have G: "create_at F d es name idx ?new = set_entries ?F1 d f (?es idx)" using f by (simp add: create_at_def)
    have undo: "?F1(idx := None) = F" using idx by auto
    have 2: "valid (\<lambda>s. e = NoSpace \<and> coolfs q ?F1 s) (bnd (discard (free_inode idx)) (\<lambda>_. err e)) ?Q ?E" for e
    proof (rule valid_pre [where P' = "\<lambda>s. coolfs q ?F1 s \<and> e = NoSpace"], rule valid_assume)
      assume e: "e = NoSpace"
      have "valid (coolfs q ?F1) (discard (free_inode idx)) (\<lambda>_. coolfs q F) ?E"
        using free_inode_coolfs [of ?F1 idx ?new q] undo by (intro discard_valid) simp_all
      then show "valid (coolfs q ?F1) (bnd (discard (free_inode idx)) (\<lambda>_. err e)) ?Q ?E"
        by (rule valid_bnd) (simp add: valid_err e)
    qed auto
    show ?thesis
    proof (rule valid_bnd [OF 1])
      fix r show "valid (?R r) (case r of Inr _ \<Rightarrow> ret () | Inl e \<Rightarrow> bnd (discard (free_inode idx)) (\<lambda>_. err e)) ?Q ?E"
        using 2 idx G by (cases r) (auto intro!: valid_ret)
    qed
  qed
  show ?thesis
  proof (rule valid_bnd [OF alloc_inode_coolfs [OF kind_cases [OF k]]])
    fix idx
    show "valid (\<lambda>s. F idx = None \<and> idx \<noteq> 0 \<and> coolfs q (F(idx \<mapsto> ?new)) s) (bnd (attempt (write_dir_entries d (?es idx))) (\<lambda>r. case r of
       Inr _ \<Rightarrow> ret () | Inl e \<Rightarrow> bnd (discard (free_inode idx)) (\<lambda>_. err e))) ?Q ?E"
      by (rule valid_pre [where P' = "\<lambda>s. coolfs q (F(idx \<mapsto> ?new)) s \<and> (F idx = None \<and> idx \<noteq> 0)"], rule valid_assume)
        (use tail in auto)
  qed
qed

lemma create_node_spec:
  assumes tr: "tree_inv q F" and k: "k = KIND_FILE \<or> k = KIND_DIR"
  shows "valid (coolfs q F) (create_node_op path k u g m)
    (\<lambda>_ s. \<exists>d es name idx. create_check q F path = Inr (d, es, name) \<and> F idx = None \<and> idx \<noteq> 0 \<and>
       coolfs q (create_at F d es name idx (empty_file k u g m)) s)
    (\<lambda>e s. coolfs q F s \<and> (create_check q F path = Inl e \<or> e = NoSpace))"
  unfolding create_validates
proof (rule valid_coolfs, rule parent_then)
  fix v assume v: "fs_inv q v" "files q v = F"
  have img: "img True v q s \<Longrightarrow> coolfs q F s" for s using v by (auto intro: coolfsI)
  show "fs_inv q v" by (rule v(1))
  show "coolfs q F s \<and> (create_check q F path = Inl e \<or> e = NoSpace)"
    if "parent_of q (files q v) path = Inl e" "img True v q s" for e s
    using that img v by (simp add: create_check_def)
  fix d es name assume p: "parent_of q (files q v) path = Inr (d, es, name)"
  let ?ex = "list_ex (\<lambda>entry. names_equal (de_name entry) name) es"
  show "valid (img True v q) (if ?ex then err AlreadyExists else
     bnd (alloc_inode_with_metadata k u g m) (\<lambda>inode_idx.
     bnd (attempt (write_dir_entries d (es @ [\<lparr>de_inode = inode_idx, de_name = name\<rparr>]))) (\<lambda>r. case r of
       Inr _ \<Rightarrow> ret () | Inl e \<Rightarrow> bnd (discard (free_inode inode_idx)) (\<lambda>_. err e))))
    (\<lambda>_ s. \<exists>d es name idx. create_check q F path = Inr (d, es, name) \<and> F idx = None \<and> idx \<noteq> 0 \<and>
       coolfs q (create_at F d es name idx (empty_file k u g m)) s)
    (\<lambda>e s. coolfs q F s \<and> (create_check q F path = Inl e \<or> e = NoSpace))"
  proof (rule valid_if)
    assume ?ex
    then show "valid (img True v q) (err AlreadyExists)
      (\<lambda>_ s. \<exists>d es name idx. create_check q F path = Inr (d, es, name) \<and> F idx = None \<and> idx \<noteq> 0 \<and>
         coolfs q (create_at F d es name idx (empty_file k u g m)) s)
      (\<lambda>e s. coolfs q F s \<and> (create_check q F path = Inl e \<or> e = NoSpace))"
      using p v img by (intro valid_err) (simp add: create_check_def)
  next
    assume "\<not> ?ex"
    then have c: "create_check q F path = Inr (d, es, name)" using p v by (simp add: create_check_Inr)
    show "valid (img True v q) (bnd (alloc_inode_with_metadata k u g m) (\<lambda>inode_idx.
       bnd (attempt (write_dir_entries d (es @ [\<lparr>de_inode = inode_idx, de_name = name\<rparr>]))) (\<lambda>r. case r of
         Inr _ \<Rightarrow> ret () | Inl e \<Rightarrow> bnd (discard (free_inode inode_idx)) (\<lambda>_. err e))))
      (\<lambda>_ s. \<exists>d es name idx. create_check q F path = Inr (d, es, name) \<and> F idx = None \<and> idx \<noteq> 0 \<and>
         coolfs q (create_at F d es name idx (empty_file k u g m)) s)
      (\<lambda>e s. coolfs q F s \<and> (create_check q F path = Inl e \<or> e = NoSpace))"
      by (rule valid_weaken [OF create_tail [OF tr c k]]) (use img c in auto)
  qed
qed

section \<open>Deleting and renaming\<close>

lemma position_find: "map_option ((!) xs) (position p xs) = find p xs"
  by (induction xs) (auto simp: option.map_comp comp_def)

lemma find_entry_position: "find_entry es c = map_option ((!) es) (position (\<lambda>e. names_equal (de_name e) c) es)"
  by (simp add: find_entry_def position_find)

lemma encode_ok:
  "list_all entry_ok es \<Longrightarrow> encode_entries es \<noteq> Inl UnsupportedName"
proof -
  assume "list_all entry_ok es"
  then have "encode_entries es = Inr (concat (map entry_raw es))" unfolding encode_entries_Inr by (auto simp: list_all_iff entry_ok_def)
  then show ?thesis by simp
qed

lemma write_dir_ok:
  assumes "F d = Some f" and "list_all entry_ok es"
  shows "valid (coolfs q F) (write_dir_entries d es) (\<lambda>_. coolfs q (set_entries F d f es)) (\<lambda>e s. e = NoSpace \<and> coolfs q F s)"
  by (rule valid_weaken [OF write_dir_spec [of F d f, OF assms(1)]]) (use encode_ok [OF assms(2)] in auto)

lemma resolve_live:
  assumes inv: "tree_inv q F"
  shows "walk q F cs (root_inode q) = Inr i \<Longrightarrow> \<exists>f. F i = Some f"
proof (induction cs arbitrary: i rule: rev_induct)
  case Nil
  then show ?case using inv by (auto simp: tree_inv_def)
next
  case (snoc c cs)
  then obtain a where "dir_lookup q F a c = Inr i" by (auto simp: walk_snoc bind_res_Inr)
  then show ?case using lookup_edge treeD(3) [OF tree_inv_tree [OF inv]] by blast
qed

lemma delete_check_Inr:
  "delete_check q F path = Inr (d, es, pos) \<longleftrightarrow>
    (\<exists>name. parent_of q F path = Inr (d, es, name) \<and> position (\<lambda>e. names_equal (de_name e) name) es = Some pos \<and>
       dir_ents q F (de_inode (es ! pos)) = [])"
  by (cases "parent_of q F path") (auto simp: delete_check_def split: option.splits if_splits)

lemma stat_child:
  assumes v: "fs_inv q v" and tr: "tree_inv q (files q v)" and e: "e \<in> set (dir_ents q (files q v) d)"
  obtains i where "ino q v (de_inode e) = Some i" "stat_of q v (de_inode e) = Inr i"
proof -
  have "de_inode e \<in> dom (files q v)" by (rule treeD(3) [OF tree_inv_tree [OF tr] e])
  then obtain i where "ino q v (de_inode e) = Some i" by (auto simp: files_def)
  then show thesis using stat_of_live that by blast
qed

text \<open>The check for an empty directory succeeds exactly when the target has no entries.\<close>

lemma reads_leaf_check:
  assumes v: "fs_inv q v" and tr: "tree_inv q (files q v)" and i: "ino q v t = Some i"
  shows "reads q v (if is_dir i
      then bnd (read_dir_entries t) (\<lambda>children. if children \<noteq> [] then err NotEmpty else ret ()) else ret ())
    (if dir_ents q (files q v) t \<noteq> [] then Inl NotEmpty else Inr ())"
proof (cases "is_dir i")
  case True
  let ?F = "files q v"
  have e: "entries_of q ?F t = Inr (dir_ents q ?F t)"
    by (rule tree_inv_entries [OF tr, of t "file_of v i"]) (use i True in \<open>simp_all add: files_def file_of_def is_dir_def\<close>)
  have "reads q v (bnd (read_dir_entries t) (\<lambda>children. if children \<noteq> [] then err NotEmpty else ret ()))
    (bind_res (entries_of q ?F t) (\<lambda>children. if children \<noteq> [] then Inl NotEmpty else Inr ()))"
    by (intro reads_intros reads_dir_entries [OF v])
  then show ?thesis using True e by simp
next
  case False
  have "dir_ents q (files q v) t = []" using i False by (simp add: dir_ents_def entries_of_def files_def file_of_def is_dir_def)
  then show ?thesis using False by (simp add: reads_ret)
qed

lemma delete_file_spec:
  assumes tr: "tree_inv q F"
  shows "valid (coolfs q F) (delete_file_op path)
    (\<lambda>_ s. \<exists>d es pos. delete_check q F path = Inr (d, es, pos) \<and> coolfs q (delete_at F d es pos) s)
    (\<lambda>e s. coolfs q F s \<and> (delete_check q F path = Inl e \<or> e = NoSpace))"
  unfolding delete_file_op_def
proof (rule valid_coolfs, rule parent_then)
  fix v assume v: "fs_inv q v" "files q v = F"
  let ?Q = "\<lambda>_ s. \<exists>d es pos. delete_check q F path = Inr (d, es, pos) \<and> coolfs q (delete_at F d es pos) s"
  let ?E = "\<lambda>e s. coolfs q F s \<and> (delete_check q F path = Inl e \<or> e = NoSpace)"
  have img: "img True v q s \<Longrightarrow> coolfs q F s" for s using v by (auto intro: coolfsI)
  show "fs_inv q v" by (rule v(1))
  show "?E e s" if "parent_of q (files q v) path = Inl e" "img True v q s" for e s
    using that img v by (simp add: delete_check_def)
  fix d es name assume p: "parent_of q (files q v) path = Inr (d, es, name)"
  then have p': "parent_of q F path = Inr (d, es, name)" and d: "entries_of q F d = Inr es" using v by (auto simp: parent_of_Inr)
  have pos_err: "?E NotFound s" if "img True v q s" "position (\<lambda>e. names_equal (de_name e) name) es = None" for s
    using that img p' by (simp add: delete_check_def)
  show "valid (img True v q) (bnd (lift_opt NotFound (position (\<lambda>entry. names_equal (de_name entry) name) es)) (\<lambda>pos.
     let target_inode = de_inode (es ! pos) in
     bnd (ok_or NotFound (read_inode target_inode)) (\<lambda>target.
     bnd (if is_dir target
          then bnd (read_dir_entries target_inode) (\<lambda>children. if children \<noteq> [] then err NotEmpty else ret ())
          else ret ()) (\<lambda>_.
     bnd (write_dir_entries d (take pos es @ drop (Suc pos) es)) (\<lambda>_.
     free_inode target_inode))))) ?Q ?E"
    unfolding Let_def
  proof (rule reads_then [OF reads_lift_opt])
    fix pos assume "(case position (\<lambda>entry. names_equal (de_name entry) name) es of None \<Rightarrow> Inl NotFound | Some x \<Rightarrow> Inr x) = Inr pos"
    then have pos: "position (\<lambda>e. names_equal (de_name e) name) es = Some pos" by (auto split: option.splits)
    note pl = position_Some [OF pos]
    let ?t = "de_inode (es ! pos)" and ?es' = "take pos es @ drop (Suc pos) es"
    have mem: "es ! pos \<in> set (dir_ents q (files q v) d)" using pl dir_entsI [OF d] v by simp
    obtain i where i: "ino q v ?t = Some i" "stat_of q v ?t = Inr i" using stat_child [OF v(1) _ mem] tr v(2) by blast
    have rd: "reads q v (ok_or NotFound (read_inode ?t)) (Inr i :: fs_error + inode)"
      using reads_map_err [OF reads_inode [OF v(1), of ?t], of "\<lambda>_. NotFound"] i(2) by simp
    note leaf = reads_leaf_check [OF v(1) _ i(1)]
    obtain f where f: "F d = Some f" using d by (auto simp: entries_of_Inr)
    have wr: "valid (coolfs q F) (bnd (write_dir_entries d ?es') (\<lambda>_. free_inode ?t)) ?Q ?E" if l: "dir_ents q F ?t = []"
    proof -
      have c: "delete_check q F path = Inr (d, es, pos)" using p' pos l by (simp add: delete_check_Inr)
      let ?G = "set_entries F d f ?es'"
      have ne: "d \<noteq> ?t" by (rule delete_entries(3) [OF tr d _ l]) (use pl in simp)
      have "?G ?t = Some (file_of v i)" using ne i(1) v(2) by (auto simp: set_entries_def files_def)
      from free_inode_coolfs [of ?G, OF this] have "valid (coolfs q ?G) (free_inode ?t) (\<lambda>_. coolfs q (delete_at F d es pos)) ?E"
        using f by (simp add: delete_at_def)
      then have fr: "valid (coolfs q ?G) (free_inode ?t) ?Q ?E" by (rule valid_weaken) (use c in auto)
      have "valid (coolfs q F) (write_dir_entries d ?es') (\<lambda>_. coolfs q ?G) ?E"
        by (rule valid_weaken [OF write_dir_ok [of F d f, OF f list_all_remove [OF tree_inv_ok(1) [OF tr d]]]]) auto
      then show ?thesis by (rule valid_bnd) (rule fr)
    qed
    show "valid (img True v q) (bnd (ok_or NotFound (read_inode ?t)) (\<lambda>target.
       bnd (if is_dir target then bnd (read_dir_entries ?t) (\<lambda>children. if children \<noteq> [] then err NotEmpty else ret ()) else ret ()) (\<lambda>_.
       bnd (write_dir_entries d ?es') (\<lambda>_. free_inode ?t)))) ?Q ?E"
    proof (rule reads_then [OF rd], drule Inr_inject, hypsubst, rule reads_then [OF leaf])
      show "tree_inv q (files q v)" using tr v by simp
      show "valid (img True v q) (bnd (write_dir_entries d ?es') (\<lambda>_. free_inode ?t)) ?Q ?E"
        if "(if dir_ents q (files q v) ?t \<noteq> [] then Inl NotEmpty else Inr ()) = Inr x" for x :: unit
        using that v by (intro valid_pre [OF wr img]) (auto split: if_splits)
      show "?E e s" if "(if dir_ents q (files q v) ?t \<noteq> [] then Inl NotEmpty else Inr ()) = Inl e" "img True v q s" for e s
        using that p' pos v img by (auto simp: delete_check_def split: if_splits)
    qed simp
  qed (use pos_err in \<open>auto split: option.splits\<close>)
qed

definition rename_check ::
  "superblock \<Rightarrow> (u32 \<Rightarrow> fs_file option) \<Rightarrow> string \<Rightarrow> string \<Rightarrow> fs_error + u32 \<times> dir_entry list \<times> nat" where
  "rename_check q F path new_name = bind_res (parent_of q F path) (\<lambda>(d, es, old_name).
     if list_ex (\<lambda>e. names_equal (de_name e) new_name) es then Inl AlreadyExists else
     case position (\<lambda>e. names_equal (de_name e) old_name) es of None \<Rightarrow> Inl NotFound | Some pos \<Rightarrow> Inr (d, es, pos))"

text \<open>\<open>same_name path new_name\<close>: the last component of \<open>path\<close> is \<open>new_name\<close> up to case, and \<open>rename\<close> does nothing.\<close>

definition same_name :: "string \<Rightarrow> string \<Rightarrow> bool" where
  "same_name path new_name \<longleftrightarrow> (case split_parent_and_name path of Inr (_, old_name) \<Rightarrow> names_equal old_name new_name | Inl _ \<Rightarrow> False)"

lemma rename_check_Inr:
  "rename_check q F path n = Inr (d, es, pos) \<longleftrightarrow>
    (\<exists>name. parent_of q F path = Inr (d, es, name) \<and> \<not> list_ex (\<lambda>e. names_equal (de_name e) n) es \<and>
       position (\<lambda>e. names_equal (de_name e) name) es = Some pos)"
  by (cases "parent_of q F path") (auto simp: rename_check_def split: option.splits if_splits)

lemma rename_moves:
  "\<not> same_name path n \<Longrightarrow> rename_op path n =
     bnd (lift_res (split_parent_and_name path)) (\<lambda>(parent_path, old_name).
     bnd (resolve_path parent_path) (\<lambda>parent_inode.
     bnd (read_dir_entries parent_inode) (\<lambda>ents.
     if list_ex (\<lambda>entry. names_equal (de_name entry) n) ents then err AlreadyExists else
     bnd (lift_opt NotFound (position (\<lambda>entry. names_equal (de_name entry) old_name) ents)) (\<lambda>pos.
     bnd (write_dir_entries parent_inode (ents[pos := (ents ! pos)\<lparr>de_name := n\<rparr>])) (\<lambda>_.
     ret True)))))"
proof (cases "split_parent_and_name path")
  case (Inr x)
  assume "\<not> same_name path n"
  then show ?thesis unfolding rename_op_def Inr bnd_lift_Inr using Inr by (cases x) (simp add: same_name_def)
qed (simp add: rename_op_def bnd_def lift_res_def)

lemma rename_same: "same_name path n \<Longrightarrow> rename_op path n = ret False"
  by (auto simp: same_name_def rename_op_def bnd_lift_Inr split: sum.splits)

lemma list_all_rename: "list_all entry_ok es \<Longrightarrow> validate_name n = Inr () \<Longrightarrow> pos < length es \<Longrightarrow>
    list_all entry_ok (es[pos := (es ! pos)\<lparr>de_name := n\<rparr>])"
  by (simp add: list_all_length nth_list_update entry_ok_def)

lemma rename_spec:
  assumes tr: "tree_inv q F" and n: "validate_name n = Inr ()" and ne: "\<not> same_name path n"
  shows "valid (coolfs q F) (rename_op path n)
    (\<lambda>r s. r \<and> (\<exists>d es pos. rename_check q F path n = Inr (d, es, pos) \<and> coolfs q (rename_at F d es pos n) s))
    (\<lambda>e s. coolfs q F s \<and> (rename_check q F path n = Inl e \<or> e = NoSpace))"
  unfolding rename_moves [OF ne]
proof (rule valid_coolfs, rule parent_then)
  fix v assume v: "fs_inv q v" "files q v = F"
  let ?Q = "\<lambda>r s. r \<and> (\<exists>d es pos. rename_check q F path n = Inr (d, es, pos) \<and> coolfs q (rename_at F d es pos n) s)"
  let ?E = "\<lambda>e s. coolfs q F s \<and> (rename_check q F path n = Inl e \<or> e = NoSpace)"
  have img: "img True v q s \<Longrightarrow> coolfs q F s" for s using v by (auto intro: coolfsI)
  show "fs_inv q v" by (rule v(1))
  show "?E e s" if "parent_of q (files q v) path = Inl e" "img True v q s" for e s
    using that img v by (simp add: rename_check_def)
  fix d es name assume p: "parent_of q (files q v) path = Inr (d, es, name)"
  then have p': "parent_of q F path = Inr (d, es, name)" and d: "entries_of q F d = Inr es" using v by (auto simp: parent_of_Inr)
  obtain f where f: "F d = Some f" using d by (auto simp: entries_of_Inr)
  let ?ex = "list_ex (\<lambda>entry. names_equal (de_name entry) n) es"
  have wr: "valid (coolfs q F) (bnd (write_dir_entries d (es[pos := (es ! pos)\<lparr>de_name := n\<rparr>])) (\<lambda>_. ret True)) ?Q ?E"
    if c: "rename_check q F path n = Inr (d, es, pos)" for pos
  proof -
    have pos: "pos < length es" using c position_Some p' by (fastforce simp: rename_check_Inr)
    let ?es' = "es[pos := (es ! pos)\<lparr>de_name := n\<rparr>]"
    have "rename_at F d es pos n = set_entries F d f ?es'" using f by (simp add: rename_at_def)
    then have "valid (coolfs q (set_entries F d f ?es')) (ret True) ?Q ?E" using c by (intro valid_ret) auto
    moreover have "valid (coolfs q F) (write_dir_entries d ?es') (\<lambda>_. coolfs q (set_entries F d f ?es')) ?E"
      by (rule valid_weaken [OF write_dir_ok [of F d f, OF f list_all_rename [OF tree_inv_ok(1) [OF tr d] n pos]]]) auto
    ultimately show ?thesis by (intro valid_bnd)
  qed
  show "valid (img True v q) (if ?ex then err AlreadyExists else
     bnd (lift_opt NotFound (position (\<lambda>entry. names_equal (de_name entry) name) es)) (\<lambda>pos.
     bnd (write_dir_entries d (es[pos := (es ! pos)\<lparr>de_name := n\<rparr>])) (\<lambda>_. ret True))) ?Q ?E"
  proof (rule valid_if)
    assume ?ex
    then show "valid (img True v q) (err AlreadyExists) ?Q ?E"
      using p' img by (intro valid_err) (simp add: rename_check_def)
  next
    assume nex: "\<not> ?ex"
    show "valid (img True v q) (bnd (lift_opt NotFound (position (\<lambda>entry. names_equal (de_name entry) name) es)) (\<lambda>pos.
       bnd (write_dir_entries d (es[pos := (es ! pos)\<lparr>de_name := n\<rparr>])) (\<lambda>_. ret True))) ?Q ?E"
    proof (rule reads_then [OF reads_lift_opt])
      fix pos assume "(case position (\<lambda>entry. names_equal (de_name entry) name) es of None \<Rightarrow> Inl NotFound | Some x \<Rightarrow> Inr x) = Inr pos"
      then have "rename_check q F path n = Inr (d, es, pos)" using p' nex by (auto simp: rename_check_Inr split: option.splits)
      then show "valid (img True v q) (bnd (write_dir_entries d (es[pos := (es ! pos)\<lparr>de_name := n\<rparr>])) (\<lambda>_. ret True)) ?Q ?E"
        by (intro valid_pre [OF wr img])
    qed (use p' nex img in \<open>auto simp: rename_check_def split: option.splits\<close>)
  qed
qed

section \<open>Files and metadata\<close>

definition live_at :: "superblock \<Rightarrow> (u32 \<Rightarrow> fs_file option) \<Rightarrow> string \<Rightarrow> fs_error + u32 \<times> fs_file" where
  "live_at q F path = bind_res (resolve q F path) (\<lambda>i. case F i of None \<Rightarrow> Inl NotFound | Some f \<Rightarrow> Inr (i, f))"

definition file_at :: "superblock \<Rightarrow> (u32 \<Rightarrow> fs_file option) \<Rightarrow> string \<Rightarrow> fs_error + u32 \<times> fs_file" where
  "file_at q F path = bind_res (live_at q F path) (\<lambda>(i, f). if fkind f = KIND_FILE then Inr (i, f) else Inl InvalidPath)"

lemma resolve_alive: "tree_inv q F \<Longrightarrow> resolve q F path = Inr i \<Longrightarrow> \<exists>f. F i = Some f"
  using resolve_live by (auto simp: resolve_def bind_res_Inr)

text \<open>Every path operation on an existing file starts by resolving the path and reading the inode.\<close>

lemma live_then:
  assumes v: "fs_inv q v" and tr: "tree_inv q (files q v)"
    and f: "\<And>idx i. live_at q (files q v) path = Inr (idx, file_of v i) \<Longrightarrow> ino q v idx = Some i \<Longrightarrow> valid (img True v q) (f idx i) Q E"
    and e: "\<And>e s. live_at q (files q v) path = Inl e \<Longrightarrow> img True v q s \<Longrightarrow> E e s"
  shows "valid (img True v q) (bnd (resolve_path path) (\<lambda>idx. bnd (ok_or NotFound (read_inode idx)) (f idx))) Q E"
proof (rule reads_then [OF reads_resolve_path [OF v]])
  fix idx assume r: "resolve q (files q v) path = Inr idx"
  obtain i where i: "ino q v idx = Some i" using resolve_alive [OF tr r] by (auto simp: files_def)
  have rd: "reads q v (ok_or NotFound (read_inode idx)) (Inr i :: fs_error + inode)"
    using reads_map_err [OF reads_inode [OF v, of idx], of "\<lambda>_. NotFound"] stat_of_live [OF i] by simp
  show "valid (img True v q) (bnd (ok_or NotFound (read_inode idx)) (f idx)) Q E"
    by (rule reads_then [OF rd]) (use r i in \<open>auto simp: live_at_def files_def intro!: f\<close>)
qed (use e in \<open>auto simp: live_at_def\<close>)

lemma reads_live:
  assumes v: "fs_inv q v" and tr: "tree_inv q (files q v)"
    and f: "\<And>idx i. live_at q (files q v) path = Inr (idx, file_of v i) \<Longrightarrow> ino q v idx = Some i \<Longrightarrow> reads q v (f i) (g (file_of v i))"
  shows "reads q v (bnd (ok (resolve_path path)) (\<lambda>idx. bnd (read_inode idx) f))
    (bind_res (map_sum (\<lambda>_. ()) id (live_at q (files q v) path)) (\<lambda>(_, x). g x))"
proof (cases "resolve q (files q v) path")
  case (Inr idx)
  obtain i where i: "ino q v idx = Some i" using resolve_alive [OF tr Inr] by (auto simp: files_def)
  have l: "live_at q (files q v) path = Inr (idx, file_of v i)" using Inr i by (simp add: live_at_def files_def)
  have "reads q v (bnd (ok (resolve_path path)) (\<lambda>idx. bnd (read_inode idx) f))
    (bind_res (map_sum (\<lambda>_. ()) id (resolve q (files q v) path)) (\<lambda>j. bind_res (stat_of q v j) (\<lambda>_. g (file_of v i))))"
    by (rule reads_bnd [OF reads_map_err [OF reads_resolve_path [OF v]]], rule reads_bnd [OF reads_inode [OF v]])
      (use Inr stat_of_live [OF i] f [OF l i] in auto)
  then show ?thesis using Inr stat_of_live [OF i] l by simp
next
  case (Inl e)
  have "reads q v (bnd (ok (resolve_path path)) (\<lambda>idx. bnd (read_inode idx) f))
    (bind_res (map_sum (\<lambda>_. ()) id (resolve q (files q v) path)) (\<lambda>_. Inl ()))"
    by (rule reads_bnd [OF reads_map_err [OF reads_resolve_path [OF v]]]) (use Inl in simp)
  then show ?thesis using Inl by (simp add: live_at_def)
qed

lemma reads_file:
  assumes v: "fs_inv q v" and tr: "tree_inv q (files q v)"
  shows "reads q v (read_file_op path) (map_sum (\<lambda>_. ()) (\<lambda>(_, f). fdata f) (file_at q (files q v) path))"
proof -
  let ?g = "\<lambda>f. if fkind f = KIND_FILE then Inr (fdata f) else Inl ()"
  have "reads q v (read_file_op path) (bind_res (map_sum (\<lambda>_. ()) id (live_at q (files q v) path)) (\<lambda>(_, x). ?g x))"
    unfolding read_file_op_def
  proof (rule reads_live [OF v tr])
    fix idx i assume i: "ino q v idx = Some i"
    have "reads q v (ok (read_inode_bytes i)) (Inr (file_content v i) :: unit + bytes)"
      using reads_map_err [OF reads_inode_bytes [OF v i], of "\<lambda>_. ()"] by simp
    then show "reads q v (if \<not> is_file i then err () else ok (read_inode_bytes i)) (?g (file_of v i))"
      by (simp add: is_file_def file_of_def reads_err)
  qed
  moreover have "bind_res (map_sum (\<lambda>_. ()) id (live_at q (files q v) path)) (\<lambda>(_, x). ?g x) =
      map_sum (\<lambda>_. ()) (\<lambda>(_, f). fdata f) (file_at q (files q v) path)"
    by (cases "live_at q (files q v) path") (auto simp: file_at_def)
  ultimately show ?thesis by simp
qed

lemma write_file_spec:
  assumes tr: "tree_inv q F"
  shows "valid (coolfs q F) (write_file_op path data)
    (\<lambda>_ s. \<exists>i f. file_at q F path = Inr (i, f) \<and> coolfs q (F(i \<mapsto> f\<lparr>fdata := data\<rparr>)) s)
    (\<lambda>e s. coolfs q F s \<and> (file_at q F path = Inl e \<or> e = NoSpace))"
  unfolding write_file_op_def
proof (rule valid_coolfs, rule live_then)
  fix v assume v: "fs_inv q v" "files q v = F"
  let ?Q = "\<lambda>_ s. \<exists>i f. file_at q F path = Inr (i, f) \<and> coolfs q (F(i \<mapsto> f\<lparr>fdata := data\<rparr>)) s"
  let ?E = "\<lambda>e s. coolfs q F s \<and> (file_at q F path = Inl e \<or> e = NoSpace)"
  have img: "img True v q s \<Longrightarrow> coolfs q F s" for s using v by (auto intro: coolfsI)
  show "fs_inv q v" "tree_inv q (files q v)" using v tr by auto
  show "?E e s" if "live_at q (files q v) path = Inl e" "img True v q s" for e s using that v img by (simp add: file_at_def)
  fix idx i assume l: "live_at q (files q v) path = Inr (idx, file_of v i)" and i: "ino q v idx = Some i"
  show "valid (img True v q) (if \<not> is_file i then err InvalidPath else write_inode_bytes idx data) ?Q ?E"
  proof (rule valid_if)
    assume "\<not> is_file i"
    then show "valid (img True v q) (err InvalidPath) ?Q ?E"
      using l v img by (intro valid_err) (simp add: file_at_def is_file_def file_of_def)
  next
    assume "\<not> \<not> is_file i"
    then have fa: "file_at q F path = Inr (idx, file_of v i)" using l v by (simp add: file_at_def is_file_def file_of_def)
    have "F idx = Some (file_of v i)" using i v by (auto simp: files_def)
    from write_inode_bytes_coolfs [of F, OF this] show "valid (img True v q) (write_inode_bytes idx data) ?Q ?E"
      by (rule valid_weaken) (use img fa in auto)
  qed
qed

text \<open>The mode that is in effect after \<open>mode\<close> was stored for a file of kind \<open>k\<close>: a stored 0 reads back as the default.\<close>

definition stored_mode :: "u8 \<Rightarrow> u16 \<Rightarrow> u16" where
  "stored_mode k mode = (let m = and mode MODE_BITS in
     if m = 0 then (if k = KIND_DIR then DEFAULT_DIR_MODE else DEFAULT_FILE_MODE) else m)"

lemma chmod_spec:
  assumes tr: "tree_inv q F"
  shows "valid (coolfs q F) (chmod_op path mode)
    (\<lambda>_ s. \<exists>i f. live_at q F path = Inr (i, f) \<and> coolfs q (F(i \<mapsto> f\<lparr>fmode := stored_mode (fkind f) mode\<rparr>)) s)
    (\<lambda>e s. coolfs q F s \<and> live_at q F path = Inl e)"
  unfolding chmod_op_def
proof (rule valid_coolfs, rule live_then)
  fix v assume v: "fs_inv q v" "files q v = F"
  show "fs_inv q v" "tree_inv q (files q v)" using v tr by auto
  show "coolfs q F s \<and> live_at q F path = Inl e" if "live_at q (files q v) path = Inl e" "img True v q s" for e s
    using that v by (auto intro: coolfsI)
  fix idx i assume l: "live_at q (files q v) path = Inr (idx, file_of v i)" and i: "ino q v idx = Some i"
  let ?j = "i\<lparr>imode := and mode MODE_BITS\<rparr>"
  have k: "kind i \<noteq> KIND_FREE" using i by (auto simp: ino_Some)
  have "imode (inode_norm ?j) = stored_mode (kind i) mode" using k
    by (simp add: inode_norm_def stored_mode_def Let_def and.assoc)
  then have f: "(file_of v i)\<lparr>fuid := iuid ?j, fgid := igid ?j, fmode := imode (inode_norm ?j)\<rparr> = (file_of v i)\<lparr>fmode := stored_mode (fkind (file_of v i)) mode\<rparr>"
    by (simp add: file_of_def)
  have "valid (img True v q) (write_inode idx ?j)
    (\<lambda>_ s. \<exists>i f. live_at q F path = Inr (i, f) \<and> coolfs q (F(i \<mapsto> f\<lparr>fmode := stored_mode (fkind f) mode\<rparr>)) s)
    (\<lambda>e s. coolfs q F s \<and> live_at q F path = Inl e)"
    by (rule valid_weaken [OF write_meta_coolfs [OF v(1) i, of ?j, unfolded f]]) (use l v in auto)
  then show "valid (img True v q) (if kind i = KIND_FREE then err NotFound else write_inode idx ?j)
    (\<lambda>_ s. \<exists>i f. live_at q F path = Inr (i, f) \<and> coolfs q (F(i \<mapsto> f\<lparr>fmode := stored_mode (fkind f) mode\<rparr>)) s)
    (\<lambda>e s. coolfs q F s \<and> live_at q F path = Inl e)" using k by simp
qed

lemma chown_spec:
  assumes tr: "tree_inv q F"
  shows "valid (coolfs q F) (chown_op path u g)
    (\<lambda>_ s. \<exists>i f. live_at q F path = Inr (i, f) \<and> coolfs q (F(i \<mapsto> f\<lparr>fuid := u, fgid := g\<rparr>)) s)
    (\<lambda>e s. coolfs q F s \<and> live_at q F path = Inl e)"
  unfolding chown_op_def
proof (rule valid_coolfs, rule live_then)
  fix v assume v: "fs_inv q v" "files q v = F"
  show "fs_inv q v" "tree_inv q (files q v)" using v tr by auto
  show "coolfs q F s \<and> live_at q F path = Inl e" if "live_at q (files q v) path = Inl e" "img True v q s" for e s
    using that v by (auto intro: coolfsI)
  fix idx i assume l: "live_at q (files q v) path = Inr (idx, file_of v i)" and i: "ino q v idx = Some i"
  let ?j = "i\<lparr>iuid := u, igid := g\<rparr>"
  obtain off where off: "i = inode_at v off" and k: "kind i \<noteq> KIND_FREE" using i by (auto simp: ino_Some)
  have "inode_norm ?j = ?j" by (rule inode_norm_mode [OF inode_at_normal [of v off]]) (simp_all add: off)
  then have f: "(file_of v i)\<lparr>fuid := iuid ?j, fgid := igid ?j, fmode := imode (inode_norm ?j)\<rparr> = (file_of v i)\<lparr>fuid := u, fgid := g\<rparr>"
    by (simp add: file_of_def)
  have "valid (img True v q) (write_inode idx ?j)
    (\<lambda>_ s. \<exists>i f. live_at q F path = Inr (i, f) \<and> coolfs q (F(i \<mapsto> f\<lparr>fuid := u, fgid := g\<rparr>)) s)
    (\<lambda>e s. coolfs q F s \<and> live_at q F path = Inl e)"
    by (rule valid_weaken [OF write_meta_coolfs [OF v(1) i, of ?j, unfolded f]]) (use l v in auto)
  then show "valid (img True v q) (if kind i = KIND_FREE then err NotFound else write_inode idx ?j)
    (\<lambda>_ s. \<exists>i f. live_at q F path = Inr (i, f) \<and> coolfs q (F(i \<mapsto> f\<lparr>fuid := u, fgid := g\<rparr>)) s)
    (\<lambda>e s. coolfs q F s \<and> live_at q F path = Inl e)" using k by simp
qed

end
