(* ===== verification/CoolFS_Api.thy ===== *)
theory CoolFS_Api
  imports CoolFS_Ops
begin

text \<open>
  The public functions of \<open>src/src/coolfs.rs\<close>. The state holds the image slot, the disk while no image is mounted,
  the dirty flag, the change log and the credentials of the running task. Every function locks the slot, mounts the image
  when needed, runs the operation of \<open>CoolFS_Ops\<close> and records the change.
\<close>

section \<open>The state and its functions\<close>

text \<open>While the slot holds an image, the machine is the one inside the image and \<open>disk\<close> is out of date.\<close>

record fs_state =
  slot :: "image_state option"
  disk :: machine
  fs_dirty :: bool
  log :: change_log
  cred_uid :: u32
  cred_gid :: u32

definition MOUNT_PATH :: string where "MOUNT_PATH = ''/''"
definition TMP_NAME :: string where "TMP_NAME = ''CWTMP.TMP''"

definition with_image_result :: "(image_state, fs_error, 'a) sm \<Rightarrow> (fs_state, fs_error, 'a) sm" where
  "with_image_result f s =
     (case slot s of
        Some i \<Rightarrow> (case f i of (r, i') \<Rightarrow> (r, s\<lparr>slot := Some i'\<rparr>))
      | None \<Rightarrow>
        (case load_or_format (disk s) of
           (Inl e, m) \<Rightarrow> (Inl e, s\<lparr>disk := m\<rparr>)
         | (Inr i, m) \<Rightarrow> (case f i of (r, i') \<Rightarrow> (r, s\<lparr>slot := Some i', disk := m\<rparr>))))"

definition with_image_option :: "(image_state, unit, 'a) sm \<Rightarrow> (fs_state, unit, 'a) sm" where
  "with_image_option f s =
     (case slot s of
        Some i \<Rightarrow> (case f i of (r, i') \<Rightarrow> (r, s\<lparr>slot := Some i'\<rparr>))
      | None \<Rightarrow>
        (case load_or_format (disk s) of
           (Inl _, m) \<Rightarrow> (Inl (), s\<lparr>disk := m\<rparr>)
         | (Inr i, m) \<Rightarrow> (case f i of (r, i') \<Rightarrow> (r, s\<lparr>slot := Some i', disk := m\<rparr>))))"

definition mount_or_format :: "(fs_state, fs_error, unit) sm" where
  "mount_or_format = with_image_result (ret ())"

definition coolfs_flush :: "(fs_state, fs_error, unit) sm" where
  "coolfs_flush s =
     (if \<not> fs_dirty s then (Inr (), s) else
      case slot s of
        None \<Rightarrow> (Inr (), s\<lparr>fs_dirty := False\<rparr>)
      | Some i \<Rightarrow>
        (case image_flush i of
           (Inl e, i') \<Rightarrow> (Inl e, s\<lparr>slot := Some i'\<rparr>)
         | (Inr _, i') \<Rightarrow> (Inr (), s\<lparr>slot := Some i', fs_dirty := False\<rparr>)))"

definition trim_clean_cache :: "nat \<Rightarrow> (fs_state, fs_error, nat) sm" where
  "trim_clean_cache keep_blocks s =
     (case slot s of
        None \<Rightarrow> (Inr 0, s)
      | Some i \<Rightarrow> (case cache_trim_clean keep_blocks i of (r, i') \<Rightarrow> (r, s\<lparr>slot := Some i'\<rparr>)))"

definition stats :: "(fs_state, unit, coolfs_stats) sm" where
  "stats = with_image_option image_stats"

record coolfs_check_report =
  ck_ok :: bool
  ck_root_entries :: nat
  ck_stats :: coolfs_stats

definition coolfs_check :: "(fs_state, unit, coolfs_check_report) sm" where
  "coolfs_check = with_image_option (bnd (gets sb) (\<lambda>q.
     bnd (ok (read_dir_entries (root_inode q))) (\<lambda>ents.
     bnd (read_inode (root_inode q)) (\<lambda>root.
     bnd image_stats (\<lambda>st.
     ret \<lparr>ck_ok = is_dir root \<and> st_used_blocks st \<le> st_total_blocks st, ck_root_entries = length ents, ck_stats = st\<rparr>)))))"

definition list_dir :: "string \<Rightarrow> (fs_state, unit, dir_entry_info list) sm" where
  "list_dir path = with_image_option (list_dir_op path)"

definition read_file :: "string \<Rightarrow> (fs_state, unit, bytes) sm" where
  "read_file path = with_image_option (read_file_op path)"

definition metadata :: "string \<Rightarrow> (fs_state, unit, metadata_info) sm" where
  "metadata path = with_image_option (metadata_op path)"

definition mount_path_for :: "string \<Rightarrow> string" where
  "mount_path_for path =
     (let normalized = normalize_path path in
      if MOUNT_PATH = ''/'' then normalized
      else if normalized \<noteq> ''/'' then MOUNT_PATH @ normalized else MOUNT_PATH)"

definition record_mutation :: "string \<Rightarrow> string \<Rightarrow> (fs_state, 'e, unit) sm" where
  "record_mutation k path = upd (\<lambda>s.
     let vfs_path = mount_path_for path in
     s\<lparr>fs_dirty := True,
       log := writeback_enqueue k vfs_path (record_change vfs_path (journal_operation k vfs_path (log s)))\<rparr>)"

definition chmod :: "string \<Rightarrow> u16 \<Rightarrow> (fs_state, fs_error, unit) sm" where
  "chmod path mode = bnd (with_image_result (chmod_op path mode)) (\<lambda>_. record_mutation ''coolfs-chmod'' path)"

definition chown :: "string \<Rightarrow> u32 \<Rightarrow> u32 \<Rightarrow> (fs_state, fs_error, unit) sm" where
  "chown path u g = bnd (with_image_result (chown_op path u g)) (\<lambda>_. record_mutation ''coolfs-chown'' path)"

definition create_node :: "string \<Rightarrow> u8 \<Rightarrow> u32 \<Rightarrow> u32 \<Rightarrow> u16 \<Rightarrow> (fs_state, fs_error, unit) sm" where
  "create_node path k u g m =
     bnd (with_image_result (create_node_op path k u g m)) (\<lambda>_.
     record_mutation (if k = KIND_DIR then ''coolfs-create-dir'' else ''coolfs-create-file'') path)"

definition create_file_with_metadata :: "string \<Rightarrow> u32 \<Rightarrow> u32 \<Rightarrow> u16 \<Rightarrow> (fs_state, fs_error, unit) sm" where
  "create_file_with_metadata path u g m = create_node path KIND_FILE u g m"

definition create_dir_with_metadata :: "string \<Rightarrow> u32 \<Rightarrow> u32 \<Rightarrow> u16 \<Rightarrow> (fs_state, fs_error, unit) sm" where
  "create_dir_with_metadata path u g m = create_node path KIND_DIR u g m"

definition create_file :: "string \<Rightarrow> (fs_state, fs_error, unit) sm" where
  "create_file path =
     bnd (gets cred_uid) (\<lambda>u. bnd (gets cred_gid) (\<lambda>g. create_file_with_metadata path u g DEFAULT_FILE_MODE))"

definition create_dir :: "string \<Rightarrow> (fs_state, fs_error, unit) sm" where
  "create_dir path =
     bnd (gets cred_uid) (\<lambda>u. bnd (gets cred_gid) (\<lambda>g. create_dir_with_metadata path u g DEFAULT_DIR_MODE))"

definition write_file :: "string \<Rightarrow> bytes \<Rightarrow> (fs_state, fs_error, unit) sm" where
  "write_file path data = bnd (with_image_result (write_file_op path data)) (\<lambda>_. record_mutation ''coolfs-write'' path)"

definition delete_file :: "string \<Rightarrow> (fs_state, fs_error, unit) sm" where
  "delete_file path = bnd (with_image_result (delete_file_op path)) (\<lambda>_. record_mutation ''coolfs-delete'' path)"

definition rename :: "string \<Rightarrow> string \<Rightarrow> (fs_state, fs_error, unit) sm" where
  "rename path new_name =
     bnd (lift_res (validate_name new_name)) (\<lambda>_.
     bnd (with_image_result (rename_op path new_name)) (\<lambda>mutated.
     if mutated then record_mutation ''coolfs-rename'' path else ret ()))"

definition copy_file :: "string \<Rightarrow> string \<Rightarrow> (fs_state, fs_error, unit) sm" where
  "copy_file src dst =
     bnd (ok_or NotFound (read_file src)) (\<lambda>data.
     bnd (create_file dst) (\<lambda>_.
     write_file dst data))"

definition tmp_path :: "string \<Rightarrow> string" where
  "tmp_path parent = (if ends_with_slash parent then parent else parent @ ''/'') @ TMP_NAME"

definition delete_if_present :: "string \<Rightarrow> (fs_state, fs_error, unit) sm" where
  "delete_if_present path = bnd (attempt (delete_file path)) (\<lambda>r. case r of
     Inr _ \<Rightarrow> ret () | Inl e \<Rightarrow> if e = NotFound then ret () else err e)"

definition safe_write_file_with_metadata :: "string \<Rightarrow> bytes \<Rightarrow> u32 \<Rightarrow> u32 \<Rightarrow> u16 \<Rightarrow> (fs_state, fs_error, unit) sm" where
  "safe_write_file_with_metadata path data u g m =
     bnd (lift_res (split_parent_and_name path)) (\<lambda>(parent, name).
     let tmp = tmp_path parent in
     bnd (delete_if_present tmp) (\<lambda>_.
     bnd (create_file_with_metadata tmp u g m) (\<lambda>_.
     bnd (write_file tmp data) (\<lambda>_.
     bnd (attempt (delete_file path)) (\<lambda>r. case r of
       Inr _ \<Rightarrow> rename tmp name
     | Inl e \<Rightarrow> if e = NotFound then rename tmp name else bnd (discard (delete_file tmp)) (\<lambda>_. err e))))))"

definition safe_write_file :: "string \<Rightarrow> bytes \<Rightarrow> (fs_state, fs_error, unit) sm" where
  "safe_write_file path data =
     bnd (gets cred_uid) (\<lambda>u. bnd (gets cred_gid) (\<lambda>g. safe_write_file_with_metadata path data u g DEFAULT_FILE_MODE))"

section \<open>Functions on a mounted image\<close>

definition fsys :: "superblock \<Rightarrow> (u32 \<Rightarrow> fs_file option) \<Rightarrow> fs_state \<Rightarrow> bool" where
  "fsys q F s \<longleftrightarrow> (\<exists>i. slot s = Some i \<and> coolfs q F i) \<and> tree_inv q F \<and> log_inv (log s)"

lemma fsys_inv: "fsys q F s \<Longrightarrow> tree_inv q F"
  by (simp add: fsys_def)

lemma valid_fsys:
  assumes "tree_inv q F \<Longrightarrow> valid (fsys q F) m Q E"
  shows "valid (fsys q F) m Q E"
proof (cases "tree_inv q F")
  case False
  then show ?thesis using fsys_inv [of q F] by (auto simp: valid_def)
qed (rule assms)

lemma with_image_valid:
  assumes m: "tree_inv q F \<Longrightarrow> valid (coolfs q F) m (\<lambda>x i. \<exists>G. R x G \<and> coolfs q G i) (\<lambda>e i. coolfs q F i \<and> E e)"
    and R: "\<And>x G. tree_inv q F \<Longrightarrow> R x G \<Longrightarrow> tree_inv q G"
  shows "valid (fsys q F) (with_image_result m) (\<lambda>x s. \<exists>G. R x G \<and> fsys q G s) (\<lambda>e s. fsys q F s \<and> E e)"
proof (rule valid_fsys, rule validI)
  assume tr: "tree_inv q F"
  fix s x t assume s: "fsys q F s" and w: "with_image_result m s = (Inr x, t)"
  obtain i where i: "slot s = Some i" "coolfs q F i" using s by (auto simp: fsys_def)
  obtain i' where i': "m i = (Inr x, i')" "t = s\<lparr>slot := Some i'\<rparr>" using w i by (auto simp: with_image_result_def split: prod.splits)
  from validD [OF m [OF tr] i(2) i'(1)] R [OF tr] obtain G where "R x G" "coolfs q G i'" "tree_inv q G" by blast
  then show "\<exists>G. R x G \<and> fsys q G t" using s i'(2) by (auto simp: fsys_def)
next
  assume tr: "tree_inv q F"
  fix s e t assume s: "fsys q F s" and w: "with_image_result m s = (Inl e, t)"
  obtain i where i: "slot s = Some i" "coolfs q F i" using s by (auto simp: fsys_def)
  obtain i' where i': "m i = (Inl e, i')" "t = s\<lparr>slot := Some i'\<rparr>" using w i by (auto simp: with_image_result_def split: prod.splits)
  from validD_err [OF m [OF tr] i(2) i'(1)] show "fsys q F t \<and> E e" using s i'(2) by (auto simp: fsys_def)
qed

lemma record_mutation_valid: "valid (fsys q G) (record_mutation k path) (\<lambda>_ s. fsys q G s \<and> fs_dirty s) E"
  unfolding record_mutation_def
  by (rule valid_upd) (auto simp: fsys_def Let_def intro!: log_inv_intros)

lemma mutate_valid:
  assumes "valid (fsys q F) m (\<lambda>x s. \<exists>G. R x G \<and> fsys q G s) (\<lambda>e s. fsys q F s \<and> E e)"
  shows "valid (fsys q F) (bnd m (\<lambda>_. record_mutation k path)) (\<lambda>_ s. \<exists>x G. R x G \<and> fsys q G s \<and> fs_dirty s) (\<lambda>e s. fsys q F s \<and> E e)"
proof (rule valid_bnd [OF assms], rule valid_ex)
  fix x G
  show "valid (\<lambda>s. R x G \<and> fsys q G s) (record_mutation k path) (\<lambda>_ s. \<exists>x G. R x G \<and> fsys q G s \<and> fs_dirty s) (\<lambda>e s. fsys q F s \<and> E e)"
    by (rule valid_pre [where P' = "\<lambda>s. fsys q G s \<and> R x G"], rule valid_assume, rule valid_weaken [OF record_mutation_valid]) auto
qed

lemma live_at_Inr: "live_at q F path = Inr (i, f) \<longleftrightarrow> resolve q F path = Inr i \<and> F i = Some f"
  by (cases "resolve q F path") (auto simp: live_at_def split: option.splits)

lemma file_at_Inr: "file_at q F path = Inr (i, f) \<longleftrightarrow> resolve q F path = Inr i \<and> F i = Some f \<and> fkind f = KIND_FILE"
  unfolding conj_assoc [symmetric] live_at_Inr [symmetric]
  by (cases "live_at q F path") (auto simp: file_at_def split: if_splits)

lemma delete_checkD:
  assumes "delete_check q F path = Inr (d, es, pos)"
  obtains name where "parent_of q F path = Inr (d, es, name)" "entries_of q F d = Inr es" "pos < length es"
    "names_equal (de_name (es ! pos)) name" "dir_ents q F (de_inode (es ! pos)) = []"
proof -
  obtain name where n: "parent_of q F path = Inr (d, es, name)" "position (\<lambda>e. names_equal (de_name e) name) es = Some pos"
    "dir_ents q F (de_inode (es ! pos)) = []" using assms unfolding delete_check_Inr by blast
  then show thesis using position_Some [OF n(2)] by (intro that [of name]) (auto simp: parent_of_Inr)
qed

lemma rename_checkD:
  assumes "rename_check q F path n = Inr (d, es, pos)"
  obtains name where "parent_of q F path = Inr (d, es, name)" "entries_of q F d = Inr es" "pos < length es"
    "names_equal (de_name (es ! pos)) name" "\<not> list_ex (\<lambda>e. names_equal (de_name e) n) es"
proof -
  obtain name where n: "parent_of q F path = Inr (d, es, name)" "position (\<lambda>e. names_equal (de_name e) name) es = Some pos"
    "\<not> list_ex (\<lambda>e. names_equal (de_name e) n) es" using assms unfolding rename_check_Inr by blast
  then show thesis using position_Some [OF n(2)] by (intro that [of name]) (auto simp: parent_of_Inr)
qed

lemma delete_check_tree: "tree_inv q F \<Longrightarrow> delete_check q F path = Inr (d, es, pos) \<Longrightarrow> tree_inv q (delete_at F d es pos)"
  by (erule delete_checkD) (rule delete_tree_inv)

lemma rename_check_tree:
  "tree_inv q F \<Longrightarrow> rename_check q F path n = Inr (d, es, pos) \<Longrightarrow> validate_name n = Inr () \<Longrightarrow> tree_inv q (rename_at F d es pos n)"
  by (erule rename_checkD) (rule rename_tree_inv)

lemma write_file_fsys:
  "valid (fsys q F) (write_file path data)
    (\<lambda>_ s. \<exists>i f. file_at q F path = Inr (i, f) \<and> fsys q (F(i \<mapsto> f\<lparr>fdata := data\<rparr>)) s \<and> fs_dirty s)
    (\<lambda>e s. fsys q F s \<and> (file_at q F path = Inl e \<or> e = NoSpace))"
proof -
  let ?R = "\<lambda>(_::unit) G. \<exists>i f. file_at q F path = Inr (i, f) \<and> G = F(i \<mapsto> f\<lparr>fdata := data\<rparr>)"
  have "valid (fsys q F) (with_image_result (write_file_op path data)) (\<lambda>x s. \<exists>G. ?R x G \<and> fsys q G s)
      (\<lambda>e s. fsys q F s \<and> (file_at q F path = Inl e \<or> e = NoSpace))"
  proof (rule with_image_valid)
    show "valid (coolfs q F) (write_file_op path data) (\<lambda>x i. \<exists>G. ?R x G \<and> coolfs q G i)
      (\<lambda>e i. coolfs q F i \<and> (file_at q F path = Inl e \<or> e = NoSpace))" if "tree_inv q F"
      by (rule valid_weaken [OF write_file_spec [OF that]]) auto
    show "tree_inv q G" if tr: "tree_inv q F" and R: "?R x G" for x G
    proof -
      obtain i f where f: "file_at q F path = Inr (i, f)" "G = F(i \<mapsto> f\<lparr>fdata := data\<rparr>)" using R by blast
      have "F i = Some f" "fkind f = KIND_FILE"
        using f(1) by (auto simp: file_at_Inr)
      then show ?thesis unfolding f(2) by (intro put_tree_inv [OF tr, of i f]) auto
    qed
  qed
  from mutate_valid [OF this] show ?thesis unfolding write_file_def by (rule valid_weaken) auto
qed

lemma create_node_fsys:
  assumes k: "k = KIND_FILE \<or> k = KIND_DIR"
  shows "valid (fsys q F) (create_node path k u g m)
    (\<lambda>_ s. \<exists>d es name idx. create_check q F path = Inr (d, es, name) \<and> F idx = None \<and> idx \<noteq> 0 \<and>
       fsys q (create_at F d es name idx (empty_file k u g m)) s \<and> fs_dirty s)
    (\<lambda>e s. fsys q F s \<and> (create_check q F path = Inl e \<or> e = NoSpace))"
proof -
  let ?R = "\<lambda>(_::unit) G. \<exists>d es name idx. create_check q F path = Inr (d, es, name) \<and> F idx = None \<and> idx \<noteq> 0 \<and>
    G = create_at F d es name idx (empty_file k u g m)"
  have "valid (fsys q F) (with_image_result (create_node_op path k u g m)) (\<lambda>x s. \<exists>G. ?R x G \<and> fsys q G s)
      (\<lambda>e s. fsys q F s \<and> (create_check q F path = Inl e \<or> e = NoSpace))"
  proof (rule with_image_valid)
    show "valid (coolfs q F) (create_node_op path k u g m) (\<lambda>x i. \<exists>G. ?R x G \<and> coolfs q G i)
      (\<lambda>e i. coolfs q F i \<and> (create_check q F path = Inl e \<or> e = NoSpace))" if "tree_inv q F"
      by (rule valid_weaken [OF create_node_spec [OF that k]]; blast)
    show "tree_inv q G" if tr: "tree_inv q F" and R: "?R x G" for x G
    proof -
      obtain d es name idx where c: "create_check q F path = Inr (d, es, name)" "F idx = None" "idx \<noteq> 0"
        and G: "G = create_at F d es name idx (empty_file k u g m)" using R by blast
      have p: "parent_of q F path = Inr (d, es, name)" and n: "\<not> list_ex (\<lambda>e. names_equal (de_name e) name) es"
        using c(1) by (auto simp: create_check_Inr)
      then have "entries_of q F d = Inr es" by (auto simp: parent_of_Inr)
      then show ?thesis unfolding G
        by (rule create_tree_inv [OF tr _ c(2,3) parent_resolve(2) [OF p] n]) (use k in auto)
    qed
  qed
  from mutate_valid [OF this] show ?thesis unfolding create_node_def by (rule valid_weaken) auto
qed

lemma delete_file_fsys:
  "valid (fsys q F) (delete_file path)
    (\<lambda>_ s. \<exists>d es pos. delete_check q F path = Inr (d, es, pos) \<and> fsys q (delete_at F d es pos) s \<and> fs_dirty s)
    (\<lambda>e s. fsys q F s \<and> (delete_check q F path = Inl e \<or> e = NoSpace))"
proof -
  let ?R = "\<lambda>(_::unit) G. \<exists>d es pos. delete_check q F path = Inr (d, es, pos) \<and> G = delete_at F d es pos"
  have "valid (fsys q F) (with_image_result (delete_file_op path)) (\<lambda>x s. \<exists>G. ?R x G \<and> fsys q G s)
      (\<lambda>e s. fsys q F s \<and> (delete_check q F path = Inl e \<or> e = NoSpace))"
  proof (rule with_image_valid)
    show "valid (coolfs q F) (delete_file_op path) (\<lambda>x i. \<exists>G. ?R x G \<and> coolfs q G i)
      (\<lambda>e i. coolfs q F i \<and> (delete_check q F path = Inl e \<or> e = NoSpace))" if "tree_inv q F"
      by (rule valid_weaken [OF delete_file_spec [OF that]]) auto
    show "tree_inv q G" if tr: "tree_inv q F" and R: "?R x G" for x G
      using R delete_check_tree [OF tr] by blast
  qed
  from mutate_valid [OF this] show ?thesis unfolding delete_file_def by (rule valid_weaken) auto
qed

lemma rename_fsys:
  assumes n: "validate_name n = Inr ()" and ne: "\<not> same_name path n"
  shows "valid (fsys q F) (rename path n)
    (\<lambda>_ s. \<exists>d es pos. rename_check q F path n = Inr (d, es, pos) \<and> fsys q (rename_at F d es pos n) s \<and> fs_dirty s)
    (\<lambda>e s. fsys q F s \<and> (rename_check q F path n = Inl e \<or> e = NoSpace))"
proof -
  let ?R = "\<lambda>x G. x \<and> (\<exists>d es pos. rename_check q F path n = Inr (d, es, pos) \<and> G = rename_at F d es pos n)"
  have 1: "valid (fsys q F) (with_image_result (rename_op path n)) (\<lambda>x s. \<exists>G. ?R x G \<and> fsys q G s)
      (\<lambda>e s. fsys q F s \<and> (rename_check q F path n = Inl e \<or> e = NoSpace))"
  proof (rule with_image_valid)
    show "valid (coolfs q F) (rename_op path n) (\<lambda>x i. \<exists>G. ?R x G \<and> coolfs q G i)
      (\<lambda>e i. coolfs q F i \<and> (rename_check q F path n = Inl e \<or> e = NoSpace))" if "tree_inv q F"
      by (rule valid_weaken [OF rename_spec [OF that n ne]]) auto
    show "tree_inv q G" if tr: "tree_inv q F" and R: "?R x G" for x G
      using R rename_check_tree [OF tr _ n] by blast
  qed
  have "valid (fsys q F) (bnd (with_image_result (rename_op path n)) (\<lambda>mutated. if mutated then record_mutation ''coolfs-rename'' path else ret ()))
    (\<lambda>_ s. \<exists>d es pos. rename_check q F path n = Inr (d, es, pos) \<and> fsys q (rename_at F d es pos n) s \<and> fs_dirty s)
    (\<lambda>e s. fsys q F s \<and> (rename_check q F path n = Inl e \<or> e = NoSpace))"
  proof (rule valid_bnd [OF 1], rule valid_ex)
    fix x G
    show "valid (\<lambda>s. ?R x G \<and> fsys q G s) (if x then record_mutation ''coolfs-rename'' path else ret ())
      (\<lambda>_ s. \<exists>d es pos. rename_check q F path n = Inr (d, es, pos) \<and> fsys q (rename_at F d es pos n) s \<and> fs_dirty s)
      (\<lambda>e s. fsys q F s \<and> (rename_check q F path n = Inl e \<or> e = NoSpace))"
      by (rule valid_pre [where P' = "\<lambda>s. fsys q G s \<and> ?R x G"], rule valid_assume, rule valid_if,
          rule valid_weaken [OF record_mutation_valid]) auto
  qed
  then show ?thesis by (simp add: rename_def n bnd_lift_Inr)
qed

lemma with_option_reads:
  assumes "\<And>v. fs_inv q v \<Longrightarrow> files q v = F \<Longrightarrow> tree_inv q F \<Longrightarrow> reads q v m r"
  shows "valid (fsys q F) (with_image_option m) (\<lambda>x s. fsys q F s \<and> r = Inr x) (\<lambda>e s. fsys q F s \<and> r = Inl e)"
proof -
  have st: "\<exists>t. with_image_option m s = (r, t) \<and> fsys q F t" if s: "fsys q F s" for s
  proof -
    obtain i v where i: "slot s = Some i" "img True v q i" "fs_inv q v" "files q v = F"
      using s by (auto simp: fsys_def coolfs_def)
    obtain i' where "m i = (r, i')" "img True v q i'" using readsD [OF assms [OF i(3,4) fsys_inv [OF s]] i(2)] .
    then show ?thesis using s i by (auto simp: with_image_option_def fsys_def intro: coolfsI)
  qed
  show ?thesis unfolding valid_def
  proof (intro allI impI)
    fix s assume "fsys q F s"
    then obtain t where "with_image_option m s = (r, t)" "fsys q F t" using st by blast
    then show "case with_image_option m s of (Inl e, t) \<Rightarrow> fsys q F t \<and> r = Inl e | (Inr x, t) \<Rightarrow> fsys q F t \<and> r = Inr x"
      by (cases r) simp_all
  qed
qed

lemma read_file_fsys:
  "valid (fsys q F) (read_file path) (\<lambda>x s. fsys q F s \<and> map_sum (\<lambda>_. ()) (\<lambda>(_, f). fdata f) (file_at q F path) = Inr x)
    (\<lambda>e s. fsys q F s \<and> map_sum (\<lambda>_. ()) (\<lambda>(_, f). fdata f) (file_at q F path) = Inl e)"
  unfolding read_file_def by (rule with_option_reads) (use reads_file in blast)

lemma read_present:
  assumes "file_at q F path = Inr (i, f)"
  shows "valid (fsys q F) (read_file path) (\<lambda>x s. fsys q F s \<and> x = fdata f) E"
  by (rule valid_weaken [OF read_file_fsys]) (use assms in auto)

section \<open>What the updates mean for paths\<close>

lemma parent_live:
  assumes "parent_of q F path = Inr (d, es, name)"
  shows "\<exists>f. F d = Some f \<and> fkind f = KIND_DIR"
  using assms by (auto simp: parent_of_Inr entries_of_Inr)

lemma create_paths:
  assumes tr: "tree_inv q F" and c: "create_check q F path = Inr (d, es, name)" "F idx = None" "idx \<noteq> 0"
    and new: "fkind new = KIND_FILE \<or> fkind new = KIND_DIR" "fdata new = []"
  defines "G \<equiv> create_at F d es name idx new"
  shows "live_at q G path = Inr (idx, new)"
    and "live_at q F p = Inr (j, f) \<Longrightarrow> j \<noteq> d \<Longrightarrow> live_at q G p = Inr (j, f)"
    and "resolve q F p = Inr j \<Longrightarrow> resolve q G p = Inr j"
proof -
  have p: "parent_of q F path = Inr (d, es, name)" and n: "\<not> list_ex (\<lambda>e. names_equal (de_name e) name) es"
    using c(1) by (auto simp: create_check_Inr)
  obtain pp where pp: "split_parent_and_name path = Inr (pp, name)" "resolve q F pp = Inr d" "entries_of q F d = Inr es"
    using p by (auto simp: parent_of_Inr)
  note cr = create_resolve [OF tr pp(3) c(2,3) parent_resolve(2) [OF p] n new, folded G_def]
  obtain fd where fd: "F d = Some fd" using parent_live [OF p] by blast
  have G: "G a = (if a = d then Some (fd\<lparr>fdata := concat (map entry_raw (es @ [\<lparr>de_inode = idx, de_name = name\<rparr>]))\<rparr>)
      else if a = idx then Some new else F a)" for a using fd by (simp add: G_def create_at_def set_entries_def)
  have "resolve q G path = Inr idx" using resolve_split [OF pp(1), of q G] cr(2) [OF pp(2)] cr(1) by simp
  moreover have "idx \<noteq> d" using fd c(2) by auto
  ultimately show "live_at q G path = Inr (idx, new)" by (simp add: live_at_Inr G)
  show "resolve q F p = Inr j \<Longrightarrow> resolve q G p = Inr j" by (rule cr(2))
  show "live_at q G p = Inr (j, f)" if "live_at q F p = Inr (j, f)" "j \<noteq> d"
    using that cr(2) [of p j] c(2) by (auto simp: live_at_Inr G)
qed

lemma delete_paths:
  assumes tr: "tree_inv q F" and c: "delete_check q F path = Inr (d, es, pos)"
  defines "G \<equiv> delete_at F d es pos" and "t \<equiv> de_inode (es ! pos)"
  shows "resolve q F path = Inr t" and "resolve q G path = Inl NotFound" and "G t = None"
    and "live_at q F p = Inr (j, f) \<Longrightarrow> j \<noteq> t \<Longrightarrow> j \<noteq> d \<Longrightarrow> live_at q G p = Inr (j, f)"
    and "resolve q F p = Inr j \<Longrightarrow> j \<noteq> t \<Longrightarrow> resolve q G p = Inr j"
proof -
  obtain name where p: "parent_of q F path = Inr (d, es, name)" and d: "entries_of q F d = Inr es" and pos: "pos < length es"
    and n: "names_equal (de_name (es ! pos)) name" and leaf: "dir_ents q F (de_inode (es ! pos)) = []"
    using delete_checkD [OF c] by metis
  obtain pp where pp: "split_parent_and_name path = Inr (pp, name)" "resolve q F pp = Inr d" using p by (auto simp: parent_of_Inr)
  have "position (\<lambda>e. names_equal (de_name e) name) es = Some pos" using c p by (auto simp: delete_check_Inr)
  then show "resolve q F path = Inr t"
    using parent_resolve(1) [OF p] by (simp add: find_entry_position t_def)
  have keep: "resolve q G p = Inr j" if "resolve q F p = Inr j" "j \<noteq> t" for p j
    using that delete_walk [OF tr d pos leaf] by (auto simp: resolve_def bind_res_Inr G_def t_def)
  have ne: "d \<noteq> t" unfolding t_def by (rule delete_entries(3) [OF tr d pos leaf])
  show "resolve q G path = Inl NotFound"
    using resolve_split [OF pp(1), of q G] keep [OF pp(2) ne] delete_gone [OF tr d pos leaf n] by (simp add: G_def)
  show "G t = None" by (simp add: G_def t_def delete_at_def)
  show "resolve q G p = Inr j" if "resolve q F p = Inr j" "j \<noteq> t" by (rule keep [OF that])
  show "live_at q G p = Inr (j, f)" if "live_at q F p = Inr (j, f)" "j \<noteq> t" "j \<noteq> d"
    using that keep [of p j] by (auto simp: live_at_Inr G_def delete_at_def set_entries_def t_def)
qed

lemma rename_paths:
  assumes tr: "tree_inv q F" and c: "rename_check q F path n = Inr (d, es, pos)" and n: "validate_name n = Inr ()"
    and ne: "\<not> same_name path n" and new: "split_parent_and_name path = Inr (pp, old)" "split_parent_and_name path' = Inr (pp', n)"
      "path_components pp' = path_components pp"
  defines "G \<equiv> rename_at F d es pos n"
  shows "live_at q G path' = live_at q F path" and "resolve q G path = Inl NotFound" and "\<exists>j f. live_at q F path = Inr (j, f)"
proof -
  obtain name where p: "parent_of q F path = Inr (d, es, name)" and d: "entries_of q F d = Inr es" and pos: "pos < length es"
    and nm: "names_equal (de_name (es ! pos)) name" and nex: "\<not> list_ex (\<lambda>e. names_equal (de_name e) n) es"
    using rename_checkD [OF c] by metis
  have name: "name = old" "resolve q F pp = Inr d" using p new(1) by (auto simp: parent_of_Inr)
  have old: "\<not> names_equal n name"
    using ne new(1) name by (auto simp: same_name_def names_equal_def eq_ignore_ascii_case_sym)
  note r = rename_resolve [OF tr d pos n nex nm old, folded G_def]
  have "position (\<lambda>e. names_equal (de_name e) name) es = Some pos" using c p by (auto simp: rename_check_Inr)
  then have t: "resolve q F path = Inr (de_inode (es ! pos))"
    using parent_resolve(1) [OF p] by (simp add: find_entry_position)
  have "resolve q G pp = Inr d" by (rule r(3) [OF name(2)])
  moreover have "resolve q G pp' = resolve q G pp"
    using split_parent_Inr(3) [OF new(1)] split_parent_Inr(3) [OF new(2)] new(3) resolve_slash by metis
  ultimately have "resolve q G path' = Inr (de_inode (es ! pos))" using resolve_split [OF new(2), of q G] r(1) by simp
  moreover have "de_inode (es ! pos) \<noteq> d"
  proof
    assume td: "de_inode (es ! pos) = d"
    obtain t1 t2 where t12: "path = CHR ''/'' # t1" "pp = CHR ''/'' # t2"
      using split_parent_Inr(3,4) [OF new(1)] by blast
    have "walk q F (path_components path) (root_inode q) = Inr d" "walk q F (path_components pp) (root_inode q) = Inr d"
      using t td name(2) t12 resolve_slash by metis+
    from walk_unique [OF tr this] have "length (path_components path) = length (path_components pp)" by (rule list_all2_lengthD)
    then show False using split_parent_Inr(2) [OF new(1)] by simp
  qed
  then have "G (de_inode (es ! pos)) = F (de_inode (es ! pos))" by (simp add: G_def rename_at_def set_entries_def)
  ultimately show "live_at q G path' = live_at q F path" using t by (simp add: live_at_def)
  show "resolve q G path = Inl NotFound"
    using resolve_split [OF new(1), of q G] \<open>resolve q G pp = Inr d\<close> r(2) name(1) by simp
  show "\<exists>j f. live_at q F path = Inr (j, f)" using resolve_alive [OF tr t] t by (auto simp: live_at_Inr)
qed

section \<open>Replacing a file\<close>

lemma trim_end_id: "0 < n \<Longrightarrow> p ! (n - 1) \<noteq> CHR ''/'' \<Longrightarrow> trim_end p n = n"
  by (cases n) auto

lemma split_join:
  assumes p: "p = CHR ''/'' # t" and n: "validate_name n = Inr ()"
  shows "\<exists>pp'. split_parent_and_name (p @ CHR ''/'' # n) = Inr (pp', n) \<and> path_components pp' = path_components p"
    and "\<exists>pp'. split_parent_and_name (CHR ''/'' # n) = Inr (pp', n) \<and> path_components pp' = []"
proof -
  have ns: "n \<noteq> ''''" "CHR ''/'' \<notin> set n"
  proof -
    show "n \<noteq> ''''" using n by (simp add: validate_name_ok)
    have "list_all name_byte n" using n by (simp add: validate_name_ok)
    then show "CHR ''/'' \<notin> set n" by (metis (no_types, lifting) list_all_iff name_byte_def)
  qed
  have gen: "\<exists>pp'. split_parent_and_name (a @ CHR ''/'' # n) = Inr (pp', n) \<and> path_components pp' = path_components a"
    if a: "a = '''' \<or> hd a = CHR ''/''" for a
  proof -
    let ?path = "a @ CHR ''/'' # n"
    have last: "?path ! (length ?path - 1) = last n" using ns(1) by (simp add: nth_append last_conv_nth)
    have "last n \<noteq> CHR ''/''" using ns by (metis last_in_set)
    then have "trim_end ?path (length ?path) = length ?path" by (intro trim_end_id) (use last in simp_all)
    then have tr: "trim_abs_path ?path = Inr ?path" using a by (auto simp: trim_abs_path_def hd_append)
    have "rfind_slash ?path = Some (length a)"
    proof -
      have "[0..<length ?path] = [0..<length a] @ [length a] @ [length a + 1..<length ?path]"
        using upt_add_eq_append [of 0 "length a" "Suc (length n)"] upt_conv_Cons [of "length a" "length ?path"] by simp
      moreover have "?path ! i \<noteq> CHR ''/''" if "length a + 1 \<le> i" "i < length ?path" for i
      proof -
        have "?path ! i = n ! (i - length a - 1)" using that by (simp add: nth_append nth_Cons')
        moreover have "n ! (i - length a - 1) \<in> set n" using that by (intro nth_mem) auto
        ultimately show ?thesis using ns(2) by auto
      qed
      then have "find (\<lambda>i. ?path ! i = CHR ''/'') (rev [length a + 1..<length ?path]) = None"
        unfolding find_None_iff set_rev set_upt by (meson atLeastLessThan_iff)
      ultimately show ?thesis unfolding rfind_slash_def by (simp add: find_append del: upt_Suc)
    qed
    moreover have "?path \<noteq> ''/''" using ns(1) by (cases a) auto
    ultimately show ?thesis using tr n ns(1) by (auto simp: split_parent_and_name_def Let_def path_components_def)
  qed
  show "\<exists>pp'. split_parent_and_name (p @ CHR ''/'' # n) = Inr (pp', n) \<and> path_components pp' = path_components p"
    using gen [of p] p by simp
  show "\<exists>pp'. split_parent_and_name (CHR ''/'' # n) = Inr (pp', n) \<and> path_components pp' = []"
    using gen [of "''''"] by (simp add: path_components_def)
qed


lemma tmp_path_split:
  assumes "pp = CHR ''/'' # t"
  shows "\<exists>pp'. split_parent_and_name (tmp_path pp) = Inr (pp', TMP_NAME) \<and> path_components pp' = path_components pp"
proof (cases "ends_with_slash pp")
  case True
  have n: "validate_name TMP_NAME = Inr ()" by code_simp
  define b where "b = butlast pp"
  have pp: "pp = b @ [CHR ''/'']" using True append_butlast_last_id [of pp] by (simp add: ends_with_slash_def b_def)
  then have tp: "tmp_path pp = b @ CHR ''/'' # TMP_NAME" using True by (simp add: tmp_path_def)
  have c: "path_components pp = path_components b" using components_append [of b "[]"] pp by (simp add: path_components_def)
  show ?thesis
  proof (cases b)
    case Nil
    then show ?thesis using split_join(2) [OF assms n] tp c by (simp add: path_components_def)
  next
    case (Cons x xs)
    then have "b = CHR ''/'' # xs" using pp assms by simp
    from split_join(1) [OF this n] show ?thesis using tp c by simp
  qed
next
  case False
  have n: "validate_name TMP_NAME = Inr ()" by code_simp
  have "tmp_path pp = pp @ CHR ''/'' # TMP_NAME" using False by (simp add: tmp_path_def)
  then show ?thesis using split_join(1) [OF assms n] by simp
qed

lemma delete_if_present_fsys: "valid (fsys q F) (delete_if_present path) (\<lambda>_ s. \<exists>G. fsys q G s) (\<lambda>_. fsys q F)"
  unfolding delete_if_present_def
proof (rule valid_bnd [where R = "\<lambda>r s. case r of Inr _ \<Rightarrow> \<exists>G. fsys q G s | Inl _ \<Rightarrow> fsys q F s"])
  show "valid (fsys q F) (attempt (delete_file path)) (\<lambda>r s. case r of Inr _ \<Rightarrow> \<exists>G. fsys q G s | Inl _ \<Rightarrow> fsys q F s) (\<lambda>_. fsys q F)"
    by (rule valid_attempt, rule valid_weaken [OF delete_file_fsys]) auto
  show "valid (\<lambda>s. case r of Inr _ \<Rightarrow> \<exists>G. fsys q G s | Inl _ \<Rightarrow> fsys q F s)
    (case r of Inr _ \<Rightarrow> ret () | Inl e \<Rightarrow> if e = NotFound then ret () else err e) (\<lambda>_ s. \<exists>G. fsys q G s) (\<lambda>_. fsys q F)" for r
    by (cases r) (auto intro!: valid_ret valid_err)
qed

text \<open>The new content waits under the temporary name.\<close>

definition staged :: "superblock \<Rightarrow> (u32 \<Rightarrow> fs_file option) \<Rightarrow> string \<Rightarrow> bytes \<Rightarrow> u32 \<Rightarrow> u32 \<Rightarrow> bool" where
  "staged q G path data u g \<longleftrightarrow>
     tree_inv q G \<and> (\<exists>i f. file_at q G path = Inr (i, f) \<and> fdata f = data \<and> fuid f = u \<and> fgid f = g)"

lemma stage_fsys:
  "valid (fsys q F) (bnd (create_file_with_metadata tmp u g m) (\<lambda>_. write_file tmp data))
    (\<lambda>_ s. \<exists>G. fsys q G s \<and> staged q G tmp data u g) (\<lambda>_ s. \<exists>G. fsys q G s)"
proof (rule valid_bnd)
  let ?R = "\<lambda>G. \<exists>i. file_at q G tmp = Inr (i, empty_file KIND_FILE u g m)"
  show "valid (fsys q F) (create_file_with_metadata tmp u g m) (\<lambda>_ s. \<exists>G. fsys q G s \<and> ?R G) (\<lambda>_ s. \<exists>G. fsys q G s)"
    unfolding create_file_with_metadata_def
  proof (rule valid_fsys, rule valid_weaken [OF create_node_fsys])
    assume tr: "tree_inv q F"
    fix x s assume "\<exists>d es name idx. create_check q F tmp = Inr (d, es, name) \<and> F idx = None \<and> idx \<noteq> 0 \<and>
       fsys q (create_at F d es name idx (empty_file KIND_FILE u g m)) s \<and> fs_dirty s"
    then obtain d es name idx where c: "create_check q F tmp = Inr (d, es, name)" "F idx = None" "idx \<noteq> 0"
      "fsys q (create_at F d es name idx (empty_file KIND_FILE u g m)) s" by blast
    have "live_at q (create_at F d es name idx (empty_file KIND_FILE u g m)) tmp = Inr (idx, empty_file KIND_FILE u g m)"
      by (rule create_paths(1) [OF tr c(1-3)]) simp_all
    then have "file_at q (create_at F d es name idx (empty_file KIND_FILE u g m)) tmp = Inr (idx, empty_file KIND_FILE u g m)"
      by (simp add: file_at_def)
    then show "\<exists>G. fsys q G s \<and> ?R G" using c(4) by blast
  qed auto
  show "valid (\<lambda>s. \<exists>G. fsys q G s \<and> ?R G) (write_file tmp data)
    (\<lambda>_ s. \<exists>G. fsys q G s \<and> staged q G tmp data u g) (\<lambda>_ s. \<exists>G. fsys q G s)"
  proof (rule valid_ex, rule valid_assume)
    fix G assume R: "?R G"
    then obtain i where i: "file_at q G tmp = Inr (i, empty_file KIND_FILE u g m)" by blast
    show "valid (fsys q G) (write_file tmp data) (\<lambda>_ s. \<exists>G. fsys q G s \<and> staged q G tmp data u g) (\<lambda>_ s. \<exists>G. fsys q G s)"
    proof (rule valid_weaken [OF write_file_fsys])
      fix x s assume "\<exists>i f. file_at q G tmp = Inr (i, f) \<and> fsys q (G(i \<mapsto> f\<lparr>fdata := data\<rparr>)) s \<and> fs_dirty s"
      then have s: "fsys q (G(i \<mapsto> (empty_file KIND_FILE u g m)\<lparr>fdata := data\<rparr>)) s" (is "fsys q ?G s") using i by auto
      have "entries_of q ?G a = entries_of q G a" for a
        by (rule entries_of_put [of G i "empty_file KIND_FILE u g m"]) (use i in \<open>auto simp: file_at_Inr\<close>)
      then have "resolve q ?G tmp = resolve q G tmp" by (rule walk_cong(2))
      then have "file_at q ?G tmp = Inr (i, (empty_file KIND_FILE u g m)\<lparr>fdata := data\<rparr>)" using i by (simp add: file_at_Inr)
      then have "staged q ?G tmp data u g" using fsys_inv [OF s] by (auto simp: staged_def)
      then show "\<exists>G. fsys q G s \<and> staged q G tmp data u g" using s by blast
    qed auto
  qed
qed

lemma other_file:
  assumes "tree_inv q G" and "split_parent_and_name path = Inr (pp, name)" "split_parent_and_name tmp = Inr (pp', TMP_NAME)"
    and "\<not> names_equal name TMP_NAME" and "resolve q G path = Inr i"
  shows "resolve q G tmp \<noteq> Inr i"
proof
  assume "resolve q G tmp = Inr i"
  obtain t1 t2 where t: "path = CHR ''/'' # t1" "tmp = CHR ''/'' # t2"
    using split_parent_Inr(4) [OF assms(2)] split_parent_Inr(4) [OF assms(3)] by blast
  have "walk q G (path_components path) (root_inode q) = Inr i" "walk q G (path_components tmp) (root_inode q) = Inr i"
    using assms(5) \<open>resolve q G tmp = Inr i\<close> unfolding t resolve_slash by simp_all
  then have "list_all2 names_equal (path_components path) (path_components tmp)" by (rule walk_unique [OF assms(1)])
  then have l: "list_all2 names_equal (path_components pp @ [name]) (path_components pp' @ [TMP_NAME])"
    using split_parent_Inr(2) [OF assms(2)] split_parent_Inr(2) [OF assms(3)] by simp
  have "length (path_components pp) = length (path_components pp')" using list_all2_lengthD [OF l] by simp
  from list_all2_append [OF this, of names_equal "[name]" "[TMP_NAME]"] l have "names_equal name TMP_NAME" by simp
  then show False using assms(4) by simp
qed

lemma staged_file: "staged q G tmp data u g \<Longrightarrow> file_at q G tmp = Inr (i, f) \<Longrightarrow> fdata f = data \<and> fuid f = u \<and> fgid f = g"
  by (auto simp: staged_def)

lemma delete_old:
  assumes s: "split_parent_and_name path = Inr (pp, name)" "split_parent_and_name tmp = Inr (pp', TMP_NAME)"
    and n: "\<not> names_equal name TMP_NAME" and st: "staged q G tmp data u g"
  shows "valid (fsys q G) (delete_file path) (\<lambda>_ s. \<exists>H. fsys q H s \<and> staged q H tmp data u g) (\<lambda>_. fsys q G)"
proof (rule valid_weaken [OF delete_file_fsys])
  fix x s assume "\<exists>d es pos. delete_check q G path = Inr (d, es, pos) \<and> fsys q (delete_at G d es pos) s \<and> fs_dirty s"
  then obtain d es pos where c: "delete_check q G path = Inr (d, es, pos)" and fs: "fsys q (delete_at G d es pos) s" by blast
  have tr: "tree_inv q G" using st by (simp add: staged_def)
  obtain i f where f: "file_at q G tmp = Inr (i, f)" "fdata f = data" "fuid f = u" "fgid f = g" using st by (auto simp: staged_def)
  note dp = delete_paths [OF tr c]
  have "i \<noteq> de_inode (es ! pos)"
    using other_file [OF tr s n dp(1)] f(1) by (auto simp: file_at_Inr)
  moreover have "i \<noteq> d"
  proof -
    obtain name' where "parent_of q G path = Inr (d, es, name')" using delete_checkD [OF c] by metis
    then show ?thesis using parent_live f(1) by (fastforce simp: file_at_Inr)
  qed
  ultimately have "live_at q (delete_at G d es pos) tmp = Inr (i, f)" using f(1) by (intro dp(4)) (simp_all add: file_at_Inr live_at_Inr)
  then have "file_at q (delete_at G d es pos) tmp = Inr (i, f)" using f(1) by (simp add: file_at_Inr live_at_Inr)
  then have "staged q (delete_at G d es pos) tmp data u g" using f fsys_inv [OF fs] by (auto simp: staged_def)
  then show "\<exists>H. fsys q H s \<and> staged q H tmp data u g" using fs by blast
qed auto

lemma rename_staged:
  assumes s: "split_parent_and_name path = Inr (pp, name)" "split_parent_and_name tmp = Inr (pp', TMP_NAME)"
      "path_components pp' = path_components pp"
    and n: "\<not> names_equal name TMP_NAME" and st: "staged q G tmp data u g"
  shows "valid (fsys q G) (rename tmp name) (\<lambda>_ s. \<exists>H. fsys q H s \<and> staged q H path data u g) (\<lambda>_ s. \<exists>H. fsys q H s)"
proof -
  have v: "validate_name name = Inr ()" by (rule split_parent_Inr(1) [OF s(1)])
  have ne: "\<not> same_name tmp name" using n s(2) by (simp add: same_name_def names_equal_def eq_ignore_ascii_case_sym)
  show ?thesis
  proof (rule valid_weaken [OF rename_fsys [OF v ne]])
    fix x s' assume "\<exists>d es pos. rename_check q G tmp name = Inr (d, es, pos) \<and> fsys q (rename_at G d es pos name) s' \<and> fs_dirty s'"
    then obtain d es pos where c: "rename_check q G tmp name = Inr (d, es, pos)" and fs: "fsys q (rename_at G d es pos name) s'" by blast
    have tr: "tree_inv q G" using st by (simp add: staged_def)
    have "live_at q (rename_at G d es pos name) path = live_at q G tmp"
      by (rule rename_paths(1) [OF tr c v ne s(2,1) s(3) [symmetric]])
    then have "file_at q (rename_at G d es pos name) path = file_at q G tmp" by (simp add: file_at_def)
    then have "staged q (rename_at G d es pos name) path data u g" using st fsys_inv [OF fs] by (simp add: staged_def)
    then show "\<exists>H. fsys q H s' \<and> staged q H path data u g" using fs by blast
  qed auto
qed

lemma safe_write_spec:
  assumes s: "split_parent_and_name path = Inr (pp, name)" and n: "\<not> names_equal name TMP_NAME"
  shows "valid (fsys q F) (safe_write_file_with_metadata path data u g m)
    (\<lambda>_ s. \<exists>G. fsys q G s \<and> staged q G path data u g) (\<lambda>_ s. \<exists>G. fsys q G s)"
proof -
  let ?tmp = "tmp_path pp"
  let ?Q = "\<lambda>_ s. \<exists>G. fsys q G s \<and> staged q G path data u g" and ?E = "\<lambda>(_::fs_error) s. \<exists>G. fsys q G s"
  let ?St = "\<lambda>s. \<exists>G. fsys q G s \<and> staged q G ?tmp data u g"
  obtain pp' where t: "split_parent_and_name ?tmp = Inr (pp', TMP_NAME)" "path_components pp' = path_components pp"
    using tmp_path_split split_parent_Inr(3) [OF s] by blast
  have ren: "valid (fsys q G) (rename ?tmp name) ?Q ?E" if "staged q G ?tmp data u g" for G
    by (rule rename_staged [OF s t n that])
  have end_: "valid ?St (bnd (attempt (delete_file path)) (\<lambda>r. case r of
       Inr _ \<Rightarrow> rename ?tmp name
     | Inl e \<Rightarrow> if e = NotFound then rename ?tmp name else bnd (discard (delete_file ?tmp)) (\<lambda>_. err e))) ?Q ?E"
  proof (rule valid_ex, rule valid_assume)
    fix G assume st: "staged q G ?tmp data u g"
    let ?R = "\<lambda>r s. case r of Inr _ \<Rightarrow> ?St s | Inl (_::fs_error) \<Rightarrow> fsys q G s"
    show "valid (fsys q G) (bnd (attempt (delete_file path)) (\<lambda>r. case r of
       Inr _ \<Rightarrow> rename ?tmp name
     | Inl e \<Rightarrow> if e = NotFound then rename ?tmp name else bnd (discard (delete_file ?tmp)) (\<lambda>_. err e))) ?Q ?E"
    proof (rule valid_bnd [where R = ?R])
      show "valid (fsys q G) (attempt (delete_file path)) ?R ?E"
        by (rule valid_attempt, rule valid_weaken [OF delete_old [OF s t(1) n st]]) auto
      have ok: "valid ?St (rename ?tmp name) ?Q ?E" by (rule valid_ex, rule valid_assume, rule ren)
      have del: "valid (fsys q G) (bnd (discard (delete_file ?tmp)) (\<lambda>_. err e)) ?Q ?E" for e
      proof (rule valid_bnd [OF discard_valid])
        show "valid (fsys q G) (delete_file ?tmp) (\<lambda>_ s. \<exists>H. fsys q H s) (\<lambda>_ s. \<exists>H. fsys q H s)"
          by (rule valid_weaken [OF delete_file_fsys]) auto
      qed (auto intro: valid_err)
      show "valid (?R r) (case r of Inr _ \<Rightarrow> rename ?tmp name
         | Inl e \<Rightarrow> if e = NotFound then rename ?tmp name else bnd (discard (delete_file ?tmp)) (\<lambda>_. err e)) ?Q ?E" for r
        using ok ren [OF st] del by (cases r) auto
    qed
  qed
  have stage: "valid (fsys q G) (bnd (create_file_with_metadata ?tmp u g m) (\<lambda>_. bnd (write_file ?tmp data) (\<lambda>_. k))) ?Q ?E"
    if "valid ?St k ?Q ?E" for G k
    unfolding bnd_assoc [symmetric] by (rule valid_bnd [OF stage_fsys that])
  show ?thesis
    unfolding safe_write_file_with_metadata_def s bnd_lift_Inr prod.case Let_def
  proof (rule valid_bnd)
    show "valid (fsys q F) (delete_if_present ?tmp) (\<lambda>_ s. \<exists>G. fsys q G s) ?E"
      by (rule valid_weaken [OF delete_if_present_fsys]) auto
    show "valid (\<lambda>s. \<exists>G. fsys q G s) (bnd (create_file_with_metadata ?tmp u g m) (\<lambda>_. bnd (write_file ?tmp data) (\<lambda>_.
      bnd (attempt (delete_file path)) (\<lambda>r. case r of
       Inr _ \<Rightarrow> rename ?tmp name
     | Inl e \<Rightarrow> if e = NotFound then rename ?tmp name else bnd (discard (delete_file ?tmp)) (\<lambda>_. err e))))) ?Q ?E"
      by (rule valid_ex, rule stage [OF end_])
  qed
qed

section \<open>Metadata and listings\<close>

lemma length_file_content: "inode_ok q v i \<Longrightarrow> length (file_content v i) = unat (isize i)"
proof -
  assume ok: "inode_ok q v i"
  have "length (concat (map (\<lambda>b. bytes_at v (unat b * BLOCK_SIZE) BLOCK_SIZE) (dblocks v i))) = length (dblocks v i) * BLOCK_SIZE"
    by (rule length_concat_map_const) simp
  also have "\<dots> = needed_blocks (unat (isize i)) * BLOCK_SIZE" using length_dblocks [OF inode_okD(1) [OF ok], of v] by simp
  finally show ?thesis unfolding file_content_def using needed_le [of i] by simp
qed

definition meta_of :: "fs_file \<Rightarrow> metadata_info" where
  "meta_of f = \<lparr>md_uid = fuid f, md_gid = fgid f, md_mode = fmode f, md_size = word_of_nat (length (fdata f)),
     md_is_dir = (fkind f = KIND_DIR), md_is_file = (fkind f = KIND_FILE)\<rparr>"

definition child_info :: "(u32 \<Rightarrow> fs_file option) \<Rightarrow> dir_entry \<Rightarrow> dir_entry_info" where
  "child_info F e = \<lparr>di_name = de_name e, di_is_dir = (fkind (the (F (de_inode e))) = KIND_DIR),
     di_size = word_of_nat (length (fdata (the (F (de_inode e)))))\<rparr>"

lemma isize_content:
  assumes "fs_inv q v" and "ino q v idx = Some i"
  shows "isize i = word_of_nat (length (file_content v i))"
  using length_file_content [OF fs_invD(2) [OF assms]] by simp

lemma reads_metadata:
  assumes v: "fs_inv q v" and tr: "tree_inv q (files q v)"
  shows "reads q v (metadata_op path) (map_sum (\<lambda>_. ()) (\<lambda>(_, f). meta_of f) (live_at q (files q v) path))"
proof -
  have "reads q v (metadata_op path) (bind_res (map_sum (\<lambda>_. ()) id (live_at q (files q v) path)) (\<lambda>(_, x). Inr (meta_of x)))"
    unfolding metadata_op_def
  proof (rule reads_live [OF v tr])
    fix idx i assume i: "ino q v idx = Some i"
    show "reads q v (ret \<lparr>md_uid = iuid i, md_gid = igid i, md_mode = imode i, md_size = isize i, md_is_dir = is_dir i, md_is_file = is_file i\<rparr>)
      (Inr (meta_of (file_of v i)) :: unit + metadata_info)"
      using reads_ret isize_content [OF v i] by (simp add: meta_of_def file_of_def is_dir_def is_file_def)
  qed
  moreover have "bind_res (map_sum (\<lambda>_. ()) id (live_at q (files q v) path)) (\<lambda>(_, x). Inr (meta_of x)) =
      map_sum (\<lambda>_. ()) (\<lambda>(_, f). meta_of f) (live_at q (files q v) path)"
    by (cases "live_at q (files q v) path") auto
  ultimately show ?thesis by simp
qed

lemma reads_map_each:
  "(\<And>x. x \<in> set xs \<Longrightarrow> reads q v (f x) (Inr (g x) :: 'e + 'b)) \<Longrightarrow> reads q v (map_each xs f) (Inr (map g xs))"
proof (induction xs)
  case (Cons x xs)
  have 1: "reads q v (f x) (Inr (g x))" and 2: "reads q v (map_each xs f) (Inr (map g xs))" using Cons by auto
  have 3: "reads q v (bnd (map_each xs f) (\<lambda>ys. ret (g x # ys))) (bind_res (Inr (map g xs)) (\<lambda>ys. Inr (g x # ys)) :: 'e + 'b list)"
    by (rule reads_bnd [OF 2 reads_ret])
  have "reads q v (map_each (x # xs) f) (bind_res (Inr (g x)) (\<lambda>_. Inr (g x # map g xs)))"
    unfolding map_each.simps by (rule reads_bnd [OF 1]) (use 3 in simp)
  then show ?case by simp
qed (simp add: reads_ret)

lemma reads_attempt: "reads q v m r \<Longrightarrow> reads q v (attempt m) (Inr r)"
  unfolding reads_def by (rule valid_attempt, rule valid_weaken, assumption) auto

lemma reads_child:
  assumes v: "fs_inv q v" and tr: "tree_inv q (files q v)" and e: "e \<in> set (dir_ents q (files q v) d)"
  shows "reads q v (bnd (attempt (read_inode (de_inode e))) (\<lambda>r. ret (case r of
      Inr child \<Rightarrow> [\<lparr>di_name = de_name e, di_is_dir = is_dir child, di_size = isize child\<rparr>] | Inl _ \<Rightarrow> [])))
    (Inr [child_info (files q v) e] :: unit + dir_entry_info list)"
proof -
  obtain i where i: "ino q v (de_inode e) = Some i" "stat_of q v (de_inode e) = Inr i" using stat_child [OF v tr e] by blast
  have "files q v (de_inode e) = Some (file_of v i)" using i(1) by (simp add: files_def)
  then have c: "child_info (files q v) e = \<lparr>di_name = de_name e, di_is_dir = is_dir i, di_size = isize i\<rparr>"
    using isize_content [OF v i(1)] by (simp add: child_info_def file_of_def is_dir_def)
  have "reads q v (attempt (read_inode (de_inode e))) (Inr (Inr i) :: unit + (unit + inode))"
    using reads_attempt [OF reads_inode [OF v, of "de_inode e"]] i(2) by simp
  from reads_bnd [OF this, where f = "\<lambda>r. ret (case r of
      Inr child \<Rightarrow> [\<lparr>di_name = de_name e, di_is_dir = is_dir child, di_size = isize child\<rparr>] | Inl _ \<Rightarrow> [])"
      and g = "\<lambda>r. Inr (case r of
      Inr child \<Rightarrow> [\<lparr>di_name = de_name e, di_is_dir = is_dir child, di_size = isize child\<rparr>] | Inl _ \<Rightarrow> [])"]
  show ?thesis by (simp add: reads_ret c)
qed

definition listing :: "superblock \<Rightarrow> (u32 \<Rightarrow> fs_file option) \<Rightarrow> string \<Rightarrow> unit + dir_entry_info list" where
  "listing q F path = map_sum (\<lambda>_. ()) (map (child_info F)) (bind_res (resolve q F path) (entries_of q F))"

lemma reads_list_dir:
  assumes v: "fs_inv q v" and tr: "tree_inv q (files q v)"
  shows "reads q v (list_dir_op path) (listing q (files q v) path)"
proof -
  let ?F = "files q v"
  let ?r = "map_sum (\<lambda>_. ()) id (resolve q ?F path)"
  let ?tail = "\<lambda>idx i. if \<not> is_dir i then err () else
     bnd (ok (read_dir_entries idx)) (\<lambda>ents.
     bnd (map_each ents (\<lambda>entry.
       bnd (attempt (read_inode (de_inode entry))) (\<lambda>r. ret (case r of
         Inr child \<Rightarrow> [\<lparr>di_name = de_name entry, di_is_dir = is_dir child, di_size = isize child\<rparr>]
       | Inl _ \<Rightarrow> [])))) (\<lambda>out. ret (concat out)))"
  have tail: "reads q v (?tail idx i) (map_sum (\<lambda>_. ()) (map (child_info ?F)) (entries_of q ?F idx))" if i: "ino q v idx = Some i" for idx i
  proof (cases "is_dir i")
    case True
    have e: "entries_of q ?F idx = Inr (dir_ents q ?F idx)"
      by (rule tree_inv_entries [OF tr, of idx "file_of v i"]) (use i True in \<open>simp_all add: files_def file_of_def is_dir_def\<close>)
    have rd: "reads q v (ok (read_dir_entries idx)) (Inr (dir_ents q ?F idx) :: unit + dir_entry list)"
      using reads_map_err [OF reads_dir_entries [OF v, of idx], of "\<lambda>_. ()"] e by simp
    have me: "reads q v (map_each (dir_ents q ?F idx) (\<lambda>entry.
       bnd (attempt (read_inode (de_inode entry))) (\<lambda>r. ret (case r of
         Inr child \<Rightarrow> [\<lparr>di_name = de_name entry, di_is_dir = is_dir child, di_size = isize child\<rparr>]
       | Inl _ \<Rightarrow> [])))) (Inr (map (\<lambda>e. [child_info ?F e]) (dir_ents q ?F idx)) :: unit + dir_entry_info list list)"
      by (rule reads_map_each) (rule reads_child [OF v tr])
    have "reads q v (?tail idx i) (bind_res (Inr (dir_ents q ?F idx)) (\<lambda>_. bind_res (Inr (map (\<lambda>e. [child_info ?F e]) (dir_ents q ?F idx))) (\<lambda>out. Inr (concat out))))"
      using True by (simp only: not_True_eq_False if_False) (rule reads_bnd [OF rd], drule Inr_inject, hypsubst, rule reads_bnd [OF me reads_ret])
    then show ?thesis using e by (simp add: concat_map_singleton)
  next
    case False
    then have "entries_of q ?F idx = Inl NotDirectory" using i by (simp add: entries_of_def files_def file_of_def is_dir_def)
    then show ?thesis using False by (simp add: reads_err)
  qed
  have "reads q v (list_dir_op path) (bind_res ?r (\<lambda>idx. bind_res (stat_of q v idx) (\<lambda>_. map_sum (\<lambda>_. ()) (map (child_info ?F)) (entries_of q ?F idx))))"
    unfolding list_dir_op_def
  proof (rule reads_bnd [OF reads_map_err [OF reads_resolve_path [OF v]]], rule reads_bnd [OF reads_inode [OF v]])
    fix idx i assume r: "?r = Inr idx" and st: "stat_of q v idx = Inr i"
    then have "resolve q ?F path = Inr idx" by (cases "resolve q ?F path") auto
    then obtain j where j: "ino q v idx = Some j" using resolve_alive [OF tr] by (auto simp: files_def)
    then have "j = i" using stat_of_live [OF j] st by simp
    then show "reads q v (?tail idx i) (map_sum (\<lambda>_. ()) (map (child_info ?F)) (entries_of q ?F idx))" using tail j by simp
  qed
  moreover have "bind_res ?r (\<lambda>idx. bind_res (stat_of q v idx) (\<lambda>_. map_sum (\<lambda>_. ()) (map (child_info ?F)) (entries_of q ?F idx))) = listing q ?F path"
  proof (cases "resolve q ?F path")
    case (Inr idx)
    obtain j where "ino q v idx = Some j" using resolve_alive [OF tr Inr] by (auto simp: files_def)
    then show ?thesis using stat_of_live Inr by (simp add: listing_def)
  qed (simp add: listing_def)
  ultimately show ?thesis by simp
qed

section \<open>Sequences of calls\<close>

text \<open>The calls a client can make in any order; \<open>do_call\<close> is the state a call leaves, whether it succeeds or fails.\<close>

datatype fs_call =
  ListDir string | ReadFile string | Metadata string | Chmod string u16 | Chown string u32 u32
| CreateFile string | CreateDir string | WriteFile string bytes | DeleteFile string | Rename string string
| CopyFile string string | SafeWriteFile string bytes | Flush | TrimCleanCache nat

fun do_call :: "fs_call \<Rightarrow> fs_state \<Rightarrow> fs_state" where
  "do_call (ListDir p) s = snd (list_dir p s)"
| "do_call (ReadFile p) s = snd (read_file p s)"
| "do_call (Metadata p) s = snd (metadata p s)"
| "do_call (Chmod p m) s = snd (chmod p m s)"
| "do_call (Chown p u g) s = snd (chown p u g s)"
| "do_call (CreateFile p) s = snd (create_file p s)"
| "do_call (CreateDir p) s = snd (create_dir p s)"
| "do_call (WriteFile p d) s = snd (write_file p d s)"
| "do_call (DeleteFile p) s = snd (delete_file p s)"
| "do_call (Rename p n) s = snd (rename p n s)"
| "do_call (CopyFile p p') s = snd (copy_file p p' s)"
| "do_call (SafeWriteFile p d) s = snd (safe_write_file p d s)"
| "do_call Flush s = snd (coolfs_flush s)"
| "do_call (TrimCleanCache n) s = snd (trim_clean_cache n s)"

inductive fs_reach :: "fs_state \<Rightarrow> fs_state \<Rightarrow> bool" for s where
  fs_reach_refl: "fs_reach s s"
| fs_reach_step: "fs_reach s t \<Longrightarrow> fs_reach s (do_call c t)"

text \<open>An operation keeps a file system mounted and well formed on every exit.\<close>

definition keeps :: "superblock \<Rightarrow> (fs_state, 'e, 'a) sm \<Rightarrow> bool" where
  "keeps q m \<longleftrightarrow> valid (\<lambda>s. \<exists>F. fsys q F s) m (\<lambda>_ s. \<exists>F. fsys q F s) (\<lambda>_ s. \<exists>F. fsys q F s)"

lemma keepsI: "(\<And>F. valid (fsys q F) m (\<lambda>_ s. \<exists>F. fsys q F s) (\<lambda>_ s. \<exists>F. fsys q F s)) \<Longrightarrow> keeps q m"
  unfolding keeps_def by (rule valid_ex)

lemma keepsD: "keeps q m \<Longrightarrow> fsys q F s \<Longrightarrow> \<exists>G. fsys q G (snd (m s))"
  unfolding keeps_def valid_def by (cases "m s"; cases "fst (m s)") fastforce+

lemma keeps_bnd: "keeps q m \<Longrightarrow> (\<And>x. keeps q (f x)) \<Longrightarrow> keeps q (bnd m f)"
  unfolding keeps_def by (rule valid_bnd)

lemma keeps_ret: "keeps q (ret x)" and keeps_err: "keeps q (err e)"
  by (auto simp: keeps_def intro: valid_ret valid_err)

lemma keeps_attempt: "keeps q m \<Longrightarrow> keeps q (attempt m)"
  unfolding keeps_def by (rule valid_attempt, rule valid_weaken, assumption) (auto split: sum.splits)

lemma keeps_map_err: "keeps q m \<Longrightarrow> keeps q (map_err f m)"
  unfolding keeps_def by (rule valid_map_err)

lemma keeps_gets: "keeps q (gets g)"
  unfolding keeps_def by (simp add: valid_def gets_def)

lemma keeps_lift_res: "keeps q (lift_res r)"
  unfolding keeps_def by (cases r) (simp_all add: valid_def lift_res_def ret_def err_def)

lemma keeps_discard: "keeps q m \<Longrightarrow> keeps q (discard m)"
  unfolding keeps_def by (rule discard_valid)

lemma keeps_read: "keeps q (read_file p)"
  by (rule keepsI, rule valid_weaken [OF read_file_fsys]) auto

lemma list_dir_fsys:
  "valid (fsys q F) (list_dir path) (\<lambda>x s. fsys q F s \<and> listing q F path = Inr x) (\<lambda>e s. fsys q F s \<and> listing q F path = Inl e)"
  unfolding list_dir_def by (rule with_option_reads) (use reads_list_dir in blast)

lemma metadata_fsys:
  "valid (fsys q F) (metadata path)
    (\<lambda>x s. fsys q F s \<and> map_sum (\<lambda>_. ()) (\<lambda>(_, f). meta_of f) (live_at q F path) = Inr x)
    (\<lambda>e s. fsys q F s \<and> map_sum (\<lambda>_. ()) (\<lambda>(_, f). meta_of f) (live_at q F path) = Inl e)"
  unfolding metadata_def by (rule with_option_reads) (use reads_metadata in blast)

lemma keeps_metadata: "keeps q (metadata p)"
  by (rule keepsI, rule valid_weaken [OF metadata_fsys]) auto

lemma chmod_fsys:
  "valid (fsys q F) (chmod path mode)
    (\<lambda>_ s. \<exists>i f. live_at q F path = Inr (i, f) \<and> fsys q (F(i \<mapsto> f\<lparr>fmode := stored_mode (fkind f) mode\<rparr>)) s \<and> fs_dirty s)
    (\<lambda>e s. fsys q F s \<and> live_at q F path = Inl e)"
proof -
  let ?R = "\<lambda>(_::unit) G. \<exists>i f. live_at q F path = Inr (i, f) \<and> G = F(i \<mapsto> f\<lparr>fmode := stored_mode (fkind f) mode\<rparr>)"
  have "valid (fsys q F) (with_image_result (chmod_op path mode)) (\<lambda>x s. \<exists>G. ?R x G \<and> fsys q G s)
      (\<lambda>e s. fsys q F s \<and> live_at q F path = Inl e)"
  proof (rule with_image_valid)
    show "valid (coolfs q F) (chmod_op path mode) (\<lambda>x i. \<exists>G. ?R x G \<and> coolfs q G i)
      (\<lambda>e i. coolfs q F i \<and> live_at q F path = Inl e)" if "tree_inv q F"
      by (rule valid_weaken [OF chmod_spec [OF that]]) auto
    show "tree_inv q G" if tr: "tree_inv q F" and R: "?R x G" for x G
      using R put_tree_inv [OF tr] by (auto simp: live_at_Inr)
  qed
  from mutate_valid [OF this] show ?thesis unfolding chmod_def by (rule valid_weaken) auto
qed

lemma chown_fsys:
  "valid (fsys q F) (chown path u g)
    (\<lambda>_ s. \<exists>i f. live_at q F path = Inr (i, f) \<and> fsys q (F(i \<mapsto> f\<lparr>fuid := u, fgid := g\<rparr>)) s \<and> fs_dirty s)
    (\<lambda>e s. fsys q F s \<and> live_at q F path = Inl e)"
proof -
  let ?R = "\<lambda>(_::unit) G. \<exists>i f. live_at q F path = Inr (i, f) \<and> G = F(i \<mapsto> f\<lparr>fuid := u, fgid := g\<rparr>)"
  have "valid (fsys q F) (with_image_result (chown_op path u g)) (\<lambda>x s. \<exists>G. ?R x G \<and> fsys q G s)
      (\<lambda>e s. fsys q F s \<and> live_at q F path = Inl e)"
  proof (rule with_image_valid)
    show "valid (coolfs q F) (chown_op path u g) (\<lambda>x i. \<exists>G. ?R x G \<and> coolfs q G i)
      (\<lambda>e i. coolfs q F i \<and> live_at q F path = Inl e)" if "tree_inv q F"
      by (rule valid_weaken [OF chown_spec [OF that]]) auto
    show "tree_inv q G" if tr: "tree_inv q F" and R: "?R x G" for x G
      using R put_tree_inv [OF tr] by (auto simp: live_at_Inr)
  qed
  from mutate_valid [OF this] show ?thesis unfolding chown_def by (rule valid_weaken) auto
qed

lemma rename_same_fsys:
  assumes "same_name p n" and "validate_name n = Inr ()"
  shows "valid (fsys q F) (rename p n) (\<lambda>_. fsys q F) (\<lambda>_. fsys q F)"
  unfolding rename_def assms(2) bnd_lift_Inr
proof (rule valid_bnd)
  have "valid (fsys q F) (with_image_result (rename_op p n)) (\<lambda>x s. \<exists>G. (\<not> x \<and> G = F) \<and> fsys q G s) (\<lambda>e s. fsys q F s \<and> True)"
    by (rule with_image_valid) (auto simp: rename_same [OF assms(1)] intro!: valid_ret)
  then show "valid (fsys q F) (with_image_result (rename_op p n)) (\<lambda>x s. fsys q F s \<and> \<not> x) (\<lambda>_. fsys q F)"
    by (rule valid_weaken) auto
  show "valid (\<lambda>s. fsys q F s \<and> \<not> x) (if x then record_mutation ''coolfs-rename'' p else ret ()) (\<lambda>_. fsys q F) (\<lambda>_. fsys q F)" for x
    by (rule valid_assume) (auto intro!: valid_ret)
qed

lemma keeps_rename: "keeps q (rename p n)"
proof (cases "validate_name n")
  case (Inl e)
  then have "rename p n = err e" by (auto simp: rename_def bnd_def lift_res_def err_def)
  then show ?thesis by (simp add: keeps_err)
next
  case (Inr y)
  then have v: "validate_name n = Inr ()" by simp
  show ?thesis
  proof (cases "same_name p n")
    case True
    show ?thesis by (rule keepsI, rule valid_weaken [OF rename_same_fsys [OF True v]]) auto
  next
    case False
    show ?thesis by (rule keepsI, rule valid_weaken [OF rename_fsys [OF v False]]) auto
  qed
qed

lemma keeps_create: "k = KIND_FILE \<or> k = KIND_DIR \<Longrightarrow> keeps q (create_node p k u g m)"
  by (rule keepsI, rule valid_weaken [OF create_node_fsys]) auto

lemma keeps_mutations: "keeps q (list_dir p)" "keeps q (chmod p m)" "keeps q (chown p u g)" "keeps q (write_file p d)"
    "keeps q (delete_file p)" "keeps q (delete_if_present p)"
    "keeps q (create_file_with_metadata p u g m)" "keeps q (create_dir_with_metadata p u g m)"
         apply (rule keepsI, rule valid_weaken [OF list_dir_fsys]; auto)
        apply (rule keepsI, rule valid_weaken [OF chmod_fsys]; auto)
       apply (rule keepsI, rule valid_weaken [OF chown_fsys]; auto)
      apply (rule keepsI, rule valid_weaken [OF write_file_fsys]; auto)
     apply (rule keepsI, rule valid_weaken [OF delete_file_fsys]; auto)
    apply (rule keepsI, rule valid_weaken [OF delete_if_present_fsys]; auto)
   apply (simp add: create_file_with_metadata_def keeps_create)
  apply (simp add: create_dir_with_metadata_def keeps_create)
  done

lemmas keeps_intros = keeps_bnd keeps_ret keeps_err keeps_attempt keeps_map_err keeps_gets keeps_lift_res keeps_discard
  keeps_read keeps_metadata keeps_rename keeps_mutations

lemma keeps_safe_write: "keeps q (safe_write_file p d)"
  unfolding safe_write_file_def safe_write_file_with_metadata_def Let_def
  by (intro keeps_intros; (split prod.splits)?; (split sum.splits)?)
    (auto intro!: keeps_intros split: sum.splits prod.splits)

lemma keeps_copy: "keeps q (copy_file p p')"
  unfolding copy_file_def create_file_def by (intro keeps_intros)

lemma keeps_create_file: "keeps q (create_file p)" "keeps q (create_dir p)"
  unfolding create_file_def create_dir_def by (intro keeps_intros)+

lemma flush_fsys:
  assumes "fsys q F s"
  obtains t where "coolfs_flush s = (Inr (), t)" "fsys q F t"
proof -
  obtain i v where i: "slot s = Some i" "img True v q i" "fs_inv q v" "files q v = F" using assms by (auto simp: fsys_def coolfs_def)
  obtain t where t: "image_flush i = (Inr (), t)" "img True v q t" using image_flush_spec [OF i(2)] by metis
  let ?t = "if fs_dirty s then s\<lparr>slot := Some t, fs_dirty := False\<rparr> else s"
  have "coolfs_flush s = (Inr (), ?t)" using i t by (simp add: coolfs_flush_def)
  moreover have "fsys q F ?t" using assms coolfsI [OF t(2) i(3,4)] by (auto simp: fsys_def)
  ultimately show thesis by (rule that)
qed

lemma trim_fsys: "fsys q F s \<Longrightarrow> fsys q F (snd (trim_clean_cache n s))"
proof -
  assume s: "fsys q F s"
  obtain i v where i: "slot s = Some i" "img True v q i" "fs_inv q v" "files q v = F" using s by (auto simp: fsys_def coolfs_def)
  have i': "holds True v \<lparr>sb = q\<rparr> i \<and> filter ce_dirty (entries i) = filter ce_dirty (entries i) \<and> length (entries i) = length (entries i)"
    using i(2) by (simp add: img_def)
  obtain k t where t: "cache_trim_clean n i = (Inr k, t)" "img True v q t"
    unfolding img_def using valid_success [OF cache_trim_clean_spec i'] by metis
  then show ?thesis using s i t by (auto simp: fsys_def trim_clean_cache_def split: prod.splits intro: coolfsI)
qed

lemmas keeps_calls = keeps_read keeps_metadata keeps_rename keeps_mutations(1-5) keeps_safe_write keeps_copy keeps_create_file

lemma call_fsys: "fsys q F s \<Longrightarrow> \<exists>G. fsys q G (do_call c s)"
proof (cases c)
  case Flush
  assume "fsys q F s"
  then obtain t where "coolfs_flush s = (Inr (), t)" "fsys q F t" by (rule flush_fsys)
  then show ?thesis using Flush by auto
next
  case (TrimCleanCache n)
  assume "fsys q F s"
  then show ?thesis using trim_fsys [of q F s n] TrimCleanCache by auto
qed (simp_all only: do_call.simps, (erule keepsD [rotated], rule keeps_calls)+)

section \<open>A file system to start from\<close>

definition boot_log :: change_log where
  "boot_log = \<lparr>ticks = 0, heap_ready = True, settings_loaded = False, storage_writeback_enabled = True,
     prof_events = [], work_queue = [], journal = [], journal_dirty = False, dirty_paths = [], search_entries = [],
     writeback = \<lparr>pending = [], queued = 0, completed = 0, barriers = 0, failures = 0, last_error = None\<rparr>\<rparr>"

definition fresh_fs :: fs_state where
  "fresh_fs = \<lparr>slot = Some fresh_image, disk = mach blank_cache, fs_dirty = False, log = boot_log, cred_uid = 0, cred_gid = 0\<rparr>"

lemma fresh_entries: "entries_of superblock_new [0 \<mapsto> root_dir] 0 = Inr []"
  by (simp add: entries_of_def empty_file_def parse_dir_entries.simps DIR_ENTRY_SIZE_def)

lemma fresh_tree_inv: "tree_inv superblock_new [0 \<mapsto> root_dir]"
proof -
  let ?F = "[0 \<mapsto> root_dir] :: u32 \<Rightarrow> fs_file option"
  have r: "root_inode superblock_new = 0" by (simp add: superblock_new_def ROOT_INODE_def)
  have d: "dir_ents superblock_new ?F i = []" for i
    using fresh_entries by (cases "i = 0") (simp_all add: dir_ents_def, simp add: entries_of_def)
  have "node_ok superblock_new ?F i" for i using fresh_entries d by (simp add: node_ok_def empty_file_def)
  moreover have "tree 0 {0} (dir_ents superblock_new ?F)" using d by (simp add: tree_def distinct_names_def)
  ultimately show ?thesis by (simp add: tree_inv_def r empty_file_def)
qed

lemma fresh_fsys: "fsys superblock_new [0 \<mapsto> root_dir] fresh_fs"
  using fresh_image_coolfs fresh_tree_inv by (simp add: fsys_def fresh_fs_def boot_log_def log_inv_def distinct_paths_def)

text \<open>Switching the machine off and on: what was in memory is gone, the disk stays. The next call mounts the image again.\<close>

definition power_cycle :: "(fs_state, fs_error, unit) sm" where
  "power_cycle = upd (\<lambda>s. s\<lparr>slot := None, disk := (case slot s of Some i \<Rightarrow> mach i | None \<Rightarrow> disk s), fs_dirty := False, log := boot_log\<rparr>)"

definition recoverable :: "superblock \<Rightarrow> (u32 \<Rightarrow> fs_file option) \<Rightarrow> fs_state \<Rightarrow> bool" where
  "recoverable q F s \<longleftrightarrow> slot s = None \<and> tree_inv q F \<and> log_inv (log s) \<and> (\<exists>i m. load_or_format (disk s) = (Inr i, m) \<and> coolfs q F i)"

lemma flush_recoverable:
  assumes "1024 \<le> total_blocks q"
  shows "valid (\<lambda>s. fsys q F s \<and> fs_dirty s) (bnd coolfs_flush (\<lambda>_. power_cycle)) (\<lambda>_. recoverable q F) E"
proof -
  have "\<exists>t. bnd coolfs_flush (\<lambda>_. power_cycle) s = (Inr (), t) \<and> recoverable q F t" if s: "fsys q F s" "fs_dirty s" for s
  proof -
    obtain i v where i: "slot s = Some i" "img True v q i" "fs_inv q v" "files q v = F" using s by (auto simp: fsys_def coolfs_def)
    obtain t where t: "image_flush i = (Inr (), t)" "img True v q t"
      "\<And>b. b < TOTAL_BLOCKS \<Longrightarrow> disk_block (mach t) b = block_at v (unat b)" using image_flush_spec [OF i(2)] by metis
    have p: "superblock_parse (block_at v 0) = Some q" "fits q" using i(3) by (auto simp: fs_inv_def)
    obtain s' m' where m: "load_or_format (mach t) = (Inr s', m')" "img True v q s'"
      using remount_spec [OF t(2,3) p(1) assms p(2)] by metis
    have "coolfs q F s'" by (rule coolfsI [OF m(2) i(3,4)])
    then show ?thesis using s i(1) t(1) m(1)
      by (auto simp: bnd_def coolfs_flush_def power_cycle_def upd_def recoverable_def fsys_def boot_log_def log_inv_def distinct_paths_def)
  qed
  then show ?thesis by (fastforce simp: valid_def)
qed

lemma read_recoverable:
  assumes "file_at q F path = Inr (i, f)"
  shows "valid (recoverable q F) (read_file path) (\<lambda>x s. fsys q F s \<and> x = fdata f) E"
proof -
  have "\<exists>t. read_file path s = (Inr (fdata f), t) \<and> fsys q F t" if s: "recoverable q F s" for s
  proof -
    obtain k m where k: "load_or_format (disk s) = (Inr k, m)" "coolfs q F k" using s by (auto simp: recoverable_def)
    have "fsys q F (s\<lparr>slot := Some k\<rparr>)" using s k by (simp add: recoverable_def fsys_def)
    then obtain t where t: "read_file path (s\<lparr>slot := Some k\<rparr>) = (Inr (fdata f), t)" "fsys q F t"
      using valid_success [OF read_present [OF assms, where E = "\<lambda>_ _. False"]] by metis
    then show ?thesis using s k
      by (auto simp: read_file_def with_image_option_def recoverable_def fsys_def split: prod.splits)
  qed
  then show ?thesis by (fastforce simp: valid_def)
qed

section \<open>Properties of the file system\<close>

text \<open>All files of the tree with every path that leads to them.\<close>

definition file_paths :: "superblock \<Rightarrow> (u32 \<Rightarrow> fs_file option) \<Rightarrow> (string \<times> fs_file) set" where
  "file_paths q F = {(p, f). \<exists>i. file_at q F p = Inr (i, f)}"

lemma put_file_at:
  assumes "file_at q F path = Inr (i, f)" and "fkind f' = KIND_FILE"
  shows "file_at q (F(i \<mapsto> f')) path = Inr (i, f')"
proof -
  have f: "resolve q F path = Inr i" "F i = Some f" "fkind f = KIND_FILE" using assms(1) by (simp_all add: file_at_Inr)
  have "entries_of q (F(i \<mapsto> f')) a = entries_of q F a" for a
    by (rule entries_of_put [of F i f]) (use f assms(2) in simp_all)
  then have "resolve q (F(i \<mapsto> f')) path = resolve q F path" by (rule walk_cong(2))
  then show ?thesis using f assms(2) by (simp add: file_at_Inr)
qed

lemma delete_missing:
  assumes "split_parent_and_name path = Inr (pp, n)" and "delete_check q F path = Inl NotFound"
  shows "resolve q F path = Inl NotFound"
proof (cases "parent_of q F path")
  case (Inl e)
  then have "e = NotFound" using assms(2) by (simp add: delete_check_def)
  then show ?thesis using Inl resolve_split [OF assms(1), of q F] assms(1)
    by (cases "resolve q F pp"; cases "entries_of q F (projr (resolve q F pp))") (auto simp: parent_of_def dir_lookup_def)
next
  case (Inr r)
  obtain d es n' where r: "r = (d, es, n')" by (cases r)
  have "position (\<lambda>e. names_equal (de_name e) n') es = None"
    using Inr assms(2) by (auto simp: r delete_check_def split: option.splits if_splits)
  then show ?thesis using parent_resolve(1) [OF Inr [unfolded r]] by (simp add: find_entry_position)
qed

lemma delete_file_gone:
  assumes "split_parent_and_name path = Inr (pp, n)"
  shows "valid (fsys q F) (delete_file path) (\<lambda>_ s. \<exists>G. fsys q G s \<and> resolve q G path = Inl NotFound)
    (\<lambda>e s. fsys q F s \<and> (e = NotFound \<longrightarrow> resolve q F path = Inl NotFound))"
proof (rule valid_fsys, rule valid_weaken [OF delete_file_fsys])
  assume tr: "tree_inv q F"
  fix x s assume "\<exists>d es pos. delete_check q F path = Inr (d, es, pos) \<and> fsys q (delete_at F d es pos) s \<and> fs_dirty s"
  then show "\<exists>G. fsys q G s \<and> resolve q G path = Inl NotFound" using delete_paths(2) [OF tr] by blast
qed (use delete_missing [OF assms] in auto)

lemma resolve_Inr_walk: "resolve q F p = Inr i \<Longrightarrow> walk q F (path_components p) (root_inode q) = Inr i"
  using resolve_slash [of q F "tl p"] by (cases p) (auto simp: resolve_def trim_abs_path_def split: if_splits)

text \<open>C1: \<open>write_file\<close> followed by \<open>read_file\<close> of the same path returns exactly the bytes written. The write changes the
  content of that one file and nothing else: every other file, every directory and the owner and mode of the file stay.
  When the write fails, the error is the one the path lookup reports, or \<open>NoSpace\<close>, and no file has changed.\<close>

theorem write_file_then_read_file:
  "valid (fsys q F) (bnd (write_file path data) (\<lambda>_. ok_or NotFound (read_file path)))
    (\<lambda>x s. x = data \<and> (\<exists>i f. file_at q F path = Inr (i, f) \<and> fsys q (F(i \<mapsto> f\<lparr>fdata := data\<rparr>)) s))
    (\<lambda>e s. fsys q F s \<and> (file_at q F path = Inl e \<or> e = NoSpace))"
proof (rule valid_bnd [OF write_file_fsys], rule valid_ex, rule valid_ex)
  fix i f
  show "valid (\<lambda>s. file_at q F path = Inr (i, f) \<and> fsys q (F(i \<mapsto> f\<lparr>fdata := data\<rparr>)) s \<and> fs_dirty s) (ok_or NotFound (read_file path))
    (\<lambda>x s. x = data \<and> (\<exists>i f. file_at q F path = Inr (i, f) \<and> fsys q (F(i \<mapsto> f\<lparr>fdata := data\<rparr>)) s))
    (\<lambda>e s. fsys q F s \<and> (file_at q F path = Inl e \<or> e = NoSpace))"
  proof (rule valid_pre [where P' = "\<lambda>s. fsys q (F(i \<mapsto> f\<lparr>fdata := data\<rparr>)) s \<and> file_at q F path = Inr (i, f)"], rule valid_assume)
    assume f: "file_at q F path = Inr (i, f)"
    have g: "file_at q (F(i \<mapsto> f\<lparr>fdata := data\<rparr>)) path = Inr (i, f\<lparr>fdata := data\<rparr>)"
      by (rule put_file_at [OF f]) (use f in \<open>simp add: file_at_Inr\<close>)
    show "valid (fsys q (F(i \<mapsto> f\<lparr>fdata := data\<rparr>))) (ok_or NotFound (read_file path))
      (\<lambda>x s. x = data \<and> (\<exists>i f. file_at q F path = Inr (i, f) \<and> fsys q (F(i \<mapsto> f\<lparr>fdata := data\<rparr>)) s))
      (\<lambda>e s. fsys q F s \<and> (file_at q F path = Inl e \<or> e = NoSpace))"
      by (rule valid_map_err, rule valid_weaken [OF read_present [OF g, where E = "\<lambda>_ _. False"]]) (use f in auto)
  qed auto
qed



text \<open>C3: A successful creation makes the path lead to a new empty file or directory with the requested owner and mode, at a
  path that was not there, and every file that had a path keeps it with its content. A failed one changes no file, and the
  error is the one the checks of the parent directory report, or \<open>NoSpace\<close>.\<close>

theorem create_node_adds_path:
  assumes "k = KIND_FILE \<or> k = KIND_DIR"
  shows "valid (fsys q F) (create_node path k u g m)
    (\<lambda>_ s. \<exists>G idx. fsys q G s \<and> live_at q G path = Inr (idx, empty_file k u g m) \<and> F idx = None \<and>
       resolve q F path = Inl NotFound \<and> file_paths q F \<subseteq> file_paths q G)
    (\<lambda>e s. fsys q F s \<and> (create_check q F path = Inl e \<or> e = NoSpace))"
proof (rule valid_fsys, rule valid_weaken [OF create_node_fsys [OF assms]])
  assume tr: "tree_inv q F"
  fix x s assume "\<exists>d es name idx. create_check q F path = Inr (d, es, name) \<and> F idx = None \<and> idx \<noteq> 0 \<and>
       fsys q (create_at F d es name idx (empty_file k u g m)) s \<and> fs_dirty s"
  then obtain d es name idx where c: "create_check q F path = Inr (d, es, name)" "F idx = None" "idx \<noteq> 0"
    and s: "fsys q (create_at F d es name idx (empty_file k u g m)) s" (is "fsys q ?G s") by blast
  have k: "fkind (empty_file k u g m) = KIND_FILE \<or> fkind (empty_file k u g m) = KIND_DIR" "fdata (empty_file k u g m) = []"
    using assms by simp_all
  note cp = create_paths [OF tr c k]
  have p: "parent_of q F path = Inr (d, es, name)" "\<not> list_ex (\<lambda>e. names_equal (de_name e) name) es"
    using c(1) by (auto simp: create_check_Inr)
  obtain fd where fd: "F d = Some fd" "fkind fd = KIND_DIR" using parent_live [OF p(1)] by blast
  have "resolve q F path = Inl NotFound"
    using parent_resolve(1) [OF p(1)] p(2) by (simp add: find_entry_None [THEN iffD2])
  moreover have "file_paths q F \<subseteq> file_paths q ?G"
  proof
    fix y assume "y \<in> file_paths q F"
    then obtain p f i where y: "y = (p, f)" "file_at q F p = Inr (i, f)" by (auto simp: file_paths_def)
    then have "i \<noteq> d" using fd by (auto simp: file_at_Inr KIND_FILE_def KIND_DIR_def)
    then have "live_at q ?G p = Inr (i, f)" using y(2) cp(2) [of p i f] by (simp add: file_at_Inr live_at_Inr)
    then show "y \<in> file_paths q ?G" using y by (auto simp: file_paths_def file_at_Inr live_at_Inr)
  qed
  ultimately show "\<exists>G idx. fsys q G s \<and> live_at q G path = Inr (idx, empty_file k u g m) \<and> F idx = None \<and>
       resolve q F path = Inl NotFound \<and> file_paths q F \<subseteq> file_paths q G"
    using s cp(1) c(2) by blast
qed auto

theorem create_node_adds_path_witness:
  "fsys superblock_new [0 \<mapsto> root_dir] fresh_fs \<and> create_check superblock_new [0 \<mapsto> root_dir] ''/A'' = Inr (0, [], ''A'') \<and>
   valid (fsys superblock_new [0 \<mapsto> root_dir]) (create_node ''/A'' KIND_FILE 5 6 420)
    (\<lambda>_ s. \<exists>G idx. fsys superblock_new G s \<and> live_at superblock_new G ''/A'' = Inr (idx, empty_file KIND_FILE 5 6 420) \<and>
       [0 \<mapsto> root_dir] idx = None \<and> resolve superblock_new [0 \<mapsto> root_dir] ''/A'' = Inl NotFound \<and>
       file_paths superblock_new [0 \<mapsto> root_dir] \<subseteq> file_paths superblock_new G)
    (\<lambda>e s. fsys superblock_new [0 \<mapsto> root_dir] s \<and> (create_check superblock_new [0 \<mapsto> root_dir] ''/A'' = Inl e \<or> e = NoSpace))"
proof (intro conjI fresh_fsys)
  have "split_parent_and_name ''/A'' = Inr (''/'', ''A'')" by code_simp
  moreover have "resolve superblock_new [0 \<mapsto> root_dir] ''/'' = Inr 0"
    unfolding resolve_slash by (simp add: path_components_def superblock_new_def ROOT_INODE_def)
  ultimately show "create_check superblock_new [0 \<mapsto> root_dir] ''/A'' = Inr (0, [], ''A'')"
    using fresh_entries unfolding create_check_Inr parent_of_Inr by simp
qed (rule create_node_adds_path, simp)

text \<open>C4: A successful \<open>delete_file\<close> removes the path and gives its inode back; every file reached through another inode
  keeps its paths and content. A failed one changes no file, and the error is that of the checks (a missing path, a
  directory that is not empty), or \<open>NoSpace\<close>.\<close>

theorem delete_file_removes_path:
  "valid (fsys q F) (delete_file path)
    (\<lambda>_ s. \<exists>G t. fsys q G s \<and> resolve q F path = Inr t \<and> dir_ents q F t = [] \<and> resolve q G path = Inl NotFound \<and> G t = None \<and>
       {(p, f). \<exists>i. file_at q F p = Inr (i, f) \<and> i \<noteq> t} \<subseteq> file_paths q G)
    (\<lambda>e s. fsys q F s \<and> (delete_check q F path = Inl e \<or> e = NoSpace))"
proof (rule valid_fsys, rule valid_weaken [OF delete_file_fsys])
  assume tr: "tree_inv q F"
  fix x s assume "\<exists>d es pos. delete_check q F path = Inr (d, es, pos) \<and> fsys q (delete_at F d es pos) s \<and> fs_dirty s"
  then obtain d es pos where c: "delete_check q F path = Inr (d, es, pos)" and s: "fsys q (delete_at F d es pos) s" (is "fsys q ?G s")
    by blast
  let ?t = "de_inode (es ! pos)"
  note dp = delete_paths [OF tr c]
  obtain name where p: "parent_of q F path = Inr (d, es, name)" and leaf: "dir_ents q F ?t = []" using delete_checkD [OF c] by metis
  obtain fd where fd: "F d = Some fd" "fkind fd = KIND_DIR" using parent_live [OF p] by blast
  have "{(p, f). \<exists>i. file_at q F p = Inr (i, f) \<and> i \<noteq> ?t} \<subseteq> file_paths q ?G"
  proof
    fix y assume "y \<in> {(p, f). \<exists>i. file_at q F p = Inr (i, f) \<and> i \<noteq> ?t}"
    then obtain p f i where y: "y = (p, f)" "file_at q F p = Inr (i, f)" "i \<noteq> ?t" by auto
    then have "i \<noteq> d" using fd by (auto simp: file_at_Inr KIND_FILE_def KIND_DIR_def)
    then have "live_at q ?G p = Inr (i, f)" using y(2,3) dp(4) [of p i f] by (simp add: file_at_Inr live_at_Inr)
    then show "y \<in> file_paths q ?G" using y by (auto simp: file_paths_def file_at_Inr live_at_Inr)
  qed
  then show "\<exists>G t. fsys q G s \<and> resolve q F path = Inr t \<and> dir_ents q F t = [] \<and> resolve q G path = Inl NotFound \<and> G t = None \<and>
       {(p, f). \<exists>i. file_at q F p = Inr (i, f) \<and> i \<noteq> t} \<subseteq> file_paths q G"
    using s dp(1-3) leaf by blast
qed auto

text \<open>C5: A successful \<open>rename\<close> to a different name moves the file or directory: the path with the new name leads to the same
  inode with the same content, the old path is gone, and no inode but the parent directory has changed. A failed one changes
  nothing; the error is that of the checks (a missing path, a name already taken), or \<open>NoSpace\<close>.\<close>

theorem rename_moves_path:
  assumes "validate_name n = Inr ()" and "split_parent_and_name path = Inr (pp, old)" and "\<not> names_equal old n"
    and "split_parent_and_name path' = Inr (pp', n)" and "path_components pp' = path_components pp"
  shows "valid (fsys q F) (rename path n)
    (\<lambda>_ s. \<exists>G d i f. fsys q G s \<and> live_at q F path = Inr (i, f) \<and> live_at q G path' = Inr (i, f) \<and> resolve q G path = Inl NotFound \<and>
       resolve q F pp = Inr d \<and> G(d := None) = F(d := None))
    (\<lambda>e s. fsys q F s \<and> (rename_check q F path n = Inl e \<or> e = NoSpace))"
proof (rule valid_fsys)
  have ne: "\<not> same_name path n" using assms(2,3) by (simp add: same_name_def)
  assume tr: "tree_inv q F"
  show ?thesis
  proof (rule valid_weaken [OF rename_fsys [OF assms(1) ne]])
    fix x s assume "\<exists>d es pos. rename_check q F path n = Inr (d, es, pos) \<and> fsys q (rename_at F d es pos n) s \<and> fs_dirty s"
    then obtain d es pos where c: "rename_check q F path n = Inr (d, es, pos)" and s: "fsys q (rename_at F d es pos n) s" (is "fsys q ?G s")
      by blast
    note rp = rename_paths [OF tr c assms(1) ne assms(2,4,5)]
    obtain name where "parent_of q F path = Inr (d, es, name)" using rename_checkD [OF c] by metis
    then have d: "resolve q F pp = Inr d" using assms(2) by (simp add: parent_of_Inr)
    have "?G(d := None) = F(d := None)" by (auto simp: rename_at_def set_entries_def)
    then show "\<exists>G d i f. fsys q G s \<and> live_at q F path = Inr (i, f) \<and> live_at q G path' = Inr (i, f) \<and> resolve q G path = Inl NotFound \<and>
       resolve q F pp = Inr d \<and> G(d := None) = F(d := None)" using s d rp by metis
  qed auto
qed

theorem rename_moves_path_witness:
  "fsys superblock_new [0 \<mapsto> root_dir] fresh_fs \<and>
   valid (fsys superblock_new [0 \<mapsto> root_dir]) (rename ''/A'' ''B'')
    (\<lambda>_ s. \<exists>G d i f. fsys superblock_new G s \<and> live_at superblock_new [0 \<mapsto> root_dir] ''/A'' = Inr (i, f) \<and>
       live_at superblock_new G ''/B'' = Inr (i, f) \<and> resolve superblock_new G ''/A'' = Inl NotFound \<and>
       resolve superblock_new [0 \<mapsto> root_dir] ''/'' = Inr d \<and> G(d := None) = [0 \<mapsto> root_dir](d := None))
    (\<lambda>e s. fsys superblock_new [0 \<mapsto> root_dir] s \<and> (rename_check superblock_new [0 \<mapsto> root_dir] ''/A'' ''B'' = Inl e \<or> e = NoSpace))"
proof (intro conjI fresh_fsys)
  have "validate_name ''B'' = Inr ()" "split_parent_and_name ''/A'' = Inr (''/'', ''A'')" "\<not> names_equal ''A'' ''B''"
    "split_parent_and_name ''/B'' = Inr (''/'', ''B'')" by code_simp+
  then show "valid (fsys superblock_new [0 \<mapsto> root_dir]) (rename ''/A'' ''B'')
    (\<lambda>_ s. \<exists>G d i f. fsys superblock_new G s \<and> live_at superblock_new [0 \<mapsto> root_dir] ''/A'' = Inr (i, f) \<and>
       live_at superblock_new G ''/B'' = Inr (i, f) \<and> resolve superblock_new G ''/A'' = Inl NotFound \<and>
       resolve superblock_new [0 \<mapsto> root_dir] ''/'' = Inr d \<and> G(d := None) = [0 \<mapsto> root_dir](d := None))
    (\<lambda>e s. fsys superblock_new [0 \<mapsto> root_dir] s \<and> (rename_check superblock_new [0 \<mapsto> root_dir] ''/A'' ''B'' = Inl e \<or> e = NoSpace))"
    by (rule rename_moves_path) simp
qed



text \<open>C7: After any sequence of calls, failed ones included, the file system is mounted and well formed: the blocks of
  different files are disjoint and marked used, every inode but the root has exactly one directory entry, names within a
  directory differ, and the change log keeps its bounds.\<close>

theorem every_call_keeps_the_file_system:
  assumes "fs_reach s t" and "fsys q F s"
  shows "\<exists>G. fsys q G t"
  using assms by (induction rule: fs_reach.induct) (blast intro: call_fsys)+

theorem every_call_keeps_the_file_system_witness:
  "fs_reach fresh_fs (do_call Flush (do_call (CreateFile ''/A'') fresh_fs)) \<and>
   (\<exists>G. fsys superblock_new G (do_call Flush (do_call (CreateFile ''/A'') fresh_fs)))"
proof -
  have r: "fs_reach fresh_fs (do_call Flush (do_call (CreateFile ''/A'') fresh_fs))" by (intro fs_reach.intros)
  show ?thesis using r every_call_keeps_the_file_system [OF r fresh_fsys] by blast
qed



text \<open>C9: \<open>list_dir\<close> fails exactly when the path does not lead to a directory; otherwise it returns one item per entry of the
  directory, in order, with the name, the kind and the size of the file the entry refers to. \<open>metadata\<close> returns owner,
  mode, size and kind of the file at the path. Neither changes a file.\<close>

theorem queries_report_the_tree:
  "valid (fsys q F) (list_dir path)
     (\<lambda>x s. fsys q F s \<and> listing q F path = Inr x) (\<lambda>e s. fsys q F s \<and> listing q F path = Inl e) \<and>
   valid (fsys q F) (metadata path)
     (\<lambda>x s. fsys q F s \<and> map_sum (\<lambda>_. ()) (\<lambda>(_, f). meta_of f) (live_at q F path) = Inr x)
     (\<lambda>e s. fsys q F s \<and> map_sum (\<lambda>_. ()) (\<lambda>(_, f). meta_of f) (live_at q F path) = Inl e)"
  by (rule conjI [OF list_dir_fsys metadata_fsys])



text \<open>After a successful \<open>chmod\<close>, \<open>metadata\<close> reports the nine permission bits of the requested mode, unless they are all
  zero: then it reports the default mode of the file's kind, since a stored mode of zero stands for "not set". Nothing else
  about the file has changed. \<open>chmod\<close> fails only when the path does not lead to a file.\<close>

theorem chmod_then_metadata:
  "valid (fsys q F) (bnd (chmod path mode) (\<lambda>_. ok_or NotFound (metadata path)))
    (\<lambda>x s. \<exists>i f. live_at q F path = Inr (i, f) \<and> x = (meta_of f)\<lparr>md_mode := stored_mode (fkind f) mode\<rparr> \<and>
       fsys q (F(i \<mapsto> f\<lparr>fmode := stored_mode (fkind f) mode\<rparr>)) s)
    (\<lambda>e s. fsys q F s \<and> live_at q F path = Inl e)"
proof (rule valid_bnd [OF chmod_fsys], rule valid_ex, rule valid_ex)
  fix i f
  let ?G = "F(i \<mapsto> f\<lparr>fmode := stored_mode (fkind f) mode\<rparr>)"
  let ?Q = "\<lambda>x s. \<exists>i f. live_at q F path = Inr (i, f) \<and> x = (meta_of f)\<lparr>md_mode := stored_mode (fkind f) mode\<rparr> \<and>
       fsys q (F(i \<mapsto> f\<lparr>fmode := stored_mode (fkind f) mode\<rparr>)) s"
  let ?E = "\<lambda>e s. fsys q F s \<and> live_at q F path = Inl e"
  show "valid (\<lambda>s. live_at q F path = Inr (i, f) \<and> fsys q ?G s \<and> fs_dirty s) (ok_or NotFound (metadata path)) ?Q ?E"
  proof (rule valid_pre [where P' = "\<lambda>s. fsys q ?G s \<and> live_at q F path = Inr (i, f)"], rule valid_assume)
    assume f: "live_at q F path = Inr (i, f)"
    then have ff: "resolve q F path = Inr i" "F i = Some f" by (simp_all add: live_at_Inr)
    have "entries_of q ?G a = entries_of q F a" for a by (auto simp: entries_of_def ff(2))
    then have "resolve q ?G path = Inr i" using walk_cong(2) ff(1) by metis
    then have "live_at q ?G path = Inr (i, f\<lparr>fmode := stored_mode (fkind f) mode\<rparr>)" by (simp add: live_at_Inr)
    then show "valid (fsys q ?G) (ok_or NotFound (metadata path)) ?Q ?E"
      by (intro valid_map_err, intro valid_weaken [OF metadata_fsys]) (use f in \<open>auto simp: meta_of_def\<close>)
  qed auto
qed

end
