(* ===== verification/Cool_Text.thy ===== *)
theory Cool_Text
  imports Cool_Base
begin

text \<open>
  Text functions of the Rust library that the configuration code uses: \<open>trim\<close>, \<open>lines\<close>, \<open>strip_prefix\<close>, character
  classes, and decimal numbers as \<open>security.rs\<close> and \<open>fat32.rs\<close> print and parse them. A \<open>str\<close> is its UTF-8 bytes.
\<close>

section \<open>White space\<close>

text \<open>The length of the white space character at the front of a string, 0 when there is none: the ASCII ones, U+0085, U+00A0,
  U+1680, U+2000 to U+200A, U+2028, U+2029, U+202F, U+205F and U+3000. The second function reads the reversed string.\<close>

definition ascii_ws :: "nat \<Rightarrow> bool" where
  "ascii_ws n \<longleftrightarrow> (9 \<le> n \<and> n \<le> 13) \<or> n = 32"

definition wide_ws :: "nat \<Rightarrow> nat \<Rightarrow> nat \<Rightarrow> bool" where
  "wide_ws a b c \<longleftrightarrow>
     (a = 0xE1 \<and> b = 0x9A \<and> c = 0x80) \<or>
     (a = 0xE2 \<and> b = 0x80 \<and> ((0x80 \<le> c \<and> c \<le> 0x8A) \<or> c = 0xA8 \<or> c = 0xA9 \<or> c = 0xAF)) \<or>
     (a = 0xE2 \<and> b = 0x81 \<and> c = 0x9F) \<or>
     (a = 0xE3 \<and> b = 0x80 \<and> c = 0x80)"

fun ws_front :: "nat list \<Rightarrow> nat" where
  "ws_front (a # b # c # r) =
     (if ascii_ws a then 1 else if a = 0xC2 \<and> (b = 0x85 \<or> b = 0xA0) then 2 else if wide_ws a b c then 3 else 0)"
| "ws_front [a, b] = (if ascii_ws a then 1 else if a = 0xC2 \<and> (b = 0x85 \<or> b = 0xA0) then 2 else 0)"
| "ws_front [a] = (if ascii_ws a then 1 else 0)"
| "ws_front [] = 0"

fun ws_back :: "nat list \<Rightarrow> nat" where
  "ws_back (c # b # a # r) =
     (if ascii_ws c then 1 else if b = 0xC2 \<and> (c = 0x85 \<or> c = 0xA0) then 2 else if wide_ws a b c then 3 else 0)"
| "ws_back [c, b] = (if ascii_ws c then 1 else if b = 0xC2 \<and> (c = 0x85 \<or> c = 0xA0) then 2 else 0)"
| "ws_back [c] = (if ascii_ws c then 1 else 0)"
| "ws_back [] = 0"

function drop_ws :: "(nat list \<Rightarrow> nat) \<Rightarrow> string \<Rightarrow> string" where
  "drop_ws ws s = (let n = ws (map of_char s) in if n = 0 \<or> s = [] then s else drop_ws ws (drop n s))"
  by pat_completeness auto

termination
  by (relation "measure (length \<circ> snd)") auto

declare drop_ws.simps [simp del]

definition trim :: "string \<Rightarrow> string" where
  "trim s = rev (drop_ws ws_back (rev (drop_ws ws_front s)))"

text \<open>Strings that \<open>trim\<close> leaves alone: the usual case of a string whose ends are printable ASCII.\<close>

definition graphic :: "char \<Rightarrow> bool" where
  "graphic c \<longleftrightarrow> 33 \<le> (of_char c :: nat) \<and> (of_char c :: nat) < 127"

lemma ws_front_graphic: "graphic c \<Longrightarrow> ws_front (of_char c # ns) = 0"
  by (cases ns rule: ws_front.cases) (auto simp: graphic_def ascii_ws_def wide_ws_def)

lemma ws_back_graphic: "graphic c \<Longrightarrow> ws_back (of_char c # ns) = 0"
  by (cases ns rule: ws_back.cases) (auto simp: graphic_def ascii_ws_def wide_ws_def)

lemma trim_id:
  assumes "s = '''' \<or> graphic (hd s) \<and> graphic (last s)"
  shows "trim s = s"
proof (cases "s = ''''")
  case True
  then show ?thesis by (simp add: trim_def drop_ws.simps)
next
  case False
  then obtain c t where s: "s = c # t" by (cases s) auto
  have 1: "drop_ws ws_front s = s"
    using assms False ws_front_graphic [of c "map of_char t"] by (simp add: s drop_ws.simps Let_def)
  obtain d u where r: "rev s = d # u" using False by (cases "rev s") auto
  have "d = last s" using r False by (metis hd_rev list.sel(1))
  then have "drop_ws ws_back (rev s) = rev s"
    using assms False ws_back_graphic [of d "map of_char u"] by (simp add: r drop_ws.simps Let_def)
  then show ?thesis by (simp add: trim_def 1)
qed

lemma trim_graphic: "list_all graphic s \<Longrightarrow> trim s = s"
  by (rule trim_id) (auto simp: list_all_iff)

section \<open>Lines and prefixes\<close>

text \<open>\<open>str::lines\<close>: the pieces before every newline, and the rest when it is not empty; one carriage return at the end of a line
  is dropped.\<close>

definition chop_cr :: "string \<Rightarrow> string" where
  "chop_cr l = (if l \<noteq> '''' \<and> last l = char_of (13 :: nat) then butlast l else l)"

definition str_lines :: "string \<Rightarrow> string list" where
  "str_lines s =
     (let pieces = split_on (char_of (10 :: nat)) s in
      map chop_cr (butlast pieces) @ (if last pieces = '''' then [] else [last pieces]))"

definition starts_with :: "string \<Rightarrow> string \<Rightarrow> bool" where
  "starts_with s pre \<longleftrightarrow> take (length pre) s = pre"

definition strip_prefix :: "string \<Rightarrow> string \<Rightarrow> string option" where
  "strip_prefix s pre = (if starts_with s pre then Some (drop (length pre) s) else None)"

lemma starts_with_append [simp]: "starts_with (pre @ s) pre"
  by (simp add: starts_with_def)

lemma strip_prefix_append [simp]: "strip_prefix (pre @ s) pre = Some s"
  by (simp add: strip_prefix_def)

lemma starts_withD: "starts_with s pre \<Longrightarrow> \<exists>t. s = pre @ t"
  unfolding starts_with_def by (metis append_take_drop_id)

text \<open>A text that is written line by line is read back line by line.\<close>

definition write_lines :: "string list \<Rightarrow> string" where
  "write_lines ls = concat (map (\<lambda>l. l @ [char_of (10 :: nat)]) ls)"

definition plain_line :: "string \<Rightarrow> bool" where
  "plain_line l \<longleftrightarrow> char_of (10 :: nat) \<notin> set l \<and> char_of (13 :: nat) \<notin> set l"

lemma split_write_lines:
  "list_all plain_line ls \<Longrightarrow> split_on (char_of (10 :: nat)) (write_lines ls) = ls @ ['''']"
proof (induction ls)
  case (Cons l ls)
  then show ?case using split_on_append_sep [of "char_of (10 :: nat)" l "write_lines ls"]
    by (simp add: write_lines_def plain_line_def)
qed (simp add: write_lines_def)

lemma lines_write_lines:
  assumes "list_all plain_line ls"
  shows "str_lines (write_lines ls) = ls"
proof -
  have "chop_cr l = l" if "l \<in> set ls" for l
    using assms that by (auto simp: list_all_iff plain_line_def chop_cr_def) (metis last_in_set)
  then have "map chop_cr ls = ls" by (simp add: map_idI)
  then show ?thesis using split_write_lines [OF assms] by (simp add: str_lines_def Let_def)
qed

section \<open>Characters and numbers\<close>

definition is_ascii_digit :: "char \<Rightarrow> bool" where
  "is_ascii_digit c \<longleftrightarrow> 48 \<le> (of_char c :: nat) \<and> (of_char c :: nat) \<le> 57"

definition is_ascii_alphabetic :: "char \<Rightarrow> bool" where
  "is_ascii_alphabetic c \<longleftrightarrow>
     (65 \<le> (of_char c :: nat) \<and> (of_char c :: nat) \<le> 90) \<or> (97 \<le> (of_char c :: nat) \<and> (of_char c :: nat) \<le> 122)"

definition is_ascii_alphanumeric :: "char \<Rightarrow> bool" where
  "is_ascii_alphanumeric c \<longleftrightarrow> is_ascii_alphabetic c \<or> is_ascii_digit c"

text \<open>The number of characters of a UTF-8 string: the bytes that are not continuation bytes.\<close>

definition char_count :: "string \<Rightarrow> nat" where
  "char_count s = length (filter (\<lambda>c. \<not> (0x80 \<le> (of_char c :: nat) \<and> (of_char c :: nat) < 0xC0)) s)"

definition checked_mul :: "'a::len word \<Rightarrow> 'a word \<Rightarrow> 'a word option" where
  "checked_mul a b = (if unat a * unat b < 2 ^ LENGTH('a) then Some (a * b) else None)"

primrec parse_u32_loop :: "u32 \<Rightarrow> string \<Rightarrow> u32 option" where
  "parse_u32_loop out [] = Some out"
| "parse_u32_loop out (byte # input) =
     (if \<not> is_ascii_digit byte then None else
      case checked_mul out 10 of
        None \<Rightarrow> None
      | Some t \<Rightarrow>
        (case checked_add t (word_of_nat (of_char byte - 48)) of
           None \<Rightarrow> None
         | Some out \<Rightarrow> parse_u32_loop out input))"

definition parse_u32 :: "string \<Rightarrow> u32 option" where
  "parse_u32 input = (if input = '''' then None else parse_u32_loop 0 input)"

fun digits_rev :: "nat \<Rightarrow> string" where
  "digits_rev value = (if value = 0 then [] else char_of (48 + value mod 10) # digits_rev (value div 10))"

declare digits_rev.simps [simp del]

definition push_u32 :: "u32 \<Rightarrow> string" where
  "push_u32 value = (if value = 0 then ''0'' else rev (digits_rev (unat value)))"

lemma dec_string_rev: "0 < n \<Longrightarrow> rev (digits_rev n) = dec_string n"
proof (induction n rule: dec_string.induct)
  case (1 n)
  then show ?case
    by (cases "n < 10") (simp_all add: digits_rev.simps [of n] digits_rev.simps [of 0] dec_string.simps [of n])
qed

lemma push_u32_dec: "push_u32 v = dec_string (unat v)"
proof (cases "v = 0")
  case True
  then show ?thesis by (simp add: push_u32_def dec_string.simps) code_simp
next
  case False
  then show ?thesis by (simp add: push_u32_def dec_string_rev unat_gt_0)
qed

lemma parse_dec_le: "parse_dec_from acc s = Some n \<Longrightarrow> acc \<le> n"
proof (induction s arbitrary: acc)
  case (Cons c s)
  then obtain d where d: "digit c = Some d" "parse_dec_from (acc * 10 + d) s = Some n" by (auto split: option.splits)
  then show ?case using Cons.IH [OF d(2)] by simp
qed simp

lemma parse_u32_loop_dec:
  "parse_u32_loop acc s = (case parse_dec_from (unat acc) s of None \<Rightarrow> None
     | Some n \<Rightarrow> if n < 2 ^ 32 then Some (word_of_nat n) else None)"
proof (induction s arbitrary: acc)
  case Nil
  then show ?case using unsigned_less [of acc, where 'a = nat] by simp
next
  case (Cons c s)
  show ?case
  proof (cases "is_ascii_digit c")
    case False
    then show ?thesis by (auto simp: is_ascii_digit_def digit_def Let_def)
  next
    case True
    define d where "d = (of_char c :: nat) - 48"
    have d: "digit c = Some d" "d < 10" using True by (auto simp: is_ascii_digit_def digit_def Let_def d_def)
    show ?thesis
    proof (cases "unat acc * 10 + d < 2 ^ 32")
      case True
      then have a: "checked_mul acc 10 = Some (acc * 10)" "unat (acc * 10) = unat acc * 10"
        by (simp_all add: checked_mul_def unat_word_ariths)
      have b: "checked_add (acc * 10) (word_of_nat d) = Some (acc * 10 + word_of_nat d)"
        "unat (acc * 10 + word_of_nat d) = unat acc * 10 + d"
        using True d(2) by (simp_all add: checked_add_def a(2) unat_of_nat unat_word_ariths)
      show ?thesis using Cons.IH [of "acc * 10 + word_of_nat d"] \<open>is_ascii_digit c\<close> by (simp add: a b d(1) d_def [symmetric])
    next
      case False
      have no: "parse_u32_loop acc (c # s) = None"
        using False d(2) by (auto simp: checked_mul_def checked_add_def unat_word_ariths unat_of_nat d_def [symmetric])
      have "\<not> n < 2 ^ 32" if "parse_dec_from (unat acc * 10 + d) s = Some n" for n
        using parse_dec_le [OF that] False by linarith
      then show ?thesis unfolding no by (auto simp: d(1) split: option.splits)
    qed
  qed
qed

lemma dec_string_nonempty: "dec_string n \<noteq> ''''"
  by (simp add: dec_string.simps [of n])

lemma parse_push_u32 [simp]: "parse_u32 (push_u32 v) = Some v"
  using unsigned_less [of v, where 'a = nat]
  by (simp add: push_u32_dec parse_u32_def dec_string_nonempty parse_u32_loop_dec parse_dec_string)

lemma dec_string_digits: "c \<in> set (dec_string n) \<Longrightarrow> is_ascii_digit c"
proof (induction n rule: dec_string.induct)
  case (1 n)
  have "is_ascii_digit (char_of (48 + n mod 10))" by (simp add: is_ascii_digit_def)
  moreover have "n < 10 \<Longrightarrow> is_ascii_digit (char_of (48 + n))" by (simp add: is_ascii_digit_def)
  ultimately show ?case using 1 by (cases "n < 10") (auto simp: dec_string.simps [of n])
qed

lemma push_u32_digits: "list_all is_ascii_digit (push_u32 v)"
  using dec_string_digits by (auto simp: push_u32_dec list_all_iff)

end
