(* ===== verification/Security.thy ===== *)
theory Security
  imports CoolFS_Api Cool_Text
begin

text \<open>
  The part of \<open>src/src/security.rs\<close> that needs no file system: capabilities, permission bits, the text forms of modes and of
  the user database, the choice of a user id, and the checks on names, roles and passwords. \<open>Accounts\<close> has the operations
  on the stored accounts.
\<close>

section \<open>Capabilities and permission bits\<close>

definition USER_UID :: u32 where "USER_UID = 1000"
definition USER_GID :: u32 where "USER_GID = 1000"
definition GUEST_UID :: u32 where "GUEST_UID = 1001"
definition SERVICE_UID :: u32 where "SERVICE_UID = 200"
definition SERVICE_GID :: u32 where "SERVICE_GID = 200"
definition DEFAULT_EXEC_MODE :: u16 where "DEFAULT_EXEC_MODE = 493"
definition SHARED_TMP_MODE :: u16 where "SHARED_TMP_MODE = 511"
definition MIN_PASSWORD_LEN :: nat where "MIN_PASSWORD_LEN = 8"
definition MAX_LOGIN_FAILURES :: u32 where "MAX_LOGIN_FAILURES = 3"
definition LOGIN_LOCKOUT_MS :: u64 where "LOGIN_LOCKOUT_MS = 5000"

definition CAP_READ_FS :: u32 where "CAP_READ_FS = 1"
definition CAP_WRITE_FS :: u32 where "CAP_WRITE_FS = 2"
definition CAP_EXEC :: u32 where "CAP_EXEC = 4"
definition CAP_NETWORK :: u32 where "CAP_NETWORK = 8"
definition CAP_DESKTOP :: u32 where "CAP_DESKTOP = 16"
definition CAP_SETTINGS :: u32 where "CAP_SETTINGS = 32"
definition CAP_DIAGNOSTICS :: u32 where "CAP_DIAGNOSTICS = 64"
definition CAP_SHELL :: u32 where "CAP_SHELL = 128"
definition CAP_ADMIN :: u32 where "CAP_ADMIN = 256"

definition CAP_INTERACTIVE_USER :: u32 where
  "CAP_INTERACTIVE_USER = CAP_READ_FS OR CAP_WRITE_FS OR CAP_EXEC OR CAP_NETWORK OR CAP_DESKTOP"
definition CAP_PACKAGE_SHELL :: u32 where
  "CAP_PACKAGE_SHELL = CAP_INTERACTIVE_USER OR CAP_SETTINGS OR CAP_DIAGNOSTICS OR CAP_SHELL"
definition CAP_ALL_USER :: u32 where "CAP_ALL_USER = CAP_PACKAGE_SHELL OR CAP_ADMIN"

lemmas cap_defs = CAP_READ_FS_def CAP_WRITE_FS_def CAP_EXEC_def CAP_NETWORK_def CAP_DESKTOP_def CAP_SETTINGS_def
  CAP_DIAGNOSTICS_def CAP_SHELL_def CAP_ADMIN_def CAP_INTERACTIVE_USER_def CAP_PACKAGE_SHELL_def CAP_ALL_USER_def

record credentials =
  cr_uid :: u32
  cr_gid :: u32
  cr_caps :: u32

datatype access = Read | Write | Execute

definition token_caps :: "string \<Rightarrow> u32" where
  "token_caps token =
     (if token = ''shell'' then CAP_PACKAGE_SHELL
      else if token = ''filesystem'' \<or> token = ''files'' then CAP_READ_FS OR CAP_WRITE_FS OR CAP_DESKTOP
      else if token = ''read-files'' \<or> token = ''read'' then CAP_READ_FS OR CAP_DESKTOP
      else if token = ''network'' then CAP_READ_FS OR CAP_NETWORK OR CAP_DESKTOP
      else if token = ''desktop'' then CAP_READ_FS OR CAP_DESKTOP
      else if token = ''settings'' then CAP_READ_FS OR CAP_WRITE_FS OR CAP_SETTINGS OR CAP_DESKTOP
      else if token = ''diagnostics'' then CAP_READ_FS OR CAP_DIAGNOSTICS OR CAP_DESKTOP
      else if token = ''user'' \<or> token = '''' then CAP_READ_FS OR CAP_DESKTOP
      else CAP_READ_FS)"

definition caps_for_permission :: "string \<Rightarrow> u32" where
  "caps_for_permission permission =
     foldl (\<lambda>caps token. caps OR token_caps token) CAP_EXEC (map trim (split_on CHR '','' permission))"

definition can_read_files :: "credentials \<Rightarrow> bool" where
  "can_read_files creds \<longleftrightarrow> cr_uid creds = ROOT_UID \<or> cr_caps creds AND CAP_READ_FS \<noteq> 0"
definition can_write_files :: "credentials \<Rightarrow> bool" where
  "can_write_files creds \<longleftrightarrow> cr_uid creds = ROOT_UID \<or> cr_caps creds AND CAP_WRITE_FS \<noteq> 0"
definition can_execute_files :: "credentials \<Rightarrow> bool" where
  "can_execute_files creds \<longleftrightarrow> cr_uid creds = ROOT_UID \<or> cr_caps creds AND CAP_EXEC \<noteq> 0"
definition can_network :: "credentials \<Rightarrow> bool" where
  "can_network creds \<longleftrightarrow> cr_uid creds = ROOT_UID \<or> cr_caps creds AND CAP_NETWORK \<noteq> 0"
definition can_desktop :: "credentials \<Rightarrow> bool" where
  "can_desktop creds \<longleftrightarrow> cr_uid creds = ROOT_UID \<or> cr_caps creds AND CAP_DESKTOP \<noteq> 0"
definition can_admin :: "credentials \<Rightarrow> bool" where
  "can_admin creds \<longleftrightarrow> cr_uid creds = ROOT_UID \<or> cr_caps creds AND CAP_ADMIN \<noteq> 0"

primrec access_mask :: "access \<Rightarrow> u16" where
  "access_mask Read = 4"
| "access_mask Write = 2"
| "access_mask Execute = 1"

definition mode_allows :: "credentials \<Rightarrow> u32 \<Rightarrow> u32 \<Rightarrow> u16 \<Rightarrow> access \<Rightarrow> bool" where
  "mode_allows creds uid gid mode access =
     (if cr_uid creds = ROOT_UID then True else
      let shift = (if cr_uid creds = uid then 6 else if cr_gid creds = gid then 3 else 0) in
      drop_bit shift mode AND access_mask access \<noteq> 0)"

definition can_read_metadata :: "credentials \<Rightarrow> u32 \<Rightarrow> u32 \<Rightarrow> u16 \<Rightarrow> bool" where
  "can_read_metadata creds uid gid mode \<longleftrightarrow> can_read_files creds \<and> mode_allows creds uid gid mode Read"
definition can_write_metadata :: "credentials \<Rightarrow> u32 \<Rightarrow> u32 \<Rightarrow> u16 \<Rightarrow> bool" where
  "can_write_metadata creds uid gid mode \<longleftrightarrow> can_write_files creds \<and> mode_allows creds uid gid mode Write"
definition can_execute_metadata :: "credentials \<Rightarrow> u32 \<Rightarrow> u32 \<Rightarrow> u16 \<Rightarrow> bool" where
  "can_execute_metadata creds uid gid mode \<longleftrightarrow> can_execute_files creds \<and> mode_allows creds uid gid mode Execute"

definition is_protected_path :: "string \<Rightarrow> bool" where
  "is_protected_path path =
     (let upper = map to_ascii_upper path in
      upper = ''/'' \<or> upper = ''/CONFIG'' \<or> upper = ''/LOGS'' \<or> upper = ''/DEV'' \<or> upper = ''/APPS'' \<or>
      starts_with upper ''/CONFIG/'' \<or> starts_with upper ''/LOGS/'' \<or> starts_with upper ''/DEV/'' \<or> starts_with upper ''/APPS/'')"

definition can_write_path :: "credentials \<Rightarrow> string \<Rightarrow> bool" where
  "can_write_path creds path \<longleftrightarrow> can_write_files creds \<and> (cr_uid creds = ROOT_UID \<or> \<not> is_protected_path path)"

section \<open>Text forms\<close>

definition push_cap :: "u32 \<Rightarrow> string \<Rightarrow> u32 \<times> string \<Rightarrow> string" where
  "push_cap caps out = (\<lambda>(bit, label).
     if caps AND bit = 0 then out else (if out \<noteq> '''' then out @ '','' else out) @ label)"

definition capability_label :: "u32 \<Rightarrow> string" where
  "capability_label caps =
     (if caps AND CAP_ALL_USER = CAP_ALL_USER then ''all'' else
      let out = foldl (push_cap caps) ''''
        [(CAP_READ_FS, ''read-fs''), (CAP_WRITE_FS, ''write-fs''), (CAP_EXEC, ''exec''), (CAP_NETWORK, ''network''),
         (CAP_DESKTOP, ''desktop''), (CAP_SETTINGS, ''settings''), (CAP_DIAGNOSTICS, ''diagnostics''), (CAP_SHELL, ''shell''),
         (CAP_ADMIN, ''admin'')] in
      if out = '''' then ''none'' else out)"

definition credentials_label :: "credentials \<Rightarrow> string" where
  "credentials_label creds =
     ''uid='' @ dec_string (unat (cr_uid creds)) @ '' gid='' @ dec_string (unat (cr_gid creds)) @ '' caps='' @ capability_label (cr_caps creds)"

definition mode_digit :: "u16 \<Rightarrow> char" where
  "mode_digit d = char_of (48 + unat (d AND 7))"

definition format_mode :: "u16 \<Rightarrow> string" where
  "format_mode mode = [mode_digit (drop_bit 6 mode), mode_digit (drop_bit 3 mode), mode_digit mode]"

primrec parse_mode_loop :: "u16 \<Rightarrow> string \<Rightarrow> u16 option" where
  "parse_mode_loop mode [] = Some (mode AND 511)"
| "parse_mode_loop mode (byte # text) =
     (if 48 \<le> (of_char byte :: nat) \<and> (of_char byte :: nat) \<le> 55
      then parse_mode_loop (push_bit 3 mode OR word_of_nat (of_char byte - 48)) text else None)"

definition parse_mode :: "string \<Rightarrow> u16 option" where
  "parse_mode text = (if text = '''' \<or> length text > 4 then None else parse_mode_loop 0 text)"

section \<open>User records\<close>

record user_record =
  u_name :: string
  u_role :: string
  u_uid :: u32
  u_gid :: u32
  u_home :: string
  u_pass_hash :: u32
  u_login_enabled :: bool

record user_info =
  ui_name :: string
  ui_role :: string
  ui_uid :: u32
  ui_gid :: u32
  ui_home :: string
  ui_login_enabled :: bool

record group_record =
  g_name :: string
  g_gid :: u32

record login_attempt =
  la_name :: string
  la_failures :: u32
  la_locked_until_tick :: u64

record security_state =
  users :: "user_record list"
  groups :: "group_record list"
  login_attempts :: "login_attempt list"
  session_uid :: u32
  session_gid :: u32
  session_caps :: u32
  umask :: u16
  revision :: u64

definition security_empty :: security_state where
  "security_empty = \<lparr>users = [], groups = [], login_attempts = [], session_uid = USER_UID, session_gid = USER_GID,
     session_caps = CAP_ALL_USER, umask = 18, revision = 0\<rparr>"

datatype auth_error = AuthNoSuchUser | LoginDisabled | BadPassword | AuthPasswordTooShort | LoginThrottled
  | AuthPermissionDenied | AuthIo

datatype account_error = NoSuchUser | DuplicateUser | InvalidName | InvalidRole | PasswordTooShort | AccPermissionDenied
  | LastAdmin | ProtectedUser | AlreadyConfigured | AccIo

datatype first_boot_state = Required | InProgress | Complete

primrec first_boot_as_str :: "first_boot_state \<Rightarrow> string" where
  "first_boot_as_str Required = ''required''"
| "first_boot_as_str InProgress = ''in_progress''"
| "first_boot_as_str Complete = ''complete''"

definition public_user :: "user_record \<Rightarrow> user_info" where
  "public_user user = \<lparr>ui_name = u_name user, ui_role = u_role user, ui_uid = u_uid user, ui_gid = u_gid user,
     ui_home = u_home user, ui_login_enabled = u_login_enabled user\<rparr>"

definition hash_byte :: "u32 \<Rightarrow> u8 \<Rightarrow> u32" where
  "hash_byte hash byte = (hash XOR ucast byte) * 0x01000193"

definition password_hash :: "string \<Rightarrow> string \<Rightarrow> u32" where
  "password_hash name password = foldl hash_byte 0x811c9dc5 (as_bytes name @ as_bytes '':'' @ as_bytes password)"

definition default_admin_user :: user_record where
  "default_admin_user = \<lparr>u_name = ''root'', u_role = ''admin'', u_uid = USER_UID, u_gid = USER_GID, u_home = ''/Users/root'',
     u_pass_hash = password_hash ''root'' ''cool'', u_login_enabled = True\<rparr>"

definition default_guest_user :: user_record where
  "default_guest_user = \<lparr>u_name = ''guest'', u_role = ''user'', u_uid = GUEST_UID, u_gid = USER_GID, u_home = ''/Users/guest'',
     u_pass_hash = password_hash ''guest'' ''guest'', u_login_enabled = True\<rparr>"

definition default_users :: "user_record list" where
  "default_users = [default_admin_user, default_guest_user]"

definition default_groups :: "group_record list" where
  "default_groups = [\<lparr>g_name = ''root'', g_gid = ROOT_GID\<rparr>, \<lparr>g_name = ''services'', g_gid = SERVICE_GID\<rparr>,
     \<lparr>g_name = ''users'', g_gid = USER_GID\<rparr>, \<lparr>g_name = ''wheel'', g_gid = 10\<rparr>]"

definition is_admin_role :: "string \<Rightarrow> bool" where
  "is_admin_role role \<longleftrightarrow> role = ''admin'' \<or> role = ''root''"

definition is_admin_record :: "user_record \<Rightarrow> bool" where
  "is_admin_record user \<longleftrightarrow> is_admin_role (u_role user)"

definition caps_for_role :: "string \<Rightarrow> u32" where
  "caps_for_role role = (if role = ''admin'' \<or> role = ''root'' then CAP_ALL_USER else CAP_INTERACTIVE_USER)"

definition is_default_admin_password :: "user_record \<Rightarrow> bool" where
  "is_default_admin_password user \<longleftrightarrow>
     eq_ignore_ascii_case (u_name user) ''root'' \<and> u_uid user = USER_UID \<and> u_login_enabled user \<and>
     u_pass_hash user = password_hash ''root'' ''cool''"

definition user_index :: "user_record list \<Rightarrow> string \<Rightarrow> nat option" where
  "user_index us name = position (\<lambda>user. eq_ignore_ascii_case (u_name user) name) us"

definition find_user :: "user_record list \<Rightarrow> string \<Rightarrow> user_record option" where
  "find_user us name = find (\<lambda>user. eq_ignore_ascii_case (u_name user) name) us"

definition enabled_admin_count :: "user_record list \<Rightarrow> nat" where
  "enabled_admin_count us = length (filter (\<lambda>user. u_login_enabled user \<and> is_admin_record user) us)"

definition same_user_record :: "user_record \<Rightarrow> user_record \<Rightarrow> bool" where
  "same_user_record a b \<longleftrightarrow> u_name a = u_name b \<and> u_role a = u_role b \<and> u_uid a = u_uid b \<and> u_gid a = u_gid b \<and>
     u_home a = u_home b \<and> u_pass_hash a = u_pass_hash b \<and> u_login_enabled a = u_login_enabled b"

definition or_else :: "'a option \<Rightarrow> 'a option \<Rightarrow> 'a option" where
  "or_else a b = (case a of None \<Rightarrow> b | Some x \<Rightarrow> Some x)"

definition default_session_user :: "user_record list \<Rightarrow> user_record" where
  "default_session_user us =
     (case or_else (find (\<lambda>user. u_uid user = USER_UID \<and> u_login_enabled user) us)
       (or_else (find (\<lambda>user. u_login_enabled user \<and> (u_role user = ''admin'' \<or> u_role user = ''root'')) us)
         (find u_login_enabled us)) of
        Some user \<Rightarrow> user | None \<Rightarrow> default_admin_user)"

definition preferred_admin_name :: "user_record list \<Rightarrow> string" where
  "preferred_admin_name us =
     (case find (\<lambda>user. u_login_enabled user \<and> is_admin_record user) us of Some user \<Rightarrow> u_name user | None \<Rightarrow> ''root'')"

text \<open>\<open>next_available_uid\<close>: the loop adds one with saturation, so that it stays at the largest number once it is there.
  \<open>None\<close> is a loop that does not end.\<close>

partial_function (option) uid_loop :: "user_record list \<Rightarrow> u32 \<Rightarrow> u32 option" where
  "uid_loop us uid = (if list_ex (\<lambda>user. u_uid user = uid) us then uid_loop us (saturating_add uid 1) else Some uid)"

definition next_available_uid :: "user_record list \<Rightarrow> u32 option" where
  "next_available_uid us =
     (let high = filter (\<lambda>uid. GUEST_UID \<le> uid) (map u_uid us) in
      uid_loop us (saturating_add (if high = [] then GUEST_UID else Max (set high)) 1))"

definition clean_role :: "string \<Rightarrow> account_error + string" where
  "clean_role role0 =
     (let role = trim role0 in
      if eq_ignore_ascii_case role ''admin'' \<or> eq_ignore_ascii_case role ''root'' then Inr ''admin''
      else if eq_ignore_ascii_case role ''user'' \<or> eq_ignore_ascii_case role ''guest'' then Inr ''user''
      else Inl InvalidRole)"

definition name_char :: "char \<Rightarrow> bool" where
  "name_char ch \<longleftrightarrow> is_ascii_alphanumeric ch \<or> ch = CHR ''-'' \<or> ch = CHR ''_''"

definition clean_user_name :: "string \<Rightarrow> account_error + string" where
  "clean_user_name name0 =
     (let name = trim name0; len = char_count name in
      if len < 2 \<or> len > 16 then Inl InvalidName
      else case name of
        [] \<Rightarrow> Inl InvalidName
      | first # _ \<Rightarrow>
        if \<not> is_ascii_alphabetic first then Inl InvalidName
        else if \<not> list_all name_char name then Inl InvalidName
        else Inr name)"

definition user_home :: "string \<Rightarrow> string" where
  "user_home name = ''/Users/'' @ name"

definition valid_password :: "string \<Rightarrow> bool" where
  "valid_password password \<longleftrightarrow>
     length password \<ge> MIN_PASSWORD_LEN \<and> CHR '':'' \<notin> set password \<and> char_of (10 :: nat) \<notin> set password"

definition validate_password_for_account :: "string \<Rightarrow> account_error + unit" where
  "validate_password_for_account password = (if valid_password password then Inr () else Inl PasswordTooShort)"

section \<open>The user database as text\<close>

definition user_line :: "user_record \<Rightarrow> string" where
  "user_line user = u_name user @ '':'' @ push_u32 (u_uid user) @ '':'' @ push_u32 (u_gid user) @ '':'' @ u_role user @ '':'' @
     u_home user @ '':'' @ push_u32 (u_pass_hash user) @ '':'' @ (if u_login_enabled user then ''enabled'' else ''disabled'')"

definition users_header :: string where
  "users_header = ''# coolOS users v1: name:uid:gid:role:home:passhash:login''"

definition users_text :: "user_record list \<Rightarrow> string" where
  "users_text us = write_lines (users_header # map user_line us)"

definition parse_user_record :: "string \<Rightarrow> user_record option" where
  "parse_user_record line =
     (case map trim (split_on CHR '':'' line) of
        name # uid # gid # role # home # pass # login # _ \<Rightarrow>
          (case (parse_u32 uid, parse_u32 gid, parse_u32 pass) of
             (Some uid, Some gid, Some pass) \<Rightarrow>
               if login \<noteq> ''enabled'' \<and> login \<noteq> ''disabled'' then None
               else if name = '''' \<or> role = '''' \<or> \<not> starts_with home ''/'' then None
               else Some \<lparr>u_name = name, u_role = role, u_uid = uid, u_gid = gid, u_home = home, u_pass_hash = pass,
                 u_login_enabled = (login = ''enabled'')\<rparr>
           | _ \<Rightarrow> None)
      | _ \<Rightarrow> None)"

definition parse_users :: "string \<Rightarrow> user_record list" where
  "parse_users text = List.map_filter (\<lambda>line0. let line = trim line0 in
     if line = '''' \<or> starts_with line ''#'' then None else parse_user_record line) (str_lines text)"

definition load_users :: "bytes option \<Rightarrow> user_record list option" where
  "load_users file =
     (case file of None \<Rightarrow> None | Some bytes \<Rightarrow>
       case from_utf8 bytes of None \<Rightarrow> None | Some text \<Rightarrow>
         let us = parse_users text in
         if list_ex (\<lambda>user. u_uid user = USER_UID) us \<and> list_ex (\<lambda>user. u_uid user = GUEST_UID) us then Some us else None)"

primrec update_first :: "('a \<Rightarrow> bool) \<Rightarrow> ('a \<Rightarrow> 'a) \<Rightarrow> 'a list \<Rightarrow> 'a list" where
  "update_first p f [] = []"
| "update_first p f (x # xs) = (if p x then f x # xs else x # update_first p f xs)"

definition normalize_default_admin :: "user_record list \<Rightarrow> user_record list" where
  "normalize_default_admin us =
     (let us1 = filter (\<lambda>user. \<not> (u_uid user = ROOT_UID \<and> eq_ignore_ascii_case (u_name user) ''root'' \<and> \<not> u_login_enabled user)) us;
          root_admin = list_ex (\<lambda>user. u_uid user = USER_UID \<and> eq_ignore_ascii_case (u_name user) ''root'') us1;
          us2 = (if root_admin then us1 else
            update_first (\<lambda>user. u_uid user = USER_UID \<and> u_role user = ''admin'')
              (\<lambda>user. user\<lparr>u_name := ''root'', u_home := ''/Users/root'', u_pass_hash := password_hash ''root'' ''cool'',
                 u_login_enabled := True\<rparr>) us1);
          us3 = (if list_ex (\<lambda>user. u_uid user = USER_UID) us2 then us2 else us2 @ [default_admin_user]) in
      if list_ex (\<lambda>user. u_uid user = GUEST_UID) us3 then us3 else us3 @ [default_guest_user])"

definition push_safe_config_value :: "string \<Rightarrow> string" where
  "push_safe_config_value value = filter (\<lambda>ch. \<not> (ch = char_of (10 :: nat) \<or> ch = char_of (13 :: nat) \<or> ch = CHR ''='')) value"

definition first_boot_text :: "first_boot_state \<Rightarrow> string \<Rightarrow> string \<Rightarrow> string" where
  "first_boot_text state user device = write_lines
     ([''# coolOS first boot v1'', ''version=80'', ''state='' @ first_boot_as_str state] @
      (if trim user \<noteq> '''' then [''user='' @ push_safe_config_value (trim user)] else []) @
      (if trim device \<noteq> '''' then [''device='' @ push_safe_config_value (trim device)] else []))"

primrec first_boot_scan :: "string list \<Rightarrow> first_boot_state option" where
  "first_boot_scan [] = None"
| "first_boot_scan (line # ls) =
     (case strip_prefix (trim line) ''state='' of
        None \<Rightarrow> first_boot_scan ls
      | Some value \<Rightarrow>
        Some (if trim value = ''in_progress'' then InProgress
              else if trim value = ''complete'' then Complete
              else Required))"

definition parse_first_boot :: "bytes option \<Rightarrow> first_boot_state option" where
  "parse_first_boot file =
     (case file of None \<Rightarrow> None | Some bytes \<Rightarrow>
       case from_utf8 bytes of None \<Rightarrow> None | Some text \<Rightarrow> first_boot_scan (str_lines text))"

definition home_owner_for_path :: "user_record list \<Rightarrow> string \<Rightarrow> (u32 \<times> u32) option" where
  "home_owner_for_path us path =
     (if path = ''/Users'' then Some (ROOT_UID, ROOT_GID) else
      case strip_prefix path ''/Users/'' of
        None \<Rightarrow> None
      | Some rest \<Rightarrow>
        let name = hd (split_on CHR ''/'' rest) in
        if name = '''' then Some (ROOT_UID, ROOT_GID)
        else map_option (\<lambda>user. (u_uid user, u_gid user)) (find_user us name))"

definition apply_umask :: "u16 \<Rightarrow> u16 \<Rightarrow> u16" where
  "apply_umask um mode = mode AND NOT um AND 511"

section \<open>Modes and capabilities\<close>

lemma mode_digit_val: "of_char (mode_digit d) = 48 + unat (d AND 7)"
proof -
  have "d AND 7 \<le> 7" by (rule word_and_le1)
  then have "unat (d AND 7) \<le> 7" by (simp add: word_le_nat_alt)
  then show ?thesis by (simp add: mode_digit_def)
qed

lemma mode_digit_octal: "48 \<le> (of_char (mode_digit d) :: nat)" "(of_char (mode_digit d) :: nat) \<le> 55"
proof -
  have "d AND 7 \<le> 7" by (rule word_and_le1)
  then have "unat (d AND 7) \<le> 7" by (simp add: word_le_nat_alt)
  then show "48 \<le> (of_char (mode_digit d) :: nat)" "(of_char (mode_digit d) :: nat) \<le> 55" by (simp_all add: mode_digit_val)
qed

lemma parse_digit: "parse_mode_loop m (mode_digit d # t) = parse_mode_loop (push_bit 3 m OR (d AND 7)) t"
  using mode_digit_octal [of d] by (simp add: mode_digit_val)

lemma octal_digits: "(push_bit 3 (push_bit 3 (drop_bit 6 m AND 7) OR (drop_bit 3 m AND 7)) OR (m AND 7)) AND 511 = (m :: u16) AND 511"
proof -
  have m: "(7 :: u16) = mask 3" "(511 :: u16) = mask 9" by (simp_all add: mask_eq_exp_minus_1)
  show ?thesis unfolding m
  proof (rule bit_word_eqI)
    fix n assume n: "n < LENGTH(16)"
    show "bit ((push_bit 3 (push_bit 3 (drop_bit 6 m AND mask 3) OR (drop_bit 3 m AND mask 3)) OR (m AND mask 3)) AND mask 9) n =
      bit (m AND mask 9) n"
    proof (cases "n < 3")
      case True
      then show ?thesis using n by (simp add: bit_and_iff bit_or_iff bit_push_bit_iff bit_mask_iff)
    next
      case False
      then show ?thesis using n
        by (cases "n < 6"; cases "n < 9") (auto simp: bit_and_iff bit_or_iff bit_push_bit_iff bit_mask_iff bit_drop_bit_eq)
    qed
  qed
qed

lemma parse_format_mode: "parse_mode (format_mode m) = Some (m AND 511)"
proof -
  have "parse_mode_loop 0 (format_mode m) = Some (m AND 511)"
    unfolding format_mode_def parse_digit parse_mode_loop.simps(1) push_bit_of_0 or.left_neutral octal_digits ..
  then show ?thesis by (simp add: parse_mode_def format_mode_def)
qed


lemma foldl_or: "foldl (\<lambda>caps token. caps OR f token) (c :: u32) ts AND bt = (c AND bt) OR foldl (\<lambda>caps token. caps OR f token) 0 ts AND bt"
proof (induction ts arbitrary: c)
  case (Cons t ts)
  show ?case using Cons.IH [of "c OR f t"] Cons.IH [of "f t"] by (simp add: and.commute bit.conj_disj_distrib or.assoc)
qed simp

lemma caps_bit:
  "caps_for_permission p AND bt \<noteq> 0 \<longleftrightarrow> CAP_EXEC AND bt \<noteq> 0 \<or> (\<exists>t \<in> set (split_on CHR '','' p). token_caps (trim t) AND bt \<noteq> 0)"
proof -
  have z: "a OR b = 0 \<longleftrightarrow> a = 0 \<and> b = 0" for a b :: u32 by (metis or.left_neutral or_eq_0_iff)
  have "foldl (\<lambda>caps token. caps OR token_caps token) 0 ts AND bt \<noteq> 0 \<longleftrightarrow> (\<exists>t \<in> set ts. token_caps t AND bt \<noteq> 0)" for ts
  proof (induction ts)
    case (Cons t ts)
    then show ?case using foldl_or [of token_caps "token_caps t" ts bt] z by auto
  qed simp
  then show ?thesis unfolding caps_for_permission_def foldl_or [of token_caps CAP_EXEC] using z by auto
qed

lemma token_caps_admin: "token_caps t AND CAP_ADMIN = 0"
  unfolding token_caps_def cap_defs by (simp split: if_splits)

lemma token_caps_network: "token_caps t AND CAP_NETWORK \<noteq> 0 \<longleftrightarrow> t = ''network'' \<or> t = ''shell''"
  unfolding token_caps_def cap_defs by (simp split: if_splits)


section \<open>The user database is read back as written\<close>

text \<open>The records the kernel makes: printable fields without separators.\<close>

definition clean_field :: "string \<Rightarrow> bool" where
  "clean_field s \<longleftrightarrow> list_all graphic s \<and> CHR '':'' \<notin> set s"

definition clean_record :: "user_record \<Rightarrow> bool" where
  "clean_record user \<longleftrightarrow> clean_field (u_name user) \<and> u_name user \<noteq> '''' \<and> \<not> starts_with (u_name user) ''#'' \<and>
     clean_field (u_role user) \<and> u_role user \<noteq> '''' \<and> clean_field (u_home user) \<and> starts_with (u_home user) ''/''"

lemma digit_graphic: "is_ascii_digit c \<Longrightarrow> graphic c"
  by (simp add: is_ascii_digit_def graphic_def)

lemma digit_not_colon: "is_ascii_digit c \<Longrightarrow> c \<noteq> CHR '':''"
  by (auto simp: is_ascii_digit_def)

lemma clean_push_u32: "clean_field (push_u32 v)"
  using push_u32_digits [of v] digit_graphic digit_not_colon by (auto simp: clean_field_def list_all_iff)

lemma clean_login: "clean_field ''enabled''" "clean_field ''disabled''"
  by code_simp+

lemma graphic_plain: "list_all graphic l \<Longrightarrow> plain_line l"
  by (auto simp: plain_line_def graphic_def list_all_iff)

lemma user_line_graphic: "clean_record user \<Longrightarrow> list_all graphic (user_line user)"
proof -
  assume c: "clean_record user"
  have "graphic CHR '':''" by code_simp
  then show ?thesis using c clean_push_u32 clean_login by (simp add: user_line_def clean_record_def clean_field_def)
qed

lemma split_user_line:
  assumes "clean_record user"
  shows "split_on CHR '':'' (user_line user) = [u_name user, push_u32 (u_uid user), push_u32 (u_gid user), u_role user, u_home user,
    push_u32 (u_pass_hash user), if u_login_enabled user then ''enabled'' else ''disabled'']"
proof -
  have s: "split_on CHR '':'' (p @ '':'' @ xs) = p # split_on CHR '':'' xs" if "clean_field p" for p xs
    using split_on_append_sep [of "CHR '':''" p xs] that by (simp add: clean_field_def)
  have e: "split_on CHR '':'' (if b then ''enabled'' else ''disabled'') = [if b then ''enabled'' else ''disabled'']" for b by simp
  show ?thesis using assms unfolding user_line_def by (simp add: s clean_push_u32 clean_record_def e del: append_Cons append.simps)
qed

lemma parse_user_line:
  assumes "clean_record user"
  shows "parse_user_record (user_line user) = Some user"
proof -
  have t: "trim p = p" if "clean_field p" for p using that trim_graphic by (simp add: clean_field_def)
  have m: "map trim (split_on CHR '':'' (user_line user)) = [u_name user, push_u32 (u_uid user), push_u32 (u_gid user), u_role user,
      u_home user, push_u32 (u_pass_hash user), if u_login_enabled user then ''enabled'' else ''disabled'']"
    unfolding split_user_line [OF assms] using assms by (simp add: t clean_push_u32 clean_login clean_record_def)
  show ?thesis unfolding parse_user_record_def m using assms by (simp add: clean_record_def)
qed

lemma users_header_comment: "trim users_header = users_header" "starts_with users_header ''#''" "plain_line users_header"
  by (rule trim_id, code_simp, code_simp, code_simp)

lemma user_line_content:
  assumes "clean_record user"
  shows "user_line user \<noteq> ''''" "\<not> starts_with (user_line user) ''#''" "trim (user_line user) = user_line user"
proof -
  show "trim (user_line user) = user_line user" by (rule trim_graphic [OF user_line_graphic [OF assms]])
  obtain c t where "u_name user = c # t" "c \<noteq> CHR ''#''"
    using assms by (cases "u_name user") (auto simp: clean_record_def starts_with_def)
  then show "user_line user \<noteq> ''''" "\<not> starts_with (user_line user) ''#''" by (simp_all add: user_line_def starts_with_def)
qed

lemma parse_users_text:
  assumes "list_all clean_record us"
  shows "parse_users (users_text us) = us"
proof -
  have "list_all plain_line (users_header # map user_line us)"
    using assms users_header_comment(3) user_line_graphic graphic_plain by (auto simp: list_all_iff)
  then have l: "str_lines (users_text us) = users_header # map user_line us" unfolding users_text_def by (rule lines_write_lines)
  let ?f = "\<lambda>line0. let line = trim line0 in if line = '''' \<or> starts_with line ''#'' then None else parse_user_record line"
  have h: "?f users_header = None" using users_header_comment by (simp add: Let_def)
  have "List.map_filter ?f (map user_line us) = us"
    using assms by (induction us) (simp_all add: map_filter_simps user_line_content parse_user_line Let_def)
  then show ?thesis unfolding parse_users_def l using h by (simp add: map_filter_simps)
qed

lemma users_text_utf8:
  assumes "list_all clean_record us"
  shows "from_utf8 (as_bytes (users_text us)) = Some (users_text us)"
proof -
  have g: "(of_char c :: nat) < 128" if "c \<in> set (user_line u)" "u \<in> set us" for c u
    using user_line_graphic [of u] assms that by (auto simp: list_all_iff graphic_def)
  have h: "(of_char c :: nat) < 128" if "c \<in> set users_header" for c
  proof -
    have "list_all (\<lambda>c. (of_char c :: nat) < 128) users_header" by code_simp
    then show ?thesis using that by (auto simp: list_all_iff)
  qed
  have "(of_char c :: nat) < 128" if "c \<in> set (users_text us)" for c
    using that g h by (auto simp: users_text_def write_lines_def split: if_splits)
  then have "utf8_valid (map unat (as_bytes (users_text us)))" by (intro utf8_valid_ascii) (auto simp: as_bytes_def)
  then show ?thesis by (simp add: from_utf8_def)
qed

lemma load_users_text:
  assumes "list_all clean_record us" and "list_ex (\<lambda>user. u_uid user = USER_UID) us" and "list_ex (\<lambda>user. u_uid user = GUEST_UID) us"
  shows "load_users (Some (as_bytes (users_text us))) = Some us"
  using assms by (simp add: load_users_def users_text_utf8 parse_users_text)

section \<open>User ids and names\<close>

lemma uid_loop_free: "\<not> list_ex (\<lambda>user. u_uid user = uid) us \<Longrightarrow> uid_loop us uid = Some uid"
  by (simp add: uid_loop.simps)

lemma uid_loop_stuck:
  assumes "list_ex (\<lambda>user. u_uid user = 0xFFFFFFFF) us"
  shows "uid_loop us 0xFFFFFFFF = None"
proof -
  have "list_ex (\<lambda>user. u_uid user = 0xFFFFFFFF) us \<longrightarrow> uid \<noteq> 0xFFFFFFFF" if "uid_loop us uid = Some y" for uid y
  proof (rule uid_loop.raw_induct [OF _ that])
    fix loop :: "user_record list \<Rightarrow> u32 \<Rightarrow> u32 option" and vs uid y
    assume IH: "\<And>us uid y. loop us uid = Some y \<Longrightarrow> list_ex (\<lambda>user. u_uid user = 0xFFFFFFFF) us \<longrightarrow> uid \<noteq> 0xFFFFFFFF"
      and y: "(if list_ex (\<lambda>user. u_uid user = uid) vs then loop vs (saturating_add uid 1) else Some uid) = Some y"
    have "saturating_add (0xFFFFFFFF :: u32) 1 = 0xFFFFFFFF" by (simp add: saturating_add_def)
    then show "list_ex (\<lambda>user. u_uid user = 0xFFFFFFFF) vs \<longrightarrow> uid \<noteq> 0xFFFFFFFF"
      using IH [of vs "saturating_add uid 1" y] y by (auto split: if_splits)
  qed
  then show ?thesis using assms by (cases "uid_loop us 0xFFFFFFFF") auto
qed

lemma max_uid:
  fixes us :: "user_record list"
  defines "high \<equiv> filter (\<lambda>uid. GUEST_UID \<le> uid) (map u_uid us)"
  defines "tp \<equiv> (if high = [] then GUEST_UID else Max (set high))"
  shows "GUEST_UID \<le> tp" "u \<in> set us \<Longrightarrow> u_uid u \<le> tp" "tp = GUEST_UID \<or> (\<exists>u \<in> set us. u_uid u = tp)"
proof -
  have mem: "tp \<in> set high" if "high \<noteq> []" using that by (simp add: tp_def)
  then show g: "GUEST_UID \<le> tp" by (cases "high = []") (auto simp: tp_def high_def)
  show "tp = GUEST_UID \<or> (\<exists>u \<in> set us. u_uid u = tp)" using mem by (cases "high = []") (auto simp: tp_def high_def)
  show "u_uid u \<le> tp" if u: "u \<in> set us"
  proof (cases "GUEST_UID \<le> u_uid u")
    case True
    then have "u_uid u \<in> set high" using u by (auto simp: high_def)
    then show ?thesis by (auto simp: tp_def)
  next
    case False
    then show ?thesis using g by simp
  qed
qed

lemma next_uid:
  "next_available_uid us = (if \<exists>u \<in> set us. u_uid u = 0xFFFFFFFF then None else Some (saturating_add
     (let high = filter (\<lambda>uid. GUEST_UID \<le> uid) (map u_uid us) in if high = [] then GUEST_UID else Max (set high)) 1))"
  "next_available_uid us = Some uid \<Longrightarrow> GUEST_UID < uid \<and> uid \<notin> u_uid ` set us"
proof -
  define tp where "tp = (let high = filter (\<lambda>uid. GUEST_UID \<le> uid) (map u_uid us) in if high = [] then GUEST_UID else Max (set high))"
  note m = max_uid [where us = us, folded tp_def [unfolded Let_def]]
  have n: "next_available_uid us = uid_loop us (saturating_add tp 1)" by (simp add: next_available_uid_def tp_def Let_def)
  have max: "x \<le> 0xFFFFFFFF" for x :: u32
    using unsigned_less [of x, where 'a = nat] by (simp add: word_le_nat_alt)
  show 1: "next_available_uid us = (if \<exists>u \<in> set us. u_uid u = 0xFFFFFFFF then None else Some (saturating_add tp 1))"
  proof (cases "\<exists>u \<in> set us. u_uid u = 0xFFFFFFFF")
    case True
    then have "tp = 0xFFFFFFFF" using m(2) max [of tp] by force
    moreover have "saturating_add (0xFFFFFFFF :: u32) 1 = 0xFFFFFFFF" by (simp add: saturating_add_def)
    ultimately show ?thesis using True n uid_loop_stuck [of us] by (auto simp: list_ex_iff)
  next
    case False
    then have "tp \<noteq> 0xFFFFFFFF" using m(3) by (auto simp: GUEST_UID_def)
    then have lt: "tp < saturating_add tp 1"
      using max [of tp] by (auto simp: saturating_add_def word_less_nat_alt unat_word_ariths word_le_nat_alt unat_arith_simps)
    have "\<not> list_ex (\<lambda>user. u_uid user = saturating_add tp 1) us" using m(2) lt by (fastforce simp: list_ex_iff)
    then show ?thesis using False n uid_loop_free by auto
  qed
  show "GUEST_UID < uid \<and> uid \<notin> u_uid ` set us" if s: "next_available_uid us = Some uid"
  proof -
    have no: "\<not> (\<exists>u \<in> set us. u_uid u = 0xFFFFFFFF)" and u: "uid = saturating_add tp 1" using s 1 by (auto split: if_splits)
    then have "tp \<noteq> 0xFFFFFFFF" using m(3) by (auto simp: GUEST_UID_def)
    then have lt: "tp < uid"
      unfolding u using max [of tp] by (auto simp: saturating_add_def word_less_nat_alt unat_word_ariths word_le_nat_alt unat_arith_simps)
    then show ?thesis using m(1,2) by fastforce
  qed
qed


lemma name_char_graphic: "name_char ch \<Longrightarrow> graphic ch \<and> ch \<noteq> CHR '':'' \<and> ch \<noteq> CHR ''/'' \<and> ch \<noteq> CHR ''.''"
  by (auto simp: name_char_def is_ascii_alphanumeric_def is_ascii_alphabetic_def is_ascii_digit_def graphic_def)

lemma clean_user_name_Inr:
  assumes "clean_user_name n0 = Inr n"
  shows "n \<noteq> ''''" "list_all name_char n" "is_ascii_alphabetic (hd n)" "n = trim n0"
  using assms by (cases "trim n0"; simp add: clean_user_name_def Let_def split: if_splits; auto)+

lemma clean_user_name_record:
  assumes "clean_user_name n0 = Inr n" and "clean_field role" "role \<noteq> ''''"
  shows "clean_record \<lparr>u_name = n, u_role = role, u_uid = uid, u_gid = gid, u_home = user_home n, u_pass_hash = h, u_login_enabled = b\<rparr>"
proof -
  note c = clean_user_name_Inr [OF assms(1)]
  have f: "clean_field n" using c(2) name_char_graphic by (auto simp: clean_field_def list_all_iff)
  have "clean_field ''/Users/''" by code_simp
  then have "clean_field (user_home n)" using f by (simp add: clean_field_def user_home_def)
  moreover have "\<not> starts_with n ''#''" using c(1,3) by (cases n) (auto simp: starts_with_def is_ascii_alphabetic_def)
  ultimately show ?thesis using c(1) f assms(2,3) by (simp add: clean_record_def user_home_def starts_with_def)
qed

lemma clean_role_Inr: "clean_role r0 = Inr r \<Longrightarrow> r = ''admin'' \<or> r = ''user''"
  by (auto simp: clean_role_def Let_def split: if_splits)

lemma default_users_clean: "list_all clean_record default_users"
proof -
  have "clean_field ''root''" "clean_field ''guest''" "clean_field ''admin''" "clean_field ''user''" "clean_field ''/Users/root''"
    "clean_field ''/Users/guest''" by code_simp+
  then show ?thesis by (simp add: default_users_def default_admin_user_def default_guest_user_def clean_record_def starts_with_def)
qed

section \<open>Properties\<close>

text \<open>C24: The user database survives a reboot: for records with printable fields, as the kernel makes them, the text that
  \<open>persist_users\<close> writes is parsed back by \<open>load_users_from_disk\<close> to the same users, in the same order, provided that the
  built-in administrator and guest ids are among them.\<close>

theorem user_database_roundtrip:
  assumes "list_all clean_record us" and "list_ex (\<lambda>user. u_uid user = USER_UID) us" and "list_ex (\<lambda>user. u_uid user = GUEST_UID) us"
  shows "load_users (Some (as_bytes (users_text us))) = Some us"
  by (rule load_users_text [OF assms])

theorem user_database_roundtrip_witness:
  "list_all clean_record default_users \<and> load_users (Some (as_bytes (users_text default_users))) = Some default_users"
proof -
  have 1: "list_all clean_record default_users" by (rule default_users_clean)
  have 2: "list_ex (\<lambda>user. u_uid user = USER_UID) default_users" "list_ex (\<lambda>user. u_uid user = GUEST_UID) default_users"
    by (simp_all add: default_users_def default_admin_user_def default_guest_user_def)
  show ?thesis using 1 user_database_roundtrip [OF 1 2] by blast
qed

text \<open>C25: \<open>next_available_uid\<close> ends exactly when no user has the largest user id, and then returns an id above the guest id
  that no user has; otherwise its loop never ends.\<close>

theorem next_available_uid_terminates_iff:
  "(next_available_uid us = None \<longleftrightarrow> 0xFFFFFFFF \<in> u_uid ` set us) \<and>
   (case next_available_uid us of None \<Rightarrow> True | Some uid \<Rightarrow> GUEST_UID < uid \<and> uid \<notin> u_uid ` set us)"
proof
  have "next_available_uid us = None \<longleftrightarrow> (\<exists>u \<in> set us. u_uid u = 0xFFFFFFFF)"
    unfolding next_uid(1) [of us] by (cases "\<exists>u \<in> set us. u_uid u = 0xFFFFFFFF") (simp_all only: if_True if_False option.distinct simp_thms)
  then show "next_available_uid us = None \<longleftrightarrow> 0xFFFFFFFF \<in> u_uid ` set us" by (auto simp: image_iff eq_commute)
  show "case next_available_uid us of None \<Rightarrow> True | Some uid \<Rightarrow> GUEST_UID < uid \<and> uid \<notin> u_uid ` set us"
    using next_uid(2) [of us] by (cases "next_available_uid us") simp_all
qed

text \<open>An application never gets administrator rights from its permission label, whatever the label is; it may use the
  network exactly when the label lists "network" or "shell". Only the root user is exempt.\<close>

theorem application_capabilities:
  assumes "cr_uid creds \<noteq> ROOT_UID"
  shows "\<not> can_admin (creds\<lparr>cr_caps := caps_for_permission label\<rparr>) \<and>
    (can_network (creds\<lparr>cr_caps := caps_for_permission label\<rparr>) \<longleftrightarrow>
       ''network'' \<in> trim ` set (split_on CHR '','' label) \<or> ''shell'' \<in> trim ` set (split_on CHR '','' label))"
proof -
  have "caps_for_permission label AND CAP_ADMIN = 0"
  proof -
    have "CAP_EXEC AND CAP_ADMIN = 0" by (simp add: cap_defs)
    then show ?thesis using caps_bit [of label CAP_ADMIN] token_caps_admin by blast
  qed
  then have adm: "\<not> can_admin (creds\<lparr>cr_caps := caps_for_permission label\<rparr>)" using assms by (simp add: can_admin_def)
  have "CAP_EXEC AND CAP_NETWORK = 0" by (simp add: cap_defs)
  then have "caps_for_permission label AND CAP_NETWORK \<noteq> 0 \<longleftrightarrow> (\<exists>t \<in> set (split_on CHR '','' label). trim t = ''network'' \<or> trim t = ''shell'')"
    using caps_bit [of label CAP_NETWORK] token_caps_network by simp
  moreover have "can_network (creds\<lparr>cr_caps := caps_for_permission label\<rparr>) \<longleftrightarrow> caps_for_permission label AND CAP_NETWORK \<noteq> 0"
    using assms by (simp add: can_network_def)
  moreover have "n \<in> trim ` T \<longleftrightarrow> (\<exists>t \<in> T. trim t = n)" for n T by blast
  ultimately show ?thesis using adm by blast
qed

theorem application_capabilities_witness:
  "(1000 :: u32) \<noteq> ROOT_UID \<and> can_network (\<lparr>cr_uid = 1000, cr_gid = 1000, cr_caps = 0\<rparr>\<lparr>cr_caps := caps_for_permission ''user, network''\<rparr>)"
proof -
  have n: "cr_uid \<lparr>cr_uid = 1000, cr_gid = 1000, cr_caps = 0\<rparr> \<noteq> ROOT_UID" by (simp add: ROOT_UID_def)
  have "''network'' \<in> trim ` set (split_on CHR '','' ''user, network'')" by code_simp
  then show ?thesis using application_capabilities [OF n, of "''user, network''"] n by simp
qed


end
