(* ===== verification/Kernel_Log.thy ===== *)
theory Kernel_Log
  imports Change_Log Cool_Text
begin

text \<open>
  The kernel's log lines (\<open>src/src/klog.rs\<close>) and its event bus (\<open>src/src/event_bus.rs\<close>): two bounded lists in memory.
  The bus keeps the latest events, numbered consecutively; every event is also a log line. The time of a line or an
  event is the number of timer ticks, an argument here.
\<close>

section \<open>Log lines\<close>

definition MAX_LINES :: nat where "MAX_LINES = 96"
definition MAX_BUS_EVENTS :: nat where "MAX_BUS_EVENTS = 96"

record event =
  ev_id :: u64
  ev_tick :: u64
  ev_source :: string
  ev_kind :: string
  ev_detail :: string

record event_bus =
  next_event_id :: u64
  events :: "event list"
  log_lines :: "string list"

definition bus_new :: event_bus where
  "bus_new = \<lparr>next_event_id = 1, events = [], log_lines = []\<rparr>"

definition push_u64 :: "u64 \<Rightarrow> string" where
  "push_u64 value = (if value = 0 then ''0'' else rev (digits_rev (unat value)))"

definition push_limited :: "nat \<Rightarrow> 'a \<Rightarrow> 'a list \<Rightarrow> 'a list" where
  "push_limited n x xs = (let ys = xs @ [x] in if length ys > n then tl ys else ys)"

definition klog :: "u64 \<Rightarrow> string \<Rightarrow> event_bus \<Rightarrow> event_bus" where
  "klog now message b = b\<lparr>log_lines := push_limited MAX_LINES (push_u64 now @ ''  '' @ message) (log_lines b)\<rparr>"

section \<open>Events\<close>

definition bus_emit :: "u64 \<Rightarrow> string \<Rightarrow> string \<Rightarrow> string \<Rightarrow> event_bus \<Rightarrow> event_bus" where
  "bus_emit now source kind detail b =
     (let e = \<lparr>ev_id = next_event_id b, ev_tick = now, ev_source = source, ev_kind = kind, ev_detail = detail\<rparr>;
          b1 = klog now (''event '' @ source @ '' '' @ kind @ '' '' @ detail) (b\<lparr>next_event_id := next_event_id b + 1\<rparr>) in
      b1\<lparr>events := push_limited MAX_BUS_EVENTS e (events b1)\<rparr>)"

definition recent :: "nat \<Rightarrow> event_bus \<Rightarrow> event list" where
  "recent limit b = drop (length (events b) - limit) (events b)"

definition event_lines :: "nat \<Rightarrow> event_bus \<Rightarrow> string list" where
  "event_lines limit b = map (\<lambda>e. ''#'' @ dec_string (unat (ev_id e)) @ '' t='' @ dec_string (unat (ev_tick e)) @ '' '' @ ev_source e @ '':'' @
     ev_kind e @ '' '' @ ev_detail e) (recent limit b)"

section \<open>The bus keeps the latest events\<close>

lemma push_limited_length: "length xs \<le> n \<Longrightarrow> length (push_limited n x xs) \<le> n"
  by (simp add: push_limited_def Let_def)

lemma push_limited_last: "0 < n \<Longrightarrow> push_limited n x xs \<noteq> [] \<and> last (push_limited n x xs) = x"
  by (cases xs) (auto simp: push_limited_def Let_def)

text \<open>The ids of the kept events: consecutive, up to the last one given.\<close>

definition bus_inv :: "event_bus \<Rightarrow> bool" where
  "bus_inv b \<longleftrightarrow> length (events b) \<le> MAX_BUS_EVENTS \<and> length (log_lines b) \<le> MAX_LINES \<and>
     map ev_id (rev (events b)) = map (\<lambda>i. next_event_id b - 1 - word_of_nat i) [0..<length (events b)]"

lemma bus_inv_new: "bus_inv bus_new"
  by (simp add: bus_inv_def bus_new_def)

lemma bus_inv_klog: "bus_inv b \<Longrightarrow> bus_inv (klog now message b)"
  by (simp add: bus_inv_def klog_def push_limited_length)

lemma rev_push_limited: "rev (push_limited n x xs) = (if length xs < n then x # rev xs else butlast (x # rev xs))"
  by (simp add: push_limited_def Let_def butlast_rev [symmetric])

lemma bus_inv_emit:
  assumes "bus_inv b"
  shows "bus_inv (bus_emit now source kind detail b)"
proof -
  let ?e = "\<lparr>ev_id = next_event_id b, ev_tick = now, ev_source = source, ev_kind = kind, ev_detail = detail\<rparr>"
  let ?n = "length (events b)"
  let ?id = "\<lambda>i. next_event_id b - word_of_nat i"
  have ids: "map ev_id (rev (events b)) = map (\<lambda>i. ?id (Suc i)) [0..<?n]" using assms by (simp add: bus_inv_def algebra_simps)
  have all: "map ev_id (?e # rev (events b)) = map ?id [0..<Suc ?n]"
    using ids by (simp add: upt_conv_Cons map_Suc_upt [symmetric] comp_def del: upt_Suc map_Suc_upt)
  have but: "map ev_id (butlast (?e # rev (events b))) = map ?id [0..<?n]" by (simp only: map_butlast all) (simp add: map_butlast [symmetric])
  have "map ev_id (rev (push_limited MAX_BUS_EVENTS ?e (events b))) = map ?id [0..<length (push_limited MAX_BUS_EVENTS ?e (events b))]"
    unfolding rev_push_limited by (simp only: if_distrib [of "map ev_id"] all but) (simp add: push_limited_def Let_def)
  then show ?thesis using assms
    by (simp add: bus_inv_def bus_emit_def Let_def klog_def push_limited_length)
qed

end
