(* ===== verification/Vfs.thy ===== *)
theory Vfs
  imports Security Kernel_Log
begin

text \<open>
  The path functions of \<open>src/src/vfs.rs\<close>: mounts, the permission checks in front of every operation, and the kernel's
  own entry points without checks. Paths under \<open>/FAT\<close> go to the FAT driver of \<open>src/src/fat32.rs\<close>, whose functions are the
  argument \<open>fat\<close> of the definitions; all other paths go to CoolFS. The kernel state has the file system, the security
  state, the credentials of the running task and the event bus.
\<close>

section \<open>State and mounts\<close>

record kernel =
  fs :: fs_state
  sec :: security_state
  task_credentials :: "credentials option"
  bus :: event_bus

definition interactive_credentials :: "security_state \<Rightarrow> credentials" where
  "interactive_credentials s = \<lparr>cr_uid = session_uid s, cr_gid = session_gid s, cr_caps = session_caps s\<rparr>"

definition current_credentials :: "kernel \<Rightarrow> credentials" where
  "current_credentials k = (case task_credentials k of Some c \<Rightarrow> c | None \<Rightarrow> interactive_credentials (sec k))"

definition package_credentials :: "string \<Rightarrow> security_state \<Rightarrow> credentials" where
  "package_credentials permission s =
     (let session = interactive_credentials s in
      \<lparr>cr_uid = cr_uid session, cr_gid = cr_gid session, cr_caps = caps_for_permission permission\<rparr>)"

definition service_credentials :: "string \<Rightarrow> credentials" where
  "service_credentials name =
     (let caps = CAP_READ_FS OR CAP_WRITE_FS OR CAP_EXEC OR CAP_DIAGNOSTICS in
      \<lparr>cr_uid = SERVICE_UID, cr_gid = SERVICE_GID,
       cr_caps = (if name = ''network-stack'' then caps OR CAP_NETWORK else caps)\<rparr>)"

text \<open>A file system call runs with the credentials of the running task.\<close>

definition on_fs :: "(fs_state, 'e, 'a) sm \<Rightarrow> (kernel, 'e, 'a) sm" where
  "on_fs m k =
     (let c = current_credentials k in
      case m ((fs k)\<lparr>cred_uid := cr_uid c, cred_gid := cr_gid c\<rparr>) of (r, s) \<Rightarrow> (r, k\<lparr>fs := s\<rparr>))"

record fat_driver =
  fat_list_dir :: "string \<Rightarrow> (fs_state, unit, dir_entry_info list) sm"
  fat_read_file :: "string \<Rightarrow> (fs_state, unit, bytes) sm"
  fat_create_file :: "string \<Rightarrow> (fs_state, fs_error, unit) sm"
  fat_create_dir :: "string \<Rightarrow> (fs_state, fs_error, unit) sm"
  fat_write_file :: "string \<Rightarrow> bytes \<Rightarrow> (fs_state, fs_error, unit) sm"
  fat_safe_write_file :: "string \<Rightarrow> bytes \<Rightarrow> (fs_state, fs_error, unit) sm"
  fat_delete_file :: "string \<Rightarrow> (fs_state, fs_error, unit) sm"
  fat_rename :: "string \<Rightarrow> string \<Rightarrow> (fs_state, fs_error, unit) sm"
  fat_copy_file :: "string \<Rightarrow> string \<Rightarrow> (fs_state, fs_error, unit) sm"

record file_metadata =
  fm_uid :: u32
  fm_gid :: u32
  fm_mode :: u16
  fm_size :: u64
  fm_is_dir :: bool
  fm_is_file :: bool

record mount_info =
  mount_prefix :: string
  mount_fs_type :: string
  mount_flags :: string

definition MOUNTS :: "mount_info list" where
  "MOUNTS =
     [\<lparr>mount_prefix = ''/'', mount_fs_type = ''coolfs'', mount_flags = ''rw,native-root,normalized-paths,uid-gid-mode''\<rparr>,
      \<lparr>mount_prefix = ''/FAT'', mount_fs_type = ''fat32'', mount_flags = ''rw,legacy-import,optional''\<rparr>,
      \<lparr>mount_prefix = ''/DEV'', mount_fs_type = ''devfs'', mount_flags = ''rw,generated-nodes''\<rparr>,
      \<lparr>mount_prefix = ''/APPS'', mount_fs_type = ''appfs'', mount_flags = ''rw,manifest-validated''\<rparr>,
      \<lparr>mount_prefix = ''/LOGS'', mount_fs_type = ''coolfs'', mount_flags = ''rw,persistent''\<rparr>]"

definition resolve_mount :: "string \<Rightarrow> mount_info" where
  "resolve_mount path0 =
     (let path = normalize_path path0 in
      foldl (\<lambda>best mount.
        if path = mount_prefix mount \<or>
           (mount_prefix mount \<noteq> ''/'' \<and> starts_with path (mount_prefix mount) \<and> length (mount_prefix mount) > length (mount_prefix best))
        then mount else best) (MOUNTS ! 0) MOUNTS)"

definition fat32_path :: "string \<Rightarrow> string option" where
  "fat32_path path =
     (if path = ''/FAT'' then Some ''/''
      else map_option (\<lambda>rest. ''/'' @ rest) (strip_prefix path ''/FAT/''))"

definition vfs_join_path :: "string \<Rightarrow> string \<Rightarrow> string" where
  "vfs_join_path parent name = (if ends_with_slash parent then parent else parent @ ''/'') @ name"

definition parent_path :: "string \<Rightarrow> fs_error + string" where
  "parent_path path0 =
     (let path = normalize_path path0 in
      if path = ''/'' then Inl InvalidPath else
      case rfind_slash path of
        None \<Rightarrow> Inl InvalidPath
      | Some slash \<Rightarrow> Inr (if slash = 0 then ''/'' else take slash path))"

definition vfs_file_name :: "string \<Rightarrow> fs_error + string" where
  "vfs_file_name path0 =
     (let path = normalize_path path0 in
      if path = ''/'' then Inl InvalidPath else
      case rfind_slash path of
        None \<Rightarrow> Inl InvalidPath
      | Some slash \<Rightarrow> let name = drop (slash + 1) path in if name = '''' then Inl InvalidPath else Inr name)"

definition default_mode_for_path :: "string \<Rightarrow> bool \<Rightarrow> u16" where
  "default_mode_for_path path isdir =
     (if isdir \<and> eq_ignore_ascii_case path ''/TMP'' then SHARED_TMP_MODE
      else if isdir then DEFAULT_DIR_MODE
      else if starts_with path ''/bin/'' \<or> eq_ignore_ascii_case path ''/bin'' then DEFAULT_EXEC_MODE
      else DEFAULT_FILE_MODE)"

definition user_owned_path :: "string \<Rightarrow> bool" where
  "user_owned_path path \<longleftrightarrow> list_ex (\<lambda>d. path = d \<or> starts_with path (d @ ''/''))
     [''/TMP'', ''/Documents'', ''/Pictures'', ''/Desktop'', ''/Trash'', ''/Downloads'', ''/Packages'']"

definition default_owner_for_path :: "user_record list \<Rightarrow> string \<Rightarrow> u32 \<times> u32" where
  "default_owner_for_path us path =
     (case home_owner_for_path us path of
        Some owner \<Rightarrow> owner
      | None \<Rightarrow> if user_owned_path path then (USER_UID, USER_GID) else (ROOT_UID, ROOT_GID))"

section \<open>Dispatch to the file systems\<close>

definition list_dir_unchecked :: "fat_driver \<Rightarrow> string \<Rightarrow> (kernel, unit, dir_entry_info list) sm" where
  "list_dir_unchecked fat path =
     (case fat32_path path of Some fat_path \<Rightarrow> on_fs (fat_list_dir fat fat_path) | None \<Rightarrow> on_fs (list_dir path))"

definition fat_dir_metadata :: file_metadata where
  "fat_dir_metadata = \<lparr>fm_uid = ROOT_UID, fm_gid = ROOT_GID, fm_mode = DEFAULT_DIR_MODE, fm_size = 0, fm_is_dir = True, fm_is_file = False\<rparr>"

definition fat_file_metadata :: "bytes \<Rightarrow> file_metadata" where
  "fat_file_metadata data = \<lparr>fm_uid = ROOT_UID, fm_gid = ROOT_GID, fm_mode = DEFAULT_FILE_MODE,
     fm_size = word_of_nat (length data), fm_is_dir = False, fm_is_file = True\<rparr>"

definition file_metadata_of :: "metadata_info \<Rightarrow> file_metadata" where
  "file_metadata_of meta = \<lparr>fm_uid = md_uid meta, fm_gid = md_gid meta, fm_mode = md_mode meta, fm_size = ucast (md_size meta),
     fm_is_dir = md_is_dir meta, fm_is_file = md_is_file meta\<rparr>"

definition metadata_unchecked :: "fat_driver \<Rightarrow> string \<Rightarrow> (kernel, unit, file_metadata) sm" where
  "metadata_unchecked fat path =
     (case fat32_path path of
        Some fat_path \<Rightarrow>
          bnd (attempt (on_fs (fat_list_dir fat fat_path))) (\<lambda>r. case r of
            Inr _ \<Rightarrow> ret fat_dir_metadata
          | Inl _ \<Rightarrow> bnd (on_fs (fat_read_file fat fat_path)) (\<lambda>data. ret (fat_file_metadata data)))
      | None \<Rightarrow> bnd (on_fs (metadata path)) (\<lambda>meta. ret (file_metadata_of meta)))"

definition read_file_unchecked :: "fat_driver \<Rightarrow> string \<Rightarrow> (kernel, unit, bytes) sm" where
  "read_file_unchecked fat path =
     (case fat32_path path of Some fat_path \<Rightarrow> on_fs (fat_read_file fat fat_path) | None \<Rightarrow> on_fs (read_file path))"

definition create_file_for :: "fat_driver \<Rightarrow> string \<Rightarrow> u32 \<Rightarrow> u32 \<Rightarrow> u16 \<Rightarrow> (kernel, fs_error, unit) sm" where
  "create_file_for fat path uid gid mode =
     (case fat32_path path of
        Some fat_path \<Rightarrow> on_fs (fat_create_file fat fat_path)
      | None \<Rightarrow> on_fs (create_file_with_metadata path uid gid mode))"

definition create_dir_for :: "fat_driver \<Rightarrow> string \<Rightarrow> u32 \<Rightarrow> u32 \<Rightarrow> u16 \<Rightarrow> (kernel, fs_error, unit) sm" where
  "create_dir_for fat path uid gid mode =
     (case fat32_path path of
        Some fat_path \<Rightarrow> on_fs (fat_create_dir fat fat_path)
      | None \<Rightarrow> on_fs (create_dir_with_metadata path uid gid mode))"

definition create_file_unchecked :: "fat_driver \<Rightarrow> string \<Rightarrow> (kernel, fs_error, unit) sm" where
  "create_file_unchecked fat path = bnd (gets (users \<circ> sec)) (\<lambda>us.
     case default_owner_for_path us path of (uid, gid) \<Rightarrow> create_file_for fat path uid gid (default_mode_for_path path False))"

definition write_file_unchecked :: "fat_driver \<Rightarrow> string \<Rightarrow> bytes \<Rightarrow> (kernel, fs_error, unit) sm" where
  "write_file_unchecked fat path data =
     (case fat32_path path of Some fat_path \<Rightarrow> on_fs (fat_write_file fat fat_path data) | None \<Rightarrow> on_fs (write_file path data))"

definition safe_write_file_for :: "fat_driver \<Rightarrow> string \<Rightarrow> bytes \<Rightarrow> u32 \<Rightarrow> u32 \<Rightarrow> u16 \<Rightarrow> (kernel, fs_error, unit) sm" where
  "safe_write_file_for fat path data uid gid mode =
     (case fat32_path path of
        Some fat_path \<Rightarrow> on_fs (fat_safe_write_file fat fat_path data)
      | None \<Rightarrow> on_fs (safe_write_file_with_metadata path data uid gid mode))"

definition delete_unchecked :: "fat_driver \<Rightarrow> string \<Rightarrow> (kernel, fs_error, unit) sm" where
  "delete_unchecked fat path =
     (case fat32_path path of Some fat_path \<Rightarrow> on_fs (fat_delete_file fat fat_path) | None \<Rightarrow> on_fs (delete_file path))"

definition rename_unchecked :: "fat_driver \<Rightarrow> string \<Rightarrow> string \<Rightarrow> (kernel, fs_error, unit) sm" where
  "rename_unchecked fat path new_name =
     (case fat32_path path of Some fat_path \<Rightarrow> on_fs (fat_rename fat fat_path new_name) | None \<Rightarrow> on_fs (rename path new_name))"

definition copy_file_unchecked :: "fat_driver \<Rightarrow> string \<Rightarrow> string \<Rightarrow> (kernel, fs_error, unit) sm" where
  "copy_file_unchecked fat src dst =
     (case (fat32_path src, fat32_path dst) of
        (Some src', Some dst') \<Rightarrow> on_fs (fat_copy_file fat src' dst')
      | (None, None) \<Rightarrow> on_fs (copy_file src dst)
      | _ \<Rightarrow>
        bnd (ok_or NotFound (read_file_unchecked fat src)) (\<lambda>data.
        bnd (create_file_unchecked fat dst) (\<lambda>_.
        write_file_unchecked fat dst data)))"

definition copy_file_for :: "fat_driver \<Rightarrow> string \<Rightarrow> string \<Rightarrow> u32 \<Rightarrow> u32 \<Rightarrow> u16 \<Rightarrow> (kernel, fs_error, unit) sm" where
  "copy_file_for fat src dst uid gid mode =
     bnd (ok_or NotFound (read_file_unchecked fat src)) (\<lambda>data.
     bnd (create_file_for fat dst uid gid mode) (\<lambda>_.
     write_file_unchecked fat dst data))"

definition chmod_unchecked :: "string \<Rightarrow> u16 \<Rightarrow> (kernel, fs_error, unit) sm" where
  "chmod_unchecked path mode = (if fat32_path path \<noteq> None then err UnsupportedName else on_fs (chmod path mode))"

definition chown_unchecked :: "string \<Rightarrow> u32 \<Rightarrow> u32 \<Rightarrow> (kernel, fs_error, unit) sm" where
  "chown_unchecked path uid gid = (if fat32_path path \<noteq> None then err UnsupportedName else on_fs (chown path uid gid))"

section \<open>Permission checks\<close>

definition meta_readable :: "credentials \<Rightarrow> file_metadata \<Rightarrow> bool" where
  "meta_readable creds meta = can_read_metadata creds (fm_uid meta) (fm_gid meta) (fm_mode meta)"
definition meta_writable :: "credentials \<Rightarrow> file_metadata \<Rightarrow> bool" where
  "meta_writable creds meta = can_write_metadata creds (fm_uid meta) (fm_gid meta) (fm_mode meta)"
definition meta_executable :: "credentials \<Rightarrow> file_metadata \<Rightarrow> bool" where
  "meta_executable creds meta = can_execute_metadata creds (fm_uid meta) (fm_gid meta) (fm_mode meta)"

definition check_parent_access :: "fat_driver \<Rightarrow> credentials \<Rightarrow> string \<Rightarrow> (kernel, fs_error, unit) sm" where
  "check_parent_access fat creds path =
     bnd (lift_res (parent_path path)) (\<lambda>parent.
     bnd (ok_or NotFound (metadata_unchecked fat parent)) (\<lambda>parent_meta.
     if fm_is_dir parent_meta \<and> meta_writable creds parent_meta \<and> meta_executable creds parent_meta
     then ret () else err PermissionDenied))"

definition check_create_access :: "fat_driver \<Rightarrow> string \<Rightarrow> (kernel, fs_error, unit) sm" where
  "check_create_access fat path =
     (if path = ''/'' then err InvalidPath else
      bnd (gets current_credentials) (\<lambda>creds.
      if \<not> can_write_files creds then err PermissionDenied
      else if fat32_path path \<noteq> None then ret ()
      else check_parent_access fat creds path))"

definition check_write_access :: "fat_driver \<Rightarrow> string \<Rightarrow> (kernel, fs_error, unit) sm" where
  "check_write_access fat path =
     bnd (gets current_credentials) (\<lambda>creds.
     if \<not> can_write_files creds then err PermissionDenied
     else if fat32_path path \<noteq> None then ret ()
     else
       bnd (ok_or NotFound (metadata_unchecked fat path)) (\<lambda>meta.
       if fm_is_file meta \<and> meta_writable creds meta then ret () else err PermissionDenied))"

definition check_safe_write_access :: "fat_driver \<Rightarrow> string \<Rightarrow> (kernel, fs_error, unit) sm" where
  "check_safe_write_access fat path =
     bnd (attempt (metadata_unchecked fat path)) (\<lambda>meta. case meta of
       Inr _ \<Rightarrow> bnd (check_write_access fat path) (\<lambda>_. check_create_access fat path)
     | Inl _ \<Rightarrow> check_create_access fat path)"

definition check_delete_access :: "fat_driver \<Rightarrow> string \<Rightarrow> (kernel, fs_error, unit) sm" where
  "check_delete_access fat path =
     (if path = ''/'' then err InvalidPath else
      bnd (gets current_credentials) (\<lambda>creds.
      if \<not> can_write_files creds then err PermissionDenied
      else if fat32_path path \<noteq> None then ret ()
      else
        bnd (attempt (metadata_unchecked fat path)) (\<lambda>meta. case meta of
          Inl _ \<Rightarrow> err NotFound
        | Inr _ \<Rightarrow> check_parent_access fat creds path)))"

section \<open>System calls on paths\<close>

definition vfs_list_dir :: "fat_driver \<Rightarrow> string \<Rightarrow> (kernel, unit, dir_entry_info list) sm" where
  "vfs_list_dir fat path0 =
     (let path = normalize_path path0 in
      bnd (gets current_credentials) (\<lambda>creds.
      bnd (metadata_unchecked fat path) (\<lambda>meta.
      if \<not> fm_is_dir meta \<or> \<not> meta_readable creds meta \<or> \<not> meta_executable creds meta then err ()
      else list_dir_unchecked fat path)))"

definition vfs_read_file :: "fat_driver \<Rightarrow> string \<Rightarrow> (kernel, unit, bytes) sm" where
  "vfs_read_file fat path0 =
     (let path = normalize_path path0 in
      bnd (gets current_credentials) (\<lambda>creds.
      bnd (metadata_unchecked fat path) (\<lambda>meta.
      if \<not> fm_is_file meta \<or> \<not> meta_readable creds meta then err ()
      else read_file_unchecked fat path)))"

definition vfs_metadata :: "fat_driver \<Rightarrow> string \<Rightarrow> (kernel, unit, file_metadata) sm" where
  "vfs_metadata fat path0 =
     (let path = normalize_path path0 in
      bnd (gets current_credentials) (\<lambda>creds.
      bnd (metadata_unchecked fat path) (\<lambda>meta.
      if \<not> meta_readable creds meta then err () else ret meta)))"

datatype path_kind = PathFile | PathDirectory | PathMissing | PathDenied

record path_info =
  pi_path :: string
  pi_mount :: mount_info
  pi_kind :: path_kind
  pi_size :: u64

definition inspect_path :: "fat_driver \<Rightarrow> string \<Rightarrow> (kernel, unit, path_info) sm" where
  "inspect_path fat path0 =
     (let path = normalize_path path0; mount = resolve_mount path in
      bnd (gets current_credentials) (\<lambda>creds.
      bnd (attempt (metadata_unchecked fat path)) (\<lambda>r. ret (case r of
        Inl _ \<Rightarrow> \<lparr>pi_path = path, pi_mount = mount, pi_kind = PathMissing, pi_size = 0\<rparr>
      | Inr meta \<Rightarrow>
        if \<not> meta_readable creds meta then \<lparr>pi_path = path, pi_mount = mount, pi_kind = PathDenied, pi_size = 0\<rparr>
        else \<lparr>pi_path = path, pi_mount = mount, pi_kind = (if fm_is_dir meta then PathDirectory else PathFile), pi_size = fm_size meta\<rparr>))))"

definition vfs_check_execute :: "fat_driver \<Rightarrow> string \<Rightarrow> (kernel, fs_error, unit) sm" where
  "vfs_check_execute fat path0 =
     (let path = normalize_path path0 in
      bnd (gets current_credentials) (\<lambda>creds.
      bnd (ok_or NotFound (metadata_unchecked fat path)) (\<lambda>meta.
      if fm_is_file meta \<and> meta_executable creds meta then ret () else err PermissionDenied)))"

definition vfs_can_execute :: "fat_driver \<Rightarrow> string \<Rightarrow> (kernel, fs_error, bool) sm" where
  "vfs_can_execute fat path = bnd (attempt (vfs_check_execute fat path)) (\<lambda>r. ret (case r of Inr _ \<Rightarrow> True | Inl _ \<Rightarrow> False))"

definition vfs_create_file :: "fat_driver \<Rightarrow> string \<Rightarrow> (kernel, fs_error, unit) sm" where
  "vfs_create_file fat path0 =
     (let path = normalize_path path0 in
      bnd (check_create_access fat path) (\<lambda>_.
      bnd (gets current_credentials) (\<lambda>creds.
      bnd (gets (umask \<circ> sec)) (\<lambda>um.
      create_file_for fat path (cr_uid creds) (cr_gid creds) (apply_umask um DEFAULT_FILE_MODE)))))"

definition vfs_create_dir :: "fat_driver \<Rightarrow> string \<Rightarrow> (kernel, fs_error, unit) sm" where
  "vfs_create_dir fat path0 =
     (let path = normalize_path path0 in
      bnd (check_create_access fat path) (\<lambda>_.
      bnd (gets current_credentials) (\<lambda>creds.
      bnd (gets (umask \<circ> sec)) (\<lambda>um.
      create_dir_for fat path (cr_uid creds) (cr_gid creds) (apply_umask um DEFAULT_DIR_MODE)))))"

definition vfs_write_file :: "fat_driver \<Rightarrow> string \<Rightarrow> bytes \<Rightarrow> (kernel, fs_error, unit) sm" where
  "vfs_write_file fat path0 data =
     (let path = normalize_path path0 in
      bnd (check_write_access fat path) (\<lambda>_. write_file_unchecked fat path data))"

definition vfs_safe_write_file :: "fat_driver \<Rightarrow> string \<Rightarrow> bytes \<Rightarrow> (kernel, fs_error, unit) sm" where
  "vfs_safe_write_file fat path0 data =
     (let path = normalize_path path0 in
      bnd (check_safe_write_access fat path) (\<lambda>_.
      bnd (gets current_credentials) (\<lambda>creds.
      bnd (attempt (metadata_unchecked fat path)) (\<lambda>meta.
      bnd (gets (umask \<circ> sec)) (\<lambda>um.
      case meta of
        Inr meta \<Rightarrow> safe_write_file_for fat path data (fm_uid meta) (fm_gid meta) (fm_mode meta)
      | Inl _ \<Rightarrow> safe_write_file_for fat path data (cr_uid creds) (cr_gid creds) (apply_umask um DEFAULT_FILE_MODE))))))"

definition vfs_delete :: "fat_driver \<Rightarrow> string \<Rightarrow> (kernel, fs_error, unit) sm" where
  "vfs_delete fat path0 =
     (let path = normalize_path path0 in
      bnd (check_delete_access fat path) (\<lambda>_. delete_unchecked fat path))"

definition vfs_rename :: "fat_driver \<Rightarrow> string \<Rightarrow> string \<Rightarrow> (kernel, fs_error, unit) sm" where
  "vfs_rename fat path0 new_name =
     (let path = normalize_path path0 in
      bnd (check_delete_access fat path) (\<lambda>_. rename_unchecked fat path new_name))"

definition vfs_copy_file :: "fat_driver \<Rightarrow> string \<Rightarrow> string \<Rightarrow> (kernel, fs_error, unit) sm" where
  "vfs_copy_file fat src0 dst0 =
     (let src = normalize_path src0; dst = normalize_path dst0 in
      bnd (gets current_credentials) (\<lambda>creds.
      bnd (ok_or NotFound (metadata_unchecked fat src)) (\<lambda>src_meta.
      if \<not> fm_is_file src_meta \<or> \<not> meta_readable creds src_meta then err PermissionDenied else
      bnd (check_create_access fat dst) (\<lambda>_.
      bnd (gets (umask \<circ> sec)) (\<lambda>um.
      copy_file_for fat src dst (cr_uid creds) (cr_gid creds) (apply_umask um DEFAULT_FILE_MODE))))))"

definition vfs_rename_path :: "fat_driver \<Rightarrow> string \<Rightarrow> string \<Rightarrow> (kernel, fs_error, unit) sm" where
  "vfs_rename_path fat src0 dst0 =
     (let src = normalize_path src0; dst = normalize_path dst0 in
      if src = ''/'' \<or> dst = ''/'' \<or> src = dst then err InvalidPath else
      bnd (lift_res (parent_path src)) (\<lambda>src_parent.
      bnd (lift_res (parent_path dst)) (\<lambda>dst_parent.
      bnd (lift_res (vfs_file_name dst)) (\<lambda>dst_name.
      if src_parent = dst_parent then vfs_rename fat src dst_name else
      bnd (ok_or NotFound (vfs_metadata fat src)) (\<lambda>meta.
      if \<not> fm_is_file meta then err InvalidPath else
      bnd (vfs_copy_file fat src dst) (\<lambda>_. vfs_delete fat src))))))"

definition vfs_chmod :: "fat_driver \<Rightarrow> string \<Rightarrow> u16 \<Rightarrow> (kernel, fs_error, unit) sm" where
  "vfs_chmod fat path0 mode =
     (let path = normalize_path path0 in
      bnd (gets current_credentials) (\<lambda>creds.
      bnd (ok_or NotFound (metadata_unchecked fat path)) (\<lambda>meta.
      if \<not> can_admin creds \<and> cr_uid creds \<noteq> fm_uid meta then err PermissionDenied
      else chmod_unchecked path mode)))"

definition vfs_chown :: "string \<Rightarrow> u32 \<Rightarrow> u32 \<Rightarrow> (kernel, fs_error, unit) sm" where
  "vfs_chown path0 uid gid =
     (let path = normalize_path path0 in
      bnd (gets current_credentials) (\<lambda>creds.
      if \<not> can_admin creds then err PermissionDenied else chown_unchecked path uid gid))"

section \<open>The kernel's own access\<close>

definition vfs_kernel_list_dir :: "fat_driver \<Rightarrow> string \<Rightarrow> (kernel, unit, dir_entry_info list) sm" where
  "vfs_kernel_list_dir fat path = list_dir_unchecked fat (normalize_path path)"

definition vfs_kernel_read_file :: "fat_driver \<Rightarrow> string \<Rightarrow> (kernel, unit, bytes) sm" where
  "vfs_kernel_read_file fat path = read_file_unchecked fat (normalize_path path)"

definition vfs_kernel_metadata :: "fat_driver \<Rightarrow> string \<Rightarrow> (kernel, unit, file_metadata) sm" where
  "vfs_kernel_metadata fat path = metadata_unchecked fat (normalize_path path)"

definition vfs_kernel_create_file :: "fat_driver \<Rightarrow> string \<Rightarrow> (kernel, fs_error, unit) sm" where
  "vfs_kernel_create_file fat path0 =
     (let path = normalize_path path0 in
      bnd (gets (users \<circ> sec)) (\<lambda>us.
      case default_owner_for_path us path of (uid, gid) \<Rightarrow> create_file_for fat path uid gid (default_mode_for_path path False)))"

definition vfs_kernel_create_dir :: "fat_driver \<Rightarrow> string \<Rightarrow> (kernel, fs_error, unit) sm" where
  "vfs_kernel_create_dir fat path0 =
     (let path = normalize_path path0 in
      bnd (gets (users \<circ> sec)) (\<lambda>us.
      case default_owner_for_path us path of (uid, gid) \<Rightarrow> create_dir_for fat path uid gid (default_mode_for_path path True)))"

definition vfs_kernel_write_file :: "fat_driver \<Rightarrow> string \<Rightarrow> bytes \<Rightarrow> (kernel, fs_error, unit) sm" where
  "vfs_kernel_write_file fat path data = write_file_unchecked fat (normalize_path path) data"

definition vfs_kernel_safe_write_file :: "fat_driver \<Rightarrow> string \<Rightarrow> bytes \<Rightarrow> (kernel, fs_error, unit) sm" where
  "vfs_kernel_safe_write_file fat path0 data =
     (let path = normalize_path path0 in
      bnd (attempt (metadata_unchecked fat path)) (\<lambda>meta.
      bnd (gets (users \<circ> sec)) (\<lambda>us.
      case default_owner_for_path us path of (default_uid, default_gid) \<Rightarrow>
      case meta of
        Inr meta \<Rightarrow> safe_write_file_for fat path data (fm_uid meta) (fm_gid meta) (fm_mode meta)
      | Inl _ \<Rightarrow> safe_write_file_for fat path data default_uid default_gid (default_mode_for_path path False))))"

definition vfs_kernel_safe_write_file_with_mode :: "fat_driver \<Rightarrow> string \<Rightarrow> bytes \<Rightarrow> u16 \<Rightarrow> (kernel, fs_error, unit) sm" where
  "vfs_kernel_safe_write_file_with_mode fat path0 data mode =
     (let path = normalize_path path0 in
      bnd (attempt (metadata_unchecked fat path)) (\<lambda>meta.
      bnd (gets (users \<circ> sec)) (\<lambda>us.
      case default_owner_for_path us path of (default_uid, default_gid) \<Rightarrow>
      case meta of
        Inr meta \<Rightarrow> safe_write_file_for fat path data (fm_uid meta) (fm_gid meta) (mode AND 511)
      | Inl _ \<Rightarrow> safe_write_file_for fat path data default_uid default_gid (mode AND 511))))"

definition vfs_kernel_safe_write_file_with_metadata ::
  "fat_driver \<Rightarrow> string \<Rightarrow> bytes \<Rightarrow> u32 \<Rightarrow> u32 \<Rightarrow> u16 \<Rightarrow> (kernel, fs_error, unit) sm" where
  "vfs_kernel_safe_write_file_with_metadata fat path data uid gid mode =
     safe_write_file_for fat (normalize_path path) data uid gid (mode AND 511)"

definition vfs_kernel_delete :: "fat_driver \<Rightarrow> string \<Rightarrow> (kernel, fs_error, unit) sm" where
  "vfs_kernel_delete fat path = delete_unchecked fat (normalize_path path)"

definition vfs_kernel_rename :: "fat_driver \<Rightarrow> string \<Rightarrow> string \<Rightarrow> (kernel, fs_error, unit) sm" where
  "vfs_kernel_rename fat path new_name = rename_unchecked fat (normalize_path path) new_name"

definition vfs_kernel_copy_file :: "fat_driver \<Rightarrow> string \<Rightarrow> string \<Rightarrow> (kernel, fs_error, unit) sm" where
  "vfs_kernel_copy_file fat src dst = copy_file_unchecked fat (normalize_path src) (normalize_path dst)"

section \<open>CoolFS paths\<close>

text \<open>The security state and the task's credentials, which no file operation changes.\<close>

definition kview :: "kernel \<Rightarrow> security_state \<times> credentials option" where
  "kview k = (sec k, task_credentials k)"

definition creds_of :: "security_state \<times> credentials option \<Rightarrow> credentials" where
  "creds_of w = (case snd w of Some c \<Rightarrow> c | None \<Rightarrow> interactive_credentials (fst w))"

definition ksys :: "superblock \<Rightarrow> (u32 \<Rightarrow> fs_file option) \<Rightarrow> security_state \<times> credentials option \<Rightarrow> kernel \<Rightarrow> bool" where
  "ksys q F w k \<longleftrightarrow> fsys q F (fs k) \<and> kview k = w"

lemma current_creds: "ksys q F w k \<Longrightarrow> current_credentials k = creds_of w"
  by (auto simp: ksys_def kview_def creds_of_def current_credentials_def split: option.splits)

lemma ksys_sec: "ksys q F w k \<Longrightarrow> sec k = fst w"
  by (auto simp: ksys_def kview_def)

lemma fsys_creds: "fsys q F (s\<lparr>cred_uid := u, cred_gid := g\<rparr>) = fsys q F s"
  by (simp add: fsys_def)

lemma on_fs_valid:
  assumes "valid (fsys q F) m Q E"
  shows "valid (ksys q F w) (on_fs m) (\<lambda>x k. Q x (fs k) \<and> kview k = w) (\<lambda>e k. E e (fs k) \<and> kview k = w)"
proof (rule validI)
  fix k x k' assume k: "ksys q F w k" and r: "on_fs m k = (Inr x, k')"
  let ?s = "(fs k)\<lparr>cred_uid := cr_uid (current_credentials k), cred_gid := cr_gid (current_credentials k)\<rparr>"
  obtain s' where s': "m ?s = (Inr x, s')" "k' = k\<lparr>fs := s'\<rparr>" using r by (auto simp: on_fs_def Let_def split: prod.splits)
  have "fsys q F ?s" using k by (simp add: ksys_def fsys_creds)
  from validD [OF assms this s'(1)] show "Q x (fs k') \<and> kview k' = w" using k s'(2) by (simp add: ksys_def kview_def)
next
  fix k e k' assume k: "ksys q F w k" and r: "on_fs m k = (Inl e, k')"
  let ?s = "(fs k)\<lparr>cred_uid := cr_uid (current_credentials k), cred_gid := cr_gid (current_credentials k)\<rparr>"
  obtain s' where s': "m ?s = (Inl e, s')" "k' = k\<lparr>fs := s'\<rparr>" using r by (auto simp: on_fs_def Let_def split: prod.splits)
  have "fsys q F ?s" using k by (simp add: ksys_def fsys_creds)
  from validD_err [OF assms this s'(1)] show "E e (fs k') \<and> kview k' = w" using k s'(2) by (simp add: ksys_def kview_def)
qed

lemma valid_gets_creds: "valid (ksys q F w) (f (creds_of w)) Q E \<Longrightarrow> valid (ksys q F w) (bnd (gets current_credentials) f) Q E"
  by (auto simp: valid_def bnd_def gets_def current_creds)

lemma valid_gets_sec: "valid (ksys q F w) (f (g (fst w))) Q E \<Longrightarrow> valid (ksys q F w) (bnd (gets (g \<circ> sec)) f) Q E"
  by (auto simp: valid_def bnd_def gets_def ksys_sec)

text \<open>The metadata the checks see, and what they ask of it.\<close>

definition readable :: "credentials \<Rightarrow> fs_file \<Rightarrow> bool" where
  "readable c f \<longleftrightarrow> can_read_metadata c (fuid f) (fgid f) (fmode f)"
definition writable :: "credentials \<Rightarrow> fs_file \<Rightarrow> bool" where
  "writable c f \<longleftrightarrow> can_write_metadata c (fuid f) (fgid f) (fmode f)"
definition executable :: "credentials \<Rightarrow> fs_file \<Rightarrow> bool" where
  "executable c f \<longleftrightarrow> can_execute_metadata c (fuid f) (fgid f) (fmode f)"

definition vmeta :: "fs_file \<Rightarrow> file_metadata" where
  "vmeta f = file_metadata_of (meta_of f)"

lemma vmeta_simps [simp]: "fm_is_file (vmeta f) = (fkind f = KIND_FILE)" "fm_is_dir (vmeta f) = (fkind f = KIND_DIR)"
    "meta_readable c (vmeta f) = readable c f" "meta_writable c (vmeta f) = writable c f" "meta_executable c (vmeta f) = executable c f"
    "fm_uid (vmeta f) = fuid f" "fm_gid (vmeta f) = fgid f" "fm_mode (vmeta f) = fmode f"
  by (simp_all add: vmeta_def file_metadata_of_def meta_of_def meta_readable_def meta_writable_def meta_executable_def
      readable_def writable_def executable_def)

lemma metadata_ksys:
  assumes "fat32_path path = None"
  shows "valid (ksys q F w) (metadata_unchecked fat path)
    (\<lambda>m k. ksys q F w k \<and> (\<exists>i f. live_at q F path = Inr (i, f) \<and> m = vmeta f))
    (\<lambda>_ k. ksys q F w k \<and> (\<exists>e. live_at q F path = Inl e))"
proof -
  have 1: "valid (ksys q F w) (on_fs (metadata path))
    (\<lambda>m k. ksys q F w k \<and> (\<exists>i f. live_at q F path = Inr (i, f) \<and> file_metadata_of m = vmeta f))
    (\<lambda>_ k. ksys q F w k \<and> (\<exists>e. live_at q F path = Inl e))"
    by (rule valid_weaken [OF on_fs_valid [OF metadata_fsys]])
      (cases "live_at q F path"; auto simp: ksys_def vmeta_def)+
  show ?thesis unfolding metadata_unchecked_def assms option.case
    by (rule valid_bnd [OF 1], rule valid_ret) auto
qed

lemma metadata_then:
  assumes p: "fat32_path path = None"
    and some: "\<And>i f. live_at q F path = Inr (i, f) \<Longrightarrow> valid (ksys q F w) (g (vmeta f)) Q E"
    and none: "\<And>k e. live_at q F path = Inl e \<Longrightarrow> ksys q F w k \<Longrightarrow> E x k"
  shows "valid (ksys q F w) (bnd (map_err (\<lambda>_. x) (metadata_unchecked fat path)) g) Q E"
proof (rule valid_bnd)
  show "valid (ksys q F w) (map_err (\<lambda>_. x) (metadata_unchecked fat path))
    (\<lambda>m k. ksys q F w k \<and> (\<exists>i f. live_at q F path = Inr (i, f) \<and> m = vmeta f)) E"
    by (rule valid_map_err, rule valid_weaken [OF metadata_ksys [OF p]]) (use none in auto)
  show "valid (\<lambda>k. ksys q F w k \<and> (\<exists>i f. live_at q F path = Inr (i, f) \<and> m = vmeta f)) (g m) Q E" for m
    by (rule valid_assume) (use some in auto)
qed

lemma metadata_attempt:
  assumes p: "fat32_path path = None"
    and some: "\<And>i f. live_at q F path = Inr (i, f) \<Longrightarrow> valid (ksys q F w) (g (Inr (vmeta f))) Q E"
    and none: "\<And>e. live_at q F path = Inl e \<Longrightarrow> valid (ksys q F w) (g (Inl ())) Q E"
  shows "valid (ksys q F w) (bnd (attempt (metadata_unchecked fat path)) g) Q E"
proof (rule valid_bnd)
  show "valid (ksys q F w) (attempt (metadata_unchecked fat path))
    (\<lambda>r k. ksys q F w k \<and> (case r of Inr m \<Rightarrow> \<exists>i f. live_at q F path = Inr (i, f) \<and> m = vmeta f
       | Inl _ \<Rightarrow> \<exists>e. live_at q F path = Inl e)) E"
    by (rule valid_attempt, rule valid_weaken [OF metadata_ksys [OF p]]) auto
  show "valid (\<lambda>k. ksys q F w k \<and> (case r of Inr m \<Rightarrow> \<exists>i f. live_at q F path = Inr (i, f) \<and> m = vmeta f
       | Inl _ \<Rightarrow> \<exists>e. live_at q F path = Inl e)) (g r) Q E" for r
    by (rule valid_assume) (use some none in \<open>cases r; auto\<close>)
qed

section \<open>Access checks\<close>

definition parent_allows :: "credentials \<Rightarrow> superblock \<Rightarrow> (u32 \<Rightarrow> fs_file option) \<Rightarrow> string \<Rightarrow> bool" where
  "parent_allows c q F path \<longleftrightarrow> (\<exists>parent i f. parent_path path = Inr parent \<and> live_at q F parent = Inr (i, f) \<and>
     fkind f = KIND_DIR \<and> writable c f \<and> executable c f)"

lemma fat32_path_None: "fat32_path p = None \<longleftrightarrow> p \<noteq> ''/FAT'' \<and> \<not> starts_with p ''/FAT/''"
  by (auto simp: fat32_path_def strip_prefix_def)

lemma parent_not_fat:
  assumes "fat32_path path = None" and n: "normalize_path path = path" and p: "parent_path path = Inr parent"
  shows "fat32_path parent = None"
proof -
  obtain slash where s: "rfind_slash path = Some slash" "parent = (if slash = 0 then ''/'' else take slash path)"
    using p by (auto simp: parent_path_def n Let_def split: if_splits option.splits)
  show ?thesis
  proof (cases "slash = 0")
    case True
    then show ?thesis using s(2) by (simp add: fat32_path_None starts_with_def)
  next
    case False
    have path: "path = parent @ CHR ''/'' # drop (Suc slash) path"
      using s(2) False rfind_slash_Some(2) [OF s(1)] by simp
    have "parent \<noteq> ''/FAT''"
    proof
      assume "parent = ''/FAT''"
      then have "path = ''/FAT/'' @ drop (Suc slash) path" using path by simp
      then have "starts_with path ''/FAT/''" by (metis starts_with_append)
      then show False using assms(1) by (simp add: fat32_path_None)
    qed
    moreover have "\<not> starts_with parent ''/FAT/''"
    proof
      assume "starts_with parent ''/FAT/''"
      then obtain t where "parent = ''/FAT/'' @ t" using starts_withD by blast
      then have "path = ''/FAT/'' @ (t @ CHR ''/'' # drop (Suc slash) path)" using path by simp
      then have "starts_with path ''/FAT/''" by (metis starts_with_append)
      then show False using assms(1) by (simp add: fat32_path_None)
    qed
    ultimately show ?thesis by (simp add: fat32_path_None)
  qed
qed

lemma check_parent_ksys:
  assumes "fat32_path path = None" "normalize_path path = path"
  shows "valid (ksys q F w) (check_parent_access fat c path) (\<lambda>_ k. ksys q F w k \<and> parent_allows c q F path)
    (\<lambda>_ k. ksys q F w k \<and> \<not> parent_allows c q F path)"
proof (cases "parent_path path")
  case (Inl e)
  then show ?thesis by (auto simp: check_parent_access_def bnd_def lift_res_def valid_def parent_allows_def err_def)
next
  case (Inr parent)
  have np: "fat32_path parent = None" by (rule parent_not_fat [OF assms Inr])
  show ?thesis unfolding check_parent_access_def Inr bnd_lift_Inr
  proof (rule metadata_then [OF np])
    fix i f assume l: "live_at q F parent = Inr (i, f)"
    show "valid (ksys q F w) (if fm_is_dir (vmeta f) \<and> meta_writable c (vmeta f) \<and> meta_executable c (vmeta f) then ret () else err PermissionDenied)
      (\<lambda>_ k. ksys q F w k \<and> parent_allows c q F path) (\<lambda>_ k. ksys q F w k \<and> \<not> parent_allows c q F path)"
      by (rule valid_if) (use l Inr in \<open>auto simp: parent_allows_def intro!: valid_ret valid_err\<close>)
  next
    fix k e assume "live_at q F parent = Inl e" "ksys q F w k"
    then show "ksys q F w k \<and> \<not> parent_allows c q F path" using Inr by (auto simp: parent_allows_def)
  qed
qed

definition create_allowed :: "credentials \<Rightarrow> superblock \<Rightarrow> (u32 \<Rightarrow> fs_file option) \<Rightarrow> string \<Rightarrow> bool" where
  "create_allowed c q F path \<longleftrightarrow> path \<noteq> ''/'' \<and> can_write_files c \<and> parent_allows c q F path"

lemma check_create_ksys:
  assumes "fat32_path path = None" "normalize_path path = path"
  shows "valid (ksys q F w) (check_create_access fat path) (\<lambda>_ k. ksys q F w k \<and> create_allowed (creds_of w) q F path)
    (\<lambda>_ k. ksys q F w k \<and> \<not> create_allowed (creds_of w) q F path)"
  unfolding check_create_access_def assms(1)
  by (rule valid_if; (rule valid_gets_creds)?; (rule valid_if)?; (rule valid_if)?)
    (auto simp: create_allowed_def intro!: valid_err intro: valid_weaken [OF check_parent_ksys [OF assms]])

lemma check_write_ksys:
  assumes "fat32_path path = None"
  shows "valid (ksys q F w) (check_write_access fat path)
    (\<lambda>_ k. ksys q F w k \<and> (\<exists>i f. file_at q F path = Inr (i, f) \<and> writable (creds_of w) f))
    (\<lambda>_ k. ksys q F w k \<and> \<not> (\<exists>i f. file_at q F path = Inr (i, f) \<and> writable (creds_of w) f))"
  unfolding check_write_access_def assms
proof (rule valid_gets_creds, rule valid_if)
  let ?ok = "\<exists>i f. file_at q F path = Inr (i, f) \<and> writable (creds_of w) f"
  assume "\<not> can_write_files (creds_of w)"
  then show "valid (ksys q F w) (err PermissionDenied) (\<lambda>_ k. ksys q F w k \<and> ?ok) (\<lambda>_ k. ksys q F w k \<and> \<not> ?ok)"
    by (intro valid_err) (auto simp: writable_def can_write_metadata_def)
next
  let ?ok = "\<exists>i f. file_at q F path = Inr (i, f) \<and> writable (creds_of w) f"
  show "valid (ksys q F w) (if None \<noteq> (None :: string option) then ret () else bnd (ok_or NotFound (metadata_unchecked fat path))
      (\<lambda>meta. if fm_is_file meta \<and> meta_writable (creds_of w) meta then ret () else err PermissionDenied))
    (\<lambda>_ k. ksys q F w k \<and> ?ok) (\<lambda>_ k. ksys q F w k \<and> \<not> ?ok)"
    unfolding not_False_eq_True not_True_eq_False if_False simp_thms
  proof (rule metadata_then [OF assms])
    fix i f assume l: "live_at q F path = Inr (i, f)"
    show "valid (ksys q F w) (if fm_is_file (vmeta f) \<and> meta_writable (creds_of w) (vmeta f) then ret () else err PermissionDenied)
      (\<lambda>_ k. ksys q F w k \<and> ?ok) (\<lambda>_ k. ksys q F w k \<and> \<not> ?ok)"
      by (rule valid_if) (use l in \<open>auto simp: file_at_Inr live_at_Inr intro!: valid_ret valid_err\<close>)
  next
    fix k e assume "live_at q F path = Inl e" "ksys q F w k"
    then show "ksys q F w k \<and> \<not> ?ok" by (auto simp: file_at_def)
  qed
qed

lemma check_delete_ksys:
  assumes "fat32_path path = None" "normalize_path path = path"
  shows "valid (ksys q F w) (check_delete_access fat path)
    (\<lambda>_ k. ksys q F w k \<and> create_allowed (creds_of w) q F path) (\<lambda>_. ksys q F w)"
proof -
  let ?Q = "\<lambda>_ k. ksys q F w k \<and> create_allowed (creds_of w) q F path"
  have par: "valid (ksys q F w) (check_parent_access fat (creds_of w) path) ?Q (\<lambda>_. ksys q F w)"
    if "path \<noteq> ''/''" "can_write_files (creds_of w)"
    by (rule valid_weaken [OF check_parent_ksys [OF assms]]) (use that in \<open>auto simp: create_allowed_def\<close>)
  have look: "valid (ksys q F w) (bnd (attempt (metadata_unchecked fat path)) (\<lambda>meta. case meta of
      Inl _ \<Rightarrow> err NotFound | Inr _ \<Rightarrow> check_parent_access fat (creds_of w) path)) ?Q (\<lambda>_. ksys q F w)"
    if "path \<noteq> ''/''" "can_write_files (creds_of w)"
    by (rule metadata_attempt [OF assms(1)]) (use par [OF that] in \<open>auto intro!: valid_err\<close>)
  show ?thesis unfolding check_delete_access_def assms(1)
    by (rule valid_if; (rule valid_gets_creds)?; (rule valid_if)?; (rule valid_if)?) (auto intro!: valid_err look)
qed

lemma check_safe_ksys:
  assumes "fat32_path path = None" "normalize_path path = path"
  shows "valid (ksys q F w) (check_safe_write_access fat path)
    (\<lambda>_ k. ksys q F w k \<and> create_allowed (creds_of w) q F path \<and>
       (case live_at q F path of Inr (i, f) \<Rightarrow> fkind f = KIND_FILE \<and> writable (creds_of w) f | Inl _ \<Rightarrow> True)) (\<lambda>_. ksys q F w)"
  unfolding check_safe_write_access_def
proof (rule metadata_attempt [OF assms(1)])
  let ?Q = "\<lambda>_ k. ksys q F w k \<and> create_allowed (creds_of w) q F path \<and>
       (case live_at q F path of Inr (i, f) \<Rightarrow> fkind f = KIND_FILE \<and> writable (creds_of w) f | Inl _ \<Rightarrow> True)"
  fix i f assume l: "live_at q F path = Inr (i, f)"
  show "valid (ksys q F w) (case Inr (vmeta f) of Inr _ \<Rightarrow> bnd (check_write_access fat path) (\<lambda>_. check_create_access fat path)
      | Inl _ \<Rightarrow> check_create_access fat path) ?Q (\<lambda>_. ksys q F w)"
    unfolding sum.case
  proof (rule valid_bnd)
    show "valid (ksys q F w) (check_write_access fat path) (\<lambda>_ k. ksys q F w k \<and> fkind f = KIND_FILE \<and> writable (creds_of w) f) (\<lambda>_. ksys q F w)"
      by (rule valid_weaken [OF check_write_ksys [OF assms(1)]]) (use l in \<open>auto simp: file_at_Inr live_at_Inr\<close>)
    show "valid (\<lambda>k. ksys q F w k \<and> fkind f = KIND_FILE \<and> writable (creds_of w) f) (check_create_access fat path) ?Q (\<lambda>_. ksys q F w)" for x
      by (rule valid_assume, rule valid_weaken [OF check_create_ksys [OF assms]]) (use l in auto)
  qed
next
  let ?Q = "\<lambda>_ k. ksys q F w k \<and> create_allowed (creds_of w) q F path \<and>
       (case live_at q F path of Inr (i, f) \<Rightarrow> fkind f = KIND_FILE \<and> writable (creds_of w) f | Inl _ \<Rightarrow> True)"
  fix e assume l: "live_at q F path = Inl e"
  show "valid (ksys q F w) (case Inl () of Inr _ \<Rightarrow> bnd (check_write_access fat path) (\<lambda>_. check_create_access fat path)
      | Inl _ \<Rightarrow> check_create_access fat path) ?Q (\<lambda>_. ksys q F w)"
    unfolding sum.case by (rule valid_weaken [OF check_create_ksys [OF assms]]) (use l in auto)
qed


section \<open>Operations\<close>

lemma map_err_unit [simp]: "map_err (\<lambda>_. ()) m = (m :: ('s, unit, 'a) sm)"
  by (rule ext) (simp add: map_err_def split: prod.splits sum.splits)

lemma on_fs_ksys:
  assumes "valid (fsys q F) m (\<lambda>x s. \<exists>G. R x G \<and> fsys q G s) (\<lambda>e s. fsys q F s \<and> E e)"
  shows "valid (ksys q F w) (on_fs m) (\<lambda>x k. \<exists>G. R x G \<and> ksys q G w k) (\<lambda>e k. ksys q F w k \<and> E e)"
  by (rule valid_weaken [OF on_fs_valid [OF assms]]) (auto simp: ksys_def)

lemma read_ksys:
  assumes "fat32_path path = None"
  shows "valid (ksys q F w) (read_file_unchecked fat path)
    (\<lambda>x k. ksys q F w k \<and> (\<exists>i f. file_at q F path = Inr (i, f) \<and> x = fdata f)) (\<lambda>_ k. ksys q F w k \<and> (\<exists>e. file_at q F path = Inl e))"
  unfolding read_file_unchecked_def assms option.case
  by (rule valid_weaken [OF on_fs_valid [OF read_file_fsys]]) (cases "file_at q F path"; auto simp: ksys_def)+

lemma write_ksys:
  assumes "fat32_path path = None"
  shows "valid (ksys q F w) (write_file_unchecked fat path data)
    (\<lambda>_ k. \<exists>i f. file_at q F path = Inr (i, f) \<and> ksys q (F(i \<mapsto> f\<lparr>fdata := data\<rparr>)) w k)
    (\<lambda>e k. ksys q F w k \<and> (file_at q F path = Inl e \<or> e = NoSpace))"
  unfolding write_file_unchecked_def assms option.case
  by (rule valid_weaken [OF on_fs_valid [OF write_file_fsys]]) (auto simp: ksys_def)

lemma safe_write_ksys:
  assumes "fat32_path path = None" and "split_parent_and_name path = Inr (pp, name)" and "\<not> names_equal name TMP_NAME"
  shows "valid (ksys q F w) (safe_write_file_for fat path data u g m)
    (\<lambda>_ k. \<exists>G. staged q G path data u g \<and> ksys q G w k) (\<lambda>_ k. \<exists>G. ksys q G w k)"
  unfolding safe_write_file_for_def assms(1) option.case
  by (rule valid_weaken [OF on_fs_valid [OF safe_write_spec [OF assms(2,3)]]]) (auto simp: ksys_def)

definition deleted :: "superblock \<Rightarrow> (u32 \<Rightarrow> fs_file option) \<Rightarrow> string \<Rightarrow> (u32 \<Rightarrow> fs_file option) \<Rightarrow> bool" where
  "deleted q F path G \<longleftrightarrow> (\<exists>d es pos. delete_check q F path = Inr (d, es, pos) \<and> G = delete_at F d es pos)"

lemma delete_ksys:
  assumes "fat32_path path = None"
  shows "valid (ksys q F w) (delete_unchecked fat path) (\<lambda>_ k. \<exists>G. deleted q F path G \<and> ksys q G w k)
    (\<lambda>e k. ksys q F w k \<and> (delete_check q F path = Inl e \<or> e = NoSpace))"
  unfolding delete_unchecked_def assms option.case
  by (rule valid_weaken [OF on_fs_valid [OF delete_file_fsys]]) (auto simp: ksys_def deleted_def)

section \<open>Properties\<close>

text \<open>C12: \<open>vfs_read_file\<close> hands out a file exactly when the path, made canonical, leads to a file and the task may read it:
  it holds the read capability and the permission bits of its class allow reading. It changes nothing.\<close>

theorem vfs_read_file_checked:
  assumes "fat32_path (normalize_path path) = None"
  shows "valid (ksys q F w) (vfs_read_file fat path)
    (\<lambda>x k. ksys q F w k \<and> (\<exists>i f. file_at q F (normalize_path path) = Inr (i, f) \<and> readable (creds_of w) f \<and> x = fdata f))
    (\<lambda>_ k. ksys q F w k \<and> \<not> (\<exists>i f. file_at q F (normalize_path path) = Inr (i, f) \<and> readable (creds_of w) f))"
proof -
  let ?p = "normalize_path path"
  let ?ok = "\<exists>i f. file_at q F ?p = Inr (i, f) \<and> readable (creds_of w) f"
  let ?Q = "\<lambda>x k. ksys q F w k \<and> (\<exists>i f. file_at q F ?p = Inr (i, f) \<and> readable (creds_of w) f \<and> x = fdata f)"
  let ?E = "\<lambda>_ k. ksys q F w k \<and> \<not> ?ok"
  let ?g = "\<lambda>meta. if \<not> fm_is_file meta \<or> \<not> meta_readable (creds_of w) meta then err () else read_file_unchecked fat ?p"
  have "valid (ksys q F w) (bnd (map_err (\<lambda>_. ()) (metadata_unchecked fat ?p)) ?g) ?Q ?E"
  proof (rule metadata_then [OF assms])
    fix i f assume l: "live_at q F ?p = Inr (i, f)"
    then have fa: "file_at q F ?p = (if fkind f = KIND_FILE then Inr (i, f) else Inl InvalidPath)" by (simp add: file_at_def)
    show "valid (ksys q F w) (?g (vmeta f)) ?Q ?E"
      by (rule valid_if; (rule valid_err | rule valid_weaken [OF read_ksys [OF assms]])) (use fa in auto)
  next
    fix k e assume "live_at q F ?p = Inl e" "ksys q F w k"
    then show "ksys q F w k \<and> \<not> ?ok" by (auto simp: file_at_def)
  qed
  then show ?thesis unfolding vfs_read_file_def Let_def
    by (intro valid_gets_creds) (simp add: map_err_unit)
qed



text \<open>The calls that are meant to change files.\<close>

definition vfs_mutations :: "fat_driver \<Rightarrow> string \<Rightarrow> string \<Rightarrow> string \<Rightarrow> bytes \<Rightarrow> (kernel, fs_error, unit) sm list" where
  "vfs_mutations fat path dst name data =
     [vfs_create_file fat path, vfs_create_dir fat path, vfs_write_file fat path data, vfs_safe_write_file fat path data,
      vfs_delete fat path, vfs_rename fat path name, vfs_copy_file fat path dst, vfs_rename_path fat path dst]"


lemma no_write_deny:
  assumes "\<not> can_write_files (creds_of w)"
  shows "valid (ksys q F w) (bnd (bnd (gets current_credentials) (\<lambda>creds. if \<not> can_write_files creds then err PermissionDenied else m creds)) f)
    (\<lambda>_ _. False) (\<lambda>_. ksys q F w)"
  unfolding bnd_assoc by (rule valid_gets_creds) (use assms in \<open>simp add: valid_err\<close>)

lemma no_write_create:
  assumes "\<not> can_write_files (creds_of w)"
  shows "valid (ksys q F w) (bnd (check_create_access fat path) f) (\<lambda>_ _. False) (\<lambda>_. ksys q F w)"
  unfolding check_create_access_def by (cases "path = ''/''") (simp_all add: valid_err no_write_deny [OF assms])

lemma no_write_write:
  assumes "\<not> can_write_files (creds_of w)"
  shows "valid (ksys q F w) (bnd (check_write_access fat path) f) (\<lambda>_ _. False) (\<lambda>_. ksys q F w)"
  unfolding check_write_access_def by (rule no_write_deny [OF assms])

lemma no_write_remove:
  assumes "\<not> can_write_files (creds_of w)"
  shows "valid (ksys q F w) (bnd (check_delete_access fat path) f) (\<lambda>_ _. False) (\<lambda>_. ksys q F w)"
  unfolding check_delete_access_def by (cases "path = ''/''") (simp_all add: valid_err no_write_deny [OF assms])

lemma no_write_safe:
  assumes "fat32_path path = None" and "\<not> can_write_files (creds_of w)"
  shows "valid (ksys q F w) (bnd (check_safe_write_access fat path) f) (\<lambda>_ _. False) (\<lambda>_. ksys q F w)"
  unfolding check_safe_write_access_def bnd_assoc
  by (rule metadata_attempt [OF assms(1)]) (simp_all add: bnd_assoc no_write_create [OF assms(2)] no_write_write [OF assms(2)])

lemma no_write_copy:
  assumes "fat32_path (normalize_path src) = None" "fat32_path (normalize_path dst) = None" and "\<not> can_write_files (creds_of w)"
  shows "valid (ksys q F w) (vfs_copy_file fat src dst) (\<lambda>_ _. False) (\<lambda>_. ksys q F w)"
  unfolding vfs_copy_file_def Let_def
  by (rule valid_gets_creds, rule metadata_then [OF assms(1)], rule valid_if)
    (auto intro!: valid_err no_write_create assms(3))

lemma no_write_delete:
  assumes "fat32_path (normalize_path path) = None" and "\<not> can_write_files (creds_of w)"
  shows "valid (ksys q F w) (vfs_delete fat path) (\<lambda>_ _. False) (\<lambda>_. ksys q F w)"
    "valid (ksys q F w) (vfs_rename fat path n) (\<lambda>_ _. False) (\<lambda>_. ksys q F w)"
  unfolding vfs_delete_def vfs_rename_def Let_def by (rule no_write_remove [OF assms(2)])+

lemma no_write_rename_path:
  assumes "fat32_path (normalize_path src) = None" "fat32_path (normalize_path dst) = None" and "\<not> can_write_files (creds_of w)"
  shows "valid (ksys q F w) (vfs_rename_path fat src dst) (\<lambda>_ _. False) (\<lambda>_. ksys q F w)"
proof -
  let ?s = "normalize_path src" and ?d = "normalize_path dst"
  have i: "normalize_path ?s = ?s" "normalize_path ?d = ?d" by (rule normalize_idem)+
  have p: "fat32_path (normalize_path ?s) = None" "fat32_path (normalize_path ?d) = None" using assms i by simp_all
  have lift: "valid (ksys q F w) (bnd (lift_res r) f) (\<lambda>_ _. False) (\<lambda>_. ksys q F w)"
    if "\<And>x. valid (ksys q F w) (f x) (\<lambda>_ _. False) (\<lambda>_. ksys q F w)" for r :: "fs_error + 'z" and f :: "'z \<Rightarrow> (kernel, fs_error, unit) sm"
    using that by (cases r) (simp_all add: valid_def bnd_def lift_res_def)
  have meta: "valid (ksys q F w) (ok_or NotFound (vfs_metadata fat ?s)) (\<lambda>_. ksys q F w) (\<lambda>_. ksys q F w)"
  proof (rule valid_map_err)
    have "valid (ksys q F w) (bnd (map_err (\<lambda>_. ()) (metadata_unchecked fat (normalize_path ?s)))
        (\<lambda>meta. if \<not> meta_readable (creds_of w) meta then err () else ret meta)) (\<lambda>_. ksys q F w) (\<lambda>_. ksys q F w)"
      by (rule metadata_then [OF p(1)]) (auto intro!: valid_if valid_err valid_ret)
    then show "valid (ksys q F w) (vfs_metadata fat ?s) (\<lambda>_. ksys q F w) (\<lambda>_. ksys q F w)"
      unfolding vfs_metadata_def Let_def by (intro valid_gets_creds) simp
  qed
  show ?thesis unfolding vfs_rename_path_def Let_def
    by (rule valid_if, rule valid_err, assumption, intro lift, rule valid_if, rule no_write_delete(2) [OF p(1) assms(3)],
        rule valid_bnd [OF meta], rule valid_if, rule valid_err, assumption,
        rule valid_bnd [OF no_write_copy [OF p assms(3)]]) (simp add: valid_def)
qed



section \<open>A kernel to start from\<close>

text \<open>The FAT driver on a disk without a FAT volume: loading the parameter block fails.\<close>

definition fat_absent :: fat_driver where
  "fat_absent = \<lparr>fat_list_dir = \<lambda>_. err (), fat_read_file = \<lambda>_. err (), fat_create_file = \<lambda>_. err Io, fat_create_dir = \<lambda>_. err Io,
     fat_write_file = \<lambda>_ _. err Io, fat_safe_write_file = \<lambda>_ _. err Io, fat_delete_file = \<lambda>_. err Io, fat_rename = \<lambda>_ _. err Io,
     fat_copy_file = \<lambda>_ _. err NotFound\<rparr>"

definition fresh_kernel :: kernel where
  "fresh_kernel = \<lparr>fs = fresh_fs, sec = security_empty, task_credentials = None, bus = bus_new\<rparr>"

abbreviation fresh_view :: "security_state \<times> credentials option" where
  "fresh_view \<equiv> (security_empty, None)"

lemma fresh_ksys: "ksys superblock_new [0 \<mapsto> root_dir] fresh_view fresh_kernel"
  using fresh_fsys by (simp add: ksys_def kview_def fresh_kernel_def)

lemma fresh_path: "fat32_path (normalize_path ''/A/../B'') = None"
  by code_simp

theorem vfs_read_file_checked_witness:
  "ksys superblock_new [0 \<mapsto> root_dir] fresh_view fresh_kernel \<and>
   valid (ksys superblock_new [0 \<mapsto> root_dir] fresh_view) (vfs_read_file fat_absent ''/A/../B'')
    (\<lambda>x k. ksys superblock_new [0 \<mapsto> root_dir] fresh_view k \<and> (\<exists>i f. file_at superblock_new [0 \<mapsto> root_dir] (normalize_path ''/A/../B'') =
       Inr (i, f) \<and> readable (creds_of fresh_view) f \<and> x = fdata f))
    (\<lambda>_ k. ksys superblock_new [0 \<mapsto> root_dir] fresh_view k \<and> \<not> (\<exists>i f. file_at superblock_new [0 \<mapsto> root_dir] (normalize_path ''/A/../B'') =
       Inr (i, f) \<and> readable (creds_of fresh_view) f))"
  by (rule conjI [OF fresh_ksys vfs_read_file_checked [OF fresh_path]])






text \<open>The mount table and the dispatch disagree: \<open>resolve_mount\<close> compares prefixes without regard to component boundaries.\<close>

lemma resolve_mount_mismatch: "mount_fs_type (resolve_mount ''/FATHER'') = ''fat32'' \<and> fat32_path (normalize_path ''/FATHER'') = None"
  by code_simp

end
