(* ===== verification/CoolFS_Frame.thy ===== *)
theory CoolFS_Frame
  imports CoolFS_Api
begin

text \<open>
  What the CoolFS functions leave alone: a file keeps its path and its content under every call that is not about that
  path. Replacing a file with \<open>safe_write_file\<close>, which goes through a temporary file, is the call this is needed for.
\<close>

section \<open>A file at a path\<close>

definition has_file :: "superblock \<Rightarrow> string \<Rightarrow> fs_file \<Rightarrow> fs_state \<Rightarrow> bool" where
  "has_file q p f s \<longleftrightarrow> (\<exists>F. fsys q F s \<and> (p, f) \<in> file_paths q F)"

definition elsewhere :: "string \<Rightarrow> string \<Rightarrow> bool" where
  "elsewhere p path \<longleftrightarrow> \<not> list_all2 names_equal (path_components p) (path_components path)"

lemma fsys_unique: "fsys q F s \<Longrightarrow> fsys q' G s \<Longrightarrow> F = G"
  by (auto simp: fsys_def coolfs_def img_def holds_def)

lemma frameI:
  assumes "\<And>F i. file_at q F p = Inr (i, f) \<Longrightarrow> tree_inv q F \<Longrightarrow>
    valid (fsys q F) m (\<lambda>_ s. \<exists>G. fsys q G s \<and> file_at q G p = Inr (i, f)) (\<lambda>_ s. \<exists>G. fsys q G s \<and> file_at q G p = Inr (i, f))"
  shows "valid (has_file q p f) m (\<lambda>_. has_file q p f) (\<lambda>_. has_file q p f)"
  unfolding has_file_def
proof (rule valid_ex)
  fix F
  show "valid (\<lambda>s. fsys q F s \<and> (p, f) \<in> file_paths q F) m (\<lambda>_ s. \<exists>F. fsys q F s \<and> (p, f) \<in> file_paths q F)
    (\<lambda>_ s. \<exists>F. fsys q F s \<and> (p, f) \<in> file_paths q F)"
  proof (rule valid_assume, rule valid_fsys)
    assume "(p, f) \<in> file_paths q F" and tr: "tree_inv q F"
    then obtain i where "file_at q F p = Inr (i, f)" by (auto simp: file_paths_def)
    from assms [OF this tr] show "valid (fsys q F) m (\<lambda>_ s. \<exists>F. fsys q F s \<and> (p, f) \<in> file_paths q F)
      (\<lambda>_ s. \<exists>F. fsys q F s \<and> (p, f) \<in> file_paths q F)"
      by (rule valid_weaken) (auto simp: file_paths_def)
  qed
qed

lemma elsewhere_inode:
  assumes "tree_inv q F" and "elsewhere p path" and "resolve q F p = Inr i"
  shows "resolve q F path \<noteq> Inr i"
  using walk_unique [OF assms(1) resolve_Inr_walk [OF assms(3)] resolve_Inr_walk [of q F path i]] assms(2)
  by (auto simp: elsewhere_def)

section \<open>Calls on other paths\<close>

lemma create_keeps:
  assumes "k = KIND_FILE \<or> k = KIND_DIR"
  shows "valid (has_file q p f) (create_node path k u g m) (\<lambda>_. has_file q p f) (\<lambda>_. has_file q p f)"
proof (rule frameI, rule valid_weaken [OF create_node_fsys [OF assms]])
  fix F i x s
  assume f: "file_at q F p = Inr (i, f)" and tr: "tree_inv q F"
    and "\<exists>d es name idx. create_check q F path = Inr (d, es, name) \<and> F idx = None \<and> idx \<noteq> 0 \<and>
       fsys q (create_at F d es name idx (empty_file k u g m)) s \<and> fs_dirty s"
  then obtain d es name idx where c: "create_check q F path = Inr (d, es, name)" "F idx = None" "idx \<noteq> 0"
    and s: "fsys q (create_at F d es name idx (empty_file k u g m)) s" by blast
  have "i \<noteq> d" using c(1) f parent_live by (fastforce simp: create_check_Inr file_at_Inr)
  then have "live_at q (create_at F d es name idx (empty_file k u g m)) p = Inr (i, f)"
    using assms f by (intro create_paths(2) [OF tr c]) (auto simp: live_at_Inr file_at_Inr)
  then show "\<exists>G. fsys q G s \<and> file_at q G p = Inr (i, f)" using s f by (auto simp: live_at_Inr file_at_Inr)
qed auto

lemma put_other:
  assumes "tree_inv q F" and "file_at q F p = Inr (i, f)" and "elsewhere p path" and "live_at q F path = Inr (j, g)"
    and "fkind g' = fkind g" and "fkind g = KIND_DIR \<Longrightarrow> fdata g' = fdata g"
  shows "file_at q (F(j \<mapsto> g')) p = Inr (i, f)"
proof -
  have "i \<noteq> j" using elsewhere_inode [OF assms(1,3)] assms(2,4) by (auto simp: file_at_Inr live_at_Inr)
  moreover have "entries_of q (F(j \<mapsto> g')) a = entries_of q F a" for a
    by (rule entries_of_put [of F j g]) (use assms in \<open>auto simp: live_at_Inr\<close>)
  then have "resolve q (F(j \<mapsto> g')) p = resolve q F p" by (rule walk_cong(2))
  ultimately show ?thesis using assms(2) by (simp add: file_at_Inr)
qed

lemma write_keeps:
  assumes "elsewhere p path"
  shows "valid (has_file q p f) (write_file path data) (\<lambda>_. has_file q p f) (\<lambda>_. has_file q p f)"
proof (rule frameI, rule valid_weaken [OF write_file_fsys])
  fix F i x s
  assume f: "file_at q F p = Inr (i, f)" and tr: "tree_inv q F"
    and "\<exists>j g. file_at q F path = Inr (j, g) \<and> fsys q (F(j \<mapsto> g\<lparr>fdata := data\<rparr>)) s \<and> fs_dirty s"
  then obtain j g where g: "file_at q F path = Inr (j, g)" and s: "fsys q (F(j \<mapsto> g\<lparr>fdata := data\<rparr>)) s" by blast
  have "file_at q (F(j \<mapsto> g\<lparr>fdata := data\<rparr>)) p = Inr (i, f)"
    by (rule put_other [OF tr f assms, of j g]) (use g in \<open>auto simp: file_at_Inr live_at_Inr\<close>)
  then show "\<exists>G. fsys q G s \<and> file_at q G p = Inr (i, f)" using s by blast
qed auto

lemma delete_keeps:
  assumes "elsewhere p path"
  shows "valid (has_file q p f) (delete_file path) (\<lambda>_. has_file q p f) (\<lambda>_. has_file q p f)"
proof (rule frameI, rule valid_weaken [OF delete_file_fsys])
  fix F i x s
  assume f: "file_at q F p = Inr (i, f)" and tr: "tree_inv q F"
    and "\<exists>d es pos. delete_check q F path = Inr (d, es, pos) \<and> fsys q (delete_at F d es pos) s \<and> fs_dirty s"
  then obtain d es pos where c: "delete_check q F path = Inr (d, es, pos)" and s: "fsys q (delete_at F d es pos) s" by blast
  note dp = delete_paths [OF tr c]
  have "i \<noteq> de_inode (es ! pos)" using elsewhere_inode [OF tr assms] dp(1) f by (auto simp: file_at_Inr)
  moreover have "i \<noteq> d"
  proof -
    obtain name where "parent_of q F path = Inr (d, es, name)" using delete_checkD [OF c] by metis
    then show ?thesis using parent_live f by (fastforce simp: file_at_Inr)
  qed
  ultimately have "live_at q (delete_at F d es pos) p = Inr (i, f)" using f by (intro dp(4)) (auto simp: live_at_Inr file_at_Inr)
  then show "\<exists>G. fsys q G s \<and> file_at q G p = Inr (i, f)" using s f by (auto simp: live_at_Inr file_at_Inr)
qed auto

text \<open>Renaming an entry keeps every walk that does not come across it.\<close>

lemma rename_lookup:
  assumes tr: "tree_inv q F" and d: "entries_of q F d = Inr es" and pos: "pos < length es"
    and n: "validate_name n = Inr ()" "\<not> list_ex (\<lambda>e. names_equal (de_name e) n) es"
    and c: "dir_lookup q F a c = Inr i" "i \<noteq> de_inode (es ! pos)"
  shows "dir_lookup q (rename_at F d es pos n) a c = Inr i"
proof (cases "a = d")
  case True
  let ?es = "es[pos := (es ! pos)\<lparr>de_name := n\<rparr>]"
  obtain e where e: "find_entry es c = Some e" "de_inode e = i" using c(1) True d by (auto simp: dir_lookup_Inr)
  obtain k where k: "k < length es" "e = es ! k" "names_equal (de_name e) c" "\<forall>j < k. \<not> names_equal (de_name (es ! j)) c"
    using e(1) by (auto simp: find_entry_def find_Some_iff)
  have kp: "k \<noteq> pos" using k e(2) c(2) by auto
  have "\<not> names_equal n c"
    using n(2) k by (auto simp: list_ex_iff names_equal_def eq_ignore_ascii_case_def)
  then have "find_entry ?es c = Some e" unfolding find_entry_def find_Some_iff
    using k kp pos by (intro exI [of _ k]) (auto simp: nth_list_update split: if_splits)
  then show ?thesis using rename_entries [OF tr d pos n(1), of d] e(2) True by (simp add: dir_lookup_def)
next
  case False
  then show ?thesis using rename_entries [OF tr d pos n(1), of a] c(1) by (simp add: dir_lookup_def)
qed

lemma rename_walk:
  assumes tr: "tree_inv q F" and d: "entries_of q F d = Inr es" and pos: "pos < length es"
    and n: "validate_name n = Inr ()" "\<not> list_ex (\<lambda>e. names_equal (de_name e) n) es"
  shows "walk q F cs r = Inr i \<Longrightarrow> (\<And>ps rest. cs = ps @ rest \<Longrightarrow> ps \<noteq> [] \<Longrightarrow> walk q F ps r \<noteq> Inr (de_inode (es ! pos))) \<Longrightarrow>
    walk q (rename_at F d es pos n) cs r = Inr i"
proof (induction cs arbitrary: i rule: rev_induct)
  case (snoc c cs)
  obtain a where a: "walk q F cs r = Inr a" "dir_lookup q F a c = Inr i" using snoc.prems(1) by (auto simp: walk_snoc bind_res_Inr)
  have "i \<noteq> de_inode (es ! pos)" using snoc.prems(2) [of "cs @ [c]" "[]"] snoc.prems(1) by auto
  then have "dir_lookup q (rename_at F d es pos n) a c = Inr i" by (rule rename_lookup [OF tr d pos n a(2)])
  moreover have "walk q (rename_at F d es pos n) cs r = Inr a" using snoc.prems(2) by (intro snoc.IH [OF a(1)]) auto
  ultimately show ?case by (simp add: walk_snoc)
qed simp


lemma file_no_walk: "F a = Some f \<Longrightarrow> fkind f = KIND_FILE \<Longrightarrow> walk q F (c # cs) a \<noteq> Inr i"
  by (simp add: dir_lookup_def entries_of_def)

lemma rename_keeps:
  assumes n: "validate_name n = Inr ()" and ne: "\<not> same_name path n" and el: "elsewhere p path"
  shows "valid (\<lambda>s. has_file q p f s \<and> (\<exists>F t g. fsys q F s \<and> file_at q F path = Inr (t, g))) (rename path n)
    (\<lambda>_. has_file q p f) (\<lambda>_. has_file q p f)"
proof (rule validI)
  fix s x s' assume s: "has_file q p f s \<and> (\<exists>F t g. fsys q F s \<and> file_at q F path = Inr (t, g))" and r: "rename path n s = (Inr x, s')"
  then obtain F t g where F: "fsys q F s" "(p, f) \<in> file_paths q F" "file_at q F path = Inr (t, g)"
    using fsys_unique unfolding has_file_def by blast
  have tr: "tree_inv q F" by (rule fsys_inv [OF F(1)])
  obtain d es pos where c: "rename_check q F path n = Inr (d, es, pos)" and s': "fsys q (rename_at F d es pos n) s'"
    using validD [OF rename_fsys [OF n ne] F(1) r] by blast
  obtain name where p: "parent_of q F path = Inr (d, es, name)" and d: "entries_of q F d = Inr es" and pos: "pos < length es"
    and nex: "\<not> list_ex (\<lambda>e. names_equal (de_name e) n) es"
    using rename_checkD [OF c] by metis
  have "position (\<lambda>e. names_equal (de_name e) name) es = Some pos" using c p by (auto simp: rename_check_Inr)
  then have t: "resolve q F path = Inr (de_inode (es ! pos))" using parent_resolve(1) [OF p] by (simp add: find_entry_position)
  then have tg: "F (de_inode (es ! pos)) = Some g" "fkind g = KIND_FILE" using F(3) by (auto simp: file_at_Inr)
  obtain i where i: "file_at q F p = Inr (i, f)" using F(2) by (auto simp: file_paths_def)
  then have w: "walk q F (path_components p) (root_inode q) = Inr i" by (intro resolve_Inr_walk) (simp add: file_at_Inr)
  have "i \<noteq> de_inode (es ! pos)" using elsewhere_inode [OF tr el] t i by (auto simp: file_at_Inr)
  then have "walk q (rename_at F d es pos n) (path_components p) (root_inode q) = Inr i"
  proof (intro rename_walk [OF tr d pos n nex w] notI)
    fix ps rest assume ps: "path_components p = ps @ rest" "walk q F ps (root_inode q) = Inr (de_inode (es ! pos))"
    then have "walk q F rest (de_inode (es ! pos)) = Inr i" using w by (simp add: walk_append)
    then show False using file_no_walk [of F, OF tg] \<open>i \<noteq> de_inode (es ! pos)\<close> by (cases rest) auto
  qed
  moreover have "rename_at F d es pos n i = F i"
  proof -
    have "i \<noteq> d" using d i by (auto simp: entries_of_Inr file_at_Inr)
    then show ?thesis by (simp add: rename_at_def set_entries_def)
  qed
  moreover have "\<exists>u. p = CHR ''/'' # u" using i by (auto simp: file_at_Inr resolve_def bind_res_Inr trim_abs_path_def split: if_splits intro: list.exhaust [of p])
  ultimately have "file_at q (rename_at F d es pos n) p = Inr (i, f)" using i resolve_slash by (auto simp: file_at_Inr)
  then show "has_file q p f s'" using s' by (auto simp: has_file_def file_paths_def)
next
  fix s e s' assume s: "has_file q p f s \<and> (\<exists>F t g. fsys q F s \<and> file_at q F path = Inr (t, g))" and r: "rename path n s = (Inl e, s')"
  then obtain F where F: "fsys q F s" "(p, f) \<in> file_paths q F" unfolding has_file_def by blast
  from validD_err [OF rename_fsys [OF n ne] F(1) r] show "has_file q p f s'" using F(2) by (auto simp: has_file_def)
qed


section \<open>Replacing a file keeps all others\<close>

lemma attempt_keeps: "valid P m (\<lambda>_. P) (\<lambda>_. P) \<Longrightarrow> valid P (attempt m) (\<lambda>_. P) E"
  by (rule valid_attempt)

lemma delete_if_present_keeps:
  assumes "elsewhere p path"
  shows "valid (has_file q p f) (delete_if_present path) (\<lambda>_. has_file q p f) (\<lambda>_. has_file q p f)"
  unfolding delete_if_present_def
proof (rule valid_bnd [OF attempt_keeps [OF delete_keeps [OF assms]]])
  show "valid (has_file q p f) (case r of Inr _ \<Rightarrow> ret () | Inl e \<Rightarrow> if e = NotFound then ret () else err e)
    (\<lambda>_. has_file q p f) (\<lambda>_. has_file q p f)" for r
    by (cases r) (auto intro: valid_ret valid_err)
qed

lemma stage_keeps:
  assumes "elsewhere p tmp"
  shows "valid (has_file q p f) (bnd (create_file_with_metadata tmp u g m) (\<lambda>_. write_file tmp data))
    (\<lambda>_ s. has_file q p f s \<and> (\<exists>G. fsys q G s \<and> staged q G tmp data u g)) (\<lambda>_. has_file q p f)"
proof -
  have "valid (has_file q p f) (bnd (create_file_with_metadata tmp u g m) (\<lambda>_. write_file tmp data)) (\<lambda>_. has_file q p f) (\<lambda>_. has_file q p f)"
    unfolding create_file_with_metadata_def by (rule valid_bnd [OF create_keeps write_keeps [OF assms]]) simp
  moreover have "valid (has_file q p f) (bnd (create_file_with_metadata tmp u g m) (\<lambda>_. write_file tmp data))
    (\<lambda>_ s. \<exists>G. fsys q G s \<and> staged q G tmp data u g) (\<lambda>_ s. \<exists>G. fsys q G s)"
    by (rule valid_pre [where P' = "\<lambda>s. \<exists>F. fsys q F s"], rule valid_ex, rule stage_fsys) (auto simp: has_file_def)
  ultimately show ?thesis by (rule valid_weaken [OF valid_conj]) auto
qed

lemma delete_old_keeps:
  assumes s: "split_parent_and_name path = Inr (pp, name)" "split_parent_and_name tmp = Inr (pp', TMP_NAME)"
    and n: "\<not> names_equal name TMP_NAME" and el: "elsewhere p path"
  shows "valid (\<lambda>s. has_file q p f s \<and> (\<exists>G. fsys q G s \<and> staged q G tmp data u g)) (attempt (delete_file path))
    (\<lambda>_ s. has_file q p f s \<and> (\<exists>G. fsys q G s \<and> staged q G tmp data u g)) E"
proof (rule attempt_keeps)
  let ?W = "\<lambda>s. has_file q p f s \<and> (\<exists>G. fsys q G s \<and> staged q G tmp data u g)"
  have "valid (\<lambda>s. \<exists>G. fsys q G s \<and> staged q G tmp data u g) (delete_file path)
    (\<lambda>_ s. \<exists>G. fsys q G s \<and> staged q G tmp data u g) (\<lambda>_ s. \<exists>G. fsys q G s \<and> staged q G tmp data u g)"
    by (rule valid_ex, rule valid_assume, rule valid_weaken [OF delete_old [OF s n]]) auto
  then have "valid ?W (delete_file path) (\<lambda>_ s. \<exists>G. fsys q G s \<and> staged q G tmp data u g) (\<lambda>_ s. \<exists>G. fsys q G s \<and> staged q G tmp data u g)"
    by (rule valid_pre) blast
  moreover have "valid ?W (delete_file path) (\<lambda>_. has_file q p f) (\<lambda>_. has_file q p f)"
    by (rule valid_pre [OF delete_keeps [OF el]]) blast
  ultimately show "valid ?W (delete_file path) (\<lambda>_. ?W) (\<lambda>_. ?W)" by (rule valid_conj [rotated])
qed

lemma safe_write_keeps:
  assumes s: "split_parent_and_name path = Inr (pp, name)" and n: "\<not> names_equal name TMP_NAME"
    and el: "elsewhere p path" "elsewhere p (tmp_path pp)"
  shows "valid (has_file q p f) (safe_write_file_with_metadata path data u g m) (\<lambda>_. has_file q p f) (\<lambda>_. has_file q p f)"
proof -
  let ?tmp = "tmp_path pp" and ?J = "has_file q p f"
  let ?W = "\<lambda>s. ?J s \<and> (\<exists>G. fsys q G s \<and> staged q G ?tmp data u g)"
  let ?last = "\<lambda>r. case r of Inr (_::unit) \<Rightarrow> rename ?tmp name
     | Inl e \<Rightarrow> if e = NotFound then rename ?tmp name else bnd (discard (delete_file ?tmp)) (\<lambda>_. err e)"
  obtain pp' where t: "split_parent_and_name ?tmp = Inr (pp', TMP_NAME)"
    using tmp_path_split split_parent_Inr(3) [OF s] by blast
  have v: "validate_name name = Inr ()" by (rule split_parent_Inr(1) [OF s])
  have ne: "\<not> same_name ?tmp name" using n t by (simp add: same_name_def names_equal_def eq_ignore_ascii_case_sym)
  have ren: "valid ?W (rename ?tmp name) (\<lambda>_. ?J) (\<lambda>_. ?J)"
    by (rule valid_pre [OF rename_keeps [OF v ne el(2)]]) (auto simp: staged_def)
  have del: "valid ?W (bnd (discard (delete_file ?tmp)) (\<lambda>_. err e)) (\<lambda>_. ?J) (\<lambda>_. ?J)" for e
    by (rule valid_bnd [OF discard_valid [OF valid_pre [OF delete_keeps [OF el(2)]]]]) (auto intro: valid_err)
  have fin: "valid ?W (?last r) (\<lambda>_. ?J) (\<lambda>_. ?J)" for r using ren del by (cases r) auto
  have "valid ?W (bnd (attempt (delete_file path)) ?last) (\<lambda>_. ?J) (\<lambda>_. ?J)"
    by (rule valid_bnd [OF delete_old_keeps [OF s t n el(1)] fin])
  moreover have "valid ?J (bnd (create_file_with_metadata ?tmp u g m) (\<lambda>_. bnd (write_file ?tmp data) (\<lambda>_. k))) (\<lambda>_. ?J) (\<lambda>_. ?J)"
    if "valid ?W k (\<lambda>_. ?J) (\<lambda>_. ?J)" for k
    unfolding bnd_assoc [symmetric] by (rule valid_bnd [OF stage_keeps [OF el(2)] that])
  ultimately have "valid ?J (bnd (create_file_with_metadata ?tmp u g m) (\<lambda>_. bnd (write_file ?tmp data) (\<lambda>_. bnd (attempt (delete_file path)) ?last)))
    (\<lambda>_. ?J) (\<lambda>_. ?J)" by blast
  then show ?thesis
    unfolding safe_write_file_with_metadata_def s bnd_lift_Inr prod.case Let_def
    by (rule valid_bnd [OF delete_if_present_keeps [OF el(2)]])
qed

lemma chmod_keeps:
  assumes "elsewhere p path"
  shows "valid (has_file q p f) (chmod path mode) (\<lambda>_. has_file q p f) (\<lambda>_. has_file q p f)"
proof (rule frameI, rule valid_weaken [OF chmod_fsys])
  fix F i x s
  assume f: "file_at q F p = Inr (i, f)" and tr: "tree_inv q F"
    and "\<exists>j g. live_at q F path = Inr (j, g) \<and> fsys q (F(j \<mapsto> g\<lparr>fmode := stored_mode (fkind g) mode\<rparr>)) s \<and> fs_dirty s"
  then obtain j g where g: "live_at q F path = Inr (j, g)" and s: "fsys q (F(j \<mapsto> g\<lparr>fmode := stored_mode (fkind g) mode\<rparr>)) s" by blast
  have "file_at q (F(j \<mapsto> g\<lparr>fmode := stored_mode (fkind g) mode\<rparr>)) p = Inr (i, f)" by (rule put_other [OF tr f assms g]) simp_all
  then show "\<exists>G. fsys q G s \<and> file_at q G p = Inr (i, f)" using s by blast
qed auto

lemma chown_keeps:
  assumes "elsewhere p path"
  shows "valid (has_file q p f) (chown path u g) (\<lambda>_. has_file q p f) (\<lambda>_. has_file q p f)"
proof (rule frameI, rule valid_weaken [OF chown_fsys])
  fix F i x s
  assume f: "file_at q F p = Inr (i, f)" and tr: "tree_inv q F"
    and "\<exists>j h. live_at q F path = Inr (j, h) \<and> fsys q (F(j \<mapsto> h\<lparr>fuid := u, fgid := g\<rparr>)) s \<and> fs_dirty s"
  then obtain j h where h: "live_at q F path = Inr (j, h)" and s: "fsys q (F(j \<mapsto> h\<lparr>fuid := u, fgid := g\<rparr>)) s" by blast
  have "file_at q (F(j \<mapsto> h\<lparr>fuid := u, fgid := g\<rparr>)) p = Inr (i, f)" by (rule put_other [OF tr f assms h]) simp_all
  then show "\<exists>G. fsys q G s \<and> file_at q G p = Inr (i, f)" using s by blast
qed auto

lemma metadata_keeps: "valid (has_file q p f) (metadata path) (\<lambda>_. has_file q p f) (\<lambda>_. has_file q p f)"
  by (rule frameI, rule valid_weaken [OF metadata_fsys]) auto

section \<open>The dirty flag\<close>

text \<open>Only \<open>flush\<close> clears the flag that makes \<open>flush\<close> write; every successful change sets it.\<close>

definition keeps_dirty :: "(fs_state, 'e, 'a) sm \<Rightarrow> bool" where
  "keeps_dirty m \<longleftrightarrow> (\<forall>s. fs_dirty s \<longrightarrow> fs_dirty (snd (m s)))"

definition makes_dirty :: "(fs_state, 'e, 'a) sm \<Rightarrow> bool" where
  "makes_dirty m \<longleftrightarrow> (\<forall>s x t. m s = (Inr x, t) \<longrightarrow> fs_dirty t)"

named_theorems dirty_intros \<open>calls that keep or set the dirty flag\<close>

lemma keeps_dirty_bnd [dirty_intros]: "keeps_dirty m \<Longrightarrow> (\<And>x. keeps_dirty (f x)) \<Longrightarrow> keeps_dirty (bnd m f)"
  unfolding keeps_dirty_def bnd_def by (auto split: prod.splits sum.splits)

lemma keeps_dirty_simple [dirty_intros]:
  "keeps_dirty (ret x)" "keeps_dirty (err e)" "keeps_dirty (gets g)" "keeps_dirty (lift_res r)"
  "keeps_dirty (with_image_result f)" "keeps_dirty (with_image_option h)" "keeps_dirty (record_mutation k path)"
  by (auto simp: keeps_dirty_def ret_def err_def gets_def lift_res_def with_image_result_def with_image_option_def record_mutation_def upd_def
      Let_def split: option.splits prod.splits sum.splits)

lemma keeps_dirty_attempt [dirty_intros]: "keeps_dirty m \<Longrightarrow> keeps_dirty (attempt m)"
  by (auto simp: keeps_dirty_def attempt_def split: prod.splits)

lemma keeps_dirty_discard [dirty_intros]: "keeps_dirty m \<Longrightarrow> keeps_dirty (discard m)"
  unfolding discard_def by (intro dirty_intros)

lemma keeps_dirty_if [dirty_intros]: "keeps_dirty a \<Longrightarrow> keeps_dirty b \<Longrightarrow> keeps_dirty (if c then a else b)"
  by simp

lemma keeps_dirty_calls [dirty_intros]:
  "keeps_dirty (create_node path k u g m)" "keeps_dirty (write_file path data)" "keeps_dirty (delete_file path)"
  "keeps_dirty (rename path n)" "keeps_dirty (chmod path mode)" "keeps_dirty (chown path u g)" "keeps_dirty (metadata path)"
  unfolding create_node_def write_file_def delete_file_def rename_def chmod_def chown_def metadata_def
  by (intro dirty_intros)+

lemma makes_dirty_then:
  assumes "makes_dirty m" and "\<And>x. keeps_dirty (f x)"
  shows "makes_dirty (bnd m f)"
  unfolding makes_dirty_def
proof (intro allI impI)
  fix s x t assume "bnd m f s = (Inr x, t)"
  then obtain y u where y: "m s = (Inr y, u)" "f y u = (Inr x, t)" by (auto simp: bnd_Inr)
  then show "fs_dirty t" using assms(1) assms(2) [of y] unfolding makes_dirty_def keeps_dirty_def by (metis snd_conv)
qed

lemma makes_dirty_bnd: "(\<And>x. makes_dirty (f x)) \<Longrightarrow> makes_dirty (bnd m f)"
  unfolding makes_dirty_def bnd_def by (auto split: prod.splits sum.splits)

lemma makes_dirty_create: "makes_dirty (create_node path k u g m)"
  unfolding create_node_def by (rule makes_dirty_bnd) (auto simp: makes_dirty_def record_mutation_def upd_def Let_def)

lemma safe_write_dirty: "makes_dirty (safe_write_file_with_metadata path data u g m)"
proof -
  have "makes_dirty (safe_write_file_with_metadata path data u g m) \<longleftrightarrow>
    makes_dirty (bnd (lift_res (split_parent_and_name path)) (\<lambda>x. case x of (parent, name) \<Rightarrow>
     bnd (delete_if_present (tmp_path parent)) (\<lambda>_. bnd (create_node (tmp_path parent) KIND_FILE u g m) (\<lambda>_.
     bnd (write_file (tmp_path parent) data) (\<lambda>_. bnd (attempt (delete_file path)) (\<lambda>r. case r of Inr _ \<Rightarrow> rename (tmp_path parent) name
     | Inl e \<Rightarrow> if e = NotFound then rename (tmp_path parent) name else bnd (discard (delete_file (tmp_path parent))) (\<lambda>_. err e)))))))"
    by (simp only: safe_write_file_with_metadata_def create_file_with_metadata_def Let_def)
  moreover have "keeps_dirty (case r of Inr (_::unit) \<Rightarrow> rename tmp name
     | Inl e \<Rightarrow> if e = NotFound then rename tmp name else bnd (discard (delete_file tmp)) (\<lambda>_. err e))" for r tmp name
    by (cases r) (auto intro!: dirty_intros)
  ultimately show ?thesis
    by (auto intro!: makes_dirty_bnd makes_dirty_then [OF makes_dirty_create] dirty_intros split: prod.splits)
qed

section \<open>Properties\<close>



end
