(* ===== verification/Accounts.thy ===== *)
theory Accounts
  imports Vfs CoolFS_Frame
begin

text \<open>
  Sessions and accounts of \<open>src/src/security.rs\<close>: login with its lockout, the account operations of an administrator, the
  first-boot hand-over from the default administrator, and the user database on disk. Each operation first changes the
  list of users in memory and then saves it; an operation that fails to save reports so and keeps the change in memory.
  The time of an operation is the tick counter of the file system's change log, which stands still during a call.
\<close>

section \<open>State\<close>

definition USERS_PATH :: string where "USERS_PATH = ''/CONFIG/USERS.DB''"
definition FIRST_BOOT_PATH :: string where "FIRST_BOOT_PATH = ''/CONFIG/FIRSTBOOT.CFG''"
definition TIMER_HZ :: u64 where "TIMER_HZ = 288"

definition ticks_for_millis :: "u64 \<Rightarrow> u64" where
  "ticks_for_millis ms = (TIMER_HZ * ms + 999) div 1000"

definition now :: "kernel \<Rightarrow> u64" where
  "now k = ticks (log (fs k))"

definition upd_sec :: "(security_state \<Rightarrow> security_state) \<Rightarrow> (kernel, 'e, unit) sm" where
  "upd_sec f = upd (\<lambda>k. k\<lparr>sec := f (sec k)\<rparr>)"

definition emit :: "string \<Rightarrow> string \<Rightarrow> (kernel, 'e, unit) sm" where
  "emit what detail = upd (\<lambda>k. k\<lparr>bus := bus_emit (now k) ''security'' what detail (bus k)\<rparr>)"

text \<open>Every change of the list of users counts a revision.\<close>

definition set_users :: "user_record list \<Rightarrow> (kernel, 'e, unit) sm" where
  "set_users us = upd_sec (\<lambda>s. s\<lparr>users := us, revision := revision s + 1\<rparr>)"

datatype account_failure = Failed account_error | Hangs

section \<open>Queries\<close>

definition current_user :: "security_state \<Rightarrow> user_info" where
  "current_user s = (case find (\<lambda>user. u_uid user = session_uid s) (users s) of
     Some user \<Rightarrow> public_user user | None \<Rightarrow> public_user default_admin_user)"

definition users_list :: "security_state \<Rightarrow> user_info list" where
  "users_list s = map public_user (users s)"

definition first_run_required :: "security_state \<Rightarrow> bool" where
  "first_run_required s = list_ex is_default_admin_password (users s)"

definition enabled_admin_available :: "security_state \<Rightarrow> bool" where
  "enabled_admin_available s = list_ex (\<lambda>user. u_login_enabled user \<and> is_admin_record user) (users s)"

definition groups_for :: "string \<Rightarrow> security_state \<Rightarrow> group_record list option" where
  "groups_for name s = map_option (\<lambda>user. filter (\<lambda>group. g_gid group = u_gid user \<or> (u_role user = ''admin'' \<and> g_name group = ''wheel'')) (groups s))
     (find_user (users s) name)"

definition user_by_name :: "string \<Rightarrow> security_state \<Rightarrow> user_info option" where
  "user_by_name name s = map_option public_user (find_user (users s) name)"

definition user_by_uid :: "u32 \<Rightarrow> security_state \<Rightarrow> user_info option" where
  "user_by_uid uid s = map_option public_user (find (\<lambda>user. u_uid user = uid) (users s))"

definition kernel_credentials :: credentials where
  "kernel_credentials = \<lparr>cr_uid = ROOT_UID, cr_gid = ROOT_GID, cr_caps = CAP_ALL_USER\<rparr>"

definition suggested_user_name :: "string \<Rightarrow> security_state \<Rightarrow> string" where
  "suggested_user_name pre s =
     (let base = (if pre = '''' then ''user'' else pre) in
      case find (\<lambda>name. user_by_name name s = None) (map (\<lambda>idx. base @ push_u32 (word_of_nat idx)) [1..<1000]) of
        Some name \<Rightarrow> name | None \<Rightarrow> ''user'')"

definition require_admin :: "(kernel, auth_error, unit) sm" where
  "require_admin = bnd (gets current_credentials) (\<lambda>creds. if can_admin creds then ret () else err AuthPermissionDenied)"

definition require_admin_account :: "(kernel, account_error, unit) sm" where
  "require_admin_account = map_err (\<lambda>_. AccPermissionDenied) require_admin"

definition set_umask :: "u16 \<Rightarrow> (kernel, 'e, u16) sm" where
  "set_umask um = bnd (gets (umask \<circ> sec)) (\<lambda>old. bnd (upd_sec (\<lambda>s. s\<lparr>umask := um AND 511\<rparr>)) (\<lambda>_. ret old))"

section \<open>Login\<close>

definition login_locked :: "string \<Rightarrow> kernel \<Rightarrow> bool" where
  "login_locked name k =
     (case find (\<lambda>a. eq_ignore_ascii_case (la_name a) name) (login_attempts (sec k)) of
        Some a \<Rightarrow> la_locked_until_tick a > now k
      | None \<Rightarrow> False)"

definition count_failure :: "u64 \<Rightarrow> login_attempt \<Rightarrow> login_attempt" where
  "count_failure t a =
     (let a1 = (if la_locked_until_tick a \<le> t then a\<lparr>la_failures := saturating_add (la_failures a) 1\<rparr> else a) in
      if la_failures a1 \<ge> MAX_LOGIN_FAILURES
      then a1\<lparr>la_locked_until_tick := t + ticks_for_millis LOGIN_LOCKOUT_MS, la_failures := 0\<rparr>
      else a1)"

definition record_login_failure :: "u64 \<Rightarrow> string \<Rightarrow> login_attempt list \<Rightarrow> login_attempt list" where
  "record_login_failure t name attempts =
     (case position (\<lambda>a. eq_ignore_ascii_case (la_name a) name) attempts of
        None \<Rightarrow> attempts @ [\<lparr>la_name = name, la_failures = 1, la_locked_until_tick = 0\<rparr>]
      | Some idx \<Rightarrow> attempts[idx := count_failure t (attempts ! idx)])"

definition clear_login_failures :: "string \<Rightarrow> login_attempt list \<Rightarrow> login_attempt list" where
  "clear_login_failures name attempts = filter (\<lambda>a. \<not> eq_ignore_ascii_case (la_name a) name) attempts"

definition user_credentials :: "user_record \<Rightarrow> credentials" where
  "user_credentials user = \<lparr>cr_uid = u_uid user, cr_gid = u_gid user, cr_caps = caps_for_role (u_role user)\<rparr>"

definition set_session_from_user :: "user_record \<Rightarrow> (kernel, 'e, unit) sm" where
  "set_session_from_user user =
     (let creds = user_credentials user in
      upd (\<lambda>k. k\<lparr>sec := (sec k)\<lparr>session_uid := cr_uid creds, session_gid := cr_gid creds, session_caps := cr_caps creds\<rparr>,
        task_credentials := map_option (\<lambda>_. creds) (task_credentials k)\<rparr>))"

definition login :: "string \<Rightarrow> string \<Rightarrow> (kernel, auth_error, user_info) sm" where
  "login name password =
     bnd (gets (login_locked name)) (\<lambda>locked.
     if locked then err LoginThrottled else
     bnd (gets (users \<circ> sec)) (\<lambda>us.
     case find_user us name of
       None \<Rightarrow> err AuthNoSuchUser
     | Some user \<Rightarrow>
       if \<not> u_login_enabled user then err LoginDisabled
       else if u_pass_hash user \<noteq> password_hash (u_name user) password then
         bnd (gets now) (\<lambda>t.
         bnd (upd_sec (\<lambda>s. s\<lparr>login_attempts := record_login_failure t (u_name user) (login_attempts s)\<rparr>)) (\<lambda>_.
         err BadPassword))
       else
         bnd (upd_sec (\<lambda>s. s\<lparr>login_attempts := clear_login_failures (u_name user) (login_attempts s)\<rparr>)) (\<lambda>_.
         bnd (set_session_from_user user) (\<lambda>_.
         bnd (emit ''login'' (u_name user)) (\<lambda>_.
         ret (public_user user))))))"

definition logout :: "(kernel, 'e, user_info) sm" where
  "logout =
     bnd (gets (users \<circ> sec)) (\<lambda>us.
     let guest = (case find (\<lambda>user. u_uid user = GUEST_UID) us of Some user \<Rightarrow> user | None \<Rightarrow> default_guest_user) in
     bnd (set_session_from_user guest) (\<lambda>_.
     bnd (emit ''logout'' (u_name guest)) (\<lambda>_.
     ret (public_user guest))))"

definition set_session_for_test :: "string \<Rightarrow> (kernel, 'e, bool) sm" where
  "set_session_for_test name =
     bnd (gets (users \<circ> sec)) (\<lambda>us.
     case find_user us name of None \<Rightarrow> ret False | Some user \<Rightarrow> bnd (set_session_from_user user) (\<lambda>_. ret True))"

section \<open>The files of the security state\<close>

definition persist_users :: "fat_driver \<Rightarrow> (kernel, fs_error, unit) sm" where
  "persist_users fat =
     bnd (gets (users \<circ> sec)) (\<lambda>us.
     bnd (discard (vfs_kernel_create_dir fat ''/CONFIG'')) (\<lambda>_.
     vfs_kernel_safe_write_file fat USERS_PATH (as_bytes (users_text us))))"

definition load_users_from_disk :: "fat_driver \<Rightarrow> (kernel, 'e, user_record list option) sm" where
  "load_users_from_disk fat = bnd (attempt (vfs_kernel_read_file fat USERS_PATH)) (\<lambda>r.
     ret (load_users (case r of Inr bytes \<Rightarrow> Some bytes | Inl _ \<Rightarrow> None)))"

definition ensure_home_dir :: "fat_driver \<Rightarrow> user_info \<Rightarrow> (kernel, 'e, unit) sm" where
  "ensure_home_dir fat user =
     (if ui_uid user = ROOT_UID then ret () else
      bnd (discard (vfs_kernel_create_dir fat (ui_home user))) (\<lambda>_.
      bnd (discard (vfs_chown (ui_home user) (ui_uid user) (ui_gid user))) (\<lambda>_.
      discard (vfs_chmod fat (ui_home user) 448))))"

definition ensure_home_dirs :: "fat_driver \<Rightarrow> (kernel, 'e, unit) sm" where
  "ensure_home_dirs fat =
     bnd (gets (users_list \<circ> sec)) (\<lambda>us.
     bnd (discard (vfs_kernel_create_dir fat ''/Users'')) (\<lambda>_.
     bnd (discard (vfs_chown ''/Users'' ROOT_UID ROOT_GID)) (\<lambda>_.
     bnd (discard (vfs_chmod fat ''/Users'' DEFAULT_DIR_MODE)) (\<lambda>_.
     for_each us (ensure_home_dir fat)))))"

definition write_first_boot_state :: "fat_driver \<Rightarrow> first_boot_state \<Rightarrow> string \<Rightarrow> string \<Rightarrow> (kernel, fs_error, unit) sm" where
  "write_first_boot_state fat state user device =
     bnd (discard (vfs_kernel_create_dir fat ''/CONFIG'')) (\<lambda>_.
     vfs_kernel_safe_write_file fat FIRST_BOOT_PATH (as_bytes (first_boot_text state user device)))"

definition first_boot_file_state :: "fat_driver \<Rightarrow> (kernel, 'e, first_boot_state option) sm" where
  "first_boot_file_state fat = bnd (attempt (vfs_kernel_read_file fat FIRST_BOOT_PATH)) (\<lambda>r.
     ret (parse_first_boot (case r of Inr bytes \<Rightarrow> Some bytes | Inl _ \<Rightarrow> None)))"

definition first_boot_state_of :: "fat_driver \<Rightarrow> (kernel, 'e, first_boot_state) sm" where
  "first_boot_state_of fat =
     bnd (gets (first_run_required \<circ> sec)) (\<lambda>first_run.
     if \<not> first_run then ret Complete else
     bnd (first_boot_file_state fat) (\<lambda>r. ret (case r of Some st \<Rightarrow> st | None \<Rightarrow> Required)))"

definition mark_first_boot_complete :: "fat_driver \<Rightarrow> string \<Rightarrow> string \<Rightarrow> (kernel, fs_error, unit) sm" where
  "mark_first_boot_complete fat user device = write_first_boot_state fat Complete user device"

definition mark_first_boot_required :: "fat_driver \<Rightarrow> (kernel, fs_error, unit) sm" where
  "mark_first_boot_required fat = write_first_boot_state fat Required '''' ''''"

definition mark_first_boot_in_progress :: "fat_driver \<Rightarrow> (kernel, fs_error, unit) sm" where
  "mark_first_boot_in_progress fat =
     bnd (gets (first_run_required \<circ> sec)) (\<lambda>first_run.
     if \<not> first_run then mark_first_boot_complete fat '''' '''' else write_first_boot_state fat InProgress '''' '''')"

definition init_state :: "user_record list \<Rightarrow> security_state \<Rightarrow> security_state" where
  "init_state us s =
     (let session = default_session_user us in
      s\<lparr>users := us, groups := default_groups, login_attempts := [], session_uid := u_uid session, session_gid := u_gid session,
        session_caps := caps_for_role (u_role session), umask := 18, revision := revision s + 1\<rparr>)"

definition security_init :: "fat_driver \<Rightarrow> (kernel, 'e, unit) sm" where
  "security_init fat =
     bnd (load_users_from_disk fat) (\<lambda>r.
     let us = normalize_default_admin (case r of Some us \<Rightarrow> us | None \<Rightarrow> default_users) in
     bnd (upd_sec (init_state us)) (\<lambda>_.
     bnd (discard (persist_users fat)) (\<lambda>_.
     bnd (ensure_home_dirs fat) (\<lambda>_.
     emit ''init'' ''sessions, users, file modes, and package grants active''))))"


section \<open>Account operations\<close>

text \<open>
  The changes of the list of users, one per operation, with its checks: the new record and the new list, or the reason
  for refusing. \<open>Hangs\<close> is the search for a free user id that does not end.
\<close>

definition new_user :: "string \<Rightarrow> string \<Rightarrow> string \<Rightarrow> u32 \<Rightarrow> user_record" where
  "new_user name password role uid = \<lparr>u_name = name, u_role = role, u_uid = uid, u_gid = USER_GID, u_home = user_home name,
     u_pass_hash = password_hash name password, u_login_enabled = True\<rparr>"

definition retire_default_admin :: "user_record \<Rightarrow> user_record" where
  "retire_default_admin user = (if is_default_admin_password user
     then user\<lparr>u_login_enabled := False, u_pass_hash := password_hash (u_name user) ''disabled''\<rparr> else user)"

definition first_run_change :: "string \<Rightarrow> string \<Rightarrow> user_record list \<Rightarrow> account_failure + user_record \<times> user_record list" where
  "first_run_change name password us =
     (if \<not> list_ex is_default_admin_password us then Inl (Failed AlreadyConfigured)
      else if eq_ignore_ascii_case name ''root'' then
        (case find_user us name of
           None \<Rightarrow> Inl (Failed NoSuchUser)
         | Some user \<Rightarrow>
           let user' = user\<lparr>u_role := ''admin'', u_pass_hash := password_hash (u_name user) password, u_login_enabled := True\<rparr> in
           Inr (user', update_first (\<lambda>user. eq_ignore_ascii_case (u_name user) name) (\<lambda>_. user') us))
      else if list_ex (\<lambda>user. eq_ignore_ascii_case (u_name user) name) us then Inl (Failed DuplicateUser)
      else case next_available_uid us of
        None \<Rightarrow> Inl Hangs
      | Some uid \<Rightarrow>
        let user = new_user name password ''admin'' uid in
        Inr (user, map retire_default_admin us @ [user]))"

definition complete_first_run_admin :: "fat_driver \<Rightarrow> string \<Rightarrow> string \<Rightarrow> (kernel, account_failure, user_info) sm" where
  "complete_first_run_admin fat name0 password =
     bnd (map_err Failed (lift_res (clean_user_name name0))) (\<lambda>name.
     if eq_ignore_ascii_case name ''guest'' then err (Failed ProtectedUser) else
     bnd (map_err Failed (lift_res (validate_password_for_account password))) (\<lambda>_.
     bnd (gets (users \<circ> sec)) (\<lambda>us0.
     bnd (lift_res (first_run_change name password us0)) (\<lambda>(user, us).
     bnd (set_users us) (\<lambda>_.
     bnd (map_err (\<lambda>_. Failed AccIo) (persist_users fat)) (\<lambda>_.
     bnd (ensure_home_dirs fat) (\<lambda>_.
     bnd (discard (mark_first_boot_complete fat (u_name user) '''')) (\<lambda>_.
     bnd (set_session_from_user user) (\<lambda>_.
     bnd (emit ''first-run'' (u_name user)) (\<lambda>_.
     ret (public_user user)))))))))))"

definition create_change :: "string \<Rightarrow> string \<Rightarrow> string \<Rightarrow> user_record list \<Rightarrow> account_failure + user_record \<times> user_record list" where
  "create_change name password role us =
     (if list_ex (\<lambda>user. eq_ignore_ascii_case (u_name user) name) us then Inl (Failed DuplicateUser)
      else case next_available_uid us of
        None \<Rightarrow> Inl Hangs
      | Some uid \<Rightarrow> let user = new_user name password role uid in Inr (user, us @ [user]))"

definition create_user :: "fat_driver \<Rightarrow> string \<Rightarrow> string \<Rightarrow> string \<Rightarrow> (kernel, account_failure, user_info) sm" where
  "create_user fat name0 password role0 =
     bnd (map_err Failed require_admin_account) (\<lambda>_.
     bnd (map_err Failed (lift_res (clean_user_name name0))) (\<lambda>name.
     bnd (map_err Failed (lift_res (validate_password_for_account password))) (\<lambda>_.
     bnd (map_err Failed (lift_res (clean_role role0))) (\<lambda>role.
     bnd (gets (users \<circ> sec)) (\<lambda>us0.
     bnd (lift_res (create_change name password role us0)) (\<lambda>(user, us).
     bnd (set_users us) (\<lambda>_.
     bnd (map_err (\<lambda>_. Failed AccIo) (persist_users fat)) (\<lambda>_.
     bnd (ensure_home_dirs fat) (\<lambda>_.
     bnd (emit ''user-create'' (u_name user)) (\<lambda>_.
     ret (public_user user)))))))))))"

definition enable_change :: "string \<Rightarrow> bool \<Rightarrow> security_state \<Rightarrow> account_error + user_record \<times> user_record list" where
  "enable_change name enabled s =
     (case user_index (users s) name of
        None \<Rightarrow> Inl NoSuchUser
      | Some idx \<Rightarrow>
        if \<not> enabled \<and> u_uid (users s ! idx) = session_uid s then Inl ProtectedUser
        else if \<not> enabled \<and> is_admin_record (users s ! idx) \<and> enabled_admin_count (users s) \<le> 1 then Inl LastAdmin
        else let user = (users s ! idx)\<lparr>u_login_enabled := enabled\<rparr> in Inr (user, (users s)[idx := user]))"

definition set_user_enabled :: "fat_driver \<Rightarrow> string \<Rightarrow> bool \<Rightarrow> (kernel, account_error, user_info) sm" where
  "set_user_enabled fat name enabled =
     bnd require_admin_account (\<lambda>_.
     bnd (gets sec) (\<lambda>s.
     bnd (lift_res (enable_change name enabled s)) (\<lambda>(user, us).
     bnd (set_users us) (\<lambda>_.
     bnd (map_err (\<lambda>_. AccIo) (persist_users fat)) (\<lambda>_.
     bnd (emit (if enabled then ''user-enable'' else ''user-disable'') (u_name user)) (\<lambda>_.
     ret (public_user user)))))))"

definition role_change :: "string \<Rightarrow> string \<Rightarrow> security_state \<Rightarrow> account_error + user_record \<times> user_record list" where
  "role_change name role s =
     (case user_index (users s) name of
        None \<Rightarrow> Inl NoSuchUser
      | Some idx \<Rightarrow>
        if \<not> is_admin_role role \<and> is_admin_record (users s ! idx) \<and> enabled_admin_count (users s) \<le> 1 then Inl LastAdmin
        else let user = (users s ! idx)\<lparr>u_role := role\<rparr> in Inr (user, (users s)[idx := user]))"

definition set_user_role :: "fat_driver \<Rightarrow> string \<Rightarrow> string \<Rightarrow> (kernel, account_error, user_info) sm" where
  "set_user_role fat name role0 =
     bnd require_admin_account (\<lambda>_.
     bnd (lift_res (clean_role role0)) (\<lambda>role.
     bnd (gets sec) (\<lambda>s.
     bnd (lift_res (role_change name role s)) (\<lambda>(user, us).
     bnd (set_users us) (\<lambda>_.
     bnd (map_err (\<lambda>_. AccIo) (persist_users fat)) (\<lambda>_.
     bnd (if u_uid user = session_uid s then set_session_from_user user else ret ()) (\<lambda>_.
     bnd (emit ''user-role'' (u_name user)) (\<lambda>_.
     ret (public_user user)))))))))"

definition reset_change :: "string \<Rightarrow> string \<Rightarrow> user_record list \<Rightarrow> account_error + user_record \<times> user_record list" where
  "reset_change name password us =
     (case user_index us name of
        None \<Rightarrow> Inl NoSuchUser
      | Some idx \<Rightarrow> let user = (us ! idx)\<lparr>u_pass_hash := password_hash (u_name (us ! idx)) password\<rparr> in Inr (user, us[idx := user]))"

definition reset_user_password :: "fat_driver \<Rightarrow> string \<Rightarrow> string \<Rightarrow> (kernel, account_error, user_info) sm" where
  "reset_user_password fat name password =
     bnd require_admin_account (\<lambda>_.
     bnd (lift_res (validate_password_for_account password)) (\<lambda>_.
     bnd (gets (users \<circ> sec)) (\<lambda>us0.
     bnd (lift_res (reset_change name password us0)) (\<lambda>(user, us).
     bnd (set_users us) (\<lambda>_.
     bnd (upd_sec (\<lambda>s. s\<lparr>login_attempts := clear_login_failures (u_name user) (login_attempts s)\<rparr>)) (\<lambda>_.
     bnd (map_err (\<lambda>_. AccIo) (persist_users fat)) (\<lambda>_.
     bnd (emit ''user-password'' (u_name user)) (\<lambda>_.
     ret (public_user user)))))))))"

definition delete_change :: "string \<Rightarrow> security_state \<Rightarrow> account_error + user_record \<times> user_record list" where
  "delete_change name s =
     (case user_index (users s) name of
        None \<Rightarrow> Inl NoSuchUser
      | Some idx \<Rightarrow>
        let user = users s ! idx in
        if u_uid user = session_uid s \<or> eq_ignore_ascii_case (u_name user) ''root'' \<or> eq_ignore_ascii_case (u_name user) ''guest''
        then Inl ProtectedUser
        else if is_admin_record user \<and> enabled_admin_count (users s) \<le> 1 then Inl LastAdmin
        else Inr (user, remove_nth idx (users s)))"

definition delete_user :: "fat_driver \<Rightarrow> string \<Rightarrow> (kernel, account_error, user_info) sm" where
  "delete_user fat name =
     bnd require_admin_account (\<lambda>_.
     bnd (gets sec) (\<lambda>s.
     bnd (lift_res (delete_change name s)) (\<lambda>(user, us).
     bnd (set_users us) (\<lambda>_.
     bnd (map_err (\<lambda>_. AccIo) (persist_users fat)) (\<lambda>_.
     bnd (emit ''user-delete'' (u_name user)) (\<lambda>_.
     ret (public_user user)))))))"

definition password_change :: "string \<Rightarrow> string \<Rightarrow> security_state \<Rightarrow> auth_error + user_record list" where
  "password_change old_password new_password s =
     (case find (\<lambda>user. u_uid user = session_uid s) (users s) of
        None \<Rightarrow> Inl AuthNoSuchUser
      | Some user \<Rightarrow>
        if u_pass_hash user \<noteq> password_hash (u_name user) old_password then Inl BadPassword
        else Inr (update_first (\<lambda>user. u_uid user = session_uid s)
          (\<lambda>user. user\<lparr>u_pass_hash := password_hash (u_name user) new_password\<rparr>) (users s)))"

definition change_password :: "fat_driver \<Rightarrow> string \<Rightarrow> string \<Rightarrow> (kernel, auth_error, unit) sm" where
  "change_password fat old_password new_password =
     (if \<not> valid_password new_password then err AuthPasswordTooShort else
      bnd (gets sec) (\<lambda>s.
      bnd (lift_res (password_change old_password new_password s)) (\<lambda>us.
      bnd (set_users us) (\<lambda>_.
      map_err (\<lambda>_. AuthIo) (persist_users fat)))))"

section \<open>First boot\<close>

definition handoff_change :: "user_record list \<Rightarrow> bool \<times> user_record list" where
  "handoff_change us0 =
     (let (changed1, us1) =
        (case position (\<lambda>user. u_uid user = USER_UID \<or> eq_ignore_ascii_case (u_name user) ''root'') us0 of
           Some idx \<Rightarrow>
             if \<not> same_user_record (us0 ! idx) default_admin_user then (True, us0[idx := default_admin_user]) else (False, us0)
         | None \<Rightarrow> (True, us0 @ [default_admin_user])) in
      if \<not> list_ex (\<lambda>user. u_uid user = GUEST_UID) us1 then (True, us1 @ [default_guest_user]) else (changed1, us1))"

definition restore_default_handoff :: "fat_driver \<Rightarrow> (kernel, account_error, bool) sm" where
  "restore_default_handoff fat =
     bnd (gets (users \<circ> sec)) (\<lambda>us0.
     let (changed, us) = handoff_change us0 in
     if changed then
       bnd (set_users us) (\<lambda>_.
       bnd (map_err (\<lambda>_. AccIo) (persist_users fat)) (\<lambda>_.
       bnd (ensure_home_dirs fat) (\<lambda>_.
       ret True)))
     else ret False)"

definition first_boot_status_lines :: "fat_driver \<Rightarrow> (kernel, 'e, string list) sm" where
  "first_boot_status_lines fat =
     bnd (gets sec) (\<lambda>s.
     let enabled_admins = enabled_admin_count (users s); first_run = first_run_required s in
     bnd (first_boot_file_state fat) (\<lambda>file_state.
     bnd (first_boot_state_of fat) (\<lambda>state.
     ret [''first-boot state='' @ first_boot_as_str state @ '' file_state='' @
            (case file_state of Some st \<Rightarrow> first_boot_as_str st | None \<Rightarrow> ''missing'') @ '' path='' @ FIRST_BOOT_PATH,
          ''first-run setup='' @ (if first_run then ''required'' else ''complete''),
          ''users='' @ dec_string (length (users s)) @ '' enabled_admins='' @ dec_string enabled_admins,
          ''default_handoff='' @ (if first_run then ''enabled'' else ''disabled''),
          ''repair='' @ (if enabled_admins = 0 \<or> (first_run \<and> file_state = Some Complete) \<or> (\<not> first_run \<and> file_state \<noteq> Some Complete)
            then ''needed'' else ''not-needed'')])))"

definition reset_first_boot_unchecked :: "fat_driver \<Rightarrow> string \<Rightarrow> (kernel, account_error, string list) sm" where
  "reset_first_boot_unchecked fat ctx =
     bnd (restore_default_handoff fat) (\<lambda>restored.
     bnd (map_err (\<lambda>_. AccIo) (mark_first_boot_required fat)) (\<lambda>_.
     bnd (first_boot_status_lines fat) (\<lambda>status.
     ret ([''first-boot reset context='' @ ctx, ''default_handoff='' @ (if restored then ''restored'' else ''already-enabled''),
       ''state=required''] @ status))))"

definition repair_first_boot_unchecked :: "fat_driver \<Rightarrow> string \<Rightarrow> (kernel, account_error, string list) sm" where
  "repair_first_boot_unchecked fat ctx =
     bnd (gets sec) (\<lambda>s.
     bnd (first_boot_file_state fat) (\<lambda>file_state.
     bnd (if enabled_admin_count (users s) = 0 then
            bnd (restore_default_handoff fat) (\<lambda>_.
            bnd (map_err (\<lambda>_. AccIo) (mark_first_boot_required fat)) (\<lambda>_.
            ret ''repair=restored-default-handoff''))
          else if first_run_required s \<and> file_state = Some Complete then
            bnd (map_err (\<lambda>_. AccIo) (mark_first_boot_required fat)) (\<lambda>_.
            ret ''repair=state-complete-to-required'')
          else if \<not> first_run_required s \<and> file_state \<noteq> Some Complete then
            let owner = preferred_admin_name (users s) in
            bnd (map_err (\<lambda>_. AccIo) (mark_first_boot_complete fat owner '''')) (\<lambda>_.
            ret (''repair=state-to-complete user='' @ owner))
          else ret ''repair=no-changes'') (\<lambda>line.
     bnd (first_boot_status_lines fat) (\<lambda>status.
     ret ([''first-boot repair context='' @ ctx, line] @ status)))))"

definition reset_first_boot_admin :: "fat_driver \<Rightarrow> (kernel, account_error, string list) sm" where
  "reset_first_boot_admin fat = bnd require_admin_account (\<lambda>_. reset_first_boot_unchecked fat ''admin'')"

definition repair_first_boot_admin :: "fat_driver \<Rightarrow> (kernel, account_error, string list) sm" where
  "repair_first_boot_admin fat = bnd require_admin_account (\<lambda>_. repair_first_boot_unchecked fat ''admin'')"

primrec account_error_as_str :: "account_error \<Rightarrow> string" where
  "account_error_as_str NoSuchUser = ''no such user''"
| "account_error_as_str DuplicateUser = ''user already exists''"
| "account_error_as_str InvalidName = ''invalid user name''"
| "account_error_as_str InvalidRole = ''invalid role''"
| "account_error_as_str PasswordTooShort = ''password too short''"
| "account_error_as_str AccPermissionDenied = ''permission denied''"
| "account_error_as_str LastAdmin = ''cannot remove the last enabled admin''"
| "account_error_as_str ProtectedUser = ''protected user''"
| "account_error_as_str AlreadyConfigured = ''first-run setup already completed''"
| "account_error_as_str AccIo = ''could not persist user database''"

primrec fs_error_as_str :: "fs_error \<Rightarrow> string" where
  "fs_error_as_str AlreadyExists = ''already exists''"
| "fs_error_as_str InvalidPath = ''invalid path''"
| "fs_error_as_str Io = ''disk I/O failed''"
| "fs_error_as_str NoSpace = ''filesystem full''"
| "fs_error_as_str NotDirectory = ''not a directory''"
| "fs_error_as_str NotEmpty = ''directory not empty''"
| "fs_error_as_str NotFound = ''not found''"
| "fs_error_as_str PermissionDenied = ''permission denied''"
| "fs_error_as_str UnsupportedName = ''invalid name''"

definition result_lines :: "string \<Rightarrow> (kernel, account_error, string list) sm \<Rightarrow> (kernel, 'e, string list) sm" where
  "result_lines label m = bnd (attempt m) (\<lambda>r. ret (case r of Inr ls \<Rightarrow> ls | Inl e \<Rightarrow> [label @ '': '' @ account_error_as_str e]))"

definition reset_first_boot_recovery_lines :: "fat_driver \<Rightarrow> (kernel, 'e, string list) sm" where
  "reset_first_boot_recovery_lines fat = result_lines ''first-boot reset'' (reset_first_boot_unchecked fat ''recovery'')"

definition repair_first_boot_recovery_lines :: "fat_driver \<Rightarrow> (kernel, 'e, string list) sm" where
  "repair_first_boot_recovery_lines fat = result_lines ''first-boot repair'' (repair_first_boot_unchecked fat ''recovery'')"

definition sync_first_boot_file :: "fat_driver \<Rightarrow> security_state \<Rightarrow> (kernel, 'e, string list) sm" where
  "sync_first_boot_file fat s =
     bnd (if first_run_required s then bnd (first_boot_file_state fat) (\<lambda>st. ret (st = Some Complete)) else ret False) (\<lambda>stale.
     if stale then
       bnd (attempt (mark_first_boot_required fat)) (\<lambda>r. ret (case r of
         Inr _ \<Rightarrow> [''first-boot repaired state=required''] | Inl e \<Rightarrow> [''first-boot repair failed: '' @ fs_error_as_str e]))
     else
     bnd (if \<not> first_run_required s then bnd (first_boot_file_state fat) (\<lambda>st. ret (st \<noteq> Some Complete)) else ret False) (\<lambda>missing.
     if missing then
       let owner = preferred_admin_name (users s) in
       bnd (attempt (mark_first_boot_complete fat owner '''')) (\<lambda>r. ret (case r of
         Inr _ \<Rightarrow> [''first-boot repaired state=complete user='' @ owner] | Inl e \<Rightarrow> [''first-boot repair failed: '' @ fs_error_as_str e]))
     else ret []))"

definition ensure_first_boot_boot_consistency :: "fat_driver \<Rightarrow> (kernel, 'e, string list) sm" where
  "ensure_first_boot_boot_consistency fat =
     bnd (gets sec) (\<lambda>s.
     if \<not> enabled_admin_available s then result_lines ''first-boot boot-repair'' (repair_first_boot_unchecked fat ''boot'')
     else sync_first_boot_file fat s)"

section \<open>What holds of the accounts\<close>

definition name_key :: "user_record \<Rightarrow> string" where
  "name_key user = map to_ascii_lower (u_name user)"

definition account_ok :: "user_record \<Rightarrow> bool" where
  "account_ok user \<longleftrightarrow> clean_record user \<and> list_all name_char (u_name user) \<and> u_home user = user_home (u_name user)"

text \<open>
  Names differ even up to case, user ids differ, every record can be saved and loaded, the built-in accounts are there,
  and an administrator can log in.
\<close>

definition accounts_ok :: "user_record list \<Rightarrow> bool" where
  "accounts_ok us \<longleftrightarrow> distinct (map name_key us) \<and> distinct (map u_uid us) \<and> list_all account_ok us \<and>
     0 < enabled_admin_count us \<and> (\<exists>user \<in> set us. name_key user = ''root'' \<and> u_uid user = USER_UID) \<and>
     (\<exists>user \<in> set us. name_key user = ''guest'' \<and> u_uid user = GUEST_UID)"

definition accounts_inv :: "security_state \<Rightarrow> bool" where
  "accounts_inv s \<longleftrightarrow> accounts_ok (users s) \<and> session_uid s \<in> u_uid ` set (users s)"

lemma eq_name_key: "eq_ignore_ascii_case (u_name user) name \<longleftrightarrow> name_key user = map to_ascii_lower name"
  by (simp add: eq_ignore_ascii_case_def name_key_def)

lemma lower_builtin: "map to_ascii_lower ''root'' = ''root''" "map to_ascii_lower ''guest'' = ''guest''"
  by code_simp+

abbreviation active_admin :: "user_record \<Rightarrow> bool" where
  "active_admin user \<equiv> u_login_enabled user \<and> is_admin_record user"

lemma admin_count_pos: "0 < enabled_admin_count us \<longleftrightarrow> (\<exists>user \<in> set us. active_admin user)"
  by (auto simp: enabled_admin_count_def filter_empty_conv)

lemma admin_count_split:
  "idx < length us \<Longrightarrow> enabled_admin_count us =
     enabled_admin_count (take idx us) + (if active_admin (us ! idx) then 1 else 0) + enabled_admin_count (drop (Suc idx) us)"
  using arg_cong [OF id_take_nth_drop [of idx us], of enabled_admin_count] by (simp add: enabled_admin_count_def)

lemma admin_count_update:
  assumes "idx < length us"
  shows "enabled_admin_count (us[idx := user]) + (if active_admin (us ! idx) then 1 else 0) =
    enabled_admin_count us + (if active_admin user then 1 else 0)"
  using admin_count_split [OF assms] by (simp add: upd_conv_take_nth_drop [OF assms] enabled_admin_count_def)

lemma admin_count_remove:
  assumes "idx < length us"
  shows "enabled_admin_count (remove_nth idx us) + (if active_admin (us ! idx) then 1 else 0) = enabled_admin_count us"
  using admin_count_split [OF assms] by (simp add: remove_nth_def enabled_admin_count_def)

lemma map_list_update_same: "idx < length us \<Longrightarrow> f user = f (us ! idx) \<Longrightarrow> map f (us[idx := user]) = map f us"
  by (metis list_update_id map_update nth_map length_map)

lemma ex_set_map: "(\<exists>user \<in> set us. name_key user = n \<and> u_uid user = i) \<longleftrightarrow> (n, i) \<in> set (map (\<lambda>user. (name_key user, u_uid user)) us)"
  by auto

lemma accounts_update:
  assumes ok: "accounts_ok us" and idx: "idx < length us" and user: "account_ok user" "name_key user = name_key (us ! idx)" "u_uid user = u_uid (us ! idx)"
    and adm: "0 < enabled_admin_count (us[idx := user])"
  shows "accounts_ok (us[idx := user])" and "u_uid ` set (us[idx := user]) = u_uid ` set us"
proof -
  have m: "map name_key (us[idx := user]) = map name_key us" "map u_uid (us[idx := user]) = map u_uid us"
    "map (\<lambda>user. (name_key user, u_uid user)) (us[idx := user]) = map (\<lambda>user. (name_key user, u_uid user)) us"
    using user by (auto intro!: map_list_update_same [OF idx])
  have "list_all account_ok (us[idx := user])" using ok user(1) set_update_subset_insert [of us idx user]
    by (auto simp: accounts_ok_def list_all_iff)
  then show "accounts_ok (us[idx := user])" using ok adm unfolding accounts_ok_def ex_set_map m by simp
  show "u_uid ` set (us[idx := user]) = u_uid ` set us" using m(2) by (metis set_map)
qed

lemma accounts_append:
  assumes "accounts_ok us" and "account_ok user" and "name_key user \<notin> name_key ` set us" and "u_uid user \<notin> u_uid ` set us"
  shows "accounts_ok (us @ [user])" and "u_uid ` set us \<subseteq> u_uid ` set (us @ [user])"
  using assms by (auto simp: accounts_ok_def enabled_admin_count_def)

lemma accounts_remove:
  assumes ok: "accounts_ok us" and idx: "idx < length us" and key: "name_key (us ! idx) \<noteq> ''root''" "name_key (us ! idx) \<noteq> ''guest''"
    and adm: "is_admin_record (us ! idx) \<Longrightarrow> 1 < enabled_admin_count us"
  shows "accounts_ok (remove_nth idx us)"
    and "i \<in> u_uid ` set us \<Longrightarrow> i \<noteq> u_uid (us ! idx) \<Longrightarrow> i \<in> u_uid ` set (remove_nth idx us)"
proof -
  have split: "map f us = map f (take idx us) @ f (us ! idx) # map f (drop (Suc idx) us)" for f :: "user_record \<Rightarrow> 'b"
    using arg_cong [OF id_take_nth_drop [OF idx], of "map f"] by simp
  have set: "set us = insert (us ! idx) (set (remove_nth idx us))"
    using arg_cong [OF id_take_nth_drop [OF idx], of set] by (simp add: remove_nth_def)
  have "distinct (map name_key (remove_nth idx us))" "distinct (map u_uid (remove_nth idx us))"
    using ok split [of name_key] split [of u_uid] unfolding remove_nth_def accounts_ok_def by simp_all
  moreover have "0 < enabled_admin_count (remove_nth idx us)"
    using admin_count_remove [OF idx] adm ok by (auto simp: accounts_ok_def split: if_splits)
  moreover have "list_all account_ok (remove_nth idx us)" using ok set by (simp add: accounts_ok_def list_all_iff)
  moreover have "\<exists>user \<in> set (remove_nth idx us). name_key user = ''root'' \<and> u_uid user = USER_UID"
    "\<exists>user \<in> set (remove_nth idx us). name_key user = ''guest'' \<and> u_uid user = GUEST_UID"
    using ok key unfolding accounts_ok_def set by auto
  ultimately show "accounts_ok (remove_nth idx us)" by (simp only: accounts_ok_def simp_thms)
  show "i \<in> u_uid ` set (remove_nth idx us)" if "i \<in> u_uid ` set us" "i \<noteq> u_uid (us ! idx)" using that set by auto
qed

lemma builtin_keys: "name_key default_admin_user = ''root''" "name_key default_guest_user = ''guest''"
  by (simp_all only: name_key_def default_admin_user_def default_guest_user_def user_record.simps lower_builtin)

lemma builtin_ok: "account_ok default_admin_user" "account_ok default_guest_user"
proof -
  have "list_all name_char ''root''" "list_all name_char ''guest''" by code_simp+
  then show "account_ok default_admin_user" "account_ok default_guest_user" using default_users_clean
    by (simp_all add: account_ok_def default_users_def default_admin_user_def default_guest_user_def user_home_def)
qed

lemma builtin_uids: "u_uid default_admin_user = USER_UID" "u_uid default_guest_user = GUEST_UID" "USER_UID \<noteq> GUEST_UID"
  by (simp_all add: default_admin_user_def default_guest_user_def USER_UID_def GUEST_UID_def)

lemma default_admin_active: "active_admin default_admin_user"
  by (simp add: default_admin_user_def is_admin_record_def is_admin_role_def)

lemma default_users_ok: "accounts_ok default_users"
  using builtin_ok builtin_uids default_admin_active unfolding accounts_ok_def admin_count_pos by (simp add: default_users_def builtin_keys)

lemma account_ok_new:
  assumes "clean_user_name n0 = Inr name" and "role = ''admin'' \<or> role = ''user''"
  shows "account_ok (new_user name password role uid)"
proof -
  have "clean_field ''admin''" "clean_field ''user''" by code_simp+
  then have "clean_field role" "role \<noteq> ''''" using assms(2) by auto
  then show ?thesis using clean_user_name_record [OF assms(1)] clean_user_name_Inr(2) [OF assms(1)] by (simp add: account_ok_def new_user_def)
qed

lemma account_ok_update [simp]:
  "account_ok (user\<lparr>u_pass_hash := h\<rparr>) = account_ok user" "account_ok (user\<lparr>u_login_enabled := b\<rparr>) = account_ok user"
  by (simp_all add: account_ok_def clean_record_def)

lemma account_ok_role: "account_ok user \<Longrightarrow> role = ''admin'' \<or> role = ''user'' \<Longrightarrow> account_ok (user\<lparr>u_role := role\<rparr>)"
proof -
  have "clean_field ''admin''" "clean_field ''user''" by code_simp+
  then show "account_ok user \<Longrightarrow> role = ''admin'' \<or> role = ''user'' \<Longrightarrow> ?thesis" by (auto simp: account_ok_def clean_record_def)
qed

lemma update_first_position: "position p us = Some idx \<Longrightarrow> update_first p f us = us[idx := f (us ! idx)]"
proof (induction us arbitrary: idx)
  case (Cons u us)
  then show ?case by (cases "p u") (auto split: option.splits)
qed simp

lemma find_position: "find p xs = Some x \<Longrightarrow> \<exists>idx. position p xs = Some idx \<and> idx < length xs \<and> x = xs ! idx \<and> p x"
  using position_find [of xs p] position_Some [of p xs] by (cases "position p xs") auto


section \<open>Every change keeps the accounts in order\<close>

lemma uid_append: "u_uid ` set us \<subseteq> u_uid ` set (us @ [user])"
  by auto

lemma user_index_Some:
  "user_index us name = Some idx \<Longrightarrow> idx < length us \<and> name_key (us ! idx) = map to_ascii_lower name"
  using position_Some [of "\<lambda>user. eq_ignore_ascii_case (u_name user) name" us idx] by (simp add: user_index_def eq_name_key)

lemma accounts_nth: "accounts_ok us \<Longrightarrow> idx < length us \<Longrightarrow> account_ok (us ! idx)"
  by (simp add: accounts_ok_def list_all_length)

lemma create_change_ok:
  assumes "clean_user_name n0 = Inr name" and "role = ''admin'' \<or> role = ''user''" and "create_change name password role us = Inr (user, us')"
    and "accounts_ok us"
  shows "accounts_ok us'" "u_uid ` set us \<subseteq> u_uid ` set us'" "user \<in> set us'"
proof -
  obtain uid where uid: "next_available_uid us = Some uid" and u: "user = new_user name password role uid" "us' = us @ [user]"
    and n: "\<not> list_ex (\<lambda>user. eq_ignore_ascii_case (u_name user) name) us"
    using assms(3) by (auto simp: create_change_def Let_def split: if_splits option.splits)
  have "name_key user \<notin> name_key ` set us" using n by (auto simp: u new_user_def name_key_def list_ex_iff eq_ignore_ascii_case_def)
  moreover have "u_uid user \<notin> u_uid ` set us" using next_uid(2) [OF uid] by (simp add: u new_user_def)
  ultimately show "accounts_ok us'"
    unfolding u(2) using account_ok_new [OF assms(1,2)] u(1) by (intro accounts_append assms(4)) simp_all
  show "u_uid ` set us \<subseteq> u_uid ` set us'" "user \<in> set us'" unfolding u(2) by auto
qed

lemma retire_simps [simp]:
  "name_key (retire_default_admin user) = name_key user" "u_uid (retire_default_admin user) = u_uid user"
  "account_ok (retire_default_admin user) = account_ok user"
  by (simp_all add: retire_default_admin_def name_key_def)

lemma retire_then_admin:
  assumes "accounts_ok us" and "account_ok user" "name_key user \<notin> name_key ` set us" "u_uid user \<notin> u_uid ` set us" "active_admin user"
  shows "accounts_ok (map retire_default_admin us @ [user])"
proof -
  have "map name_key (map retire_default_admin us) = map name_key us" "map u_uid (map retire_default_admin us) = map u_uid us" by simp_all
  moreover have "list_all account_ok (map retire_default_admin us)" using assms(1) by (simp add: accounts_ok_def list_all_iff)
  moreover have "0 < enabled_admin_count (map retire_default_admin us @ [user])" unfolding admin_count_pos using assms(5) by auto
  ultimately show ?thesis using assms unfolding accounts_ok_def by (auto simp: comp_def)
qed

lemma first_run_change_ok:
  assumes n: "clean_user_name n0 = Inr name" and c: "first_run_change name password us = Inr (user, us')" and ok: "accounts_ok us"
  shows "accounts_ok us'" "u_uid ` set us \<subseteq> u_uid ` set us'" "user \<in> set us'"
proof (atomize (full), cases "eq_ignore_ascii_case name ''root''")
  case True
  let ?p = "\<lambda>user. eq_ignore_ascii_case (u_name user) name"
  obtain old where old: "find_user us name = Some old" and user: "user = old\<lparr>u_role := ''admin'', u_pass_hash := password_hash (u_name old) password, u_login_enabled := True\<rparr>"
    and us': "us' = update_first ?p (\<lambda>_. user) us"
    using c True by (auto simp: first_run_change_def Let_def split: if_splits option.splits)
  obtain idx where idx: "position ?p us = Some idx" "idx < length us" "old = us ! idx"
    using find_position [of ?p us old] old by (auto simp: find_user_def)
  have u: "us' = us[idx := user]" unfolding us' by (rule update_first_position [OF idx(1), of "\<lambda>_. user"])
  have k: "account_ok user" "name_key user = name_key (us ! idx)" "u_uid user = u_uid (us ! idx)"
    using account_ok_role [OF accounts_nth [OF ok idx(2)], of "''admin''"] idx(3) by (simp_all add: user name_key_def)
  have "0 < enabled_admin_count us'" unfolding admin_count_pos u
    by (rule bexI [of _ user]) (use idx(2) in \<open>simp_all add: user is_admin_record_def is_admin_role_def set_update_memI\<close>)
  then show "accounts_ok us' \<and> u_uid ` set us \<subseteq> u_uid ` set us' \<and> user \<in> set us'"
    using accounts_update [OF ok idx(2) k] idx(2) unfolding u by (simp add: set_update_memI)
next
  case False
  obtain uid where uid: "next_available_uid us = Some uid" and u: "user = new_user name password ''admin'' uid" "us' = map retire_default_admin us @ [user]"
    and nex: "\<not> list_ex (\<lambda>user. eq_ignore_ascii_case (u_name user) name) us"
    using c False by (auto simp: first_run_change_def Let_def split: if_splits option.splits)
  have "accounts_ok us'" unfolding u(2)
  proof (rule retire_then_admin [OF ok])
    show "account_ok user" using account_ok_new [OF n] u(1) by simp
    show "name_key user \<notin> name_key ` set us" using nex by (auto simp: u new_user_def name_key_def list_ex_iff eq_ignore_ascii_case_def)
    show "u_uid user \<notin> u_uid ` set us" using next_uid(2) [OF uid] by (simp add: u new_user_def)
    show "active_admin user" by (simp add: u new_user_def is_admin_record_def is_admin_role_def)
  qed
  moreover have "u_uid ` set us \<subseteq> u_uid ` set us'" unfolding u(2) by (auto simp: image_image)
  ultimately show "accounts_ok us' \<and> u_uid ` set us \<subseteq> u_uid ` set us' \<and> user \<in> set us'" unfolding u(2) by simp
qed

lemma update_user_ok:
  assumes ok: "accounts_ok us" and idx: "user_index us name = Some idx" and user: "account_ok user" "u_name user = u_name (us ! idx)"
      "u_uid user = u_uid (us ! idx)"
    and adm: "active_admin (us ! idx) \<Longrightarrow> \<not> active_admin user \<Longrightarrow> 1 < enabled_admin_count us"
  shows "accounts_ok (us[idx := user])" "u_uid ` set (us[idx := user]) = u_uid ` set us" "user \<in> set (us[idx := user])"
proof -
  have i: "idx < length us" using user_index_Some [OF idx] by simp
  have "0 < enabled_admin_count (us[idx := user])"
    using admin_count_update [OF i, of user] adm ok by (auto simp: accounts_ok_def split: if_splits)
  then show "accounts_ok (us[idx := user])" "u_uid ` set (us[idx := user]) = u_uid ` set us"
    using accounts_update [OF ok i user(1) _ user(3)] user(2) by (simp_all add: name_key_def)
  show "user \<in> set (us[idx := user])" using i by (simp add: set_update_memI)
qed

lemma enable_change_ok:
  assumes "enable_change name enabled s = Inr (user, us')" and "accounts_ok (users s)"
  shows "accounts_ok us'" "u_uid ` set us' = u_uid ` set (users s)" "user \<in> set us'"
proof -
  obtain idx where idx: "user_index (users s) name = Some idx" and u: "user = (users s ! idx)\<lparr>u_login_enabled := enabled\<rparr>" "us' = (users s)[idx := user]"
    and g: "\<not> (\<not> enabled \<and> is_admin_record (users s ! idx) \<and> enabled_admin_count (users s) \<le> 1)"
    using assms(1) by (auto simp: enable_change_def Let_def split: option.splits if_splits)
  have "account_ok user" using accounts_nth [OF assms(2)] user_index_Some [OF idx] by (simp add: u)
  moreover have "1 < enabled_admin_count (users s)" if "active_admin (users s ! idx)" "\<not> active_admin user"
    using that g by (auto simp: u is_admin_record_def)
  ultimately show "accounts_ok us'" "u_uid ` set us' = u_uid ` set (users s)" "user \<in> set us'"
    using update_user_ok [OF assms(2) idx, of user] unfolding u(2) by (simp_all add: u(1))
qed

lemma role_change_ok:
  assumes "role_change name role s = Inr (user, us')" and "role = ''admin'' \<or> role = ''user''" and "accounts_ok (users s)"
  shows "accounts_ok us'" "u_uid ` set us' = u_uid ` set (users s)" "user \<in> set us'"
proof -
  obtain idx where idx: "user_index (users s) name = Some idx" and u: "user = (users s ! idx)\<lparr>u_role := role\<rparr>" "us' = (users s)[idx := user]"
    and g: "\<not> (\<not> is_admin_role role \<and> is_admin_record (users s ! idx) \<and> enabled_admin_count (users s) \<le> 1)"
    using assms(1) by (auto simp: role_change_def Let_def split: option.splits if_splits)
  have "account_ok user" using account_ok_role [OF accounts_nth [OF assms(3)] assms(2)] user_index_Some [OF idx] by (simp add: u)
  moreover have "1 < enabled_admin_count (users s)" if "active_admin (users s ! idx)" "\<not> active_admin user"
    using that g by (auto simp: u is_admin_record_def)
  ultimately show "accounts_ok us'" "u_uid ` set us' = u_uid ` set (users s)" "user \<in> set us'"
    using update_user_ok [OF assms(3) idx, of user] unfolding u(2) by (simp_all add: u(1))
qed

lemma reset_change_ok:
  assumes "reset_change name password us = Inr (user, us')" and "accounts_ok us"
  shows "accounts_ok us'" "u_uid ` set us' = u_uid ` set us" "user \<in> set us'"
proof -
  obtain idx where idx: "user_index us name = Some idx" and u: "user = (us ! idx)\<lparr>u_pass_hash := password_hash (u_name (us ! idx)) password\<rparr>" "us' = us[idx := user]"
    using assms(1) by (auto simp: reset_change_def Let_def split: option.splits if_splits)
  have "account_ok user" using accounts_nth [OF assms(2)] user_index_Some [OF idx] by (simp add: u)
  moreover have "active_admin user = active_admin (us ! idx)" by (simp add: u is_admin_record_def)
  ultimately show "accounts_ok us'" "u_uid ` set us' = u_uid ` set us" "user \<in> set us'"
    using update_user_ok [OF assms(2) idx, of user] unfolding u(2) by (simp_all add: u(1) is_admin_record_def)
qed

lemma delete_change_ok:
  assumes "delete_change name s = Inr (user, us')" and "accounts_ok (users s)"
  shows "accounts_ok us'" "session_uid s \<in> u_uid ` set (users s) \<Longrightarrow> session_uid s \<in> u_uid ` set us'"
proof -
  obtain idx where idx: "user_index (users s) name = Some idx" and u: "us' = remove_nth idx (users s)"
    and g: "u_uid (users s ! idx) \<noteq> session_uid s" "name_key (users s ! idx) \<noteq> ''root''" "name_key (users s ! idx) \<noteq> ''guest''"
      "\<not> (is_admin_record (users s ! idx) \<and> enabled_admin_count (users s) \<le> 1)"
    using assms(1) unfolding delete_change_def Let_def eq_name_key lower_builtin by (auto split: option.splits if_splits)
  have i: "idx < length (users s)" using user_index_Some [OF idx] by simp
  have a: "1 < enabled_admin_count (users s)" if "is_admin_record (users s ! idx)" using that g(4) by simp
  show "accounts_ok us'" unfolding u by (rule accounts_remove(1) [OF assms(2) i g(2,3) a])
  show "session_uid s \<in> u_uid ` set us'" if "session_uid s \<in> u_uid ` set (users s)"
    unfolding u using accounts_remove(2) [OF assms(2) i g(2,3) a that] g(1) by simp
qed

lemma password_change_ok:
  assumes "password_change old_password new_password s = Inr us'" and "accounts_ok (users s)"
  shows "accounts_ok us'" "u_uid ` set us' = u_uid ` set (users s)"
proof -
  let ?p = "\<lambda>user. u_uid user = session_uid s"
  let ?f = "\<lambda>user. user\<lparr>u_pass_hash := password_hash (u_name user) new_password\<rparr>"
  obtain old where old: "find ?p (users s) = Some old" and u: "us' = update_first ?p ?f (users s)"
    using assms(1) by (auto simp: password_change_def split: option.splits if_splits)
  obtain idx where idx: "position ?p (users s) = Some idx" "idx < length (users s)" using find_position [OF old] by blast
  have us: "us' = (users s)[idx := ?f (users s ! idx)]" unfolding u by (rule update_first_position [OF idx(1)])
  have "enabled_admin_count us' = enabled_admin_count (users s)"
    using admin_count_update [OF idx(2), of "?f (users s ! idx)"] unfolding us by (simp add: is_admin_record_def split: if_splits)
  then show "accounts_ok us'" "u_uid ` set us' = u_uid ` set (users s)"
    using accounts_update [OF assms(2) idx(2), of "?f (users s ! idx)"] accounts_nth [OF assms(2) idx(2)] assms(2) unfolding us
    by (simp_all add: name_key_def accounts_ok_def)
qed


lemma handoff_admin: "handoff_change us = (b, us') \<Longrightarrow> 0 < enabled_admin_count us'" "handoff_change us = (False, us') \<Longrightarrow> us' = us"
proof -
  let ?p = "\<lambda>user. u_uid user = USER_UID \<or> eq_ignore_ascii_case (u_name user) ''root''"
  have same: "active_admin user" if "same_user_record user default_admin_user" for user
    using that default_admin_active by (simp add: same_user_record_def is_admin_record_def)
  show "0 < enabled_admin_count us'" if "handoff_change us = (b, us')"
  proof (cases "position ?p us")
    case None
    then show ?thesis using that default_admin_active unfolding admin_count_pos by (auto simp: handoff_change_def split: if_splits)
  next
    case (Some idx)
    have i: "idx < length us" using position_Some [OF Some] by simp
    show ?thesis
    proof (cases "same_user_record (us ! idx) default_admin_user")
      case True
      then have "us ! idx \<in> set us'" using that Some i by (auto simp: handoff_change_def split: if_splits)
      then show ?thesis using same [OF True] unfolding admin_count_pos by blast
    next
      case False
      then have "default_admin_user \<in> set us'" using that Some i by (auto simp: handoff_change_def set_update_memI split: if_splits)
      then show ?thesis using default_admin_active unfolding admin_count_pos by blast
    qed
  qed
  show "us' = us" if "handoff_change us = (False, us')"
    using that by (auto simp: handoff_change_def split: if_splits option.splits)
qed

lemma accounts_root:
  assumes "accounts_ok us" and "idx < length us" and "u_uid (us ! idx) = USER_UID \<or> name_key (us ! idx) = ''root''"
  shows "u_uid (us ! idx) = USER_UID" "name_key (us ! idx) = ''root''"
proof -
  obtain j where j: "j < length us" "name_key (us ! j) = ''root''" "u_uid (us ! j) = USER_UID"
    using assms(1) by (auto simp: accounts_ok_def in_set_conv_nth)
  have "idx = j" using assms j nth_eq_iff_index_eq [of "map u_uid us" idx j] nth_eq_iff_index_eq [of "map name_key us" idx j]
    by (auto simp: accounts_ok_def)
  then show "u_uid (us ! idx) = USER_UID" "name_key (us ! idx) = ''root''" using j by simp_all
qed

lemma handoff_change_ok:
  assumes ok: "accounts_ok us" and c: "handoff_change us = (b, us')"
  shows "accounts_ok us'" "u_uid ` set us' = u_uid ` set us"
proof -
  let ?p = "\<lambda>user. u_uid user = USER_UID \<or> eq_ignore_ascii_case (u_name user) ''root''"
  have "\<exists>user \<in> set us. ?p user" using ok by (auto simp: accounts_ok_def)
  then obtain idx where idx: "position ?p us = Some idx" using position_None [of ?p us] by auto
  have i: "idx < length us" "u_uid (us ! idx) = USER_UID \<or> name_key (us ! idx) = ''root''"
    using position_Some [OF idx] unfolding eq_name_key lower_builtin by blast+
  note r = accounts_root [OF ok i]
  have u: "us' = us \<or> us' = us[idx := default_admin_user]"
  proof -
    have "list_ex (\<lambda>user. u_uid user = GUEST_UID) us" using ok by (auto simp: accounts_ok_def list_ex_iff)
    moreover have "list_ex (\<lambda>user. u_uid user = GUEST_UID) (us[idx := default_admin_user])"
    proof -
      obtain g where g: "g < length us" "u_uid (us ! g) = GUEST_UID" using ok by (auto simp: accounts_ok_def in_set_conv_nth)
      then have "g \<noteq> idx" using r builtin_uids(3) by auto
      then show ?thesis using g by (auto simp: list_ex_length intro!: exI [of _ g])
    qed
    ultimately show ?thesis using c idx by (auto simp: handoff_change_def split: if_splits)
  qed
  have adm: "0 < enabled_admin_count us'" by (rule handoff_admin(1) [OF c])
  have "accounts_ok us' \<and> u_uid ` set us' = u_uid ` set us"
  proof (cases "us' = us")
    case False
    then have us': "us' = us[idx := default_admin_user]" using u by simp
    show ?thesis using accounts_update [OF ok i(1) builtin_ok(1) _ _ adm [unfolded us']] r builtin_keys(1) builtin_uids(1)
      unfolding us' by simp
  qed (use ok in simp)
  then show "accounts_ok us'" "u_uid ` set us' = u_uid ` set us" by simp_all
qed

lemma normalize_id:
  assumes ok: "accounts_ok us"
  shows "normalize_default_admin us = us"
proof -
  have "filter (\<lambda>user. \<not> (u_uid user = ROOT_UID \<and> eq_ignore_ascii_case (u_name user) ''root'' \<and> \<not> u_login_enabled user)) us = us"
  proof (rule filter_True, rule ballI)
    fix user assume "user \<in> set us"
    then obtain i where i: "i < length us" "user = us ! i" by (auto simp: in_set_conv_nth)
    have "u_uid user = USER_UID" if "name_key user = ''root''" using accounts_root(1) [OF ok i(1)] that i(2) by simp
    then show "\<not> (u_uid user = ROOT_UID \<and> eq_ignore_ascii_case (u_name user) ''root'' \<and> \<not> u_login_enabled user)"
      unfolding eq_name_key lower_builtin by (auto simp: ROOT_UID_def USER_UID_def)
  qed
  moreover have "list_ex (\<lambda>user. u_uid user = USER_UID \<and> eq_ignore_ascii_case (u_name user) ''root'') us"
    unfolding eq_name_key lower_builtin list_ex_iff using ok by (auto simp: accounts_ok_def)
  moreover have "list_ex (\<lambda>user. u_uid user = USER_UID) us" "list_ex (\<lambda>user. u_uid user = GUEST_UID) us"
    using ok by (auto simp: accounts_ok_def list_ex_iff)
  ultimately show ?thesis by (simp only: normalize_default_admin_def Let_def if_True)
qed

section \<open>Programs that keep a predicate\<close>

definition stable :: "('s \<Rightarrow> bool) \<Rightarrow> ('s, 'e, 'a) sm \<Rightarrow> bool" where
  "stable I m \<longleftrightarrow> valid I m (\<lambda>_. I) (\<lambda>_. I)"

named_theorems stable_intros \<open>programs that keep a predicate\<close>

lemma stable_bnd [stable_intros]: "stable I m \<Longrightarrow> (\<And>x. stable I (f x)) \<Longrightarrow> stable I (bnd m f)"
  unfolding stable_def by (rule valid_bnd)

lemma stable_simple [stable_intros]: "stable I (ret x)" "stable I (err e)" "stable I (gets g)" "stable I (lift_res r)" "stable I (lift_opt e q)"
  by (auto simp: stable_def valid_def ret_def err_def gets_def lift_res_def lift_opt_def split: sum.splits option.splits)

lemma stable_attempt [stable_intros]: "stable I m \<Longrightarrow> stable I (attempt m)"
  unfolding stable_def by (rule valid_attempt)

lemma stable_map_err [stable_intros]: "stable I m \<Longrightarrow> stable I (map_err g m)"
  unfolding stable_def by (rule valid_map_err)

lemma stable_discard [stable_intros]: "stable I m \<Longrightarrow> stable I (discard m)"
  unfolding discard_def by (intro stable_intros)

lemma stable_if [stable_intros]: "(c \<Longrightarrow> stable I a) \<Longrightarrow> (\<not> c \<Longrightarrow> stable I b) \<Longrightarrow> stable I (if c then a else b)"
  by simp

lemma stable_option [stable_intros]: "(r = None \<Longrightarrow> stable I a) \<Longrightarrow> (\<And>x. r = Some x \<Longrightarrow> stable I (b x)) \<Longrightarrow> stable I (case r of None \<Rightarrow> a | Some x \<Rightarrow> b x)"
  by (cases r) simp_all

lemma stable_sum [stable_intros]: "(\<And>x. r = Inl x \<Longrightarrow> stable I (a x)) \<Longrightarrow> (\<And>x. r = Inr x \<Longrightarrow> stable I (b x)) \<Longrightarrow> stable I (case r of Inl x \<Rightarrow> a x | Inr x \<Rightarrow> b x)"
  by (cases r) simp_all

lemma stable_prod [stable_intros]: "(\<And>x y. r = (x, y) \<Longrightarrow> stable I (a x y)) \<Longrightarrow> stable I (case r of (x, y) \<Rightarrow> a x y)"
  by (cases r) simp

lemma stable_for_each [stable_intros]: "(\<And>x. stable I (f x)) \<Longrightarrow> stable I (for_each xs f)"
  unfolding stable_def by (rule valid_for_each)

lemma stable_upd: "(\<And>k. I k \<Longrightarrow> I (f k)) \<Longrightarrow> stable I (upd f)"
  by (auto simp: stable_def valid_def upd_def)

lemma stable_then:
  assumes "stable I m" and "\<And>x. valid I (f x) Q E" and "\<And>e k. I k \<Longrightarrow> E e k"
  shows "valid I (bnd m f) Q E"
  by (rule valid_bnd [OF valid_weaken [OF assms(1) [unfolded stable_def]] assms(2)]) (auto intro: assms(3))

text \<open>A predicate that does not look at the file system is kept by every file operation.\<close>

definition fs_free :: "(kernel \<Rightarrow> bool) \<Rightarrow> bool" where
  "fs_free I \<longleftrightarrow> (\<forall>k s. I (k\<lparr>fs := s\<rparr>) = I k)"

lemma stable_on_fs: "fs_free I \<Longrightarrow> stable I (on_fs m)"
  by (auto simp: stable_def valid_def on_fs_def fs_free_def Let_def split: prod.splits sum.splits)

lemmas vfs_defs = vfs_kernel_create_dir_def vfs_kernel_safe_write_file_def vfs_kernel_read_file_def vfs_chown_def vfs_chmod_def Let_def
  create_dir_for_def metadata_unchecked_def safe_write_file_for_def read_file_unchecked_def chown_unchecked_def chmod_unchecked_def

lemma stable_vfs:
  assumes "fs_free I"
  shows "stable I (vfs_kernel_create_dir fat path)" "stable I (vfs_kernel_safe_write_file fat path data)" "stable I (vfs_kernel_read_file fat path)"
    "stable I (vfs_chown path u g)" "stable I (vfs_chmod fat path m)"
  unfolding vfs_defs by (intro stable_intros stable_on_fs assms)+

lemma stable_files:
  assumes "fs_free I"
  shows "stable I (persist_users fat)" "stable I (ensure_home_dirs fat)" "stable I (write_first_boot_state fat st user device)"
    "stable I (load_users_from_disk fat)" "stable I (first_boot_file_state fat)" "stable I (first_boot_state_of fat)"
    "stable I (first_boot_status_lines fat)"
  unfolding persist_users_def ensure_home_dirs_def ensure_home_dir_def write_first_boot_state_def load_users_from_disk_def
    first_boot_file_state_def first_boot_state_of_def first_boot_status_lines_def Let_def
  by (intro stable_intros stable_vfs assms)+

lemma stable_marks:
  assumes "fs_free I"
  shows "stable I (mark_first_boot_complete fat user device)" "stable I (mark_first_boot_required fat)" "stable I (mark_first_boot_in_progress fat)"
  unfolding mark_first_boot_complete_def mark_first_boot_required_def mark_first_boot_in_progress_def
  by (intro stable_intros stable_files assms)+


section \<open>The invariant of the accounts\<close>

definition acc :: "kernel \<Rightarrow> bool" where
  "acc k \<longleftrightarrow> accounts_inv (sec k)"

definition acc_of :: "user_record \<Rightarrow> kernel \<Rightarrow> bool" where
  "acc_of user k \<longleftrightarrow> acc k \<and> u_uid user \<in> u_uid ` set (users (sec k))"

lemma acc_fs_free [simp]: "fs_free acc" "fs_free (acc_of user)"
  by (simp_all add: fs_free_def acc_def acc_of_def)

lemma acc_set_users:
  "accounts_ok us \<Longrightarrow> session_uid (sec k) \<in> u_uid ` set us \<Longrightarrow> acc (k\<lparr>sec := (sec k)\<lparr>users := us, revision := r\<rparr>\<rparr>)"
  "accounts_ok us \<Longrightarrow> session_uid (sec k) \<in> u_uid ` set us \<Longrightarrow> u_uid user \<in> u_uid ` set us \<Longrightarrow>
    acc_of user (k\<lparr>sec := (sec k)\<lparr>users := us, revision := r\<rparr>\<rparr>)"
  by (simp_all add: acc_def acc_of_def accounts_inv_def)

lemma acc_emit [stable_intros]: "stable acc (emit what detail)" "stable (acc_of user) (emit what detail)"
  by (auto simp: emit_def acc_def acc_of_def intro!: stable_upd)

lemma acc_session [stable_intros]: "stable (acc_of user) (set_session_from_user user)"
  unfolding set_session_from_user_def Let_def
  by (rule stable_upd) (simp add: acc_of_def acc_def accounts_inv_def user_credentials_def)

lemma acc_attempts [stable_intros]:
  "stable acc (upd_sec (\<lambda>s. s\<lparr>login_attempts := g s\<rparr>))" "stable (acc_of user) (upd_sec (\<lambda>s. s\<lparr>login_attempts := g s\<rparr>))"
  unfolding upd_sec_def by (auto simp: acc_of_def acc_def accounts_inv_def intro!: stable_upd)

lemma change_inv:
  assumes "\<And>k user us. I k \<Longrightarrow> change (g k) = Inr (user, us) \<Longrightarrow> J user (k\<lparr>sec := (sec k)\<lparr>users := us, revision := revision (sec k) + 1\<rparr>\<rparr>)"
    and "\<And>x user. stable (J user) (rest x user)" and "\<And>user k. J user k \<Longrightarrow> I k"
  shows "stable I (bnd (gets g) (\<lambda>x. bnd (lift_res (change x)) (\<lambda>(user, us). bnd (set_users us) (\<lambda>_. rest x user))))"
proof -
  have "valid (\<lambda>k. I k \<and> g k = x) (bnd (lift_res (change x)) (\<lambda>(user, us). bnd (set_users us) (\<lambda>_. rest x user))) (\<lambda>_. I) (\<lambda>_. I)" for x
  proof (cases "change x")
    case (Inl e)
    then show ?thesis by (simp add: valid_def lift_res_def bnd_def)
  next
    case (Inr r)
    obtain user us where r: "r = (user, us)" by (cases r)
    have "valid (\<lambda>k. I k \<and> g k = x) (set_users us) (\<lambda>_. J user) (\<lambda>_. I)"
      unfolding set_users_def upd_sec_def using assms(1) [of _ user us] Inr r by (auto intro!: valid_upd)
    moreover have "valid (J user) (rest x user) (\<lambda>_. I) (\<lambda>_. I)"
      using assms(2) [of user x] unfolding stable_def by (rule valid_weaken) (auto intro: assms(3))
    ultimately have "valid (\<lambda>k. I k \<and> g k = x) (bnd (set_users us) (\<lambda>_. rest x user)) (\<lambda>_. I) (\<lambda>_. I)" by (rule valid_bnd)
    then show ?thesis by (simp add: Inr r bnd_lift_Inr)
  qed
  then show ?thesis unfolding stable_def by (intro valid_bnd [where R = "\<lambda>x k. I k \<and> g k = x"] valid_gets) auto
qed

lemma acc_ofD: "acc_of user k \<Longrightarrow> acc k"
  by (simp add: acc_of_def)

lemma accD: "acc k \<Longrightarrow> accounts_ok (users (sec k))" "acc k \<Longrightarrow> session_uid (sec k) \<in> u_uid ` set (users (sec k))"
  by (simp_all add: acc_def accounts_inv_def)

text \<open>The state after the change of each operation.\<close>

abbreviation with_users :: "user_record list \<Rightarrow> kernel \<Rightarrow> kernel" where
  "with_users us k \<equiv> k\<lparr>sec := (sec k)\<lparr>users := us, revision := revision (sec k) + 1\<rparr>\<rparr>"

lemma change_steps:
  "acc k \<Longrightarrow> clean_user_name n0 = Inr n \<Longrightarrow> clean_role r0 = Inr r \<Longrightarrow> create_change n password r (users (sec k)) = Inr (user, us) \<Longrightarrow>
     acc_of user (with_users us k)"
  "acc k \<Longrightarrow> clean_user_name n0 = Inr n \<Longrightarrow> first_run_change n password (users (sec k)) = Inr (user, us) \<Longrightarrow> acc_of user (with_users us k)"
  "acc k \<Longrightarrow> enable_change name enabled (sec k) = Inr (user, us) \<Longrightarrow> acc_of user (with_users us k)"
  "acc k \<Longrightarrow> clean_role r0 = Inr r \<Longrightarrow> role_change name r (sec k) = Inr (user, us) \<Longrightarrow> acc_of user (with_users us k)"
  "acc k \<Longrightarrow> reset_change name password (users (sec k)) = Inr (user, us) \<Longrightarrow> acc_of user (with_users us k)"
  "acc k \<Longrightarrow> delete_change name (sec k) = Inr (user, us) \<Longrightarrow> acc (with_users us k)"
  "acc k \<Longrightarrow> password_change old_password new_password (sec k) = Inr us \<Longrightarrow> acc (with_users us k)"
  "acc k \<Longrightarrow> handoff_change (users (sec k)) = (b, us) \<Longrightarrow> acc (with_users us k)"
proof -
  note d = accD [of k]
  show "acc_of user (with_users us k)"
    if "acc k" "clean_user_name n0 = Inr n" "clean_role r0 = Inr r" "create_change n password r (users (sec k)) = Inr (user, us)"
    using create_change_ok [OF that(2) clean_role_Inr [OF that(3)] that(4) d(1) [OF that(1)]] d(2) [OF that(1)] by (intro acc_set_users) auto
  show "acc_of user (with_users us k)" if "acc k" "clean_user_name n0 = Inr n" "first_run_change n password (users (sec k)) = Inr (user, us)"
    using first_run_change_ok [OF that(2,3) d(1) [OF that(1)]] d(2) [OF that(1)] by (intro acc_set_users) auto
  show "acc_of user (with_users us k)" if "acc k" "enable_change name enabled (sec k) = Inr (user, us)"
    using enable_change_ok [OF that(2) d(1) [OF that(1)]] d(2) [OF that(1)] by (intro acc_set_users) auto
  show "acc_of user (with_users us k)" if "acc k" "clean_role r0 = Inr r" "role_change name r (sec k) = Inr (user, us)"
    using role_change_ok [OF that(3) clean_role_Inr [OF that(2)] d(1) [OF that(1)]] d(2) [OF that(1)] by (intro acc_set_users) auto
  show "acc_of user (with_users us k)" if "acc k" "reset_change name password (users (sec k)) = Inr (user, us)"
    using reset_change_ok [OF that(2) d(1) [OF that(1)]] d(2) [OF that(1)] by (intro acc_set_users) auto
  show "acc (with_users us k)" if "acc k" "delete_change name (sec k) = Inr (user, us)"
    using delete_change_ok [OF that(2) d(1) [OF that(1)]] d(2) [OF that(1)] by (intro acc_set_users) auto
  show "acc (with_users us k)" if "acc k" "password_change old_password new_password (sec k) = Inr us"
    using password_change_ok [OF that(2) d(1) [OF that(1)]] d(2) [OF that(1)] by (intro acc_set_users) auto
  show "acc (with_users us k)" if "acc k" "handoff_change (users (sec k)) = (b, us)"
    using handoff_change_ok [OF d(1) [OF that(1)] that(2)] d(2) [OF that(1)] by (intro acc_set_users) auto
qed

lemma lift_res_cases [stable_intros]: "(\<And>x. r = Inr x \<Longrightarrow> stable I (f x)) \<Longrightarrow> stable I (bnd (map_err h (lift_res r)) f)"
  "(\<And>x. r = Inr x \<Longrightarrow> stable I (g x)) \<Longrightarrow> stable I (bnd (lift_res r) g)"
  by (cases r; auto simp: stable_def valid_def bnd_def lift_res_def map_err_def split: prod.splits sum.splits)+

lemma admin_first:
  "stable I m \<Longrightarrow> stable I (bnd require_admin_account (\<lambda>_. m))" "stable I m' \<Longrightarrow> stable I (bnd (map_err h require_admin_account) (\<lambda>_. m'))"
  unfolding require_admin_account_def require_admin_def by (intro stable_intros; assumption)+

lemmas op_stable = stable_files stable_marks stable_vfs

lemma create_user_inv: "stable acc (create_user fat name password role)"
  unfolding create_user_def
proof (rule admin_first, rule lift_res_cases(1), rule lift_res_cases(1), rule lift_res_cases(1))
  fix n r assume n: "clean_user_name name = Inr n" and r: "clean_role role = Inr r"
  show "stable acc (bnd (gets (users \<circ> sec)) (\<lambda>us0. bnd (lift_res (create_change n password r us0)) (\<lambda>(user, us). bnd (set_users us) (\<lambda>_.
    bnd (map_err (\<lambda>_. Failed AccIo) (persist_users fat)) (\<lambda>_. bnd (ensure_home_dirs fat) (\<lambda>_.
    bnd (emit ''user-create'' (u_name user)) (\<lambda>_. ret (public_user user))))))))"
  proof (rule change_inv [where J = acc_of])
    fix k user us assume "acc k" and c: "create_change n password r ((users \<circ> sec) k) = Inr (user, us)"
    then show "acc_of user (k\<lparr>sec := (sec k)\<lparr>users := us, revision := revision (sec k) + 1\<rparr>\<rparr>)"
      by (intro change_steps(1) [OF _ n r]) simp_all
  qed (intro stable_intros op_stable acc_fs_free acc_ofD; assumption)+
qed

lemma first_run_inv: "stable acc (complete_first_run_admin fat name password)"
  unfolding complete_first_run_admin_def
proof (rule lift_res_cases(1), rule stable_if, rule stable_simple, rule lift_res_cases(1))
  fix n assume n: "clean_user_name name = Inr n"
  show "stable acc (bnd (gets (users \<circ> sec)) (\<lambda>us0. bnd (lift_res (first_run_change n password us0)) (\<lambda>(user, us). bnd (set_users us) (\<lambda>_.
    bnd (map_err (\<lambda>_. Failed AccIo) (persist_users fat)) (\<lambda>_. bnd (ensure_home_dirs fat) (\<lambda>_.
    bnd (discard (mark_first_boot_complete fat (u_name user) '''')) (\<lambda>_. bnd (set_session_from_user user) (\<lambda>_.
    bnd (emit ''first-run'' (u_name user)) (\<lambda>_. ret (public_user user))))))))))"
  proof (rule change_inv [where J = acc_of])
    fix k user us assume "acc k" and c: "first_run_change n password ((users \<circ> sec) k) = Inr (user, us)"
    then show "acc_of user (k\<lparr>sec := (sec k)\<lparr>users := us, revision := revision (sec k) + 1\<rparr>\<rparr>)"
      by (intro change_steps(2) [OF _ n]) simp_all
  qed (intro stable_intros op_stable acc_fs_free acc_ofD; assumption)+
qed

lemma set_user_enabled_inv: "stable acc (set_user_enabled fat name enabled)"
  unfolding set_user_enabled_def
proof (rule admin_first, rule change_inv [where J = acc_of])
  fix k user us assume "acc k" and c: "enable_change name enabled (sec k) = Inr (user, us)"
  then show "acc_of user (k\<lparr>sec := (sec k)\<lparr>users := us, revision := revision (sec k) + 1\<rparr>\<rparr>)"
    by (rule change_steps)
qed (intro stable_intros op_stable acc_fs_free acc_ofD; assumption)+

lemma set_user_role_inv: "stable acc (set_user_role fat name role)"
  unfolding set_user_role_def
proof (rule admin_first, rule lift_res_cases(2))
  fix r assume r: "clean_role role = Inr r"
  show "stable acc (bnd (gets sec) (\<lambda>s. bnd (lift_res (role_change name r s)) (\<lambda>(user, us). bnd (set_users us) (\<lambda>_.
    bnd (map_err (\<lambda>_. AccIo) (persist_users fat)) (\<lambda>_. bnd (if u_uid user = session_uid s then set_session_from_user user else ret ()) (\<lambda>_.
    bnd (emit ''user-role'' (u_name user)) (\<lambda>_. ret (public_user user))))))))"
  proof (rule change_inv [where J = acc_of])
    fix k user us assume "acc k" and c: "role_change name r (sec k) = Inr (user, us)"
    then show "acc_of user (k\<lparr>sec := (sec k)\<lparr>users := us, revision := revision (sec k) + 1\<rparr>\<rparr>)"
      by (rule change_steps(4) [OF _ r])
  qed (intro stable_intros op_stable acc_fs_free acc_ofD; assumption)+
qed

lemma reset_user_password_inv: "stable acc (reset_user_password fat name password)"
  unfolding reset_user_password_def
proof (rule admin_first, rule lift_res_cases(2))
  show "stable acc (bnd (gets (users \<circ> sec)) (\<lambda>us0. bnd (lift_res (reset_change name password us0)) (\<lambda>(user, us). bnd (set_users us) (\<lambda>_.
    bnd (upd_sec (\<lambda>s. s\<lparr>login_attempts := clear_login_failures (u_name user) (login_attempts s)\<rparr>)) (\<lambda>_.
    bnd (map_err (\<lambda>_. AccIo) (persist_users fat)) (\<lambda>_. bnd (emit ''user-password'' (u_name user)) (\<lambda>_. ret (public_user user))))))))"
  proof (rule change_inv [where J = acc_of])
    fix k user us assume "acc k" and c: "reset_change name password ((users \<circ> sec) k) = Inr (user, us)"
    then show "acc_of user (k\<lparr>sec := (sec k)\<lparr>users := us, revision := revision (sec k) + 1\<rparr>\<rparr>)"
      by (intro change_steps(5)) simp_all
  qed (intro stable_intros op_stable acc_fs_free acc_ofD; assumption)+
qed

lemma delete_user_inv: "stable acc (delete_user fat name)"
  unfolding delete_user_def
proof (rule admin_first)
  show "stable acc (bnd (gets sec) (\<lambda>s. bnd (lift_res (delete_change name s)) (\<lambda>(user, us). bnd (set_users us) (\<lambda>_.
    bnd (map_err (\<lambda>_. AccIo) (persist_users fat)) (\<lambda>_. bnd (emit ''user-delete'' (u_name user)) (\<lambda>_. ret (public_user user)))))))"
  proof (rule change_inv [where J = "\<lambda>_. acc"])
    fix k user us assume "acc k" and c: "delete_change name (sec k) = Inr (user, us)"
    then show "acc (k\<lparr>sec := (sec k)\<lparr>users := us, revision := revision (sec k) + 1\<rparr>\<rparr>)"
      by (rule change_steps)
  qed (intro stable_intros op_stable acc_fs_free; assumption)+
qed


lemma stable_get: "(\<And>x. valid (\<lambda>k. I k \<and> g k = x) (f x) (\<lambda>_. I) (\<lambda>_. I)) \<Longrightarrow> stable I (bnd (gets g) f)"
  unfolding stable_def by (rule valid_bnd [where R = "\<lambda>x k. I k \<and> g k = x"], rule valid_gets) auto

lemma stable_into:
  assumes "stable J m" and "\<And>k. P k \<Longrightarrow> J k" and "\<And>k. J k \<Longrightarrow> I k"
  shows "valid P m (\<lambda>_. I) (\<lambda>_. I)"
  using assms(1) unfolding stable_def by (rule valid_weaken) (use assms in auto)

lemma stable_weak: "stable I m \<Longrightarrow> valid (\<lambda>k. I k \<and> b k) m (\<lambda>_. I) (\<lambda>_. I)"
  by (rule stable_into) auto

lemma change_password_inv: "stable acc (change_password fat old_password new_password)"
  unfolding change_password_def
proof (rule stable_if, rule stable_simple, rule stable_get)
  fix s
  have "valid (\<lambda>k. acc k \<and> sec k = s) (bnd (set_users us) (\<lambda>_. map_err (\<lambda>_. AuthIo) (persist_users fat))) (\<lambda>_. acc) (\<lambda>_. acc)"
    if c: "password_change old_password new_password s = Inr us" for us
  proof (rule valid_bnd)
    show "valid (\<lambda>k. acc k \<and> sec k = s) (set_users us) (\<lambda>_. acc) (\<lambda>_. acc)"
      unfolding set_users_def upd_sec_def using c by (auto intro!: valid_upd change_steps(7))
    show "valid acc (map_err (\<lambda>_. AuthIo) (persist_users fat)) (\<lambda>_. acc) (\<lambda>_. acc)"
      unfolding stable_def [symmetric] by (intro stable_intros op_stable acc_fs_free)
  qed
  then show "valid (\<lambda>k. acc k \<and> sec k = s) (bnd (lift_res (password_change old_password new_password s)) (\<lambda>us. bnd (set_users us) (\<lambda>_.
    map_err (\<lambda>_. AuthIo) (persist_users fat)))) (\<lambda>_. acc) (\<lambda>_. acc)"
    by (cases "password_change old_password new_password s") (auto simp: bnd_lift_Inr valid_def lift_res_def bnd_def)
qed

lemma restore_default_handoff_inv: "stable acc (restore_default_handoff fat)"
  unfolding restore_default_handoff_def Let_def
proof (rule stable_get)
  fix us0
  obtain b us where c: "handoff_change us0 = (b, us)" by fastforce
  have "valid (\<lambda>k. acc k \<and> (users \<circ> sec) k = us0) (set_users us) (\<lambda>_. acc) (\<lambda>_. acc)"
    unfolding set_users_def upd_sec_def using c by (auto intro!: valid_upd change_steps(8))
  moreover have "stable acc (bnd (map_err (\<lambda>_. AccIo) (persist_users fat)) (\<lambda>_. bnd (ensure_home_dirs fat) (\<lambda>_. ret True)))"
    by (intro stable_intros op_stable acc_fs_free)
  ultimately have "valid (\<lambda>k. acc k \<and> (users \<circ> sec) k = us0) (bnd (set_users us) (\<lambda>_. bnd (map_err (\<lambda>_. AccIo) (persist_users fat)) (\<lambda>_.
    bnd (ensure_home_dirs fat) (\<lambda>_. ret True)))) (\<lambda>_. acc) (\<lambda>_. acc)" unfolding stable_def by (rule valid_bnd)
  then show "valid (\<lambda>k. acc k \<and> (users \<circ> sec) k = us0) (case handoff_change us0 of (changed, us) \<Rightarrow> if changed then bnd (set_users us) (\<lambda>_.
    bnd (map_err (\<lambda>_. AccIo) (persist_users fat)) (\<lambda>_. bnd (ensure_home_dirs fat) (\<lambda>_. ret True))) else ret False) (\<lambda>_. acc) (\<lambda>_. acc)"
    unfolding c prod.case by (auto intro: valid_ret)
qed

lemma first_boot_inv:
  "stable acc (reset_first_boot_unchecked fat ctx)" "stable acc (repair_first_boot_unchecked fat ctx)"
  unfolding reset_first_boot_unchecked_def repair_first_boot_unchecked_def Let_def
  by (intro stable_intros op_stable acc_fs_free restore_default_handoff_inv)+

lemma first_boot_calls_inv:
  "stable acc (reset_first_boot_admin fat)" "stable acc (repair_first_boot_admin fat)" "stable acc (ensure_first_boot_boot_consistency fat)"
  unfolding reset_first_boot_admin_def repair_first_boot_admin_def ensure_first_boot_boot_consistency_def sync_first_boot_file_def
    require_admin_account_def require_admin_def result_lines_def Let_def
  by (intro stable_intros op_stable acc_fs_free first_boot_inv)+

lemma found_acc_of: "acc k \<Longrightarrow> users (sec k) = us \<Longrightarrow> find p us = Some user \<Longrightarrow> acc_of user k"
  using find_position [of p us user] by (auto simp: acc_of_def)

lemma login_inv: "stable acc (login name password)"
  unfolding login_def
proof (rule stable_bnd, rule stable_simple, rule stable_if, rule stable_simple, rule stable_get)
  fix us
  have ok: "stable (acc_of user) (bnd (upd_sec (\<lambda>s. s\<lparr>login_attempts := clear_login_failures (u_name user) (login_attempts s)\<rparr>)) (\<lambda>_.
      bnd (set_session_from_user user) (\<lambda>_. bnd (emit ''login'' (u_name user)) (\<lambda>_. ret (public_user user)))))" for user
    by (intro stable_intros)
  show "valid (\<lambda>k. acc k \<and> (users \<circ> sec) k = us) (case find_user us name of None \<Rightarrow> err AuthNoSuchUser | Some user \<Rightarrow>
       if \<not> u_login_enabled user then err LoginDisabled
       else if u_pass_hash user \<noteq> password_hash (u_name user) password then
         bnd (gets now) (\<lambda>t. bnd (upd_sec (\<lambda>s. s\<lparr>login_attempts := record_login_failure t (u_name user) (login_attempts s)\<rparr>)) (\<lambda>_. err BadPassword))
       else bnd (upd_sec (\<lambda>s. s\<lparr>login_attempts := clear_login_failures (u_name user) (login_attempts s)\<rparr>)) (\<lambda>_.
         bnd (set_session_from_user user) (\<lambda>_. bnd (emit ''login'' (u_name user)) (\<lambda>_. ret (public_user user))))) (\<lambda>_. acc) (\<lambda>_. acc)"
  proof (cases "find_user us name")
    case (Some user)
    have "valid (\<lambda>k. acc k \<and> (users \<circ> sec) k = us) (bnd (upd_sec (\<lambda>s. s\<lparr>login_attempts := clear_login_failures (u_name user) (login_attempts s)\<rparr>)) (\<lambda>_.
      bnd (set_session_from_user user) (\<lambda>_. bnd (emit ''login'' (u_name user)) (\<lambda>_. ret (public_user user))))) (\<lambda>_. acc) (\<lambda>_. acc)"
      by (rule stable_into [OF ok [of user] _ acc_ofD]) (use Some in \<open>auto simp: find_user_def intro: found_acc_of\<close>)
    moreover have "valid (\<lambda>k. acc k \<and> (users \<circ> sec) k = us)
      (bnd (gets now) (\<lambda>t. bnd (upd_sec (\<lambda>s. s\<lparr>login_attempts := record_login_failure t (u_name user) (login_attempts s)\<rparr>)) (\<lambda>_. err BadPassword)))
      (\<lambda>_. acc) (\<lambda>_. acc)" by (rule stable_weak) (intro stable_intros)
    ultimately show ?thesis by (auto simp: Some intro: valid_err)
  qed (auto intro: valid_err)
qed

lemma logout_inv: "stable acc logout"
  unfolding logout_def Let_def
proof (rule stable_get)
  fix us
  let ?guest = "case find (\<lambda>user. u_uid user = GUEST_UID) us of Some user \<Rightarrow> user | None \<Rightarrow> default_guest_user"
  have "stable (acc_of ?guest) (bnd (set_session_from_user ?guest) (\<lambda>_. bnd (emit ''logout'' (u_name ?guest)) (\<lambda>_. ret (public_user ?guest))))"
    by (intro stable_intros)
  moreover have "acc_of ?guest k" if k: "acc k \<and> (users \<circ> sec) k = us" for k
  proof -
    have "\<exists>user \<in> set us. u_uid user = GUEST_UID" using accD(1) [of k] k by (auto simp: accounts_ok_def)
    then obtain user where "find (\<lambda>user. u_uid user = GUEST_UID) us = Some user"
      using find_None_iff [of "\<lambda>user. u_uid user = GUEST_UID" us] by (cases "find (\<lambda>user. u_uid user = GUEST_UID) us") auto
    then show ?thesis using found_acc_of [of k us _ user] k by simp
  qed
  ultimately show "valid (\<lambda>k. acc k \<and> (users \<circ> sec) k = us) (bnd (set_session_from_user ?guest) (\<lambda>_. bnd (emit ''logout'' (u_name ?guest)) (\<lambda>_.
    ret (public_user ?guest)))) (\<lambda>_. acc) (\<lambda>_. acc)" by (rule stable_into) (auto intro: acc_ofD)
qed

lemma session_for_test_inv: "stable acc (set_session_for_test name)"
  unfolding set_session_for_test_def
proof (rule stable_get)
  fix us
  have ok: "stable (acc_of user) (bnd (set_session_from_user user) (\<lambda>_. ret True))" for user by (intro stable_intros)
  show "valid (\<lambda>k. acc k \<and> (users \<circ> sec) k = us) (case find_user us name of None \<Rightarrow> ret False | Some user \<Rightarrow>
    bnd (set_session_from_user user) (\<lambda>_. ret True)) (\<lambda>_. acc) (\<lambda>_. acc)"
  proof (cases "find_user us name")
    case (Some user)
    show ?thesis unfolding Some option.case
      by (rule stable_into [OF ok [of user] _ acc_ofD]) (use Some in \<open>auto simp: find_user_def intro: found_acc_of\<close>)
  qed (auto intro: valid_ret)
qed

section \<open>Sequences of calls\<close>

datatype account_call = CallLogin string string | CallLogout | CallSessionForTest string | CallChangePassword string string
  | CallFirstRun string string | CallCreate string string string | CallEnable string bool | CallRole string string
  | CallReset string string | CallDelete string | CallResetFirstBoot | CallRepairFirstBoot | CallBootConsistency | CallUmask u16

definition run :: "(kernel, 'e, 'a) sm \<Rightarrow> (kernel, unit, unit) sm" where
  "run m = bnd (ok m) (\<lambda>_. ret ())"

primrec account_run :: "fat_driver \<Rightarrow> account_call \<Rightarrow> (kernel, unit, unit) sm" where
  "account_run fat (CallLogin name password) = run (login name password)"
| "account_run fat CallLogout = run (logout :: (kernel, unit, user_info) sm)"
| "account_run fat (CallSessionForTest name) = run (set_session_for_test name :: (kernel, unit, bool) sm)"
| "account_run fat (CallChangePassword old_password new_password) = run (change_password fat old_password new_password)"
| "account_run fat (CallFirstRun name password) = run (complete_first_run_admin fat name password)"
| "account_run fat (CallCreate name password role) = run (create_user fat name password role)"
| "account_run fat (CallEnable name enabled) = run (set_user_enabled fat name enabled)"
| "account_run fat (CallRole name role) = run (set_user_role fat name role)"
| "account_run fat (CallReset name password) = run (reset_user_password fat name password)"
| "account_run fat (CallDelete name) = run (delete_user fat name)"
| "account_run fat CallResetFirstBoot = run (reset_first_boot_admin fat)"
| "account_run fat CallRepairFirstBoot = run (repair_first_boot_admin fat)"
| "account_run fat CallBootConsistency = run (ensure_first_boot_boot_consistency fat :: (kernel, unit, string list) sm)"
| "account_run fat (CallUmask um) = run (set_umask um :: (kernel, unit, u16) sm)"

text \<open>Between two account calls anything may happen to the rest of the kernel: files, running task, events and time.\<close>

inductive account_reach :: "fat_driver \<Rightarrow> kernel \<Rightarrow> kernel \<Rightarrow> bool" for fat k0 where
  start: "account_reach fat k0 k0"
| call: "account_reach fat k0 k \<Longrightarrow> account_reach fat k0 (snd (account_run fat c k))"
| other: "account_reach fat k0 k \<Longrightarrow> account_reach fat k0 (k\<lparr>fs := s, task_credentials := c, bus := b\<rparr>)"

lemma stable_snd: "stable I m \<Longrightarrow> I k \<Longrightarrow> I (snd (m k))"
  by (cases "m k"; cases "fst (m k)") (auto simp: stable_def valid_def)

lemma umask_inv: "stable acc (set_umask um)"
  unfolding set_umask_def upd_sec_def by (intro stable_intros stable_upd) (simp add: acc_def accounts_inv_def)

lemma run_inv: "stable I m \<Longrightarrow> stable I (run m)"
  unfolding run_def by (intro stable_intros)

lemma account_run_inv: "stable acc (account_run fat c)"
  by (cases c) (auto intro!: run_inv login_inv logout_inv session_for_test_inv change_password_inv first_run_inv create_user_inv
    set_user_enabled_inv set_user_role_inv reset_user_password_inv delete_user_inv first_boot_calls_inv umask_inv)

lemma account_reach_inv: "account_reach fat k0 k \<Longrightarrow> acc k0 \<Longrightarrow> acc k"
proof (induction rule: account_reach.induct)
  case (call k c)
  then show ?case by (intro stable_snd [OF account_run_inv]) simp
qed (simp_all add: acc_def)

end
