(* ===== verification/Descriptors.thy ===== *)
theory Descriptors
  imports Block_Cache
begin

text \<open>
  File descriptors and pipes of \<open>src/src/vfs.rs\<close>: the table of shared objects with their reference counts, the descriptor
  table of every task, and the ring buffer of a pipe. The functions here are those that run under the lock of \<open>VFS\<close>; the
  system calls around them are in \<open>Fd_Calls\<close>. A ring buffer is a queue of bytes (\<open>byte_queue\<close>), and the reference
  counts are the number of descriptors in use (\<open>fd_inv\<close>).
\<close>

section \<open>Data\<close>

definition MAX_FDS :: nat where "MAX_FDS = 16"
definition PIPE_SIZE :: nat where "PIPE_SIZE = 512"

definition EVENT_READ :: u64 where "EVENT_READ = 1"
definition EVENT_WRITE :: u64 where "EVENT_WRITE = 2"
definition EVENT_HANGUP :: u64 where "EVENT_HANGUP = 4"
definition EVENT_ERROR :: u64 where "EVENT_ERROR = 8"
definition EVENT_CHILD :: u64 where "EVENT_CHILD = 16"

record open_file =
  of_path :: "string option"
  of_data :: bytes
  of_offset :: nat
  of_writable :: bool
  of_dirty :: bool

record pipe =
  pi_buf :: bytes
  pi_head :: nat
  pi_tail :: nat
  pi_len :: nat
  pi_readers :: nat
  pi_writers :: nat
  waiting_readers :: "nat list"
  waiting_writers :: "nat list"

datatype shared_kind = FileObject open_file | PipeObject pipe

record shared_object =
  so_refs :: nat
  so_kind :: shared_kind

datatype fd_access = FileAccess | PipeRead | PipeWrite

record local_fd =
  lf_object :: nat
  lf_access :: fd_access

type_synonym fd_table = "local_fd option list"

record vfs_state =
  objects :: "shared_object option list"
  task_fds :: "fd_table list"
  task_shmem_refs :: "nat list list"

record release_event =
  wake_list :: "nat list"
  commit :: "(string \<times> bytes) option"

datatype pipe_read_result = PipeData bytes | WouldBlock | Eof

section \<open>Waiters\<close>

definition add_waiter :: "nat \<Rightarrow> nat list \<Rightarrow> nat list" where
  "add_waiter task_id waiters = (if list_ex (\<lambda>waiter. waiter = task_id) waiters then waiters else waiters @ [task_id])"

definition remove_waiter :: "nat \<Rightarrow> nat list \<Rightarrow> nat list" where
  "remove_waiter task_id waiters = filter (\<lambda>waiter. waiter \<noteq> task_id) waiters"

section \<open>Pipes\<close>

definition pipe_new :: pipe where
  "pipe_new = \<lparr>pi_buf = replicate PIPE_SIZE 0, pi_head = 0, pi_tail = 0, pi_len = 0, pi_readers = 0, pi_writers = 0,
     waiting_readers = [], waiting_writers = []\<rparr>"

text \<open>The first argument counts the bytes still wanted; the bytes of the result are those written to the buffer.\<close>

primrec pipe_read_loop :: "nat \<Rightarrow> pipe \<Rightarrow> bytes \<times> pipe" where
  "pipe_read_loop 0 p = ([], p)"
| "pipe_read_loop (Suc n) p =
     (if pi_len p > 0 then
        let b = pi_buf p ! pi_tail p;
            (bs, p') = pipe_read_loop n (p\<lparr>pi_tail := (pi_tail p + 1) mod PIPE_SIZE, pi_len := pi_len p - 1\<rparr>)
        in (b # bs, p')
      else ([], p))"

definition pipe_take :: "nat \<Rightarrow> nat \<Rightarrow> pipe \<Rightarrow> bytes \<times> pipe" where
  "pipe_take out_len len p = pipe_read_loop (min len out_len) p"

primrec pipe_write :: "bytes \<Rightarrow> pipe \<Rightarrow> nat \<times> pipe" where
  "pipe_write [] p = (0, p)"
| "pipe_write (b # bs) p =
     (if pi_len p < PIPE_SIZE then
        let (n, p') = pipe_write bs (p\<lparr>pi_buf := (pi_buf p)[pi_head p := b],
              pi_head := (pi_head p + 1) mod PIPE_SIZE, pi_len := pi_len p + 1\<rparr>)
        in (Suc n, p')
      else (0, p))"

definition pipe_read :: "nat \<Rightarrow> nat \<Rightarrow> pipe \<Rightarrow> pipe_read_result \<times> pipe" where
  "pipe_read out_len len p =
     (if pi_len p > 0 then let (bs, p') = pipe_take out_len len p in (PipeData bs, p')
      else if pi_writers p = 0 then (Eof, p)
      else (WouldBlock, p))"

definition add_reader_waiter :: "nat \<Rightarrow> pipe \<Rightarrow> pipe" where
  "add_reader_waiter task_id p = p\<lparr>waiting_readers := add_waiter task_id (waiting_readers p)\<rparr>"

definition add_writer_waiter :: "nat \<Rightarrow> pipe \<Rightarrow> pipe" where
  "add_writer_waiter task_id p = p\<lparr>waiting_writers := add_waiter task_id (waiting_writers p)\<rparr>"

definition pipe_remove_waiter :: "nat \<Rightarrow> pipe \<Rightarrow> pipe" where
  "pipe_remove_waiter task_id p =
     p\<lparr>waiting_readers := remove_waiter task_id (waiting_readers p), waiting_writers := remove_waiter task_id (waiting_writers p)\<rparr>"

definition take_readers :: "pipe \<Rightarrow> nat list \<times> pipe" where
  "take_readers p = (waiting_readers p, p\<lparr>waiting_readers := []\<rparr>)"

definition take_writers :: "pipe \<Rightarrow> nat list \<times> pipe" where
  "take_writers p = (waiting_writers p, p\<lparr>waiting_writers := []\<rparr>)"

section \<open>Descriptor tables\<close>

definition table_new :: fd_table where
  "table_new = replicate MAX_FDS None"

definition alloc_fd :: "local_fd \<Rightarrow> fd_table \<Rightarrow> nat option \<times> fd_table" where
  "alloc_fd entry table =
     (case find (\<lambda>fd. table ! fd = None) [3..<MAX_FDS] of
        Some fd \<Rightarrow> (Some fd, table[fd := Some entry])
      | None \<Rightarrow> (None, table))"

definition install_fd :: "nat \<Rightarrow> local_fd \<Rightarrow> fd_table \<Rightarrow> bool \<times> fd_table" where
  "install_fd fd entry table =
     (if fd \<ge> MAX_FDS \<or> table ! fd \<noteq> None then (False, table) else (True, table[fd := Some entry]))"

definition free_slots :: "fd_table \<Rightarrow> nat" where
  "free_slots table = length (filter (\<lambda>entry. entry = None) (drop 3 table))"

definition open_count :: "fd_table \<Rightarrow> nat" where
  "open_count table = length (filter (\<lambda>entry. entry \<noteq> None) table)"

section \<open>The state of the descriptor layer\<close>

definition vfs_new :: vfs_state where
  "vfs_new = \<lparr>objects = [], task_fds = [], task_shmem_refs = []\<rparr>"

definition ensure_task :: "nat \<Rightarrow> vfs_state \<Rightarrow> vfs_state" where
  "ensure_task task_id v =
     v\<lparr>task_fds := task_fds v @ replicate (Suc task_id - length (task_fds v)) table_new,
       task_shmem_refs := task_shmem_refs v @ replicate (Suc task_id - length (task_shmem_refs v)) []\<rparr>"

definition alloc_object :: "shared_kind \<Rightarrow> vfs_state \<Rightarrow> nat \<times> vfs_state" where
  "alloc_object k v =
     (let obj = Some \<lparr>so_refs = 0, so_kind = k\<rparr> in
      case position (\<lambda>slot. slot = None) (objects v) of
        Some oid \<Rightarrow> (oid, v\<lparr>objects := (objects v)[oid := obj]\<rparr>)
      | None \<Rightarrow> (length (objects v), v\<lparr>objects := objects v @ [obj]\<rparr>))"

definition current_entry :: "vfs_state \<Rightarrow> nat \<Rightarrow> nat \<Rightarrow> local_fd option" where
  "current_entry v task_id fd =
     (if task_id < length (task_fds v) \<and> fd < length (task_fds v ! task_id) then task_fds v ! task_id ! fd else None)"

definition live_object :: "vfs_state \<Rightarrow> nat \<Rightarrow> shared_object option" where
  "live_object v oid = (if oid < length (objects v) then objects v ! oid else None)"

definition put_object :: "nat \<Rightarrow> shared_object option \<Rightarrow> vfs_state \<Rightarrow> vfs_state" where
  "put_object oid obj v = v\<lparr>objects := (objects v)[oid := obj]\<rparr>"

definition put_entry :: "nat \<Rightarrow> nat \<Rightarrow> local_fd option \<Rightarrow> vfs_state \<Rightarrow> vfs_state" where
  "put_entry task_id fd entry v = v\<lparr>task_fds := (task_fds v)[task_id := (task_fds v ! task_id)[fd := entry]]\<rparr>"

definition retain_kind :: "fd_access \<Rightarrow> shared_kind \<Rightarrow> shared_kind" where
  "retain_kind a k =
     (case k of
        FileObject f \<Rightarrow> FileObject f
      | PipeObject p \<Rightarrow> PipeObject (case a of
            PipeRead \<Rightarrow> p\<lparr>pi_readers := pi_readers p + 1\<rparr>
          | PipeWrite \<Rightarrow> p\<lparr>pi_writers := pi_writers p + 1\<rparr>
          | FileAccess \<Rightarrow> p))"

definition retain_fd :: "local_fd \<Rightarrow> vfs_state \<Rightarrow> bool \<times> vfs_state" where
  "retain_fd entry v =
     (case live_object v (lf_object entry) of
        None \<Rightarrow> (False, v)
      | Some obj \<Rightarrow> (True, put_object (lf_object entry)
          (Some \<lparr>so_refs = so_refs obj + 1, so_kind = retain_kind (lf_access entry) (so_kind obj)\<rparr>) v))"

text \<open>The tasks to wake when an end of a pipe is released, and the pipe afterwards.\<close>

definition release_kind :: "fd_access \<Rightarrow> shared_kind \<Rightarrow> nat list \<times> shared_kind" where
  "release_kind a k =
     (case k of
        FileObject f \<Rightarrow> ([], FileObject f)
      | PipeObject p \<Rightarrow> (case a of
            PipeRead \<Rightarrow>
              let p1 = p\<lparr>pi_readers := pi_readers p - 1\<rparr> in
              if pi_readers p1 = 0 then
                let (woken, p2) = take_writers p1 in (woken, PipeObject (p2\<lparr>waiting_readers := []\<rparr>))
              else ([], PipeObject p1)
          | PipeWrite \<Rightarrow>
              let p1 = p\<lparr>pi_writers := pi_writers p - 1\<rparr> in
              if pi_writers p1 = 0 then
                let (woken, p2) = take_readers p1 in (woken, PipeObject p2)
              else ([], PipeObject p1)
          | FileAccess \<Rightarrow> ([], PipeObject p)))"

definition commit_of :: "shared_kind \<Rightarrow> (string \<times> bytes) option" where
  "commit_of k =
     (case k of
        FileObject f \<Rightarrow> if of_writable f \<and> of_dirty f then map_option (\<lambda>path. (path, of_data f)) (of_path f) else None
      | PipeObject _ \<Rightarrow> None)"

definition release_fd :: "local_fd \<Rightarrow> vfs_state \<Rightarrow> release_event \<times> vfs_state" where
  "release_fd entry v =
     (case live_object v (lf_object entry) of
        None \<Rightarrow> (\<lparr>wake_list = [], commit = None\<rparr>, v)
      | Some obj \<Rightarrow>
        let refs = so_refs obj - 1;
            (woken, k) = release_kind (lf_access entry) (so_kind obj)
        in if refs = 0
           then (\<lparr>wake_list = woken, commit = commit_of k\<rparr>, put_object (lf_object entry) None v)
           else (\<lparr>wake_list = woken, commit = None\<rparr>, put_object (lf_object entry) (Some \<lparr>so_refs = refs, so_kind = k\<rparr>) v))"

section \<open>Descriptors of a task\<close>

definition put_table :: "nat \<Rightarrow> fd_table \<Rightarrow> vfs_state \<Rightarrow> vfs_state" where
  "put_table task_id table v = v\<lparr>task_fds := (task_fds v)[task_id := table]\<rparr>"

definition init_task :: "nat \<Rightarrow> vfs_state \<Rightarrow> vfs_state" where
  "init_task task_id v0 =
     (let v = ensure_task task_id v0 in
      (put_table task_id table_new v)\<lparr>task_shmem_refs := (task_shmem_refs v)[task_id := []]\<rparr>)"

text \<open>Taking an entry out of a table and releasing it; \<open>None\<close> when the slot is empty.\<close>

definition close_entry :: "nat \<Rightarrow> nat \<Rightarrow> vfs_state \<Rightarrow> release_event option \<times> vfs_state" where
  "close_entry task_id fd v =
     (case current_entry v task_id fd of
        None \<Rightarrow> (None, v)
      | Some entry \<Rightarrow> let (event, v') = release_fd entry (put_entry task_id fd None v) in (Some event, v'))"

primrec drop_fds :: "nat \<Rightarrow> nat list \<Rightarrow> vfs_state \<Rightarrow> release_event list \<times> vfs_state" where
  "drop_fds task_id [] v = ([], v)"
| "drop_fds task_id (fd # fds) v =
     (let (event, v1) = close_entry task_id fd v; (events, v2) = drop_fds task_id fds v1 in
      (case event of Some e \<Rightarrow> e # events | None \<Rightarrow> events, v2))"

definition take_shmem_refs :: "nat \<Rightarrow> vfs_state \<Rightarrow> nat list \<times> vfs_state" where
  "take_shmem_refs task_id v =
     (if task_id < length (task_shmem_refs v)
      then (task_shmem_refs v ! task_id, v\<lparr>task_shmem_refs := (task_shmem_refs v)[task_id := []]\<rparr>)
      else ([], v))"

definition alloc_in :: "nat \<Rightarrow> local_fd \<Rightarrow> vfs_state \<Rightarrow> nat option \<times> vfs_state" where
  "alloc_in task_id entry v =
     (let (fd, table) = alloc_fd entry (task_fds v ! task_id) in (fd, put_table task_id table v))"

definition install_in :: "nat \<Rightarrow> nat \<Rightarrow> local_fd \<Rightarrow> vfs_state \<Rightarrow> bool \<times> vfs_state" where
  "install_in task_id fd entry v =
     (let (ok, table) = install_fd fd entry (task_fds v ! task_id) in (ok, put_table task_id table v))"

definition inherit_one :: "nat \<Rightarrow> nat \<Rightarrow> local_fd \<Rightarrow> nat list \<Rightarrow> vfs_state \<Rightarrow> bool \<times> vfs_state" where
  "inherit_one child fd entry installed v =
     (let (retained, v1) = retain_fd entry v;
          (ok, v2) = (if retained then install_in child fd entry v1 else (False, v1))
      in if ok then (True, v2)
         else let v3 = (if current_entry v2 child fd = None then snd (release_fd entry v2) else v2) in
              (False, snd (drop_fds child installed v3)))"

primrec inherit_loop :: "nat \<Rightarrow> nat \<Rightarrow> (nat \<times> nat) list \<Rightarrow> nat list \<Rightarrow> vfs_state \<Rightarrow> bool \<times> vfs_state" where
  "inherit_loop parent child [] installed v = (True, v)"
| "inherit_loop parent child (m # ms) installed v =
     (case current_entry v parent (fst m) of
        None \<Rightarrow> (False, snd (drop_fds child installed v))
      | Some entry \<Rightarrow>
        let (ok, v') = inherit_one child (snd m) entry installed v in
        if ok then inherit_loop parent child ms (installed @ [snd m]) v' else (False, v'))"

definition inherit_fds :: "nat \<Rightarrow> nat \<Rightarrow> (nat \<times> nat) list \<Rightarrow> vfs_state \<Rightarrow> bool \<times> vfs_state" where
  "inherit_fds parent child mappings v =
     inherit_loop parent child mappings [] (ensure_task child (ensure_task parent v))"

primrec inherit_all_loop :: "nat \<Rightarrow> (nat \<times> local_fd option) list \<Rightarrow> nat list \<Rightarrow> vfs_state \<Rightarrow> bool \<times> vfs_state" where
  "inherit_all_loop child [] installed v = (True, v)"
| "inherit_all_loop child (m # ms) installed v =
     (case snd m of
        None \<Rightarrow> inherit_all_loop child ms installed v
      | Some entry \<Rightarrow>
        let (ok, v') = inherit_one child (fst m) entry installed v in
        if ok then inherit_all_loop child ms (installed @ [fst m]) v' else (False, v'))"

definition inherit_all_fds :: "nat \<Rightarrow> nat \<Rightarrow> vfs_state \<Rightarrow> bool \<times> vfs_state" where
  "inherit_all_fds parent child v0 =
     (let v = ensure_task child (ensure_task parent v0) in
      inherit_all_loop child (enumerate 0 (task_fds v ! parent)) [] v)"

text \<open>The common part of \<open>vfs_open\<close> and \<open>vfs_open_write\<close> under the lock.\<close>

definition open_object :: "nat \<Rightarrow> open_file \<Rightarrow> vfs_state \<Rightarrow> nat option \<times> vfs_state" where
  "open_object task_id f v0 =
     (let v1 = ensure_task task_id v0 in
      if free_slots (task_fds v1 ! task_id) = 0 then (None, v1)
      else
        let (oid, v2) = alloc_object (FileObject f) v1;
            entry = \<lparr>lf_object = oid, lf_access = FileAccess\<rparr>;
            (retained, v3) = retain_fd entry v2
        in if \<not> retained then (None, v3)
           else case alloc_in task_id entry v3 of
                  (Some fd, v4) \<Rightarrow> (Some fd, v4)
                | (None, v4) \<Rightarrow> (None, snd (release_fd entry v4)))"

definition pipe_fds :: "nat \<Rightarrow> vfs_state \<Rightarrow> (nat \<times> nat) option \<times> vfs_state" where
  "pipe_fds task_id v0 =
     (let v1 = ensure_task task_id v0 in
      if free_slots (task_fds v1 ! task_id) < 2 then (None, v1)
      else
        let (oid, v2) = alloc_object (PipeObject pipe_new) v1;
            read_entry = \<lparr>lf_object = oid, lf_access = PipeRead\<rparr>;
            write_entry = \<lparr>lf_object = oid, lf_access = PipeWrite\<rparr>;
            (retained, v3) = retain_fd read_entry v2
        in if \<not> retained then (None, v3)
           else case alloc_in task_id read_entry v3 of
             (None, v4) \<Rightarrow> (None, snd (release_fd read_entry v4))
           | (Some read_fd, v4) \<Rightarrow>
               let (retained', v5) = retain_fd write_entry v4 in
               if \<not> retained' then (None, snd (release_fd read_entry (put_entry task_id read_fd None v5)))
               else case alloc_in task_id write_entry v5 of
                 (None, v6) \<Rightarrow> (None, snd (release_fd write_entry (snd (release_fd read_entry (put_entry task_id read_fd None v6)))))
               | (Some write_fd, v6) \<Rightarrow> (Some (read_fd, write_fd), v6))"

definition dup_fd :: "nat \<Rightarrow> nat \<Rightarrow> vfs_state \<Rightarrow> nat option \<times> vfs_state" where
  "dup_fd task_id fd v0 =
     (let v1 = ensure_task task_id v0 in
      if free_slots (task_fds v1 ! task_id) = 0 then (None, v1)
      else case current_entry v1 task_id fd of
        None \<Rightarrow> (None, v1)
      | Some entry \<Rightarrow>
        let (retained, v2) = retain_fd entry v1 in
        if \<not> retained then (None, v2)
        else case alloc_in task_id entry v2 of
          (Some new_fd, v3) \<Rightarrow> (Some new_fd, v3)
        | (None, v3) \<Rightarrow> (None, snd (release_fd entry v3)))"

section \<open>Reading, writing and polling\<close>

definition entry_object :: "vfs_state \<Rightarrow> nat \<Rightarrow> nat \<Rightarrow> (local_fd \<times> shared_object) option" where
  "entry_object v task_id fd =
     (case current_entry v task_id fd of
        None \<Rightarrow> None
      | Some entry \<Rightarrow> map_option (\<lambda>obj. (entry, obj)) (live_object v (lf_object entry)))"

definition put_kind :: "local_fd \<Rightarrow> shared_object \<Rightarrow> shared_kind \<Rightarrow> vfs_state \<Rightarrow> vfs_state" where
  "put_kind entry obj k v = put_object (lf_object entry) (Some (obj\<lparr>so_kind := k\<rparr>)) v"

definition file_read :: "nat \<Rightarrow> nat \<Rightarrow> open_file \<Rightarrow> bytes \<times> open_file" where
  "file_read buf_len len f =
     (let available = length (of_data f) - of_offset f;
          to_read = min (min len available) buf_len
      in (rslice (of_data f) (of_offset f) (of_offset f + to_read), f\<lparr>of_offset := of_offset f + to_read\<rparr>))"

text \<open>\<open>can_reserve n\<close> tells whether the heap has room for \<open>n\<close> more bytes.\<close>

definition file_write :: "(nat \<Rightarrow> bool) \<Rightarrow> bytes \<Rightarrow> open_file \<Rightarrow> open_file option" where
  "file_write can_reserve buf f =
     (let last = of_offset f + length buf in
      if last \<ge> 2 ^ 64 then None
      else if last > length (of_data f) \<and> \<not> can_reserve (last - length (of_data f)) then None
      else let grown = of_data f @ replicate (last - length (of_data f)) 0 in
           Some (f\<lparr>of_data := patch grown (of_offset f) buf, of_offset := last, of_dirty := True\<rparr>))"

datatype read_round = ReadFail | ReadDone bytes | ReadBlocks

text \<open>One pass of \<open>vfs_read_blocking\<close> under the lock, with the writers to wake.\<close>

definition read_pass :: "nat \<Rightarrow> nat \<Rightarrow> nat \<Rightarrow> nat \<Rightarrow> vfs_state \<Rightarrow> (read_round \<times> nat list) \<times> vfs_state" where
  "read_pass task_id fd buf_len len v =
     (case entry_object v task_id fd of
        None \<Rightarrow> ((ReadFail, []), v)
      | Some (entry, obj) \<Rightarrow>
        (case (so_kind obj, lf_access entry) of
           (FileObject f, FileAccess) \<Rightarrow>
             let (bs, f') = file_read buf_len len f in ((ReadDone bs, []), put_kind entry obj (FileObject f') v)
         | (PipeObject p, PipeRead) \<Rightarrow>
             (case pipe_read buf_len len p of
                (PipeData bs, p') \<Rightarrow>
                  let (woken, p'') = (if length bs > 0 then take_writers p' else ([], p')) in
                  ((ReadDone bs, woken), put_kind entry obj (PipeObject p'') v)
              | (Eof, p') \<Rightarrow> ((ReadDone [], []), put_kind entry obj (PipeObject p') v)
              | (WouldBlock, p') \<Rightarrow> ((ReadBlocks, []), put_kind entry obj (PipeObject (add_reader_waiter task_id p')) v))
         | _ \<Rightarrow> ((ReadFail, []), v)))"

definition read_fd :: "nat \<Rightarrow> nat \<Rightarrow> nat \<Rightarrow> nat \<Rightarrow> vfs_state \<Rightarrow> bytes option \<times> vfs_state" where
  "read_fd task_id fd buf_len len v =
     (case entry_object v task_id fd of
        None \<Rightarrow> (None, v)
      | Some (entry, obj) \<Rightarrow>
        (case (so_kind obj, lf_access entry) of
           (FileObject f, FileAccess) \<Rightarrow>
             let (bs, f') = file_read buf_len len f in (Some bs, put_kind entry obj (FileObject f') v)
         | (PipeObject p, PipeRead) \<Rightarrow>
             (case pipe_read buf_len len p of
                (PipeData bs, p') \<Rightarrow> (Some bs, put_kind entry obj (PipeObject p') v)
              | (_, p') \<Rightarrow> (Some [], put_kind entry obj (PipeObject p') v))
         | _ \<Rightarrow> (None, v)))"

definition read_fd_at :: "nat \<Rightarrow> nat \<Rightarrow> nat \<Rightarrow> nat \<Rightarrow> vfs_state \<Rightarrow> bytes option" where
  "read_fd_at task_id fd offset buf_len v =
     (case entry_object v task_id fd of
        None \<Rightarrow> None
      | Some (entry, obj) \<Rightarrow>
        (case (so_kind obj, lf_access entry) of
           (FileObject f, FileAccess) \<Rightarrow>
             if of_writable f then None
             else if offset \<ge> length (of_data f) then Some []
             else Some (rslice (of_data f) offset (offset + min (length (of_data f) - offset) buf_len))
         | _ \<Rightarrow> None))"

definition write_fd :: "(nat \<Rightarrow> bool) \<Rightarrow> nat \<Rightarrow> nat \<Rightarrow> bytes \<Rightarrow> vfs_state \<Rightarrow> (nat \<times> nat list) option \<times> vfs_state" where
  "write_fd can_reserve task_id fd buf v =
     (case entry_object v task_id fd of
        None \<Rightarrow> (None, v)
      | Some (entry, obj) \<Rightarrow>
        (case (so_kind obj, lf_access entry) of
           (FileObject f, FileAccess) \<Rightarrow>
             if \<not> of_writable f then (None, v)
             else (case file_write can_reserve buf f of
                     None \<Rightarrow> (None, v)
                   | Some f' \<Rightarrow> (Some (length buf, []), put_kind entry obj (FileObject f') v))
         | (PipeObject p, PipeWrite) \<Rightarrow>
             if pi_readers p = 0 then (None, v)
             else let (n, p') = pipe_write buf p;
                      (woken, p'') = (if n > 0 then take_readers p' else ([], p'))
                  in (Some (n, woken), put_kind entry obj (PipeObject p'') v)
         | _ \<Rightarrow> (None, v)))"

definition wants :: "u64 \<Rightarrow> u64 \<Rightarrow> bool" where
  "wants events e = (and events e \<noteq> 0)"

definition poll_kind :: "shared_kind \<Rightarrow> fd_access \<Rightarrow> u64 \<Rightarrow> u64" where
  "poll_kind k a events =
     (case (k, a) of
        (FileObject f, FileAccess) \<Rightarrow>
          or (if wants events EVENT_READ then EVENT_READ else 0)
             (if of_writable f \<and> wants events EVENT_WRITE then EVENT_WRITE else 0)
      | (PipeObject p, PipeRead) \<Rightarrow>
          or (if wants events EVENT_READ \<and> pi_len p > 0 then EVENT_READ else 0)
             (if pi_writers p = 0 then or EVENT_HANGUP (if wants events EVENT_READ then EVENT_READ else 0) else 0)
      | (PipeObject p, PipeWrite) \<Rightarrow>
          if pi_readers p = 0 then EVENT_HANGUP
          else if wants events EVENT_WRITE \<and> pi_len p < PIPE_SIZE then EVENT_WRITE
          else 0
      | _ \<Rightarrow> EVENT_ERROR)"

definition poll_fd :: "nat \<Rightarrow> nat \<Rightarrow> u64 \<Rightarrow> vfs_state \<Rightarrow> u64" where
  "poll_fd task_id fd events v =
     (case entry_object v task_id fd of
        None \<Rightarrow> EVENT_ERROR
      | Some (entry, obj) \<Rightarrow> poll_kind (so_kind obj) (lf_access entry) events)"

definition register_poll_waiter :: "nat \<Rightarrow> nat \<Rightarrow> nat \<Rightarrow> u64 \<Rightarrow> vfs_state \<Rightarrow> bool \<times> vfs_state" where
  "register_poll_waiter owner fd task_id events v =
     (case entry_object v owner fd of
        None \<Rightarrow> (False, v)
      | Some (entry, obj) \<Rightarrow>
        (case (so_kind obj, lf_access entry) of
           (PipeObject p, PipeRead) \<Rightarrow>
             (True, if wants events EVENT_READ then put_kind entry obj (PipeObject (add_reader_waiter task_id p)) v else v)
         | (PipeObject p, PipeWrite) \<Rightarrow>
             (True, if wants events EVENT_WRITE then put_kind entry obj (PipeObject (add_writer_waiter task_id p)) v else v)
         | (FileObject f, FileAccess) \<Rightarrow> (True, v)
         | _ \<Rightarrow> (False, v)))"

definition unregister_poll_waiter :: "nat \<Rightarrow> nat \<Rightarrow> nat \<Rightarrow> vfs_state \<Rightarrow> vfs_state" where
  "unregister_poll_waiter owner fd task_id v =
     (case entry_object v owner fd of
        None \<Rightarrow> v
      | Some (entry, obj) \<Rightarrow>
        (case so_kind obj of
           PipeObject p \<Rightarrow> put_kind entry obj (PipeObject (pipe_remove_waiter task_id p)) v
         | FileObject _ \<Rightarrow> v))"

definition task_open_fd_count :: "nat \<Rightarrow> vfs_state \<Rightarrow> nat" where
  "task_open_fd_count task_id v = (if task_id < length (task_fds v) then open_count (task_fds v ! task_id) else 0)"


section \<open>A pipe is a queue of bytes\<close>

definition pipe_ok :: "pipe \<Rightarrow> bool" where
  "pipe_ok p = (length (pi_buf p) = PIPE_SIZE \<and> pi_tail p < PIPE_SIZE \<and> pi_len p \<le> PIPE_SIZE \<and>
     pi_head p = (pi_tail p + pi_len p) mod PIPE_SIZE)"

definition contents :: "pipe \<Rightarrow> bytes" where
  "contents p = map (\<lambda>i. pi_buf p ! ((pi_tail p + i) mod PIPE_SIZE)) [0..<pi_len p]"

text \<open>
  The contract of a bounded queue, and what it means for its users: whatever the order of the calls, the bytes that were
  accepted come out once, in order.
\<close>

datatype 'a queue_op = Put "'a list" | Get nat

locale bounded_queue =
  fixes fits :: "'q \<Rightarrow> bool" and elems :: "'q \<Rightarrow> 'a list" and cap :: nat
    and put :: "'a list \<Rightarrow> 'q \<Rightarrow> nat \<times> 'q" and get :: "nat \<Rightarrow> 'q \<Rightarrow> 'a list \<times> 'q"
  assumes put_law: "fits q \<Longrightarrow> fits (snd (put xs q)) \<and> fst (put xs q) = min (length xs) (cap - length (elems q)) \<and>
      elems (snd (put xs q)) = elems q @ take (fst (put xs q)) xs"
    and get_law: "fits q \<Longrightarrow> fits (snd (get n q)) \<and> length (fst (get n q)) = min n (length (elems q)) \<and>
      elems q = fst (get n q) @ elems (snd (get n q))"
    and cap_law: "fits q \<Longrightarrow> length (elems q) \<le> cap"

primrec queue_run :: "('a list \<Rightarrow> 'q \<Rightarrow> nat \<times> 'q) \<Rightarrow> (nat \<Rightarrow> 'q \<Rightarrow> 'a list \<times> 'q) \<Rightarrow> 'a queue_op list \<Rightarrow> 'q \<Rightarrow> 'a list \<times> 'a list \<times> 'q" where
  "queue_run put get [] q = ([], [], q)"
| "queue_run put get (x # xs) q =
     (case x of
        Put bs \<Rightarrow> (let (n, q1) = put bs q; (sent, received, q2) = queue_run put get xs q1 in (take n bs @ sent, received, q2))
      | Get k \<Rightarrow> (let (out, q1) = get k q; (sent, received, q2) = queue_run put get xs q1 in (sent, out @ received, q2)))"

context bounded_queue
begin

lemma queue_stream:
  "fits q \<Longrightarrow> queue_run put get ops q = (sent, received, q') \<Longrightarrow> fits q' \<and> elems q @ sent = received @ elems q'"
proof (induction ops arbitrary: q sent received)
  case (Cons x ops)
  show ?case
  proof (cases x)
    case (Put bs)
    obtain s r where r: "queue_run put get ops (snd (put bs q)) = (s, r, q')" "sent = take (fst (put bs q)) bs @ s" "received = r"
      using Cons.prems(2) Put by (auto simp: split_beta Let_def prod_eq_iff)
    show ?thesis using Cons.IH [OF _ r(1)] put_law [OF Cons.prems(1), of bs] r by auto
  next
    case (Get k)
    obtain s r where r: "queue_run put get ops (snd (get k q)) = (s, r, q')" "sent = s" "received = fst (get k q) @ r"
      using Cons.prems(2) Get by (auto simp: split_beta Let_def prod_eq_iff)
    have "elems q = fst (get k q) @ elems (snd (get k q))" using get_law [OF Cons.prems(1), of k] by simp
    then show ?thesis using Cons.IH [OF _ r(1)] get_law [OF Cons.prems(1), of k] r by (metis append.assoc)
  qed
qed auto

lemma queue_progress: "fits q \<Longrightarrow> elems q \<noteq> [] \<Longrightarrow> n > 0 \<Longrightarrow> fst (get n q) \<noteq> []"
proof -
  assume "fits q" "elems q \<noteq> []" "n > 0"
  then have "length (fst (get n q)) > 0" using get_law [OF \<open>fits q\<close>, of n, THEN conjunct2, THEN conjunct1] by simp
  then show "fst (get n q) \<noteq> []" by auto
qed

end

lemma add_mod_neq: "i < l \<Longrightarrow> l < n \<Longrightarrow> (t + i) mod n \<noteq> (t + l) mod (n::nat)"
proof
  assume "i < l" "l < n" "(t + i) mod n = (t + l) mod n"
  then have "n dvd (t + l) - (t + i)" using mod_eq_dvd_iff_nat [of "t + i" "t + l" n] by simp
  then have "n dvd l - i" by simp
  then show False using \<open>i < l\<close> \<open>l < n\<close> by (auto dest: dvd_imp_le)
qed

lemma pipe_push:
  fixes b :: u8
  assumes "pipe_ok p" "pi_len p < PIPE_SIZE"
  defines "p' \<equiv> p\<lparr>pi_buf := (pi_buf p)[pi_head p := b], pi_head := (pi_head p + 1) mod PIPE_SIZE, pi_len := pi_len p + 1\<rparr>"
  shows "pipe_ok p'" and "contents p' = contents p @ [b]"
proof -
  have h: "pi_head p = (pi_tail p + pi_len p) mod PIPE_SIZE" "length (pi_buf p) = PIPE_SIZE" "PIPE_SIZE > 0"
    using assms(1) by (auto simp: pipe_ok_def PIPE_SIZE_def)
  show "pipe_ok p'" using assms by (auto simp: pipe_ok_def mod_simps)
  have "pi_head p < PIPE_SIZE" using h by simp
  then have "(pi_buf p)[pi_head p := b] ! ((pi_tail p + i) mod PIPE_SIZE) =
      (if i = pi_len p then b else pi_buf p ! ((pi_tail p + i) mod PIPE_SIZE))" if "i < Suc (pi_len p)" for i
    using that h add_mod_neq [of i "pi_len p" PIPE_SIZE "pi_tail p"] assms(2) by (cases "i = pi_len p") (simp_all add: nth_list_update)
  then show "contents p' = contents p @ [b]" by (simp add: contents_def p'_def)
qed

lemma pipe_pop:
  assumes "pipe_ok p" "pi_len p > 0"
  defines "p' \<equiv> p\<lparr>pi_tail := (pi_tail p + 1) mod PIPE_SIZE, pi_len := pi_len p - 1\<rparr>"
  shows "pipe_ok p'" and "contents p = pi_buf p ! pi_tail p # contents p'"
proof -
  have h: "pi_tail p < PIPE_SIZE" "PIPE_SIZE > 0" using assms(1) by (auto simp: pipe_ok_def PIPE_SIZE_def)
  obtain n where n: "pi_len p = Suc n" using assms(2) by (cases "pi_len p") auto
  show "pipe_ok p'" using assms(1) h n by (simp add: pipe_ok_def p'_def mod_simps)
  have "[0..<Suc n] = 0 # map Suc [0..<n]" by (simp add: map_Suc_upt upt_conv_Cons del: upt_Suc)
  then show "contents p = pi_buf p ! pi_tail p # contents p'"
    using h by (simp add: contents_def p'_def n mod_simps del: upt_Suc)
qed

lemma length_contents [simp]: "length (contents p) = pi_len p"
  by (simp add: contents_def)

lemma pipe_write_queue:
  "pipe_ok p \<Longrightarrow> pipe_ok (snd (pipe_write bs p)) \<and> fst (pipe_write bs p) = min (length bs) (PIPE_SIZE - length (contents p)) \<and>
     contents (snd (pipe_write bs p)) = contents p @ take (fst (pipe_write bs p)) bs"
proof (induction bs arbitrary: p)
  case (Cons b bs)
  show ?case
  proof (cases "pi_len p < PIPE_SIZE")
    case True
    show ?thesis using Cons.IH [OF pipe_push(1) [OF Cons.prems True]] pipe_push(2) [OF Cons.prems True] True by (auto simp: split_beta)
  qed (use Cons.prems in auto)
qed auto

lemma pipe_read_queue:
  "pipe_ok p \<Longrightarrow> pipe_ok (snd (pipe_read_loop n p)) \<and> length (fst (pipe_read_loop n p)) = min n (length (contents p)) \<and>
     contents p = fst (pipe_read_loop n p) @ contents (snd (pipe_read_loop n p))"
proof (induction n arbitrary: p)
  case (Suc n)
  show ?case
  proof (cases "pi_len p > 0")
    case True
    let ?p = "p\<lparr>pi_tail := (pi_tail p + 1) mod PIPE_SIZE, pi_len := pi_len p - 1\<rparr>"
    obtain bs p' where r: "pipe_read_loop n ?p = (bs, p')" by fastforce
    have c: "contents p = pi_buf p ! pi_tail p # contents ?p" by (rule pipe_pop(2) [OF Suc.prems True])
    have "pipe_ok p'" "length bs = min n (pi_len p - 1)" "contents ?p = bs @ contents p'"
      using Suc.IH [OF pipe_pop(1) [OF Suc.prems True]] r by simp_all
    moreover have "pipe_read_loop (Suc n) p = (pi_buf p ! pi_tail p # bs, p')" using True r by simp
    moreover have "pi_len p = Suc (length bs + pi_len p')"
      using arg_cong [OF c, of length] arg_cong [OF \<open>contents ?p = bs @ contents p'\<close>, of length] by simp
    ultimately show ?thesis using c by (simp del: pipe_read_loop.simps)
  qed (use Suc.prems in \<open>auto simp: contents_def\<close>)
qed auto

interpretation pipe_queue: bounded_queue pipe_ok contents PIPE_SIZE pipe_write pipe_read_loop
  by unfold_locales (rule pipe_write_queue, assumption, rule pipe_read_queue, assumption, simp add: pipe_ok_def)

text \<open>What reading and writing leave alone.\<close>

lemma pipe_write_frame:
  "pi_readers (snd (pipe_write bs p)) = pi_readers p \<and> pi_writers (snd (pipe_write bs p)) = pi_writers p \<and>
     waiting_readers (snd (pipe_write bs p)) = waiting_readers p \<and> waiting_writers (snd (pipe_write bs p)) = waiting_writers p"
  by (induction bs arbitrary: p) (auto simp: split_beta)

lemma pipe_read_frame:
  "pi_readers (snd (pipe_read_loop n p)) = pi_readers p \<and> pi_writers (snd (pipe_read_loop n p)) = pi_writers p \<and>
     waiting_readers (snd (pipe_read_loop n p)) = waiting_readers p \<and> waiting_writers (snd (pipe_read_loop n p)) = waiting_writers p"
  by (induction n arbitrary: p) (auto simp: split_beta)


section \<open>Reference counts\<close>

definition hit :: "(local_fd \<Rightarrow> bool) \<Rightarrow> local_fd option \<Rightarrow> bool" where
  "hit P entry = (case entry of Some e \<Rightarrow> P e | None \<Rightarrow> False)"

text \<open>The number of descriptors with a property, in the tables of all tasks and in a list of further ones.\<close>

definition uses :: "(local_fd \<Rightarrow> bool) \<Rightarrow> vfs_state \<Rightarrow> nat" where
  "uses P v = sum_list (map (\<lambda>table. length (filter (hit P) table)) (task_fds v))"

definition held :: "local_fd list \<Rightarrow> (local_fd \<Rightarrow> bool) \<Rightarrow> vfs_state \<Rightarrow> nat" where
  "held E P v = uses P v + length (filter P E)"

definition in_use :: "vfs_state \<Rightarrow> local_fd \<Rightarrow> bool" where
  "in_use v e = (\<exists>task_id fd. current_entry v task_id fd = Some e)"

definition access_ok :: "fd_access \<Rightarrow> shared_kind \<Rightarrow> bool" where
  "access_ok a k = (case k of FileObject _ \<Rightarrow> a = FileAccess | PipeObject _ \<Rightarrow> a \<noteq> FileAccess)"

definition kind_ok :: "shared_kind \<Rightarrow> nat \<Rightarrow> nat \<Rightarrow> bool" where
  "kind_ok k r w =
     (case k of
        FileObject f \<Rightarrow> of_offset f \<le> length (of_data f)
      | PipeObject p \<Rightarrow> pipe_ok p \<and> pi_readers p = r \<and> pi_writers p = w)"

abbreviation at :: "nat \<Rightarrow> local_fd \<Rightarrow> bool" where
  "at oid e \<equiv> lf_object e = oid"

abbreviation reads :: "nat \<Rightarrow> local_fd \<Rightarrow> bool" where
  "reads oid e \<equiv> lf_object e = oid \<and> lf_access e = PipeRead"

abbreviation writes :: "nat \<Rightarrow> local_fd \<Rightarrow> bool" where
  "writes oid e \<equiv> lf_object e = oid \<and> lf_access e = PipeWrite"

definition object_ok :: "local_fd list \<Rightarrow> vfs_state \<Rightarrow> nat \<Rightarrow> shared_object \<Rightarrow> bool" where
  "object_ok E v oid obj = (so_refs obj = held E (at oid) v \<and> so_refs obj > 0 \<and>
     kind_ok (so_kind obj) (held E (reads oid) v) (held E (writes oid) v))"

text \<open>The invariant, while the descriptors of the list \<open>E\<close> are counted but in no table.\<close>

definition fd_inv :: "local_fd list \<Rightarrow> vfs_state \<Rightarrow> bool" where
  "fd_inv E v =
     ((\<forall>table \<in> set (task_fds v). length table = MAX_FDS) \<and>
      (\<forall>oid obj. live_object v oid = Some obj \<longrightarrow> object_ok E v oid obj) \<and>
      (\<forall>e. in_use v e \<or> e \<in> set E \<longrightarrow> (\<exists>obj. live_object v (lf_object e) = Some obj \<and> access_ok (lf_access e) (so_kind obj))))"

lemma filter_update_count:
  "i < length xs \<Longrightarrow> length (filter P (xs[i := y])) + (if P (xs ! i) then 1 else 0) = length (filter P xs) + (if P y then 1 else 0)"
proof (induction xs arbitrary: i)
  case (Cons x xs)
  show ?case using Cons.IH [of "i - 1"] Cons.prems by (cases i) (auto split: if_splits)
qed simp

lemma sum_list_update_map:
  fixes f :: "'a \<Rightarrow> nat"
  shows "i < length xs \<Longrightarrow> sum_list (map f (xs[i := y])) + f (xs ! i) = sum_list (map f xs) + f y"
  by (induction xs arbitrary: i) (auto split: nat.split simp: add.assoc add.left_commute)

lemma uses_put_entry:
  assumes "t < length (task_fds v)" "fd < length (task_fds v ! t)"
  shows "uses P (put_entry t fd e v) + (if hit P (current_entry v t fd) then 1 else 0) = uses P v + (if hit P e then 1 else 0)"
  using sum_list_update_map [OF assms(1), of "\<lambda>table. length (filter (hit P) table)" "(task_fds v ! t)[fd := e]"]
    filter_update_count [OF assms(2), of "hit P" e] assms
  by (simp add: uses_def put_entry_def current_entry_def split: if_splits)

lemma in_use_uses: "in_use v e \<Longrightarrow> P e \<Longrightarrow> uses P v > 0"
proof -
  assume "in_use v e" "P e"
  then obtain t fd where t: "t < length (task_fds v)" "fd < length (task_fds v ! t)" "task_fds v ! t ! fd = Some e"
    by (auto simp: in_use_def current_entry_def split: if_splits)
  then have "Some e \<in> set (filter (hit P) (task_fds v ! t))" using \<open>P e\<close> by (auto simp: hit_def in_set_conv_nth)
  then have "length (filter (hit P) (task_fds v ! t)) > 0" by (metis length_pos_if_in_set)
  also have "\<dots> \<le> uses P v" unfolding uses_def using t(1) by (intro member_le_sum_list) auto
  finally show ?thesis .
qed

lemma held_Cons: "held (e # E) P v = held E P v + (if P e then 1 else 0)"
  by (simp add: held_def)

lemma put_object_simps [simp]:
  "task_fds (put_object oid obj v) = task_fds v"
  "uses P (put_object oid obj v) = uses P v"
  "held E P (put_object oid obj v) = held E P v"
  "current_entry (put_object oid obj v) t fd = current_entry v t fd"
  "in_use (put_object oid obj v) e = in_use v e"
  by (simp_all add: put_object_def uses_def held_def current_entry_def in_use_def)

lemma live_put_object:
  "live_object (put_object oid obj v) i = (if i = oid \<and> oid < length (objects v) then obj else live_object v i)"
  by (auto simp: live_object_def put_object_def)

lemma live_bound: "live_object v oid = Some obj \<Longrightarrow> oid < length (objects v)"
  by (auto simp: live_object_def split: if_splits)

lemma live_put_entry [simp]: "live_object (put_entry t fd e v) oid = live_object v oid"
  by (simp add: live_object_def put_entry_def)

lemma current_put_entry:
  "t < length (task_fds v) \<Longrightarrow> fd < length (task_fds v ! t) \<Longrightarrow>
     current_entry (put_entry t fd e v) t' fd' = (if t' = t \<and> fd' = fd then e else current_entry v t' fd')"
  by (auto simp: current_entry_def put_entry_def nth_list_update)

lemma fd_invD:
  assumes "fd_inv E v"
  shows "table \<in> set (task_fds v) \<Longrightarrow> length table = MAX_FDS"
    and "live_object v oid = Some obj \<Longrightarrow> object_ok E v oid obj"
    and "in_use v e \<or> e \<in> set E \<Longrightarrow> \<exists>obj. live_object v (lf_object e) = Some obj \<and> access_ok (lf_access e) (so_kind obj)"
  using assms by (auto simp: fd_inv_def)

lemma retain_inv:
  assumes inv: "fd_inv E v" and live: "live_object v (lf_object e) = Some obj" and ok: "access_ok (lf_access e) (so_kind obj)"
  obtains v' where "retain_fd e v = (True, v')" "fd_inv (e # E) v'" "task_fds v' = task_fds v"
proof -
  let ?obj = "\<lparr>so_refs = so_refs obj + 1, so_kind = retain_kind (lf_access e) (so_kind obj)\<rparr>"
  let ?v = "put_object (lf_object e) (Some ?obj) v"
  have lv: "live_object ?v i = (if i = lf_object e then Some ?obj else live_object v i)" for i
    using live_bound [OF live] by (simp add: live_put_object)
  have "object_ok (e # E) ?v (lf_object e) ?obj"
    using fd_invD(2) [OF inv live] ok
    by (auto simp: object_ok_def held_Cons kind_ok_def retain_kind_def access_ok_def pipe_ok_def split: shared_kind.splits fd_access.splits)
  moreover have "object_ok (e # E) ?v i o'" if "i \<noteq> lf_object e" "live_object v i = Some o'" for i o'
    using fd_invD(2) [OF inv that(2)] that(1) by (simp add: object_ok_def held_Cons)
  moreover have "access_ok a (so_kind ?obj) = access_ok a (so_kind obj)" for a
    by (auto simp: access_ok_def retain_kind_def split: shared_kind.splits)
  ultimately have "fd_inv (e # E) ?v"
    using fd_invD(1,3) [OF inv] live ok unfolding fd_inv_def lv by (fastforce simp: fd_inv_def split: if_splits)
  then show ?thesis using that live by (simp add: retain_fd_def)
qed

lemma release_task_fds [simp]: "task_fds (snd (release_fd e v)) = task_fds v"
  by (simp add: release_fd_def split: option.splits prod.splits)

lemma release_kind_ok:
  "kind_ok k (r + (if a = PipeRead then 1 else 0)) (w + (if a = PipeWrite then 1 else 0)) \<Longrightarrow> kind_ok (snd (release_kind a k)) r w"
  by (auto simp: kind_ok_def release_kind_def take_readers_def take_writers_def pipe_ok_def Let_def split: shared_kind.splits fd_access.splits)

lemma release_kind_access: "access_ok b (snd (release_kind a k)) = access_ok b k"
  by (auto simp: access_ok_def release_kind_def take_readers_def take_writers_def Let_def split: shared_kind.splits fd_access.splits)

lemma release_inv:
  assumes inv: "fd_inv (e # E) v"
  shows "fd_inv E (snd (release_fd e v))"
proof -
  obtain obj where live: "live_object v (lf_object e) = Some obj" and ok: "access_ok (lf_access e) (so_kind obj)"
    using fd_invD(3) [OF inv, of e] by auto
  obtain woken k where k: "release_kind (lf_access e) (so_kind obj) = (woken, k)" by fastforce
  let ?oid = "lf_object e"
  let ?obj = "if so_refs obj - 1 = 0 then None else Some \<lparr>so_refs = so_refs obj - 1, so_kind = k\<rparr>"
  let ?v = "put_object ?oid ?obj v"
  have lv: "live_object ?v i = (if i = ?oid then ?obj else live_object v i)" for i
    using live_bound [OF live] by (simp add: live_put_object)
  have oo: "object_ok (e # E) v ?oid obj" by (rule fd_invD(2) [OF inv live])
  then have refs: "so_refs obj = held E (at ?oid) v + 1" by (simp add: object_ok_def held_Cons)
  have "object_ok E ?v ?oid o'" if "?obj = Some o'" for o'
    using oo that release_kind_ok [of "so_kind obj" "held E (reads ?oid) v" "lf_access e" "held E (writes ?oid) v"] k
    by (auto simp: object_ok_def held_Cons split: if_splits)
  moreover have "object_ok E ?v i o'" if "i \<noteq> ?oid" "live_object v i = Some o'" for i o'
    using fd_invD(2) [OF inv that(2)] that(1) by (simp add: object_ok_def held_Cons)
  moreover have "lf_object x \<noteq> ?oid" if "?obj = None" "in_use v x \<or> x \<in> set E" for x
  proof
    assume x: "lf_object x = ?oid"
    have "held E (at ?oid) v = 0" using that(1) refs by (simp split: if_splits)
    then show False using that(2) x in_use_uses [of v x "at ?oid"] by (auto simp: held_def filter_empty_conv)
  qed
  moreover have "access_ok a k = access_ok a (so_kind obj)" for a using release_kind_access [of a "lf_access e" "so_kind obj"] k by simp
  ultimately have "fd_inv E ?v"
    using fd_invD(1,3) [OF inv] live unfolding fd_inv_def lv by (fastforce simp: fd_inv_def split: if_splits)
  moreover have "snd (release_fd e v) = ?v" using live k by (simp add: release_fd_def)
  ultimately show ?thesis by simp
qed


section \<open>The table operations keep the counts\<close>

lemma fd_inv_transfer:
  assumes "fd_inv E v" "\<And>oid. live_object v' oid = live_object v oid" "\<And>P. held E' P v' = held E P v"
    "\<And>x. in_use v' x \<or> x \<in> set E' \<Longrightarrow> in_use v x \<or> x \<in> set E" "\<And>table. table \<in> set (task_fds v') \<Longrightarrow> length table = MAX_FDS"
  shows "fd_inv E' v'"
proof -
  have "object_ok E' v' oid obj = object_ok E v oid obj" for oid obj by (simp add: object_ok_def assms(3))
  then show ?thesis using assms(1,4,5) unfolding fd_inv_def assms(2) by blast
qed

lemma put_entry_tables:
  assumes "fd_inv E v" "table \<in> set (task_fds (put_entry t fd e v))"
  shows "length table = MAX_FDS"
proof (cases "t < length (task_fds v)")
  case True
  then show ?thesis using assms fd_invD(1) [OF assms(1)] by (auto simp: put_entry_def dest!: subsetD [OF set_update_subset_insert])
qed (use assms fd_invD(1) [OF assms(1)] in \<open>auto simp: put_entry_def list_update_beyond\<close>)

lemma current_entry_range:
  "current_entry v t fd = Some e \<Longrightarrow> t < length (task_fds v) \<and> fd < length (task_fds v ! t)"
  by (simp add: current_entry_def split: if_splits)

lemma install_inv:
  assumes inv: "fd_inv (e # E) v" and t: "t < length (task_fds v)" "fd < length (task_fds v ! t)" "current_entry v t fd = None"
  shows "fd_inv E (put_entry t fd (Some e) v)"
proof (rule fd_inv_transfer [OF inv])
  show "held E P (put_entry t fd (Some e) v) = held (e # E) P v" for P
    using uses_put_entry [OF t(1,2), of P "Some e"] t(3) by (simp add: held_def hit_def)
  show "in_use (put_entry t fd (Some e) v) x \<or> x \<in> set E \<Longrightarrow> in_use v x \<or> x \<in> set (e # E)" for x
    by (auto simp: in_use_def current_put_entry [OF t(1,2)] split: if_splits)
qed (auto simp: put_entry_tables [OF inv])

lemma take_inv:
  assumes inv: "fd_inv E v" and t: "current_entry v t fd = Some e"
  shows "fd_inv (e # E) (put_entry t fd None v)"
proof (rule fd_inv_transfer [OF inv])
  note r = current_entry_range [OF t, THEN conjunct1] current_entry_range [OF t, THEN conjunct2]
  show "held (e # E) P (put_entry t fd None v) = held E P v" for P
    using uses_put_entry [OF r, of P None] t by (simp add: held_def hit_def split: if_splits)
  show "in_use (put_entry t fd None v) x \<or> x \<in> set (e # E) \<Longrightarrow> in_use v x \<or> x \<in> set E" for x
    using t by (auto simp: in_use_def current_put_entry [OF r] split: if_splits)
qed (auto simp: put_entry_tables [OF inv])

lemma sum_list_replicate_zero: "sum_list (map f xs @ map f (replicate n x)) = sum_list (map f xs) + n * (f x :: nat)"
  by (simp add: sum_list_replicate map_replicate_const)

lemma hit_table_new: "length (filter (hit P) table_new) = 0"
  by (simp add: table_new_def hit_def filter_empty_conv)

lemma current_ensure [simp]: "current_entry (ensure_task t v) t' fd = current_entry v t' fd"
  by (auto simp: current_entry_def ensure_task_def nth_append table_new_def)

lemma live_ensure [simp]: "live_object (ensure_task t v) oid = live_object v oid"
  by (simp add: live_object_def ensure_task_def)

lemma ensure_length [simp]: "t < length (task_fds (ensure_task t v))" "t < length (task_shmem_refs (ensure_task t v))"
  by (simp_all add: ensure_task_def)

lemma ensure_length_mono: "i < length (task_fds v) \<Longrightarrow> i < length (task_fds (ensure_task t v))"
  by (simp add: ensure_task_def)

lemma ensure_inv:
  assumes "fd_inv E v"
  shows "fd_inv E (ensure_task t v)"
proof (rule fd_inv_transfer [OF assms])
  show "held E P (ensure_task t v) = held E P v" for P
    using hit_table_new [of P] by (simp add: held_def uses_def ensure_task_def sum_list_replicate map_replicate_const del: length_0_conv)
  show "length table = MAX_FDS" if "table \<in> set (task_fds (ensure_task t v))" for table
    using that fd_invD(1) [OF assms] by (auto simp: ensure_task_def table_new_def)
qed (auto simp: in_use_def)

lemma current_entry_cong: "task_fds v = task_fds w \<Longrightarrow> current_entry v a b = current_entry w a b"
  by (simp add: current_entry_def)

lemma table_length: "fd_inv E v \<Longrightarrow> t < length (task_fds v) \<Longrightarrow> length (task_fds v ! t) = MAX_FDS"
  using fd_invD(1) nth_mem by blast

lemma put_table_same [simp]: "put_table t (task_fds v ! t) v = v"
  by (simp add: put_table_def)

lemma put_table_update: "put_table t ((task_fds v ! t)[fd := e]) v = put_entry t fd e v"
  by (simp add: put_table_def put_entry_def)

lemma current_entry_nth: "fd_inv E v \<Longrightarrow> t < length (task_fds v) \<Longrightarrow> fd < MAX_FDS \<Longrightarrow> current_entry v t fd = task_fds v ! t ! fd"
  using table_length by (auto simp: current_entry_def)

lemma init_table:
  assumes inv: "fd_inv E v" and empty: "\<And>fd. current_entry v t fd = None"
  shows "task_fds (init_task t v) = task_fds (ensure_task t v)"
proof -
  let ?v = "ensure_task t v"
  have "task_fds ?v ! t = table_new"
    using table_length [OF ensure_inv [OF inv, of t], of t] current_entry_nth [OF ensure_inv [OF inv, of t], of t] empty
    by (auto simp: table_new_def list_eq_iff_nth_eq)
  then show ?thesis by (simp add: init_task_def put_table_def Let_def) (metis list_update_id)
qed

lemma live_init [simp]: "live_object (init_task t v) oid = live_object v oid"
  by (simp add: live_object_def init_task_def put_table_def ensure_task_def Let_def)

lemma init_inv:
  assumes inv: "fd_inv E v" and empty: "\<And>fd. current_entry v t fd = None"
  shows "fd_inv E (init_task t v)" and "current_entry (init_task t v) t' fd = current_entry v t' fd"
proof -
  note same = init_table [OF assms]
  have c: "current_entry (init_task t v) a b = current_entry v a b" for a b
    using current_entry_cong [OF same, of a b] by simp
  then show "current_entry (init_task t v) t' fd = current_entry v t' fd" .
  show "fd_inv E (init_task t v)"
    by (rule fd_inv_transfer [OF ensure_inv [OF inv, of t]])
      (use same c fd_invD(1) [OF ensure_inv [OF inv, of t]] in \<open>auto simp: held_def uses_def in_use_def\<close>)
qed

lemma uses_in_use: "uses P v > 0 \<Longrightarrow> \<exists>e. in_use v e \<and> P e"
proof -
  assume "uses P v > 0"
  then obtain table where t: "table \<in> set (task_fds v)" "filter (hit P) table \<noteq> []"
    by (auto simp: uses_def sum_list_eq_0_iff neq0_conv [symmetric] simp del: neq0_conv)
  then obtain x where x: "x \<in> set table" "hit P x" by (auto simp: filter_empty_conv)
  then obtain e where "x = Some e" "P e" by (auto simp: hit_def split: option.splits)
  then show ?thesis using t(1) x by (fastforce simp: in_use_def current_entry_def in_set_conv_nth)
qed

lemma held_pos: "held E P v > 0 \<Longrightarrow> \<exists>e. (in_use v e \<or> e \<in> set E) \<and> P e"
  using uses_in_use [of P v] by (auto simp: held_def filter_empty_conv)

lemma alloc_live:
  assumes "alloc_object k v = (oid, v')"
  shows "live_object v oid = None" "live_object v' i = (if i = oid then Some \<lparr>so_refs = 0, so_kind = k\<rparr> else live_object v i)"
    "task_fds v' = task_fds v" "task_shmem_refs v' = task_shmem_refs v"
  using assms position_Some [of "\<lambda>slot. slot = None" "objects v"]
  by (auto simp: alloc_object_def live_object_def Let_def nth_append less_Suc_eq split: option.splits)

lemma alloc_retain_inv:
  assumes inv: "fd_inv E v" and a: "alloc_object k v = (oid, v1)" and e: "e = \<lparr>lf_object = oid, lf_access = m\<rparr>"
    and ok: "access_ok m k" "kind_ok (retain_kind m k) (if m = PipeRead then 1 else 0) (if m = PipeWrite then 1 else 0)"
  obtains v2 where "retain_fd e v1 = (True, v2)" "fd_inv (e # E) v2" "task_fds v2 = task_fds v"
proof -
  note l = alloc_live [OF a]
  let ?obj = "\<lparr>so_refs = 1, so_kind = retain_kind m k\<rparr>"
  let ?v = "put_object oid (Some ?obj) v1"
  have fds: "task_fds ?v = task_fds v" using l(3) by simp
  have same: "held E' P v1 = held E' P v" "in_use v1 x = in_use v x" for E' P x
    using l(3) by (simp_all add: held_def uses_def in_use_def current_entry_def)
  have lv: "live_object ?v i = (if i = oid then Some ?obj else live_object v i)" for i
    using l(2) live_bound [of v1 oid] by (auto simp: live_put_object)
  have away: "lf_object x \<noteq> oid" if "in_use v x \<or> x \<in> set E" for x
    using fd_invD(3) [OF inv that] l(1) by auto
  have z: "held E P v = 0" if "\<And>x. P x \<Longrightarrow> lf_object x = oid" for P
    using held_pos [of E P v] away that by (metis not_gr0)
  have "object_ok (e # E) ?v oid ?obj" using ok(2) e z [of "at oid"] z [of "reads oid"] z [of "writes oid"] by (simp add: object_ok_def held_Cons same split: if_splits)
  moreover have "object_ok (e # E) ?v i o'" if "i \<noteq> oid" "live_object v i = Some o'" for i o'
    using fd_invD(2) [OF inv that(2)] that(1) e by (simp add: object_ok_def held_Cons same)
  moreover have "access_ok m (retain_kind m k)" using ok(1) by (auto simp: access_ok_def retain_kind_def split: shared_kind.splits)
  ultimately have "fd_inv (e # E) ?v"
    using fd_invD(1,3) [OF inv] away e unfolding fd_inv_def lv fds by (fastforce simp: same split: if_splits)
  moreover have "retain_fd e v1 = (True, ?v)" using l(2) [of oid] e by (simp add: retain_fd_def)
  ultimately show ?thesis using that fds by blast
qed


section \<open>Every descriptor operation keeps the counts\<close>

lemma alloc_in_cases:
  assumes "fd_inv E v" "t < length (task_fds v)" "alloc_in t e v = (r, v')"
  shows "case r of None \<Rightarrow> v' = v | Some fd \<Rightarrow> 3 \<le> fd \<and> fd < MAX_FDS \<and> current_entry v t fd = None \<and> v' = put_entry t fd (Some e) v"
  using assms current_entry_nth [OF assms(1,2)]
  by (auto simp: alloc_in_def alloc_fd_def put_table_update find_Some_iff split: option.splits prod.splits)

lemma alloc_in_inv:
  assumes "fd_inv (e # E) v" "t < length (task_fds v)" "alloc_in t e v = (Some fd, v')"
  shows "fd_inv E v'"
  using alloc_in_cases [OF assms] install_inv [OF assms(1,2), of fd] table_length [OF assms(1,2)] by simp

lemma open_object_inv:
  assumes inv: "fd_inv E v" and f: "of_offset f \<le> length (of_data f)"
  shows "fd_inv E (snd (open_object t f v))"
proof -
  let ?v = "ensure_task t v"
  note i1 = ensure_inv [OF inv, of t]
  obtain oid v2 where a: "alloc_object (FileObject f) ?v = (oid, v2)" by fastforce
  let ?e = "\<lparr>lf_object = oid, lf_access = FileAccess\<rparr>"
  obtain v3 where v3: "retain_fd ?e v2 = (True, v3)" "fd_inv (?e # E) v3" "task_fds v3 = task_fds ?v"
    using alloc_retain_inv [OF i1 a refl] f by (auto simp: access_ok_def kind_ok_def retain_kind_def)
  have t: "t < length (task_fds v3)" using v3(3) by simp
  obtain r v4 where r: "alloc_in t ?e v3 = (r, v4)" by fastforce
  have "fd_inv E (snd (case r of Some fd \<Rightarrow> (Some fd, v4) | None \<Rightarrow> (None, snd (release_fd ?e v4))))"
    using alloc_in_inv [OF v3(2) t] alloc_in_cases [OF v3(2) t r] release_inv [OF v3(2)] r by (auto split: option.splits)
  then show ?thesis using i1 a v3(1) r by (simp add: open_object_def Let_def split: option.splits)
qed

lemma pipe_fds_inv:
  assumes inv: "fd_inv E v"
  shows "fd_inv E (snd (pipe_fds t v))"
proof -
  let ?v = "ensure_task t v"
  note i1 = ensure_inv [OF inv, of t]
  obtain oid v2 where a: "alloc_object (PipeObject pipe_new) ?v = (oid, v2)" by fastforce
  let ?r = "\<lparr>lf_object = oid, lf_access = PipeRead\<rparr>" and ?w = "\<lparr>lf_object = oid, lf_access = PipeWrite\<rparr>"
  have "kind_ok (retain_kind PipeRead (PipeObject pipe_new)) 1 0"
    by (simp add: kind_ok_def retain_kind_def pipe_ok_def pipe_new_def PIPE_SIZE_def)
  then obtain v3 where v3: "retain_fd ?r v2 = (True, v3)" "fd_inv (?r # E) v3" "task_fds v3 = task_fds ?v"
    using alloc_retain_inv [OF i1 a refl, of PipeRead] by (auto simp: access_ok_def)
  have t3: "t < length (task_fds v3)" using v3(3) by simp
  obtain r v4 where r: "alloc_in t ?r v3 = (r, v4)" by fastforce
  show ?thesis
  proof (cases r)
    case None
    then have "v4 = v3" using alloc_in_cases [OF v3(2) t3 r] by simp
    then show ?thesis using i1 a v3(1) r None release_inv [OF v3(2)] by (simp add: pipe_fds_def Let_def)
  next
    case (Some rfd)
    have i4: "fd_inv E v4" using alloc_in_inv [OF v3(2) t3] r Some by blast
    have v4: "v4 = put_entry t rfd (Some ?r) v3" "rfd < MAX_FDS" using alloc_in_cases [OF v3(2) t3 r] Some by auto
    have c4: "current_entry v4 t rfd = Some ?r"
      using v4 table_length [OF v3(2) t3] t3 by (simp add: current_put_entry)
    have "in_use v4 ?r" using c4 by (auto simp: in_use_def)
    then obtain obj where obj: "live_object v4 oid = Some obj" "access_ok PipeRead (so_kind obj)"
      using fd_invD(3) [OF i4, of ?r] by auto
    obtain v5 where v5: "retain_fd ?w v4 = (True, v5)" "fd_inv (?w # E) v5" "task_fds v5 = task_fds v4"
      using retain_inv [OF i4, of ?w obj] obj by (auto simp: access_ok_def split: shared_kind.splits)
    have t5: "t < length (task_fds v5)" using v5(3) v4(1) t3 by (simp add: put_entry_def)
    obtain r' v6 where r': "alloc_in t ?w v5 = (r', v6)" by fastforce
    have c5: "current_entry v5 t rfd = Some ?r" using c4 current_entry_cong [OF v5(3)] by simp
    have "fd_inv E (snd (release_fd ?w (snd (release_fd ?r (put_entry t rfd None v5)))))"
      by (rule release_inv, rule release_inv, rule take_inv [OF v5(2) c5])
    moreover have "fd_inv E v6" if "r' = Some fd" for fd using alloc_in_inv [OF v5(2) t5] r' that by blast
    moreover have "v6 = v5" if "r' = None" using alloc_in_cases [OF v5(2) t5 r'] that by simp
    ultimately show ?thesis using i1 a v3(1) r Some v5(1) r' by (auto simp: pipe_fds_def Let_def split: option.splits)
  qed
qed

lemma dup_fd_inv:
  assumes inv: "fd_inv E v"
  shows "fd_inv E (snd (dup_fd t fd v))"
proof -
  let ?v = "ensure_task t v"
  note i1 = ensure_inv [OF inv, of t]
  show ?thesis
  proof (cases "current_entry v t fd")
    case (Some e)
    then have "in_use ?v e" by (auto simp: in_use_def)
    then obtain obj where obj: "live_object ?v (lf_object e) = Some obj" "access_ok (lf_access e) (so_kind obj)"
      using fd_invD(3) [OF i1, of e] by blast
    obtain v2 where v2: "retain_fd e ?v = (True, v2)" "fd_inv (e # E) v2" "task_fds v2 = task_fds ?v"
      by (rule retain_inv [OF i1 obj])
    have t: "t < length (task_fds v2)" using v2(3) by simp
    obtain r v3 where r: "alloc_in t e v2 = (r, v3)" by fastforce
    have "fd_inv E (snd (case r of Some fd \<Rightarrow> (Some fd, v3) | None \<Rightarrow> (None, snd (release_fd e v3))))"
      using alloc_in_inv [OF v2(2) t] alloc_in_cases [OF v2(2) t r] release_inv [OF v2(2)] r by (auto split: option.splits)
    then show ?thesis using i1 Some v2(1) r by (simp add: dup_fd_def Let_def split: option.splits)
  qed (use i1 in \<open>simp add: dup_fd_def Let_def\<close>)
qed

lemma close_entry_state:
  "snd (close_entry t fd v) = (case current_entry v t fd of None \<Rightarrow> v | Some e \<Rightarrow> snd (release_fd e (put_entry t fd None v)))"
  by (simp add: close_entry_def split: option.splits prod.splits)

lemma close_entry_inv: "fd_inv E v \<Longrightarrow> fd_inv E (snd (close_entry t fd v))"
  by (auto simp: close_entry_state release_inv take_inv split: option.splits)

lemma drop_fds_inv: "fd_inv E v \<Longrightarrow> fd_inv E (snd (drop_fds t fds v))"
proof (induction fds arbitrary: v)
  case (Cons fd fds)
  show ?case using Cons.IH [OF close_entry_inv [OF Cons.prems]] by (simp add: split_beta)
qed simp

lemma current_close_entry:
  "current_entry (snd (close_entry t fd v)) t' fd' = (if t' = t \<and> fd' = fd then None else current_entry v t' fd')"
proof (cases "current_entry v t fd")
  case (Some e)
  have "current_entry (snd (close_entry t fd v)) t' fd' = current_entry (put_entry t fd None v) t' fd'"
    using Some current_entry_cong [OF release_task_fds] by (simp add: close_entry_state)
  then show ?thesis using current_put_entry current_entry_range [OF Some] by simp
qed (auto simp: close_entry_def)

lemma current_drop_fds:
  "current_entry (snd (drop_fds t fds v)) t' fd' = (if t' = t \<and> fd' \<in> set fds then None else current_entry v t' fd')"
  by (induction fds arbitrary: v) (auto simp: split_beta current_close_entry)

lemma close_entry_length: "length (task_fds (snd (close_entry t fd v))) = length (task_fds v)"
  by (simp add: close_entry_state put_entry_def split: option.splits)


lemma drop_fds_length: "length (task_fds (snd (drop_fds t fds v))) = length (task_fds v)"
  by (induction fds arbitrary: v) (simp_all add: split_beta close_entry_length)

lemma install_in_cases:
  assumes "fd_inv E v" "t < length (task_fds v)"
  shows "install_in t fd e v = (if fd < MAX_FDS \<and> current_entry v t fd = None then (True, put_entry t fd (Some e) v) else (False, v))"
  using current_entry_nth [OF assms, of fd] by (auto simp: install_in_def install_fd_def put_table_update not_le)

text \<open>
  A descriptor is inherited without a trace in the counts when it fails, provided that its slot in the child's table is
  free: for an occupied slot the reference that was taken is never given back.
\<close>

lemma inherit_one_inv:
  assumes inv: "fd_inv E v" and t: "c < length (task_fds v)" and e: "in_use v e" and free: "current_entry v c fd = None"
    and r: "inherit_one c fd e installed v = (done_ok, v')"
  shows "fd_inv E v'" "length (task_fds v') = length (task_fds v)"
    "done_ok \<Longrightarrow> current_entry v' a b = (if a = c \<and> b = fd then Some e else current_entry v a b)"
    "\<not> done_ok \<Longrightarrow> current_entry v' a b = (if a = c \<and> b \<in> set installed then None else current_entry v a b)"
proof -
  obtain obj where obj: "live_object v (lf_object e) = Some obj" "access_ok (lf_access e) (so_kind obj)"
    using fd_invD(3) [OF inv] e by blast
  obtain v1 where v1: "retain_fd e v = (True, v1)" "fd_inv (e # E) v1" "task_fds v1 = task_fds v" by (rule retain_inv [OF inv obj])
  have t1: "c < length (task_fds v1)" "current_entry v1 a b = current_entry v a b" for a b
    using t v1(3) current_entry_cong [OF v1(3)] by auto
  note c = install_in_cases [OF v1(2) t1(1), of fd e]
  show "fd_inv E v'"
    using r v1(1) c free t1 install_inv [OF v1(2) t1(1), of fd] table_length [OF v1(2) t1(1)] drop_fds_inv [OF release_inv [OF v1(2)], of c installed]
    by (auto simp: inherit_one_def split: if_splits)
  show "length (task_fds v') = length (task_fds v)"
    using r v1(1) c free t1 v1(3) drop_fds_length [of c installed "snd (release_fd e v1)"]
    by (auto simp: inherit_one_def put_entry_def split: if_splits)
  show "current_entry v' a b = (if a = c \<and> b = fd then Some e else current_entry v a b)" if done_ok
    using r v1(1) c that free t1 current_put_entry [OF t1(1), of fd] table_length [OF v1(2) t1(1)]
    by (auto simp: inherit_one_def split: if_splits)
  show "current_entry v' a b = (if a = c \<and> b \<in> set installed then None else current_entry v a b)" if "\<not> done_ok"
    using r v1(1) c that free t1 current_drop_fds [of c installed "snd (release_fd e v1)" a b] current_entry_cong [OF release_task_fds, of e v1 a b]
    by (auto simp: inherit_one_def split: if_splits)
qed

lemma inherit_loop_inv:
  assumes "fd_inv E v" "c < length (task_fds v)" "distinct (map snd ms)" "\<And>m. m \<in> set ms \<Longrightarrow> current_entry v c (snd m) = None"
  shows "fd_inv E (snd (inherit_loop p c ms installed v))"
  using assms
proof (induction ms arbitrary: v installed)
  case (Cons m ms)
  show ?case
  proof (cases "current_entry v p (fst m)")
    case None
    then show ?thesis using drop_fds_inv [OF Cons.prems(1)] by simp
  next
    case (Some e)
    then have e: "in_use v e" by (auto simp: in_use_def)
    obtain done_ok v' where r: "inherit_one c (snd m) e installed v = (done_ok, v')" by fastforce
    have free: "current_entry v c (snd m) = None" using Cons.prems(4) by simp
    note one = inherit_one_inv [OF Cons.prems(1,2) e free r]
    have "fd_inv E (snd (inherit_loop p c ms (installed @ [snd m]) v'))" if done_ok
    proof (rule Cons.IH [OF one(1)])
      show "current_entry v' c (snd m') = None" if "m' \<in> set ms" for m'
      proof -
        have "snd m' \<noteq> snd m" using Cons.prems(3) imageI [OF that, of snd] by (metis distinct.simps(2) list.set_map list.simps(9))
        moreover have "current_entry v c (snd m') = None" using Cons.prems(4) that by simp
        ultimately show ?thesis using one(3) [OF \<open>done_ok\<close>, of c "snd m'"] by simp
      qed
    qed (use Cons.prems(2,3) one(2) in auto)
    then show ?thesis using Some r one(1) by simp
  qed
qed simp

lemma inherit_fds_inv:
  assumes "fd_inv E v" "distinct (map snd ms)" "\<And>fd. current_entry v c fd = None"
  shows "fd_inv E (snd (inherit_fds p c ms v))"
  unfolding inherit_fds_def using assms by (intro inherit_loop_inv ensure_inv) auto

lemma inherit_all_loop_inv:
  assumes "fd_inv E v" "c < length (task_fds v)" "distinct (map fst ms)" "\<And>m. m \<in> set ms \<Longrightarrow> current_entry v c (fst m) = None"
    "\<And>fd e. (fd, Some e) \<in> set ms \<Longrightarrow> in_use v e"
  shows "fd_inv E (snd (inherit_all_loop c ms installed v))"
  using assms
proof (induction ms arbitrary: v installed)
  case (Cons m ms)
  show ?case
  proof (cases "snd m")
    case None
    moreover have "fd_inv E (snd (inherit_all_loop c ms installed v))"
      by (rule Cons.IH) (use Cons.prems in auto)
    ultimately show ?thesis by simp
  next
    case (Some e)
    then have e: "in_use v e" using Cons.prems(5) [of "fst m" e] by (metis list.set_intros(1) prod.collapse)
    obtain done_ok v' where r: "inherit_one c (fst m) e installed v = (done_ok, v')" by fastforce
    have free: "current_entry v c (fst m) = None" using Cons.prems(4) by simp
    note one = inherit_one_inv [OF Cons.prems(1,2) e free r]
    have "fd_inv E (snd (inherit_all_loop c ms (installed @ [fst m]) v'))" if done_ok
    proof (rule Cons.IH [OF one(1)])
      show "current_entry v' c (fst m') = None" if "m' \<in> set ms" for m'
      proof -
        have "fst m' \<noteq> fst m" using Cons.prems(3) imageI [OF that, of fst] by (metis distinct.simps(2) list.set_map list.simps(9))
        moreover have "current_entry v c (fst m') = None" using Cons.prems(4) that by simp
        ultimately show ?thesis using one(3) [OF \<open>done_ok\<close>, of c "fst m'"] by simp
      qed
      show "in_use v' x" if x: "(fd, Some x) \<in> set ms" for fd x
      proof -
        obtain a b where ab: "current_entry v a b = Some x" using Cons.prems(5) x by (fastforce simp: in_use_def)
        then have "current_entry v' a b = Some x" using one(3) [OF \<open>done_ok\<close>, of a b] free by auto
        then show ?thesis by (auto simp: in_use_def)
      qed
    qed (use Cons.prems(2,3) one(2) in auto)
    then show ?thesis using Some r one(1) by simp
  qed
qed simp

lemma inherit_all_inv:
  assumes "fd_inv E v" "\<And>fd. current_entry v c fd = None"
  shows "fd_inv E (snd (inherit_all_fds p c v))"
proof -
  let ?v = "ensure_task c (ensure_task p v)"
  have i: "fd_inv E ?v" using assms(1) by (intro ensure_inv)
  have p: "p < length (task_fds ?v)" by (intro ensure_length_mono ensure_length)
  have "in_use ?v e" if "(fd, Some e) \<in> set (enumerate 0 (task_fds ?v ! p))" for fd e
  proof -
    have "current_entry ?v p fd = Some e" using that p by (auto simp: current_entry_def in_set_enumerate_eq)
    then show ?thesis unfolding in_use_def by blast
  qed
  then show ?thesis unfolding inherit_all_fds_def Let_def using assms(2) by (intro inherit_all_loop_inv i) auto
qed

section \<open>Reading and writing keep the counts\<close>

lemma put_kind_inv:
  assumes inv: "fd_inv E v" and eo: "entry_object v t fd = Some (e, obj)"
    and k: "\<And>r w. kind_ok (so_kind obj) r w \<Longrightarrow> kind_ok k r w" "\<And>a. access_ok a k = access_ok a (so_kind obj)"
  shows "fd_inv E (put_kind e obj k v)"
proof -
  have live: "live_object v (lf_object e) = Some obj" using eo by (auto simp: entry_object_def split: option.splits)
  let ?v = "put_object (lf_object e) (Some (obj\<lparr>so_kind := k\<rparr>)) v"
  have lv: "live_object ?v i = (if i = lf_object e then Some (obj\<lparr>so_kind := k\<rparr>) else live_object v i)" for i
    using live_bound [OF live] by (simp add: live_put_object)
  have "object_ok E ?v (lf_object e) (obj\<lparr>so_kind := k\<rparr>)" using fd_invD(2) [OF inv live] k(1) by (simp add: object_ok_def)
  moreover have "object_ok E ?v i x" if "live_object v i = Some x" for i x
    using fd_invD(2) [OF inv that] by (simp add: object_ok_def)
  ultimately show ?thesis
    using fd_invD(1,3) [OF inv] live k(2) unfolding put_kind_def fd_inv_def lv by (fastforce split: if_splits)
qed

lemma put_kind_entries [simp]: "current_entry (put_kind e obj k v) t fd = current_entry v t fd" "task_fds (put_kind e obj k v) = task_fds v"
  by (simp_all add: put_kind_def)

lemma entry_access:
  assumes "fd_inv E v" "entry_object v t fd = Some (e, obj)"
  shows "access_ok (lf_access e) (so_kind obj)" "live_object v (lf_object e) = Some obj" "current_entry v t fd = Some e"
  using assms fd_invD(3) [OF assms(1), of e] by (auto simp: entry_object_def in_use_def split: option.splits)

lemma waiter_pipe_ok [simp]:
  "pipe_ok (add_reader_waiter t p) = pipe_ok p" "pipe_ok (add_writer_waiter t p) = pipe_ok p"
  "pipe_ok (pipe_remove_waiter t p) = pipe_ok p" "pipe_ok (snd (take_readers p)) = pipe_ok p" "pipe_ok (snd (take_writers p)) = pipe_ok p"
  by (simp_all add: pipe_ok_def add_reader_waiter_def add_writer_waiter_def pipe_remove_waiter_def take_readers_def take_writers_def)

lemmas waiter_defs = add_reader_waiter_def add_writer_waiter_def pipe_remove_waiter_def take_readers_def take_writers_def

lemma pipe_read_kind:
  assumes "pipe_read n l p = (r, p')"
  shows "kind_ok (PipeObject p) a b \<Longrightarrow> kind_ok (PipeObject p') a b" "waiting_readers p' = waiting_readers p" "waiting_writers p' = waiting_writers p"
  using assms pipe_read_queue [of p "min l n"] pipe_read_frame [of "min l n" p]
  by (auto simp: pipe_read_def pipe_take_def kind_ok_def split: if_splits prod.splits)

lemma kind_ok_waiters [simp]:
  "kind_ok (PipeObject (p\<lparr>waiting_readers := x\<rparr>)) a b = kind_ok (PipeObject p) a b"
  "kind_ok (PipeObject (p\<lparr>waiting_writers := x\<rparr>)) a b = kind_ok (PipeObject p) a b"
  by (simp_all add: kind_ok_def pipe_ok_def)

lemma file_read_kind: "file_read n l f = (bs, f') \<Longrightarrow> kind_ok (FileObject f) a b \<Longrightarrow> kind_ok (FileObject f') a b"
  by (auto simp: file_read_def kind_ok_def Let_def)

lemma file_write_kind:
  "file_write can_reserve buf f = Some f' \<Longrightarrow> kind_ok (FileObject f) a b \<Longrightarrow> kind_ok (FileObject f') a b"
  by (auto simp: file_write_def kind_ok_def Let_def split: if_splits)

lemma pipe_write_kind: "pipe_write bs p = (n, p') \<Longrightarrow> kind_ok (PipeObject p) a b \<Longrightarrow> kind_ok (PipeObject p') a b"
  using pipe_write_queue [of p bs] pipe_write_frame [of bs p] by (auto simp: kind_ok_def)

lemmas kind_rules = pipe_read_kind(1) file_read_kind file_write_kind pipe_write_kind
lemmas fd_splits = option.splits prod.splits shared_kind.splits fd_access.splits pipe_read_result.splits if_splits

lemma read_pass_inv: "fd_inv E v \<Longrightarrow> fd_inv E (snd (read_pass t fd n l v))"
  by (auto simp: read_pass_def waiter_defs split: fd_splits intro!: put_kind_inv) (auto simp: access_ok_def dest: kind_rules)

lemma read_fd_inv: "fd_inv E v \<Longrightarrow> fd_inv E (snd (read_fd t fd n l v))"
  by (auto simp: read_fd_def split: fd_splits intro!: put_kind_inv) (auto simp: access_ok_def dest: kind_rules)

lemma write_fd_inv: "fd_inv E v \<Longrightarrow> fd_inv E (snd (write_fd can_reserve t fd buf v))"
  by (auto simp: write_fd_def waiter_defs split: fd_splits intro!: put_kind_inv) (auto simp: access_ok_def dest: kind_rules)

lemma register_inv: "fd_inv E v \<Longrightarrow> fd_inv E (snd (register_poll_waiter t fd w ev v))"
  by (auto simp: register_poll_waiter_def waiter_defs split: fd_splits intro!: put_kind_inv) (auto simp: access_ok_def)

lemma unregister_inv: "fd_inv E v \<Longrightarrow> fd_inv E (unregister_poll_waiter t fd w v)"
  by (auto simp: unregister_poll_waiter_def waiter_defs split: fd_splits intro!: put_kind_inv) (auto simp: access_ok_def)


section \<open>Inheriting touches only the child\<close>

lemma retain_task_fds [simp]: "task_fds (snd (retain_fd e v)) = task_fds v"
  by (simp add: retain_fd_def split: option.splits)

lemma install_in_other: "a \<noteq> c \<Longrightarrow> current_entry (snd (install_in c fd e v)) a b = current_entry v a b"
  by (simp add: install_in_def put_table_def current_entry_def split_beta Let_def)

lemma inherit_one_other:
  assumes "a \<noteq> c"
  shows "current_entry (snd (inherit_one c fd e installed v)) a b = current_entry v a b"
  using install_in_other [OF assms, of fd e "snd (retain_fd e v)" b] assms
  by (simp add: inherit_one_def split_beta Let_def current_drop_fds current_entry_cong [OF release_task_fds] current_entry_cong [OF retain_task_fds])

lemma inherit_loop_other: "a \<noteq> c \<Longrightarrow> current_entry (snd (inherit_loop p c ms installed v)) a b = current_entry v a b"
proof (induction ms arbitrary: installed v)
  case (Cons m ms)
  then show ?case by (auto simp: current_drop_fds inherit_one_other split_beta split: option.splits)
qed simp

lemma inherit_fds_other: "a \<noteq> c \<Longrightarrow> current_entry (snd (inherit_fds p c ms v)) a b = current_entry v a b"
  by (simp add: inherit_fds_def inherit_loop_other)

lemma inherit_all_loop_other: "a \<noteq> c \<Longrightarrow> current_entry (snd (inherit_all_loop c ms installed v)) a b = current_entry v a b"
proof (induction ms arbitrary: installed v)
  case (Cons m ms)
  then show ?case by (auto simp: inherit_one_other split_beta split: option.splits)
qed simp

lemma inherit_all_other: "a \<noteq> c \<Longrightarrow> current_entry (snd (inherit_all_fds p c v)) a b = current_entry v a b"
  by (simp add: inherit_all_fds_def inherit_all_loop_other Let_def)

text \<open>Inheriting into an occupied slot leaves a reference behind that no descriptor holds.\<close>

lemma inherit_occupied:
  assumes inv: "fd_inv E v" and t: "c < length (task_fds v)" and e: "in_use v e" and occupied: "current_entry v c fd = Some x"
  shows "\<exists>v'. inherit_one c fd e [fd] v = (False, v') \<and> fd_inv (e # E) v' \<and>
    (\<forall>a b. current_entry v' a b = (if a = c \<and> b = fd then None else current_entry v a b))"
proof -
  obtain obj where obj: "live_object v (lf_object e) = Some obj" "access_ok (lf_access e) (so_kind obj)"
    using fd_invD(3) [OF inv] e by blast
  obtain v1 where v1: "retain_fd e v = (True, v1)" "fd_inv (e # E) v1" "task_fds v1 = task_fds v" by (rule retain_inv [OF inv obj])
  have t1: "c < length (task_fds v1)" "\<And>a b. current_entry v1 a b = current_entry v a b"
    using t v1(3) current_entry_cong [OF v1(3)] by auto
  have "inherit_one c fd e [fd] v = (False, snd (drop_fds c [fd] v1))"
    using v1(1) install_in_cases [OF v1(2) t1(1), of fd e] t1(2) occupied by (simp add: inherit_one_def)
  then show ?thesis using drop_fds_inv [OF v1(2)] t1(2) by (simp add: current_drop_fds del: drop_fds.simps)
qed

text \<open>C40: Two mappings to the same descriptor of the child leak: when a process is started with the descriptor \<open>a\<close> of its parent
  mapped twice to the free slot \<open>b\<close>, inheriting fails and the child's table is empty again, but the reference count of the
  object is one more than the number of its descriptors. The object is never released: a pipe never reports the end of the
  stream to its reader.
\<close>

theorem inherit_duplicate_leaks:
  assumes inv: "fd_inv [] v" and p: "current_entry v p a = Some e" and c: "\<And>fd. current_entry v c fd = None" and b: "b < MAX_FDS"
  shows "\<exists>v'. inherit_fds p c [(a, b), (a, b)] v = (False, v') \<and> fd_inv [e] v' \<and> \<not> fd_inv [] v' \<and>
    (\<forall>t fd. current_entry v' t fd = current_entry v t fd)"
proof -
  let ?v = "ensure_task c (ensure_task p v)"
  have i: "fd_inv [] ?v" using inv by (intro ensure_inv)
  have t: "c < length (task_fds ?v)" by simp
  have ne: "p \<noteq> c" using p c by auto
  have e: "in_use ?v e" using p by (auto simp: in_use_def)
  have free: "current_entry ?v c b = None" using c by simp
  obtain ok1 v1 where r: "inherit_one c b e [] ?v = (ok1, v1)" by fastforce
  note one = inherit_one_inv [OF i t e free r]
  have ok1: "ok1"
  proof -
    obtain obj where obj: "live_object ?v (lf_object e) = Some obj" "access_ok (lf_access e) (so_kind obj)" using fd_invD(3) [OF i] e by blast
    obtain v0 where v0: "retain_fd e ?v = (True, v0)" "fd_inv [e] v0" "task_fds v0 = task_fds ?v" by (rule retain_inv [OF i obj])
    have "current_entry v0 c b = None" "c < length (task_fds v0)" using current_entry_cong [OF v0(3)] free v0(3) by auto
    then show ?thesis using r v0(1) install_in_cases [OF v0(2), of c b e] b by (simp add: inherit_one_def)
  qed
  have c1: "current_entry v1 x y = (if x = c \<and> y = b then Some e else current_entry v x y)" for x y using one(3) [OF ok1, of x y] by simp
  have e1: "in_use v1 e" "c < length (task_fds v1)" "current_entry v1 c b = Some e" using c1 one(2) t by (auto simp: in_use_def)
  obtain v2 where v2: "inherit_one c b e [b] v1 = (False, v2)" "fd_inv [e] v2"
    "\<And>x y. current_entry v2 x y = (if x = c \<and> y = b then None else current_entry v1 x y)"
    using inherit_occupied [OF one(1) e1(2) e1(1) e1(3)] by auto
  have same: "current_entry v2 x y = current_entry v x y" for x y using v2(3) c1 c by simp
  have "inherit_fds p c [(a, b), (a, b)] v = (False, v2)"
    using p r ok1 v2(1) ne c1 by (simp add: inherit_fds_def)
  moreover have "\<not> fd_inv [] v2"
  proof
    assume n: "fd_inv [] v2"
    have "in_use v2 e" using same p by (auto simp: in_use_def)
    then obtain obj where obj: "live_object v2 (lf_object e) = Some obj" using fd_invD(3) [OF n] by blast
    show False using fd_invD(2) [OF n obj] fd_invD(2) [OF v2(2) obj] by (simp add: object_ok_def held_Cons)
  qed
  ultimately show ?thesis using v2(2) same by blast
qed

definition pipe_sample :: vfs_state where
  "pipe_sample = snd (pipe_fds 0 (init_task 1 (init_task 0 vfs_new)))"

lemma vfs_new_inv: "fd_inv [] vfs_new"
  by (auto simp: fd_inv_def vfs_new_def live_object_def in_use_def current_entry_def)

lemma pipe_sample_inv: "fd_inv [] pipe_sample"
proof -
  have "current_entry vfs_new t fd = None" for t fd by (simp add: vfs_new_def current_entry_def)
  then show ?thesis unfolding pipe_sample_def
    by (intro pipe_fds_inv init_inv(1) vfs_new_inv) (simp_all add: init_inv(2) [OF vfs_new_inv])
qed

lemma pipe_sample_entries:
  "task_fds pipe_sample ! 0 = [None, None, None, Some \<lparr>lf_object = 0, lf_access = PipeRead\<rparr>, Some \<lparr>lf_object = 0, lf_access = PipeWrite\<rparr>] @ replicate 11 None"
  "task_fds pipe_sample ! Suc 0 = replicate 16 None" "length (task_fds pipe_sample) = 2"
  by code_simp+

theorem inherit_duplicate_leaks_witness:
  "\<exists>v'. inherit_fds 0 1 [(4, 5), (4, 5)] pipe_sample = (False, v') \<and> fd_inv [\<lparr>lf_object = 0, lf_access = PipeWrite\<rparr>] v' \<and> \<not> fd_inv [] v' \<and>
    (\<forall>t fd. current_entry v' t fd = current_entry pipe_sample t fd)"
  by (rule inherit_duplicate_leaks [OF pipe_sample_inv])
    (auto simp: current_entry_def pipe_sample_entries MAX_FDS_def nth_Cons split: nat.splits)


text \<open>C1: A pipe is a byte stream. Whatever writes and reads are made on a new pipe, in any order and of any sizes, the bytes that were
  accepted are those delivered to readers followed by those still in the ring buffer: none is lost, repeated or reordered.
  A write accepts as many bytes as fit into the 512 bytes of the buffer, and a read delivers as many as are there.
\<close>

theorem pipe_is_a_byte_stream:
  "case queue_run pipe_write pipe_read_loop ops pipe_new of (sent, received, p) \<Rightarrow>
     sent = received @ contents p \<and> length (contents p) \<le> PIPE_SIZE \<and>
     (\<forall>bs. fst (pipe_write bs p) = min (length bs) (PIPE_SIZE - length (contents p))) \<and>
     (\<forall>n. length (fst (pipe_read_loop n p)) = min n (length (contents p)))"
proof -
  obtain sent received p where r: "queue_run pipe_write pipe_read_loop ops pipe_new = (sent, received, p)" by (metis prod.exhaust)
  have new: "pipe_ok pipe_new" "contents pipe_new = []" by (simp_all add: pipe_ok_def pipe_new_def contents_def PIPE_SIZE_def)
  have s: "pipe_ok p" "contents pipe_new @ sent = received @ contents p" using pipe_queue.queue_stream [OF new(1) r] by blast+
  have "length (contents p) \<le> PIPE_SIZE" by (rule pipe_queue.cap_law [OF s(1)])
  moreover have "fst (pipe_write bs p) = min (length bs) (PIPE_SIZE - length (contents p))" for bs using pipe_queue.put_law [OF s(1)] by blast
  moreover have "length (fst (pipe_read_loop n p)) = min n (length (contents p))" for n using pipe_queue.get_law [OF s(1)] by blast
  ultimately show ?thesis using s(2) new(2) by (simp add: r)
qed

section \<open>Only the calling task's table changes\<close>

lemma alloc_in_other: "a \<noteq> t \<Longrightarrow> current_entry (snd (alloc_in t e v)) a b = current_entry v a b"
  by (simp add: alloc_in_def put_table_def current_entry_def split_beta Let_def)

lemma alloc_object_fds [simp]: "task_fds (snd (alloc_object k v)) = task_fds v"
  by (simp add: alloc_object_def Let_def put_object_def split: option.splits)

lemma put_entry_other: "a \<noteq> t \<Longrightarrow> current_entry (put_entry t fd e v) a b = current_entry v a b"
  by (simp add: put_entry_def current_entry_def)

lemmas fds_cong = current_entry_cong [OF release_task_fds] current_entry_cong [OF retain_task_fds] current_entry_cong [OF alloc_object_fds]

lemma open_object_other: "a \<noteq> t \<Longrightarrow> current_entry (snd (open_object t f v)) a b = current_entry v a b"
  using alloc_in_other [of a t] by (simp add: open_object_def Let_def split_beta fds_cong split: option.splits)

lemma pipe_fds_other: "a \<noteq> t \<Longrightarrow> current_entry (snd (pipe_fds t v)) a b = current_entry v a b"
  using alloc_in_other [of a t] by (simp add: pipe_fds_def Let_def split_beta fds_cong put_entry_other split: option.splits)

lemma dup_fd_other: "a \<noteq> t \<Longrightarrow> current_entry (snd (dup_fd t fd v)) a b = current_entry v a b"
  using alloc_in_other [of a t] by (simp add: dup_fd_def Let_def split_beta fds_cong split: option.splits)

lemma put_kind_fds [simp]: "task_fds (put_kind e obj k v) = task_fds v"
  by (simp add: put_kind_def put_object_def)

lemma read_write_fds [simp]:
  "task_fds (snd (read_pass t fd n l v)) = task_fds v" "task_fds (snd (read_fd t fd n l v)) = task_fds v"
  "task_fds (snd (write_fd can_reserve t fd buf v)) = task_fds v" "task_fds (snd (register_poll_waiter t fd w ev v)) = task_fds v"
  "task_fds (unregister_poll_waiter t fd w v) = task_fds v"
  by (auto simp: read_pass_def read_fd_def write_fd_def register_poll_waiter_def unregister_poll_waiter_def Let_def split: fd_splits)


end
