(* ===== verification/Tasks.thy ===== *)
theory Tasks
  imports Security Kernel_Log
begin

text \<open>
  The task table of \<open>src/src/scheduler.rs\<close> with the signals of \<open>src/src/process_model.rs\<close>: the round-robin choice of
  the next task, blocking and waking, process groups, signals and terminals, and the part of reaping that runs under the
  scheduler's lock. The registers that a context switch loads (syscall stack, privilege stack, FS base, page table) are
  fields of the scheduler state. The functions that also touch descriptors and the other subsystems are in \<open>Processes\<close>.
\<close>

section \<open>Signals\<close>

datatype signal = SigTerm | SigInt | SigUser1 | SigStop | SigContinue

definition signal_parse :: "string \<Rightarrow> signal option" where
  "signal_parse name =
     (if name \<in> {''term'', ''TERM'', ''sigterm''} then Some SigTerm
      else if name \<in> {''int'', ''INT'', ''sigint''} then Some SigInt
      else if name \<in> {''usr1'', ''USR1'', ''user1''} then Some SigUser1
      else if name \<in> {''stop'', ''STOP'', ''sigstop''} then Some SigStop
      else if name \<in> {''cont'', ''CONT'', ''continue'', ''sigcont''} then Some SigContinue
      else None)"

definition from_code :: "u64 \<Rightarrow> signal option" where
  "from_code c =
     (if c = 2 then Some SigInt else if c = 10 then Some SigUser1 else if c = 15 then Some SigTerm
      else if c = 18 then Some SigContinue else if c = 19 then Some SigStop else None)"

primrec signal_code :: "signal \<Rightarrow> u64" where
  "signal_code SigInt = 2"
| "signal_code SigUser1 = 10"
| "signal_code SigTerm = 15"
| "signal_code SigContinue = 18"
| "signal_code SigStop = 19"

definition signal_exit_code :: "signal \<Rightarrow> u64 option" where
  "signal_exit_code s = (case s of SigTerm \<Rightarrow> Some 143 | SigInt \<Rightarrow> Some 130 | _ \<Rightarrow> None)"

primrec signal_label :: "signal \<Rightarrow> string" where
  "signal_label SigTerm = ''TERM''"
| "signal_label SigInt = ''INT''"
| "signal_label SigUser1 = ''USR1''"
| "signal_label SigStop = ''STOP''"
| "signal_label SigContinue = ''CONT''"

section \<open>Tasks\<close>

definition STACK_SIZE :: nat where "STACK_SIZE = 64 * 1024"
definition MAX_ACTIVE_TASKS :: nat where "MAX_ACTIVE_TASKS = 64"

datatype task_status = Ready | Running | Blocked | Stopped | Exited | Reaped

text \<open>
  \<open>t_stack\<close> is the context block at the top of the task's kernel stack, the 20 words a context switch restores; it is empty
  for a task without a stack of its own. An address space is named by the number of its top page table.
\<close>

record task =
  t_name :: string
  t_stack :: "u64 list"
  t_syscall_stack_top :: nat
  t_stack_ptr :: nat
  t_status :: task_status
  t_exit_code :: "u64 option"
  t_parent :: "nat option"
  t_process_group :: nat
  t_controlling_tty :: "u64 option"
  t_pending_signal :: "signal option"
  t_wake_tick :: "u64 option"
  t_credentials :: credentials
  t_cwd :: string
  t_thread_group :: nat
  t_user_stack_bottom :: "u64 option"
  t_tls_base :: u64
  t_pml4 :: "nat option"

record scheduler =
  tasks :: "task list"
  current :: nat
  syscall_stack :: nat
  privilege_stack :: nat
  fs_base :: u64
  page_table :: "nat option"

datatype kill_error = CannotKillIdle | CannotKillCurrent | KillInvalidTask | KillAlreadyExited | KillAlreadyReaped | KillNotChild
  | KillPermissionDenied

datatype wait_error = WaitInvalidTask | WaitNotChild | NotExited | WaitAlreadyReaped

datatype signal_error = SigInvalidTask | InvalidGroup | CannotSignalIdle | SigPermissionDenied | SigAlreadyExited | SigAlreadyReaped

datatype process_group_status = GroupEmpty | GroupRunning | GroupStopped | GroupExited

definition idle_task :: "credentials \<Rightarrow> task" where
  "idle_task creds = \<lparr>t_name = ''idle'', t_stack = [], t_syscall_stack_top = 0, t_stack_ptr = 0, t_status = Running,
     t_exit_code = None, t_parent = None, t_process_group = 0, t_controlling_tty = None, t_pending_signal = None,
     t_wake_tick = None, t_credentials = creds, t_cwd = ''/'', t_thread_group = 0, t_user_stack_bottom = None,
     t_tls_base = 0, t_pml4 = None\<rparr>"

definition task_at :: "nat \<Rightarrow> scheduler \<Rightarrow> task option" where
  "task_at i s = (if i < length (tasks s) then Some (tasks s ! i) else None)"

definition set_task :: "nat \<Rightarrow> (task \<Rightarrow> task) \<Rightarrow> scheduler \<Rightarrow> scheduler" where
  "set_task i f s = (if i < length (tasks s) then s\<lparr>tasks := (tasks s)[i := f (tasks s ! i)]\<rparr> else s)"

section \<open>Choosing the next task\<close>

definition deliver_signal :: "nat \<Rightarrow> signal \<Rightarrow> task \<Rightarrow> task" where
  "deliver_signal idx sig t =
     (case sig of
        SigUser1 \<Rightarrow> (let t = t\<lparr>t_wake_tick := None\<rparr> in if t_status t = Blocked then t\<lparr>t_status := Ready\<rparr> else t)
      | SigStop \<Rightarrow> if idx \<noteq> 0 \<and> t_status t \<noteq> Exited \<and> t_status t \<noteq> Reaped then t\<lparr>t_status := Stopped, t_wake_tick := None\<rparr> else t
      | SigContinue \<Rightarrow> if t_status t = Stopped then t\<lparr>t_status := Ready\<rparr> else t
      | SigTerm \<Rightarrow> t
      | SigInt \<Rightarrow> t)"

definition tick_task :: "u64 \<Rightarrow> nat \<Rightarrow> task \<Rightarrow> task" where
  "tick_task now idx t0 =
     (let t = (if t_status t0 = Blocked \<and> (case t_wake_tick t0 of Some wake \<Rightarrow> now \<ge> wake | None \<Rightarrow> False)
               then t0\<lparr>t_wake_tick := None, t_status := Ready\<rparr> else t0)
      in case t_pending_signal t of
           Some sig \<Rightarrow> deliver_signal idx sig (t\<lparr>t_pending_signal := None\<rparr>)
         | None \<Rightarrow> t)"

primrec next_ready :: "task list \<Rightarrow> nat \<Rightarrow> nat \<Rightarrow> nat option" where
  "next_ready ts 0 i = None"
| "next_ready ts (Suc k) i = (if t_status (ts ! i) = Ready then Some i else next_ready ts k ((i + 1) mod length ts))"

definition save_current :: "nat \<Rightarrow> task \<Rightarrow> task" where
  "save_current rsp t = (let t = t\<lparr>t_stack_ptr := rsp\<rparr> in if t_status t = Running then t\<lparr>t_status := Ready\<rparr> else t)"

definition activate :: "nat \<Rightarrow> nat \<Rightarrow> scheduler \<Rightarrow> scheduler" where
  "activate boot_stack i s =
     (let s = set_task i (\<lambda>t. t\<lparr>t_status := Running\<rparr>) s; t = tasks s ! i in
      s\<lparr>current := i, syscall_stack := t_syscall_stack_top t,
        privilege_stack := (if t_syscall_stack_top t = 0 then boot_stack else t_syscall_stack_top t),
        fs_base := t_tls_base t, page_table := t_pml4 t\<rparr>)"

definition schedule :: "u64 \<Rightarrow> nat \<Rightarrow> nat \<Rightarrow> scheduler \<Rightarrow> nat \<times> scheduler" where
  "schedule now boot_stack rsp s =
     (if tasks s = [] then (rsp, s)
      else
        let s1 = set_task (current s) (save_current rsp) s;
            ts = map (\<lambda>(idx, t). tick_task now idx t) (enumerate 0 (tasks s1));
            n = length ts;
            i = (case next_ready ts n ((current s + 1) mod n) of Some i \<Rightarrow> i | None \<Rightarrow> 0);
            s2 = activate boot_stack i (s1\<lparr>tasks := ts\<rparr>)
        in (t_stack_ptr (tasks s2 ! i), s2))"

text \<open>The timer interrupt does nothing while the scheduler's lock is held elsewhere.\<close>

definition timer_schedule :: "bool \<Rightarrow> u64 \<Rightarrow> nat \<Rightarrow> nat \<Rightarrow> scheduler \<Rightarrow> nat \<times> scheduler" where
  "timer_schedule locked now boot_stack rsp s =
     (if locked then (rsp, s) else if tasks s = [] then (rsp, s) else schedule now boot_stack rsp s)"

section \<open>The current task\<close>

definition active_task_count :: "scheduler \<Rightarrow> nat" where
  "active_task_count s = length (filter (\<lambda>(idx, t). idx \<noteq> 0 \<and> t_status t \<noteq> Reaped) (enumerate 0 (tasks s)))"

definition can_spawn_user_task :: "scheduler \<Rightarrow> bool" where
  "can_spawn_user_task s = (active_task_count s < MAX_ACTIVE_TASKS)"

definition current_user_pml4 :: "scheduler \<Rightarrow> nat option" where
  "current_user_pml4 s = Option.bind (task_at (current s) s) t_pml4"

definition set_current_tls_base :: "u64 \<Rightarrow> scheduler \<Rightarrow> bool \<times> scheduler" where
  "set_current_tls_base base s =
     (case task_at (current s) s of
        None \<Rightarrow> (False, s)
      | Some t \<Rightarrow> if t_pml4 t = None then (False, s)
          else (True, (set_task (current s) (\<lambda>t. t\<lparr>t_tls_base := base\<rparr>) s)\<lparr>fs_base := base\<rparr>))"

definition current_tls_base :: "scheduler \<Rightarrow> u64" where
  "current_tls_base s = (case task_at (current s) s of Some t \<Rightarrow> t_tls_base t | None \<Rightarrow> 0)"

definition sched_credentials :: "scheduler \<Rightarrow> credentials option" where
  "sched_credentials s = map_option t_credentials (task_at (current s) s)"

definition current_cwd :: "scheduler \<Rightarrow> string" where
  "current_cwd s = (case task_at (current s) s of Some t \<Rightarrow> t_cwd t | None \<Rightarrow> ''/'')"

definition set_current_cwd :: "string \<Rightarrow> scheduler \<Rightarrow> scheduler" where
  "set_current_cwd path s = set_task (current s) (\<lambda>t. t\<lparr>t_cwd := path\<rparr>) s"

definition set_current_credentials :: "credentials \<Rightarrow> scheduler \<Rightarrow> scheduler" where
  "set_current_credentials creds s = set_task (current s) (\<lambda>t. t\<lparr>t_credentials := creds\<rparr>) s"

definition current_process_group :: "scheduler \<Rightarrow> nat" where
  "current_process_group s = (case task_at (current s) s of Some t \<Rightarrow> t_process_group t | None \<Rightarrow> 0)"

definition current_tty :: "scheduler \<Rightarrow> u64 option" where
  "current_tty s = Option.bind (task_at (current s) s) t_controlling_tty"

definition task_status_exit :: "nat \<Rightarrow> scheduler \<Rightarrow> (task_status \<times> u64 option) option" where
  "task_status_exit i s = map_option (\<lambda>t. (t_status t, t_exit_code t)) (task_at i s)"

definition current_task_blocked :: "scheduler \<Rightarrow> bool" where
  "current_task_blocked s = (case task_at (current s) s of Some t \<Rightarrow> t_status t = Blocked | None \<Rightarrow> False)"

definition current_has_pending_signal :: "scheduler \<Rightarrow> bool" where
  "current_has_pending_signal s = (case task_at (current s) s of Some t \<Rightarrow> t_pending_signal t \<noteq> None | None \<Rightarrow> False)"

definition block_current :: "scheduler \<Rightarrow> scheduler" where
  "block_current s = set_task (current s) (\<lambda>t. t\<lparr>t_status := Blocked\<rparr>) s"

definition block_current_until :: "u64 \<Rightarrow> scheduler \<Rightarrow> scheduler" where
  "block_current_until wake s = set_task (current s) (\<lambda>t. t\<lparr>t_status := Blocked, t_wake_tick := Some wake\<rparr>) s"

definition wake_up :: "task \<Rightarrow> task" where
  "wake_up t = (if t_status t = Blocked then t\<lparr>t_wake_tick := None, t_status := Ready\<rparr> else t)"

definition unblock :: "nat \<Rightarrow> scheduler \<Rightarrow> scheduler" where
  "unblock i s = set_task i wake_up s"

section \<open>Control over other tasks\<close>

definition can_control_task :: "scheduler \<Rightarrow> nat \<Rightarrow> nat \<Rightarrow> bool" where
  "can_control_task s actor target =
     (if actor = target then True
      else case task_at actor s of
        None \<Rightarrow> False
      | Some a \<Rightarrow> (case task_at target s of
          None \<Rightarrow> False
        | Some t \<Rightarrow> can_admin (t_credentials a) \<or> t_parent t = Some actor \<or> cr_uid (t_credentials a) = cr_uid (t_credentials t)))"

text \<open>The checks in front of a change of another task, in the order of the code.\<close>

definition control_check :: "nat \<Rightarrow> nat \<Rightarrow> scheduler \<Rightarrow> signal_error + task" where
  "control_check actor i s =
     (case task_at i s of
        None \<Rightarrow> Inl SigInvalidTask
      | Some t \<Rightarrow>
        if \<not> can_control_task s actor i then Inl SigPermissionDenied
        else if t_status t = Exited then Inl SigAlreadyExited
        else if t_status t = Reaped then Inl SigAlreadyReaped
        else Inr t)"

definition set_task_tty_as :: "nat \<Rightarrow> nat \<Rightarrow> u64 option \<Rightarrow> scheduler \<Rightarrow> (signal_error + unit) \<times> scheduler" where
  "set_task_tty_as actor i tty s =
     (if i = 0 then (Inl CannotSignalIdle, s)
      else case control_check actor i s of
        Inl e \<Rightarrow> (Inl e, s)
      | Inr _ \<Rightarrow> (Inr (), set_task i (\<lambda>t. t\<lparr>t_controlling_tty := tty\<rparr>) s))"

definition set_task_tty :: "nat \<Rightarrow> u64 option \<Rightarrow> scheduler \<Rightarrow> (signal_error + unit) \<times> scheduler" where
  "set_task_tty i tty s = set_task_tty_as (current s) i tty s"

definition set_process_group_as :: "nat \<Rightarrow> nat \<Rightarrow> nat \<Rightarrow> scheduler \<Rightarrow> (signal_error + unit) \<times> scheduler" where
  "set_process_group_as actor i grp s =
     (if i = 0 then (Inl CannotSignalIdle, s)
      else case control_check actor i s of
        Inl e \<Rightarrow> (Inl e, s)
      | Inr _ \<Rightarrow> (Inr (), set_task i (\<lambda>t. t\<lparr>t_process_group := grp\<rparr>) s))"

definition set_process_group :: "nat \<Rightarrow> nat \<Rightarrow> scheduler \<Rightarrow> (signal_error + unit) \<times> scheduler" where
  "set_process_group i grp s = set_process_group_as (current s) i grp s"

definition get_process_group :: "nat \<Rightarrow> scheduler \<Rightarrow> signal_error + nat" where
  "get_process_group i s =
     (case task_at i s of
        None \<Rightarrow> Inl SigInvalidTask
      | Some t \<Rightarrow> if t_status t = Reaped then Inl SigAlreadyReaped else Inr (t_process_group t))"

definition process_group_status :: "nat \<Rightarrow> scheduler \<Rightarrow> process_group_status" where
  "process_group_status grp s =
     (let members = filter (\<lambda>t. t_process_group t = grp) (tl (tasks s)) in
      if list_ex (\<lambda>t. t_status t \<in> {Ready, Running, Blocked}) members then GroupRunning
      else if list_ex (\<lambda>t. t_status t = Stopped) members then GroupStopped
      else if list_ex (\<lambda>t. t_status t \<in> {Exited, Reaped}) members then GroupExited
      else GroupEmpty)"

definition process_group_exit_code :: "nat \<Rightarrow> scheduler \<Rightarrow> u64 option" where
  "process_group_exit_code grp s =
     Option.bind (find (\<lambda>t. t_process_group t = grp \<and> t_status t \<in> {Exited, Reaped}) (tasks s)) t_exit_code"

text \<open>A signal that does not end its target.\<close>

definition apply_signal :: "signal \<Rightarrow> task \<Rightarrow> task" where
  "apply_signal sig t =
     (case sig of
        SigUser1 \<Rightarrow> (let t = t\<lparr>t_pending_signal := Some SigUser1\<rparr> in
                  if t_status t = Blocked then t\<lparr>t_wake_tick := None, t_status := Ready\<rparr> else t)
      | SigStop \<Rightarrow> t\<lparr>t_pending_signal := None, t_wake_tick := None, t_status := Stopped\<rparr>
      | SigContinue \<Rightarrow> (let t = t\<lparr>t_pending_signal := None\<rparr> in if t_status t = Stopped then t\<lparr>t_status := Ready\<rparr> else t)
      | SigTerm \<Rightarrow> t
      | SigInt \<Rightarrow> t)"

definition group_targets :: "nat \<Rightarrow> scheduler \<Rightarrow> nat list" where
  "group_targets grp s =
     map fst (filter (\<lambda>(idx, t). idx \<noteq> 0 \<and> t_process_group t = grp \<and> t_status t \<noteq> Exited \<and> t_status t \<noteq> Reaped \<and>
       can_control_task s (current s) idx) (enumerate 0 (tasks s)))"

primrec signal_error_from_kill :: "kill_error \<Rightarrow> signal_error" where
  "signal_error_from_kill CannotKillIdle = CannotSignalIdle"
| "signal_error_from_kill KillInvalidTask = SigInvalidTask"
| "signal_error_from_kill KillAlreadyExited = SigAlreadyExited"
| "signal_error_from_kill KillAlreadyReaped = SigAlreadyReaped"
| "signal_error_from_kill KillPermissionDenied = SigPermissionDenied"
| "signal_error_from_kill CannotKillCurrent = SigInvalidTask"
| "signal_error_from_kill KillNotChild = SigInvalidTask"

section \<open>Reaping\<close>

definition release_stack :: "task \<Rightarrow> task" where
  "release_stack t = t\<lparr>t_stack := [], t_stack_ptr := 0, t_syscall_stack_top := 0\<rparr>"

text \<open>Whether another task that is not reaped still uses the address space.\<close>

definition still_live :: "nat \<Rightarrow> nat \<Rightarrow> scheduler \<Rightarrow> bool" where
  "still_live i pml4 s =
     list_ex (\<lambda>(idx, t). idx \<noteq> i \<and> t_pml4 t = Some pml4 \<and> t_status t \<noteq> Reaped) (enumerate 0 (tasks s))"

definition take_reap_pml4 :: "nat \<Rightarrow> scheduler \<Rightarrow> nat option \<times> scheduler" where
  "take_reap_pml4 i s =
     (case task_at i s of
        None \<Rightarrow> (None, s)
      | Some t \<Rightarrow> (case t_pml4 t of
          None \<Rightarrow> (None, s)
        | Some pml4 \<Rightarrow>
          let s1 = set_task i (\<lambda>t. t\<lparr>t_pml4 := None\<rparr>) s in
          if still_live i pml4 s1 then (None, set_task i (\<lambda>t. t\<lparr>t_pml4 := Some pml4\<rparr>) s1)
          else (Some pml4, s1)))"

definition USER_THREAD_STACK_BASE :: u64 where "USER_THREAD_STACK_BASE = 0x7fff00200000"
definition USER_THREAD_STACK_SLOT_SIZE :: u64 where "USER_THREAD_STACK_SLOT_SIZE = 1024 * 1024"
definition USER_THREAD_STACK_SLOTS :: nat where "USER_THREAD_STACK_SLOTS = 128"
definition USER_STACK_SIZE :: u64 where "USER_STACK_SIZE = 64 * 1024"
definition USER_MMAP_BASE :: u64 where "USER_MMAP_BASE = 0x7fff10000000"

definition user_thread_stack_range :: "nat \<Rightarrow> (u64 \<times> u64) option" where
  "user_thread_stack_range sl =
     (if sl \<ge> USER_THREAD_STACK_SLOTS then None
      else Option.bind (checked_mul (of_nat sl) USER_THREAD_STACK_SLOT_SIZE) (\<lambda>offset.
           Option.bind (checked_add USER_THREAD_STACK_BASE offset) (\<lambda>bottom.
           Option.bind (checked_add bottom USER_STACK_SIZE) (\<lambda>top_addr.
           if top_addr > USER_MMAP_BASE then None else Some (bottom, top_addr)))))"

definition next_thread_stack_slot_for :: "nat \<Rightarrow> scheduler \<Rightarrow> nat option" where
  "next_thread_stack_slot_for pml4 s =
     find (\<lambda>sl. case user_thread_stack_range sl of
         None \<Rightarrow> False
       | Some (bottom, _) \<Rightarrow> \<not> list_ex (\<lambda>t. t_pml4 t = Some pml4 \<and> t_user_stack_bottom t = Some bottom) (tasks s))
       [0..<USER_THREAD_STACK_SLOTS]"

section \<open>One task runs\<close>

definition sched_inv :: "scheduler \<Rightarrow> bool" where
  "sched_inv s = (current s < length (tasks s) \<and> (\<forall>i < length (tasks s). t_status (tasks s ! i) = Running \<longrightarrow> i = current s))"

lemma signal_code_roundtrip: "from_code (signal_code sig) = Some sig"
  by (cases sig) (simp_all add: from_code_def)

lemma set_task_simps [simp]:
  "length (tasks (set_task i f s)) = length (tasks s)" "current (set_task i f s) = current s"
  "syscall_stack (set_task i f s) = syscall_stack s" "page_table (set_task i f s) = page_table s"
  by (simp_all add: set_task_def)

lemma nth_set_task: "j < length (tasks s) \<Longrightarrow> tasks (set_task i f s) ! j = (if j = i then f (tasks s ! j) else tasks s ! j)"
  by (auto simp: set_task_def nth_list_update)

lemma sched_inv_set_task:
  assumes "sched_inv s" "\<And>t. t_status (f t) = Running \<Longrightarrow> t_status t = Running"
  shows "sched_inv (set_task i f s)"
  using assms by (auto simp: sched_inv_def nth_set_task split: if_splits)

lemma tick_not_running: "t_status (tick_task now idx t) = Running \<Longrightarrow> t_status t = Running"
  by (auto simp: tick_task_def deliver_signal_def Let_def split: option.splits signal.splits if_splits)

lemma next_ready_Some:
  "next_ready ts k i = Some j \<Longrightarrow> i < length ts \<Longrightarrow>
     t_status (ts ! j) = Ready \<and> (\<exists>d < k. j = (i + d) mod length ts \<and> (\<forall>d' < d. t_status (ts ! ((i + d') mod length ts)) \<noteq> Ready))"
proof (induction k arbitrary: i)
  case (Suc k)
  show ?case
  proof (cases "t_status (ts ! i) = Ready")
    case False
    have "(i + 1) mod length ts < length ts" using Suc.prems(2) by (intro mod_less_divisor) linarith
    then obtain d where d: "d < k" "j = ((i + 1) mod length ts + d) mod length ts" "t_status (ts ! j) = Ready"
      "\<And>d'. d' < d \<Longrightarrow> t_status (ts ! (((i + 1) mod length ts + d') mod length ts)) \<noteq> Ready"
      using Suc.IH [of "(i + 1) mod length ts"] Suc.prems False by auto
    have e: "((i + 1) mod length ts + x) mod length ts = (i + Suc x) mod length ts" for x by (simp add: mod_simps)
    have "t_status (ts ! ((i + d') mod length ts)) \<noteq> Ready" if "d' < Suc d" for d'
      using that d(4) [of "d' - 1"] e [of "d' - 1"] False Suc.prems(2) by (cases d') auto
    then show ?thesis using d(1-3) e [of d] by (auto intro!: exI [of _ "Suc d"])
  qed (use Suc.prems in auto)
qed simp

lemma next_ready_None:
  "next_ready ts k i = None \<Longrightarrow> i < length ts \<Longrightarrow> d < k \<Longrightarrow> t_status (ts ! ((i + d) mod length ts)) \<noteq> Ready"
proof (induction k arbitrary: i d)
  case (Suc k)
  have "(i + 1) mod length ts < length ts" using Suc.prems(2) by (intro mod_less_divisor) linarith
  then show ?case using Suc.IH [of "(i + 1) mod length ts" "d - 1"] Suc.prems by (cases d) (auto simp: mod_simps split: if_splits)
qed simp

text \<open>The table that the choice is made on, and the task chosen.\<close>

definition ticked :: "u64 \<Rightarrow> nat \<Rightarrow> scheduler \<Rightarrow> task list" where
  "ticked now rsp s = map (\<lambda>(idx, t). tick_task now idx t) (enumerate 0 (tasks (set_task (current s) (save_current rsp) s)))"

definition chosen :: "u64 \<Rightarrow> nat \<Rightarrow> scheduler \<Rightarrow> nat" where
  "chosen now rsp s =
     (case next_ready (ticked now rsp s) (length (tasks s)) ((current s + 1) mod length (tasks s)) of Some i \<Rightarrow> i | None \<Rightarrow> 0)"

lemma length_ticked [simp]: "length (ticked now rsp s) = length (tasks s)"
  by (simp add: ticked_def)

lemma nth_ticked:
  "i < length (tasks s) \<Longrightarrow>
     ticked now rsp s ! i = tick_task now i (if i = current s then save_current rsp (tasks s ! i) else tasks s ! i)"
  by (simp add: ticked_def nth_enumerate_eq nth_set_task)

lemma ticked_not_running:
  assumes "sched_inv s" "i < length (tasks s)"
  shows "t_status (ticked now rsp s ! i) \<noteq> Running"
proof
  let ?t = "if i = current s then save_current rsp (tasks s ! i) else tasks s ! i"
  assume "t_status (ticked now rsp s ! i) = Running"
  then have "t_status (tick_task now i ?t) = Running" unfolding nth_ticked [OF assms(2)] .
  then have "t_status ?t = Running" by (rule tick_not_running)
  moreover have "t_status ?t \<noteq> Running" if "i = current s" using that by (simp add: save_current_def Let_def)
  moreover have "t_status (tasks s ! i) \<noteq> Running" if "i \<noteq> current s" using that assms unfolding sched_inv_def by blast
  ultimately show False by (cases "i = current s") simp_all
qed

lemma schedule_eq:
  assumes "tasks s \<noteq> []"
  shows "schedule now boot rsp s = (let s2 = activate boot (chosen now rsp s) ((set_task (current s) (save_current rsp) s)\<lparr>tasks := ticked now rsp s\<rparr>) in
     (t_stack_ptr (tasks s2 ! chosen now rsp s), s2))"
  using assms by (simp add: schedule_def chosen_def ticked_def [symmetric] Let_def)

lemma chosen_less: "tasks s \<noteq> [] \<Longrightarrow> chosen now rsp s < length (tasks s)"
  using next_ready_Some [of "ticked now rsp s" "length (tasks s)" "(current s + 1) mod length (tasks s)"]
  by (auto simp: chosen_def split: option.splits)

lemma schedule_effect:
  assumes inv: "sched_inv s" and s': "snd (schedule now boot rsp s) = s'"
  shows "sched_inv s'" "length (tasks s') = length (tasks s)" "current s' = chosen now rsp s"
    "i < length (tasks s) \<Longrightarrow> tasks s' ! i = (if i = current s' then (ticked now rsp s ! i)\<lparr>t_status := Running\<rparr> else ticked now rsp s ! i)"
proof -
  have ne: "tasks s \<noteq> []" using inv by (auto simp: sched_inv_def)
  let ?j = "chosen now rsp s"
  have s'_eq: "s' = activate boot ?j ((set_task (current s) (save_current rsp) s)\<lparr>tasks := ticked now rsp s\<rparr>)"
    using s' schedule_eq [OF ne, of now boot rsp] by (simp add: Let_def)
  show l: "length (tasks s') = length (tasks s)" and c: "current s' = ?j"
    by (simp_all add: s'_eq activate_def Let_def)
  have n: "tasks s' ! i = (if i = ?j then (ticked now rsp s ! i)\<lparr>t_status := Running\<rparr> else ticked now rsp s ! i)" if "i < length (tasks s)" for i
    using that by (simp add: s'_eq activate_def Let_def nth_set_task)
  show "tasks s' ! i = (if i = current s' then (ticked now rsp s ! i)\<lparr>t_status := Running\<rparr> else ticked now rsp s ! i)"
    if "i < length (tasks s)" using n [OF that] c by simp
  show "sched_inv s'" using chosen_less [OF ne] ticked_not_running [OF inv] by (auto simp: sched_inv_def l c n split: if_splits)
qed

section \<open>No task waits for ever\<close>

text \<open>A task is waiting when it could run and no stop signal is on its way.\<close>

definition waiting :: "nat \<Rightarrow> scheduler \<Rightarrow> bool" where
  "waiting i s = (i < length (tasks s) \<and> t_status (tasks s ! i) = Ready \<and> t_pending_signal (tasks s ! i) \<noteq> Some SigStop)"

text \<open>How many other tasks are asked before task \<open>i\<close>.\<close>

definition ahead :: "nat \<Rightarrow> scheduler \<Rightarrow> nat" where
  "ahead i s = (i + length (tasks s) - (current s + 1) mod length (tasks s)) mod length (tasks s)"

lemma ahead_add:
  assumes "i < length (tasks s)"
  shows "((current s + 1) mod length (tasks s) + ahead i s) mod length (tasks s) = i"
proof -
  let ?n = "length (tasks s)" and ?p = "(current s + 1) mod length (tasks s)"
  have "?p < ?n" using assms by (intro mod_less_divisor) linarith
  then have "?p + (i + ?n - ?p) = i + ?n" by linarith
  then have "(?p + (i + ?n - ?p) mod ?n) mod ?n = (i + ?n) mod ?n" by (metis mod_add_right_eq)
  then show ?thesis using assms by (simp add: ahead_def)
qed

lemma ahead_unique:
  fixes p :: nat
  assumes "p < n" "x < n" "i = (p + x) mod n"
  shows "(i + n - p) mod n = x"
proof (cases "p + x < n")
  case False
  then have "(p + x) mod n = p + x - n" using assms(1,2) by (simp add: mod_if)
  then show ?thesis using assms False by simp
qed (use assms in simp)

lemma mod_chain: "(((p + d) mod n + 1) mod n + k) mod n = (p + (d + Suc k)) mod (n::nat)"
  by (simp add: mod_simps add.assoc)

lemma tick_ready:
  assumes "t_status t = Ready" "t_pending_signal t \<noteq> Some SigStop"
  shows "t_status (tick_task now idx t) = Ready \<and> t_pending_signal (tick_task now idx t) = None"
proof (cases "t_pending_signal t")
  case (Some sig)
  then show ?thesis using assms by (cases sig) (simp_all add: tick_task_def deliver_signal_def)
qed (use assms in \<open>simp add: tick_task_def\<close>)

lemma waiting_ticked:
  assumes "waiting i s"
  shows "t_status (ticked now rsp s ! i) = Ready" "t_pending_signal (ticked now rsp s ! i) = None"
proof -
  let ?t = "if i = current s then save_current rsp (tasks s ! i) else tasks s ! i"
  have i: "i < length (tasks s)" using assms by (simp add: waiting_def)
  have "t_status ?t = Ready" "t_pending_signal ?t \<noteq> Some SigStop" using assms by (auto simp: waiting_def save_current_def Let_def)
  from tick_ready [OF this, of now i]
  show "t_status (ticked now rsp s ! i) = Ready" "t_pending_signal (ticked now rsp s ! i) = None"
    unfolding nth_ticked [OF i] by blast+
qed

lemma schedule_progress:
  assumes inv: "sched_inv s" and w: "waiting i s" and s': "snd (schedule now boot rsp s) = s'"
  shows "current s' = i \<or> waiting i s' \<and> ahead i s' < ahead i s"
proof (cases "current s' = i")
  case False
  note e = schedule_effect [OF inv s']
  have i: "i < length (tasks s)" using w by (simp add: waiting_def)
  note t = waiting_ticked [OF w, of now rsp]
  have "waiting i s'" using t False by (simp add: waiting_def e(2) e(4) [OF i] i)
  moreover have "ahead i s' < ahead i s"
  proof -
    let ?n = "length (tasks s)" and ?ts = "ticked now rsp s" and ?p = "(current s + 1) mod length (tasks s)"
    have p: "?p < ?n" using i by (intro mod_less_divisor) linarith
    have a: "(?p + ahead i s) mod ?n = i" "ahead i s < ?n"
      using ahead_add [OF i] i unfolding ahead_def by (auto intro: mod_less_divisor)
    obtain j where j: "next_ready ?ts ?n ?p = Some j"
      using next_ready_None [of ?ts ?n ?p "ahead i s"] p a t(1) by (cases "next_ready ?ts ?n ?p") auto
    obtain d where d: "d < ?n" "j = (?p + d) mod ?n" "\<And>d'. d' < d \<Longrightarrow> t_status (?ts ! ((?p + d') mod ?n)) \<noteq> Ready"
      using next_ready_Some [OF j] p by auto
    have cj: "current s' = j" using e(3) j by (simp add: chosen_def)
    have "d \<le> ahead i s" using d(3) [of "ahead i s"] a t(1) by (metis not_le)
    moreover have "d \<noteq> ahead i s" using False cj d(2) a by auto
    ultimately have lt: "d < ahead i s" by simp
    then obtain k where k: "ahead i s = d + Suc k" using less_imp_Suc_add by auto
    have "i = ((j + 1) mod ?n + (ahead i s - Suc d)) mod ?n"
      using a(1) mod_chain [of ?p d ?n k] unfolding d(2) k by simp
    moreover have "(j + 1) mod ?n < ?n" "ahead i s - Suc d < ?n" using a(2) p by (auto intro: mod_less_divisor)
    ultimately have "(i + ?n - (j + 1) mod ?n) mod ?n = ahead i s - Suc d" using ahead_unique by blast
    then have "ahead i s' = ahead i s - Suc d" unfolding ahead_def [of i s'] e(2) cj .
    then show ?thesis using lt by simp
  qed
  ultimately show ?thesis by simp
qed simp

text \<open>C38: Every task that is ready gets the processor: of as many timer interrupts in a row as there are tasks, one switches to it.
  Between two interrupts the running tasks may do anything to the table, as long as no task is added or removed, the task in
  question stays ready, and no stop signal is sent to it.
\<close>

theorem no_ready_task_starves:
  fixes s :: "nat \<Rightarrow> scheduler"
  assumes "\<And>k. sched_inv (s k)" and "waiting i (s 0)"
    and "\<And>k. length (tasks (s (Suc k))) = length (tasks (s k))"
    and "\<And>k. current (s (Suc k)) = current (snd (schedule (now k) boot (rsp k) (s k)))"
    and "\<And>k. waiting i (snd (schedule (now k) boot (rsp k) (s k))) \<Longrightarrow> waiting i (s (Suc k))"
  shows "\<exists>k < length (tasks (s 0)). current (snd (schedule (now k) boot (rsp k) (s k))) = i"
proof (rule ccontr)
  let ?n = "length (tasks (s 0))"
  let ?next = "\<lambda>k. snd (schedule (now k) boot (rsp k) (s k))"
  assume no: "\<not> ?thesis"
  have i: "i < ?n" using assms(2) by (simp add: waiting_def)
  have same: "ahead i (s (Suc k)) = ahead i (?next k)" for k
    unfolding ahead_def assms(3,4) schedule_effect(2) [OF assms(1) refl] ..
  have "k \<le> ?n \<Longrightarrow> waiting i (s k) \<and> ahead i (s k) + k < ?n" for k
  proof (induction k)
    case 0
    show ?case using assms(2) i unfolding ahead_def by (auto intro: mod_less_divisor)
  next
    case (Suc k)
    then have w: "waiting i (s k)" "ahead i (s k) + k < ?n" by auto
    have "current (?next k) \<noteq> i" using no Suc.prems by auto
    then have "waiting i (?next k)" "ahead i (?next k) < ahead i (s k)"
      using schedule_progress [OF assms(1) w(1) refl, of "now k" boot "rsp k"] by auto
    then show ?case using w(2) same [of k] assms(5) [of k] by linarith
  qed
  from this [of ?n] show False by simp
qed


definition three_tasks :: scheduler where
  "three_tasks =
     (let idle = idle_task \<lparr>cr_uid = 0, cr_gid = 0, cr_caps = 0\<rparr>; worker = idle\<lparr>t_name := ''worker'', t_status := Ready\<rparr> in
      \<lparr>tasks = [idle, worker, worker], current = 0, syscall_stack = 0, privilege_stack = 0, fs_base = 0, page_table = None\<rparr>)"

lemma three_tasks_inv: "sched_inv three_tasks" "waiting 2 three_tasks" "length (tasks three_tasks) = 3"
  by (auto simp: sched_inv_def waiting_def three_tasks_def idle_task_def Let_def less_Suc_eq numeral_eq_Suc)

theorem no_ready_task_starves_witness:
  "\<exists>k < 3. current (snd (schedule 0 0 0 (((\<lambda>s. snd (schedule 0 0 0 s)) ^^ k) three_tasks))) = 2"
proof -
  let ?s = "\<lambda>k. ((\<lambda>s. snd (schedule 0 0 0 s)) ^^ k) three_tasks"
  have inv: "sched_inv (?s k)" for k
    by (induction k) (auto simp: three_tasks_inv schedule_effect(1))
  show ?thesis
    using no_ready_task_starves [of ?s 2 "\<lambda>_. 0" 0 "\<lambda>_. 0"] inv three_tasks_inv schedule_effect(2) [OF inv refl, of 0 0 0]
    by simp
qed


end
