(* ===== verification/Wait_Queues.thy ===== *)
theory Wait_Queues
  imports Block_Cache "HOL-Library.Sublist"
begin

text \<open>
  Three small tables of the kernel: the statistics of the wait queues (\<open>src/src/wait_queue.rs\<close>), the counters of
  allocations (\<open>src/src/slab.rs\<close>) and the futex waiters (\<open>src/src/futex.rs\<close>). Before the heap is ready the first two
  record nothing. Counters of type \<open>usize\<close> that saturate are 64-bit words.
\<close>

section \<open>Wait queue statistics\<close>

definition MAX_QUEUES :: nat where "MAX_QUEUES = 16"

record wait_queue_info =
  wq_name :: string
  wq_waiters :: u64
  wq_waits :: u64
  wq_wakes :: u64
  wq_last_task :: nat
  wq_last_tick :: u64

definition count_wait :: "bool \<Rightarrow> nat \<Rightarrow> u64 \<Rightarrow> wait_queue_info \<Rightarrow> wait_queue_info" where
  "count_wait is_wait task_id tick q =
     (if is_wait then q\<lparr>wq_waiters := saturating_add (wq_waiters q) 1, wq_waits := saturating_add (wq_waits q) 1,
                        wq_last_task := task_id, wq_last_tick := tick\<rparr>
      else q\<lparr>wq_waiters := saturating_sub (wq_waiters q) 1, wq_wakes := saturating_add (wq_wakes q) 1,
             wq_last_task := task_id, wq_last_tick := tick\<rparr>)"

definition queue_update :: "bool \<Rightarrow> u64 \<Rightarrow> string \<Rightarrow> nat \<Rightarrow> bool \<Rightarrow> wait_queue_info list \<Rightarrow> wait_queue_info list" where
  "queue_update heap_ready tick name task_id is_wait qs =
     (if \<not> heap_ready then qs
      else case position (\<lambda>q. wq_name q = name) qs of
        Some i \<Rightarrow> qs[i := count_wait is_wait task_id tick (qs ! i)]
      | None \<Rightarrow>
        (if length qs \<ge> MAX_QUEUES then tl qs else qs) @
        [\<lparr>wq_name = name, wq_waiters = (if is_wait then 1 else 0), wq_waits = (if is_wait then 1 else 0),
          wq_wakes = (if is_wait then 0 else 1), wq_last_task = task_id, wq_last_tick = tick\<rparr>])"

definition queue_wait :: "bool \<Rightarrow> u64 \<Rightarrow> string \<Rightarrow> nat \<Rightarrow> wait_queue_info list \<Rightarrow> wait_queue_info list" where
  "queue_wait heap_ready tick name task_id qs = queue_update heap_ready tick name task_id True qs"

definition queue_wake :: "bool \<Rightarrow> u64 \<Rightarrow> string \<Rightarrow> nat \<Rightarrow> wait_queue_info list \<Rightarrow> wait_queue_info list" where
  "queue_wake heap_ready tick name task_id qs = queue_update heap_ready tick name task_id False qs"

section \<open>Allocation counters\<close>

definition MAX_SUBSYSTEMS :: nat where "MAX_SUBSYSTEMS = 16"

record slab_counter =
  sc_subsystem :: string
  sc_allocs :: u64
  sc_frees :: u64
  sc_live :: u64
  sc_bytes_live :: u64
  sc_high_water :: u64

definition count_slab :: "u64 \<Rightarrow> bool \<Rightarrow> slab_counter \<Rightarrow> slab_counter" where
  "count_slab amount is_alloc c =
     (if is_alloc then
        (let b = saturating_add (sc_bytes_live c) amount in
         c\<lparr>sc_allocs := saturating_add (sc_allocs c) 1, sc_live := saturating_add (sc_live c) 1,
           sc_bytes_live := b, sc_high_water := max (sc_high_water c) b\<rparr>)
      else c\<lparr>sc_frees := saturating_add (sc_frees c) 1, sc_live := saturating_sub (sc_live c) 1,
             sc_bytes_live := saturating_sub (sc_bytes_live c) amount\<rparr>)"

definition slab_update :: "bool \<Rightarrow> string \<Rightarrow> u64 \<Rightarrow> bool \<Rightarrow> slab_counter list \<Rightarrow> slab_counter list" where
  "slab_update heap_ready subsystem amount is_alloc cs =
     (if \<not> heap_ready then cs
      else case position (\<lambda>c. sc_subsystem c = subsystem) cs of
        Some i \<Rightarrow> cs[i := count_slab amount is_alloc (cs ! i)]
      | None \<Rightarrow>
        (if length cs \<ge> MAX_SUBSYSTEMS then tl cs else cs) @
        [\<lparr>sc_subsystem = subsystem, sc_allocs = (if is_alloc then 1 else 0), sc_frees = (if is_alloc then 0 else 1),
          sc_live = (if is_alloc then 1 else 0), sc_bytes_live = (if is_alloc then amount else 0),
          sc_high_water = (if is_alloc then amount else 0)\<rparr>])"

section \<open>Futexes\<close>

definition MAX_FUTEX_WAITERS :: nat where "MAX_FUTEX_WAITERS = 128"

record futex_waiter =
  fw_addr :: u64
  fw_task :: nat

record futex_stats =
  fx_waits :: u64
  fx_wakes :: u64
  fx_mismatches :: u64
  fx_timeouts :: u64
  fx_interrupted :: u64
  fx_dropped :: u64
  fx_last_addr :: u64
  fx_last_task :: nat
  fx_max_waiters :: nat

record futex_state =
  fx_waiters :: "futex_waiter list"
  fx_stats :: futex_stats

definition futex_new :: futex_state where
  "futex_new = \<lparr>fx_waiters = [], fx_stats = \<lparr>fx_waits = 0, fx_wakes = 0, fx_mismatches = 0, fx_timeouts = 0,
     fx_interrupted = 0, fx_dropped = 0, fx_last_addr = 0, fx_last_task = 0, fx_max_waiters = 0\<rparr>\<rparr>"

definition register_waiter :: "u64 \<Rightarrow> nat \<Rightarrow> futex_state \<Rightarrow> bool \<times> futex_state" where
  "register_waiter addr t s =
     (if list_ex (\<lambda>w. fw_addr w = addr \<and> fw_task w = t) (fx_waiters s) then (True, s)
      else if length (fx_waiters s) \<ge> MAX_FUTEX_WAITERS then (False, s)
      else let ws = fx_waiters s @ [\<lparr>fw_addr = addr, fw_task = t\<rparr>]; st = fx_stats s in
        (True, s\<lparr>fx_waiters := ws, fx_stats := st\<lparr>fx_waits := saturating_add (fx_waits st) 1, fx_last_addr := addr, fx_last_task := t,
           fx_max_waiters := max (fx_max_waiters st) (length ws)\<rparr>\<rparr>))"

definition unregister_waiter :: "u64 \<Rightarrow> nat \<Rightarrow> futex_state \<Rightarrow> bool \<times> futex_state" where
  "unregister_waiter addr t s =
     (let ws = filter (\<lambda>w. \<not> (fw_addr w = addr \<and> fw_task w = t)) (fx_waiters s) in
      (length (fx_waiters s) \<noteq> length ws, s\<lparr>fx_waiters := ws\<rparr>))"

text \<open>The pass over the waiters, with the tasks woken so far.\<close>

fun wake_retain :: "u64 \<Rightarrow> nat \<Rightarrow> nat list \<Rightarrow> futex_waiter list \<Rightarrow> nat list \<times> futex_waiter list" where
  "wake_retain addr n woken [] = (woken, [])"
| "wake_retain addr n woken (w # ws) =
     (if fw_addr w = addr \<and> length woken < n then wake_retain addr n (woken @ [fw_task w]) ws
      else let (woken', ws') = wake_retain addr n woken ws in (woken', w # ws'))"

definition futex_wake :: "u64 \<Rightarrow> nat \<Rightarrow> futex_state \<Rightarrow> nat list \<times> futex_state" where
  "futex_wake addr n s =
     (if n = 0 then ([], s)
      else let (woken, ws) = wake_retain addr n [] (fx_waiters s); st = fx_stats s;
               st1 = st\<lparr>fx_wakes := saturating_add (fx_wakes st) (of_nat (length woken)), fx_last_addr := addr\<rparr>;
               st2 = (if woken = [] then st1 else st1\<lparr>fx_last_task := last woken\<rparr>)
           in (woken, s\<lparr>fx_waiters := ws, fx_stats := st2\<rparr>))"

definition drop_task_waiters :: "nat \<Rightarrow> futex_state \<Rightarrow> futex_state" where
  "drop_task_waiters t s =
     (let ws = filter (\<lambda>w. fw_task w \<noteq> t) (fx_waiters s); dropped = length (fx_waiters s) - length ws; st = fx_stats s in
      s\<lparr>fx_waiters := ws, fx_stats := (if dropped > 0
         then st\<lparr>fx_dropped := saturating_add (fx_dropped st) (of_nat dropped), fx_last_task := t\<rparr> else st)\<rparr>)"

definition record_mismatch :: "u64 \<Rightarrow> nat \<Rightarrow> futex_state \<Rightarrow> futex_state" where
  "record_mismatch addr t s = (let st = fx_stats s in
     s\<lparr>fx_stats := st\<lparr>fx_mismatches := saturating_add (fx_mismatches st) 1, fx_last_addr := addr, fx_last_task := t\<rparr>\<rparr>)"

definition record_timeout :: "u64 \<Rightarrow> nat \<Rightarrow> futex_state \<Rightarrow> futex_state" where
  "record_timeout addr t s = (let st = fx_stats s in
     s\<lparr>fx_stats := st\<lparr>fx_timeouts := saturating_add (fx_timeouts st) 1, fx_last_addr := addr, fx_last_task := t\<rparr>\<rparr>)"

definition record_interrupted :: "u64 \<Rightarrow> nat \<Rightarrow> futex_state \<Rightarrow> futex_state" where
  "record_interrupted addr t s = (let st = fx_stats s in
     s\<lparr>fx_stats := st\<lparr>fx_interrupted := saturating_add (fx_interrupted st) 1, fx_last_addr := addr, fx_last_task := t\<rparr>\<rparr>)"

section \<open>The tables stay small and without duplicates\<close>

definition queues_ok :: "wait_queue_info list \<Rightarrow> bool" where
  "queues_ok qs = (length qs \<le> MAX_QUEUES \<and> distinct (map wq_name qs))"

lemma update_same_map: "i < length xs \<Longrightarrow> f y = f (xs ! i) \<Longrightarrow> map f (xs[i := y]) = map f xs"
  by (simp add: map_update) (metis length_map list_update_id nth_map)

lemma distinct_tl_append: "distinct (map f xs) \<Longrightarrow> \<forall>x \<in> set xs. f x \<noteq> f y \<Longrightarrow> distinct (map f (tl xs @ [y])) \<and> distinct (map f (xs @ [y]))"
  by (cases xs) auto

lemma queue_update_ok: "queues_ok qs \<Longrightarrow> queues_ok (queue_update h tick name t w qs)"
  using distinct_tl_append [of wq_name qs "\<lparr>wq_name = name, wq_waiters = 0, wq_waits = 0, wq_wakes = 0, wq_last_task = 0, wq_last_tick = 0\<rparr>"]
  by (auto simp: queues_ok_def queue_update_def MAX_QUEUES_def count_wait_def position_None update_same_map
      split: option.splits dest!: position_Some)

definition futex_ok :: "futex_state \<Rightarrow> bool" where
  "futex_ok s = (length (fx_waiters s) \<le> MAX_FUTEX_WAITERS \<and> distinct (fx_waiters s))"

lemma futex_waiter_eq: "w = \<lparr>fw_addr = a, fw_task = t\<rparr> \<longleftrightarrow> fw_addr w = a \<and> fw_task w = t"
  by auto

lemma register_ok: "futex_ok s \<Longrightarrow> futex_ok (snd (register_waiter addr t s))"
  by (auto simp: futex_ok_def register_waiter_def Let_def list_ex_iff)

text \<open>Waking takes the first waiters of the address, in the order in which they came, and leaves all others in place.\<close>

lemma wake_retain_woken:
  "fst (wake_retain addr n woken ws) = woken @ map fw_task (take (n - length woken) (filter (\<lambda>w. fw_addr w = addr) ws))"
  by (induction ws arbitrary: woken) (auto simp: split_beta take_Cons' Suc_diff_Suc)

lemma wake_retain_here:
  "filter (\<lambda>w. fw_addr w = addr) (snd (wake_retain addr n woken ws)) = drop (n - length woken) (filter (\<lambda>w. fw_addr w = addr) ws)"
  by (induction ws arbitrary: woken) (auto simp: split_beta drop_Cons' Suc_diff_Suc)

lemma wake_retain_elsewhere:
  "filter (\<lambda>w. fw_addr w \<noteq> addr) (snd (wake_retain addr n woken ws)) = filter (\<lambda>w. fw_addr w \<noteq> addr) ws"
  by (induction ws arbitrary: woken) (auto simp: split_beta)

lemma wake_retain_subseq: "subseq (snd (wake_retain addr n woken ws)) ws"
  by (induction ws arbitrary: woken) (auto simp: split_beta)

lemma distinct_subseq: "subseq xs ys \<Longrightarrow> distinct ys \<Longrightarrow> distinct xs"
  by (induction rule: list_emb.induct) (auto dest: list_emb_set)

lemma futex_wake_ok: "futex_ok s \<Longrightarrow> futex_ok (snd (futex_wake addr n s))"
  using wake_retain_subseq [of addr n "[]" "fx_waiters s"]
  by (auto simp: futex_ok_def futex_wake_def Let_def split_beta dest: list_emb_length distinct_subseq)

text \<open>C39: Waking a futex is the same as taking the first \<open>n\<close> waiters of its address: exactly these tasks are woken, in the order in
  which they began to wait, the later ones and those of all other addresses keep their places, and nobody is added.
\<close>

theorem futex_wake_is_fifo:
  "fst (futex_wake addr n s) = map fw_task (take n (filter (\<lambda>w. fw_addr w = addr) (fx_waiters s))) \<and>
   filter (\<lambda>w. fw_addr w = addr) (fx_waiters (snd (futex_wake addr n s))) = drop n (filter (\<lambda>w. fw_addr w = addr) (fx_waiters s)) \<and>
   filter (\<lambda>w. fw_addr w \<noteq> addr) (fx_waiters (snd (futex_wake addr n s))) = filter (\<lambda>w. fw_addr w \<noteq> addr) (fx_waiters s) \<and>
   subseq (fx_waiters (snd (futex_wake addr n s))) (fx_waiters s)"
  using wake_retain_woken [of addr n "[]" "fx_waiters s"] wake_retain_here [of addr n "[]" "fx_waiters s"]
    wake_retain_elsewhere [of addr n "[]" "fx_waiters s"] wake_retain_subseq [of addr n "[]" "fx_waiters s"]
  by (simp add: futex_wake_def Let_def split_beta)


end
