(* ===== verification/Heap_Pressure.thy ===== *)
theory Heap_Pressure
  imports Block_Cache
begin

text \<open>
  The levels of memory pressure and their counters (\<open>src/src/memory_pressure.rs\<close>) and the heap snapshot they are computed
  from (\<open>src/src/allocator.rs\<close>). The bytes in use are reported by the \<open>linked_list_allocator\<close> crate and are an argument.
\<close>

section \<open>Heap\<close>

definition HEAP_SIZE :: nat where "HEAP_SIZE = 96 * 1024 * 1024"

record heap_snapshot =
  hs_total :: nat
  hs_used :: nat
  hs_free :: nat
  hs_high_water :: nat
  hs_diag_samples :: u64

datatype pressure_level = Normal | Low | Critical

record pressure_state =
  high_water :: nat
  diag_samples :: u64
  last_check_tick :: u64
  checks :: u64
  trim_attempts :: u64
  coolfs_trimmed_bytes :: u64
  browser_trimmed_bytes :: u64
  oom_kills :: u64
  last_reclaimed_bytes :: u64
  last_victim_pid :: "nat option"
  last_level :: nat

definition pressure_new :: pressure_state where
  "pressure_new = \<lparr>high_water = 0, diag_samples = 0, last_check_tick = 0, checks = 0, trim_attempts = 0, coolfs_trimmed_bytes = 0,
     browser_trimmed_bytes = 0, oom_kills = 0, last_reclaimed_bytes = 0, last_victim_pid = None, last_level = 0\<rparr>"

definition record_heap_sample :: "nat \<Rightarrow> pressure_state \<Rightarrow> pressure_state" where
  "record_heap_sample used p =
     p\<lparr>diag_samples := diag_samples p + 1, high_water := (if used > high_water p then used else high_water p)\<rparr>"

definition take_heap_snapshot :: "nat \<Rightarrow> pressure_state \<Rightarrow> heap_snapshot \<times> pressure_state" where
  "take_heap_snapshot used p =
     (let p' = record_heap_sample used p in
      (\<lparr>hs_total = HEAP_SIZE, hs_used = used, hs_free = HEAP_SIZE - used, hs_high_water = high_water p', hs_diag_samples = diag_samples p'\<rparr>, p'))"

section \<open>Levels\<close>

definition HEAP_LOW_FREE_BYTES :: nat where "HEAP_LOW_FREE_BYTES = 16 * 1024 * 1024"
definition HEAP_CRITICAL_FREE_BYTES :: nat where "HEAP_CRITICAL_FREE_BYTES = 8 * 1024 * 1024"
definition HEAP_ADMISSION_RESERVE_BYTES :: nat where "HEAP_ADMISSION_RESERVE_BYTES = 4 * 1024 * 1024"
definition HEAP_LOW_USED_PCT :: nat where "HEAP_LOW_USED_PCT = 85"
definition HEAP_CRITICAL_USED_PCT :: nat where "HEAP_CRITICAL_USED_PCT = 92"

primrec level_code :: "pressure_level \<Rightarrow> nat" where
  "level_code Normal = 0"
| "level_code Low = 1"
| "level_code Critical = 2"

text \<open>The multiplication saturates at the size of a machine word.\<close>

definition pressure_level :: "nat \<Rightarrow> nat \<Rightarrow> pressure_level" where
  "pressure_level free_bytes total_bytes =
     (let used_bytes = total_bytes - free_bytes;
          used_pct = (if total_bytes = 0 then 100 else min (2 ^ 64 - 1) (used_bytes * 100) div total_bytes)
      in if free_bytes \<le> HEAP_CRITICAL_FREE_BYTES \<or> used_pct \<ge> HEAP_CRITICAL_USED_PCT then Critical
         else if free_bytes \<le> HEAP_LOW_FREE_BYTES \<or> used_pct \<ge> HEAP_LOW_USED_PCT then Low
         else Normal)"

text \<open>The level and the free bytes of a memory snapshot; reading it stores the level.\<close>

definition snapshot :: "nat \<Rightarrow> pressure_state \<Rightarrow> (pressure_level \<times> nat) \<times> pressure_state" where
  "snapshot used p =
     (let (heap, p1) = take_heap_snapshot used p; level = pressure_level (hs_free heap) (hs_total heap) in
      ((level, hs_free heap), p1\<lparr>last_level := level_code level\<rparr>))"

definition has_allocation_reserve :: "nat \<Rightarrow> nat \<Rightarrow> pressure_state \<Rightarrow> bool \<times> pressure_state" where
  "has_allocation_reserve used bytes p =
     (let ((_, heap_free), p') = snapshot used p in (heap_free - bytes \<ge> HEAP_ADMISSION_RESERVE_BYTES, p'))"

text \<open>On the heap of the kernel the percentages never decide: the level is given by the free bytes alone.\<close>

lemma pressure_level_heap:
  assumes "free \<le> HEAP_SIZE"
  shows "pressure_level free HEAP_SIZE =
    (if free \<le> HEAP_CRITICAL_FREE_BYTES then Critical else if free \<le> HEAP_LOW_FREE_BYTES then Low else Normal)"
proof -
  let ?u = "(HEAP_SIZE - free) * 100 div HEAP_SIZE"
  have m: "min (2 ^ 64 - 1) ((HEAP_SIZE - free) * 100) = (HEAP_SIZE - free) * 100" by (simp add: HEAP_SIZE_def)
  have c: "?u < HEAP_CRITICAL_USED_PCT" if "free > HEAP_CRITICAL_FREE_BYTES"
    using that by (simp add: HEAP_SIZE_def HEAP_CRITICAL_FREE_BYTES_def HEAP_CRITICAL_USED_PCT_def less_mult_imp_div_less)
  have l: "?u < HEAP_LOW_USED_PCT" if "free > HEAP_LOW_FREE_BYTES"
    using that by (simp add: HEAP_SIZE_def HEAP_LOW_FREE_BYTES_def HEAP_LOW_USED_PCT_def less_mult_imp_div_less)
  have "HEAP_SIZE \<noteq> 0" by (simp add: HEAP_SIZE_def)
  moreover have "HEAP_CRITICAL_FREE_BYTES < HEAP_LOW_FREE_BYTES" by (simp add: HEAP_CRITICAL_FREE_BYTES_def HEAP_LOW_FREE_BYTES_def)
  ultimately show ?thesis using c l unfolding pressure_level_def Let_def m
    by (cases "free \<le> HEAP_CRITICAL_FREE_BYTES"; cases "free \<le> HEAP_LOW_FREE_BYTES") (simp_all add: not_le)
qed

lemma high_water_snapshot: "used \<le> high_water (snd (snapshot used p))" "high_water p \<le> high_water (snd (snapshot used p))"
  by (simp_all add: snapshot_def take_heap_snapshot_def record_heap_sample_def Let_def)

end
