(* ===== verification/Processes.thy ===== *)
theory Processes
  imports Accounts Descriptors Tasks Wait_Queues Heap_Pressure
begin

text \<open>
  Processes of \<open>src/src/scheduler.rs\<close> with everything a process owns: its descriptors and shared memory
  (\<open>src/src/vfs.rs\<close>), its futex waiters, and the tasks waiting for it. The system state \<open>osys\<close> has the kernel state of
  \<open>Vfs\<close> next to the scheduler, the descriptor layer and the tables of \<open>Wait_Queues\<close>. Calls into subsystems that are not
  modelled (windows, sockets, notifications, crash reports, the application log, page tables) are recorded in \<open>calls\<close>, in
  their order. The heap is an argument of a spawn: the bytes in use and the address of the new kernel stack, \<open>None\<close> when there
  is no memory. Of a stack only the context block at its top is kept.
\<close>

section \<open>State\<close>

datatype subsystem_call =
    CloseSockets nat
  | CloseWindows nat
  | TaskReport nat string
  | Notify string string
  | ProcessStart nat string string
  | ProcessExit nat string
  | FreeAddressSpace nat
  | FreeFrame nat
  | MapPage nat u64 nat
  | TrimBrowser

record shmem_region =
  sr_frames :: "nat list"
  sr_refcount :: nat

record child_poll_waiter =
  cw_parent :: nat
  cw_child :: nat
  cw_waiter :: nat

record osys =
  kern :: kernel
  vfs :: vfs_state
  sch :: scheduler
  queues :: "wait_queue_info list"
  slabs :: "slab_counter list"
  futexes :: futex_state
  regions :: "shmem_region option list"
  shmem_next_id :: nat
  child_waiters :: "child_poll_waiter list"
  pressure :: pressure_state
  calls :: "subsystem_call list"

definition upd_log :: "(change_log \<Rightarrow> change_log) \<Rightarrow> osys \<Rightarrow> osys" where
  "upd_log f s = s\<lparr>kern := (kern s)\<lparr>fs := (fs (kern s))\<lparr>log := f (log (fs (kern s)))\<rparr>\<rparr>\<rparr>"

definition upd_sch :: "(scheduler \<Rightarrow> scheduler) \<Rightarrow> osys \<Rightarrow> osys" where
  "upd_sch f s = s\<lparr>sch := f (sch s)\<rparr>"

definition call :: "subsystem_call \<Rightarrow> osys \<Rightarrow> osys" where
  "call c s = s\<lparr>calls := calls s @ [c]\<rparr>"

definition osys_heap_ready :: "osys \<Rightarrow> bool" where
  "osys_heap_ready s = heap_ready (log (fs (kern s)))"

text \<open>A path function of the kernel runs with the credentials of the current task.\<close>

definition on_kern :: "(kernel, 'e, 'a) sm \<Rightarrow> (osys, 'e, 'a) sm" where
  "on_kern m s =
     (case m ((kern s)\<lparr>task_credentials := sched_credentials (sch s)\<rparr>) of (r, k) \<Rightarrow> (r, s\<lparr>kern := k\<rparr>))"

section \<open>Waking\<close>

definition wake_task :: "string \<Rightarrow> nat \<Rightarrow> osys \<Rightarrow> osys" where
  "wake_task queue task_id s =
     s\<lparr>queues := queue_wake (osys_heap_ready s) (now (kern s)) queue task_id (queues s), sch := unblock task_id (sch s)\<rparr>"

definition wake_tasks :: "string \<Rightarrow> nat list \<Rightarrow> osys \<Rightarrow> osys" where
  "wake_tasks queue ts s = fold (wake_task queue) ts s"

definition wake_child_poll_waiters :: "nat \<Rightarrow> nat \<Rightarrow> osys \<Rightarrow> osys" where
  "wake_child_poll_waiters parent child s =
     (let (hits, rest) = partition (\<lambda>w. cw_parent w = parent \<and> cw_child w = child) (child_waiters s) in
      wake_tasks ''child-exit'' (map cw_waiter hits) (s\<lparr>child_waiters := rest\<rparr>))"

definition wake_waiting_parent :: "nat option \<Rightarrow> nat \<Rightarrow> osys \<Rightarrow> osys" where
  "wake_waiting_parent parent child s =
     (case parent of
        None \<Rightarrow> s
      | Some p \<Rightarrow> wake_child_poll_waiters p child (wake_task ''waitpid'' p s))"

section \<open>What a task owns\<close>

definition commit_files :: "fat_driver \<Rightarrow> (string \<times> bytes) list \<Rightarrow> osys \<Rightarrow> osys" where
  "commit_files fat commits s = fold (\<lambda>(path, data) s. snd (on_kern (vfs_safe_write_file fat path data) s)) commits s"

primrec release_regions :: "nat list \<Rightarrow> shmem_region option list \<Rightarrow> nat list \<times> shmem_region option list" where
  "release_regions [] rs = ([], rs)"
| "release_regions (i # ids) rs =
     (case (if i < length rs then rs ! i else None) of
        None \<Rightarrow> release_regions ids rs
      | Some r \<Rightarrow>
        if sr_refcount r - 1 = 0
        then (let (frames, rs') = release_regions ids (rs[i := None]) in (sr_frames r @ frames, rs'))
        else release_regions ids (rs[i := Some (r\<lparr>sr_refcount := sr_refcount r - 1\<rparr>)]))"

definition release_shmem_refs :: "nat list \<Rightarrow> osys \<Rightarrow> osys" where
  "release_shmem_refs ids s =
     (if ids = [] then s
      else let (frames, rs) = release_regions ids (regions s) in fold (\<lambda>f. call (FreeFrame f)) frames (s\<lparr>regions := rs\<rparr>))"

definition drop_task :: "fat_driver \<Rightarrow> nat \<Rightarrow> osys \<Rightarrow> osys" where
  "drop_task fat task_id s =
     (if task_id \<ge> length (task_fds (vfs s)) then s
      else
        let (events, v1) = drop_fds task_id [0..<MAX_FDS] (vfs s);
            (refs, v2) = take_shmem_refs task_id v1
        in wake_tasks ''pipe'' (concat (map wake_list events))
             (release_shmem_refs refs (commit_files fat (List.map_filter commit events) (s\<lparr>vfs := v2\<rparr>))))"

definition drop_task_shmem_refs :: "nat \<Rightarrow> osys \<Rightarrow> osys" where
  "drop_task_shmem_refs task_id s = (let (refs, v) = take_shmem_refs task_id (vfs s) in release_shmem_refs refs (s\<lparr>vfs := v\<rparr>))"

definition cleanup_task_resources :: "fat_driver \<Rightarrow> nat \<Rightarrow> osys \<Rightarrow> osys" where
  "cleanup_task_resources fat task_id s =
     call (CloseSockets task_id) (drop_task fat task_id (s\<lparr>futexes := drop_task_waiters task_id (futexes s)\<rparr>))"

section \<open>The end of a task\<close>

definition record_task :: "nat \<Rightarrow> string \<Rightarrow> string \<Rightarrow> osys \<Rightarrow> osys" where
  "record_task task_id name detail = upd_log (profiler_record ''task'' name (''pid='' @ dec_string task_id @ '' '' @ detail))"

text \<open>What is told to the rest of the system when a task ends: the profiler detail, the crash report, the notification and
  the entry of the application log.\<close>

definition announce_end :: "nat \<Rightarrow> string \<Rightarrow> string \<Rightarrow> string \<Rightarrow> string \<times> string \<Rightarrow> string \<Rightarrow> osys \<Rightarrow> osys" where
  "announce_end task_id name detail report note exit_text s =
     upd_log (deferred_enqueue FlushKernelLog) (upd_log (deferred_enqueue PersistTaskSnapshot)
       (call (ProcessExit task_id exit_text) (call (Notify (fst note) (snd note)) (call (TaskReport task_id report)
         (record_task task_id name detail (call (CloseWindows task_id) s))))))"

definition mark_exited :: "nat \<Rightarrow> u64 \<Rightarrow> osys \<Rightarrow> osys" where
  "mark_exited task_id code =
     upd_sch (set_task task_id (\<lambda>t. t\<lparr>t_status := Exited, t_exit_code := Some code, t_wake_tick := None\<rparr>))"

definition name_of :: "nat \<Rightarrow> osys \<Rightarrow> string" where
  "name_of task_id s = (case task_at task_id (sch s) of Some t \<Rightarrow> t_name t | None \<Rightarrow> ''task'')"

definition task_parent :: "nat \<Rightarrow> osys \<Rightarrow> nat option" where
  "task_parent task_id s = Option.bind (task_at task_id (sch s)) t_parent"

definition pid_text :: "nat \<Rightarrow> string \<Rightarrow> string" where
  "pid_text task_id rest = ''pid '' @ dec_string task_id @ rest"

definition exit_current :: "fat_driver \<Rightarrow> u64 \<Rightarrow> osys \<Rightarrow> osys" where
  "exit_current fat code s =
     (let i = current (sch s); name = name_of i s; parent = task_parent i s; c = dec_string (unat code) in
      wake_waiting_parent parent i (mark_exited i code
        (announce_end i name ''exited'' ''task exited'' (''Task exited'', pid_text i ('' exit '' @ c)) (''exit '' @ c)
          (cleanup_task_resources fat i s))))"

definition kill_check :: "nat \<Rightarrow> scheduler \<Rightarrow> kill_error + task" where
  "kill_check i s =
     (if i = 0 then Inl CannotKillIdle
      else if i = current s then Inl CannotKillCurrent
      else case task_at i s of
        None \<Rightarrow> Inl KillInvalidTask
      | Some t \<Rightarrow>
        if \<not> can_control_task s (current s) i then Inl KillPermissionDenied
        else if t_status t = Exited then Inl KillAlreadyExited
        else if t_status t = Reaped then Inl KillAlreadyReaped
        else Inr t)"

definition kill_task :: "fat_driver \<Rightarrow> nat \<Rightarrow> u64 \<Rightarrow> osys \<Rightarrow> (kill_error + unit) \<times> osys" where
  "kill_task fat i code s =
     (case kill_check i (sch s) of
        Inl e \<Rightarrow> (Inl e, s)
      | Inr t \<Rightarrow>
        let c = dec_string (unat code) in
        (Inr (), announce_end i (t_name t) ''killed'' ''task killed'' (''Task killed'', pid_text i ('' exit '' @ c)) (''killed '' @ c)
          (cleanup_task_resources fat i (wake_waiting_parent (t_parent t) i (mark_exited i code s)))))"

definition fault_current :: "fat_driver \<Rightarrow> u64 \<Rightarrow> string \<Rightarrow> osys \<Rightarrow> nat \<times> osys" where
  "fault_current fat code reason s =
     (let i = current (sch s); name = name_of i s; parent = task_parent i s;
          s1 = upd_sch (set_task i (\<lambda>t. t\<lparr>t_status := Exited, t_exit_code := Some code\<rparr>)) s
      in (i, announce_end i name reason reason (''Task faulted'', pid_text i ('' '' @ reason))
            (''fault '' @ dec_string (unat code) @ '' '' @ reason)
            (cleanup_task_resources fat i (wake_waiting_parent parent i s1))))"

section \<open>Signals\<close>

definition send_signal :: "fat_driver \<Rightarrow> nat \<Rightarrow> signal \<Rightarrow> osys \<Rightarrow> (signal_error + unit) \<times> osys" where
  "send_signal fat i sig s =
     (if i = 0 then (Inl CannotSignalIdle, s)
      else case signal_exit_code sig of
        Some code \<Rightarrow>
          if i = current (sch s) then (Inr (), exit_current fat code s)
          else (case kill_task fat i code s of (r, s') \<Rightarrow> (map_sum signal_error_from_kill (\<lambda>u. u) r, s'))
      | None \<Rightarrow>
        (case control_check (current (sch s)) i (sch s) of
           Inl e \<Rightarrow> (Inl e, s)
         | Inr _ \<Rightarrow> (Inr (), call (Notify ''Signal delivered'' (pid_text i ('' '' @ signal_label sig)))
             (upd_sch (set_task i (apply_signal sig)) s))))"

primrec signal_all :: "fat_driver \<Rightarrow> nat list \<Rightarrow> signal \<Rightarrow> osys \<Rightarrow> nat \<times> osys" where
  "signal_all fat [] sig s = (0, s)"
| "signal_all fat (i # ids) sig s =
     (let (r, s1) = send_signal fat i sig s; (n, s2) = signal_all fat ids sig s1 in
      (if isl r then n else Suc n, s2))"

definition send_signal_to_group :: "fat_driver \<Rightarrow> nat \<Rightarrow> signal \<Rightarrow> osys \<Rightarrow> (signal_error + nat) \<times> osys" where
  "send_signal_to_group fat grp sig s =
     (let ids = group_targets grp (sch s) in
      if ids = [] then (Inl InvalidGroup, s)
      else let (n, s') = signal_all fat ids sig s in (if n = 0 then Inl SigPermissionDenied else Inr n, s'))"

section \<open>Reaping\<close>

definition free_stack :: "nat \<Rightarrow> osys \<Rightarrow> osys" where
  "free_stack i s =
     (case task_at i (sch s) of
        None \<Rightarrow> s
      | Some t \<Rightarrow> upd_sch (set_task i release_stack)
          (if t_stack t = [] then s
           else s\<lparr>slabs := slab_update (osys_heap_ready s) ''task-stack'' (of_nat STACK_SIZE) False (slabs s)\<rparr>))"

definition free_space :: "nat option \<Rightarrow> osys \<Rightarrow> osys" where
  "free_space pml4 s = (case pml4 of Some p \<Rightarrow> call (FreeAddressSpace p) s | None \<Rightarrow> s)"

definition take_space :: "nat \<Rightarrow> osys \<Rightarrow> nat option \<times> osys" where
  "take_space i s = (let (pml4, sc) = take_reap_pml4 i (sch s) in (pml4, s\<lparr>sch := sc\<rparr>))"

definition reap :: "nat \<Rightarrow> osys \<Rightarrow> nat option \<times> osys" where
  "reap i s = take_space i (free_stack i (upd_sch (set_task i (\<lambda>t. t\<lparr>t_status := Reaped\<rparr>)) s))"

definition waitpid :: "nat \<Rightarrow> nat \<Rightarrow> osys \<Rightarrow> (wait_error + u64) \<times> osys" where
  "waitpid parent i s =
     (if i = 0 then (Inl WaitInvalidTask, s)
      else case task_at i (sch s) of
        None \<Rightarrow> (Inl WaitInvalidTask, s)
      | Some t \<Rightarrow>
        if t_parent t \<noteq> Some parent \<and> parent \<noteq> 0 then (Inl WaitNotChild, s)
        else (case t_status t of
          Exited \<Rightarrow>
            let (pml4, s1) = reap i s in
            (Inr (case t_exit_code t of Some c \<Rightarrow> c | None \<Rightarrow> 0), upd_log (deferred_enqueue PersistTaskSnapshot) (free_space pml4 s1))
        | Reaped \<Rightarrow> (Inl WaitAlreadyReaped, s)
        | _ \<Rightarrow> (Inl NotExited, s)))"

definition reapable :: "nat \<Rightarrow> nat \<Rightarrow> scheduler \<Rightarrow> bool" where
  "reapable parent i s =
     (case task_at i s of Some t \<Rightarrow> t_status t = Exited \<and> (t_parent t = Some parent \<or> parent = 0) | None \<Rightarrow> False)"

primrec reap_loop :: "nat \<Rightarrow> nat list \<Rightarrow> osys \<Rightarrow> (nat \<times> nat list) \<times> osys" where
  "reap_loop parent [] s = ((0, []), s)"
| "reap_loop parent (i # is) s =
     (if i = 0 \<or> \<not> reapable parent i (sch s) then reap_loop parent is s
      else let (pml4, s1) = reap i s; ((n, frees), s2) = reap_loop parent is s1 in
           ((Suc n, case pml4 of Some p \<Rightarrow> p # frees | None \<Rightarrow> frees), s2))"

definition reap_all_exited :: "nat \<Rightarrow> osys \<Rightarrow> nat \<times> osys" where
  "reap_all_exited parent s =
     (let ((n, frees), s1) = reap_loop parent [0..<length (tasks (sch s))] s in
      (n, if n > 0 then upd_log (deferred_enqueue PersistTaskSnapshot) (fold (\<lambda>p. call (FreeAddressSpace p)) frees s1) else s1))"

definition force_reclaim_task :: "fat_driver \<Rightarrow> nat \<Rightarrow> u64 \<Rightarrow> osys \<Rightarrow> (kill_error + unit) \<times> osys" where
  "force_reclaim_task fat i code s =
     (if i = 0 then (Inl CannotKillIdle, s)
      else if i = current (sch s) then (Inl CannotKillCurrent, s)
      else case task_at i (sch s) of
        None \<Rightarrow> (Inl KillInvalidTask, s)
      | Some t \<Rightarrow>
        if t_status t = Exited then (Inl KillAlreadyExited, s)
        else if t_status t = Reaped then (Inl KillAlreadyReaped, s)
        else
          let s1 = upd_sch (set_task i (\<lambda>t. t\<lparr>t_status := Reaped, t_exit_code := Some code, t_wake_tick := None\<rparr>)) s;
              (pml4, s2) = take_space i (free_stack i s1)
          in (Inr (), free_space pml4 (announce_end i (t_name t) ''oom-reclaimed'' ''memory pressure oom'' (''Task reclaimed'', ''memory pressure'') ''oom''
                (cleanup_task_resources fat i (wake_waiting_parent (t_parent t) i s2)))))"

section \<open>Waiting for children\<close>

definition child_exit_revents :: "nat \<Rightarrow> nat \<Rightarrow> scheduler \<Rightarrow> u64" where
  "child_exit_revents parent child s =
     (if child = 0 then EVENT_ERROR
      else case task_at child s of
        None \<Rightarrow> EVENT_ERROR
      | Some t \<Rightarrow>
        if t_parent t \<noteq> Some parent \<and> parent \<noteq> 0 then EVENT_ERROR
        else (case t_status t of Exited \<Rightarrow> or EVENT_READ EVENT_CHILD | Reaped \<Rightarrow> EVENT_HANGUP | _ \<Rightarrow> 0))"

definition register_child_waiter :: "nat \<Rightarrow> nat \<Rightarrow> nat \<Rightarrow> osys \<Rightarrow> bool \<times> osys" where
  "register_child_waiter parent child waiter s =
     (if child = 0 then (False, s)
      else case task_at child (sch s) of
        None \<Rightarrow> (False, s)
      | Some t \<Rightarrow>
        if t_parent t \<noteq> Some parent \<and> parent \<noteq> 0 then (False, s)
        else if t_status t = Reaped then (False, s)
        else let w = \<lparr>cw_parent = parent, cw_child = child, cw_waiter = waiter\<rparr> in
          (True, if w \<in> set (child_waiters s) then s else s\<lparr>child_waiters := child_waiters s @ [w]\<rparr>))"

definition unregister_child_waiter :: "nat \<Rightarrow> nat \<Rightarrow> nat \<Rightarrow> osys \<Rightarrow> osys" where
  "unregister_child_waiter parent child waiter s =
     s\<lparr>child_waiters := filter (\<lambda>w. \<not> (cw_parent w = parent \<and> cw_child w = child \<and> cw_waiter w = waiter)) (child_waiters s)\<rparr>"

section \<open>New tasks\<close>

text \<open>The 20 words a context switch restores: 15 registers, then \<open>RIP\<close>, \<open>CS\<close>, \<open>RFLAGS\<close>, \<open>RSP\<close> and \<open>SS\<close>.\<close>

definition context_block :: "u64 \<Rightarrow> u64 \<Rightarrow> u64 \<Rightarrow> u64 \<Rightarrow> u64 \<Rightarrow> u64 \<Rightarrow> u64 list" where
  "context_block rip cs rsp ss rdi rsi = (replicate 15 0)[9 := rdi, 10 := rsi] @ [rip, cs, 0x202, rsp, ss]"

definition stack_top :: "nat \<Rightarrow> nat" where
  "stack_top base = (base + STACK_SIZE) div 16 * 16"

definition add_idle :: "nat \<Rightarrow> osys \<Rightarrow> osys" where
  "add_idle boot_stack s =
     s\<lparr>sch := (sch s)\<lparr>tasks := tasks (sch s) @ [idle_task (interactive_credentials (sec (kern s)))], syscall_stack := 0, privilege_stack := boot_stack\<rparr>,
       vfs := init_task 0 (vfs s)\<rparr>"

definition new_task :: "string \<Rightarrow> nat \<Rightarrow> u64 list \<Rightarrow> nat option \<Rightarrow> u64 \<Rightarrow> osys \<Rightarrow> task" where
  "new_task name base block pml4 tls s =
     (let parent = (if tasks (sch s) = [] then None else Some (current (sch s)));
          p = Option.bind parent (\<lambda>i. task_at i (sch s)); id' = length (tasks (sch s)) in
      \<lparr>t_name = name, t_stack = block, t_syscall_stack_top = stack_top base, t_stack_ptr = stack_top base - 20 * 8,
       t_status = Ready, t_exit_code = None, t_parent = parent,
       t_process_group = (case p of Some t \<Rightarrow> t_process_group t | None \<Rightarrow> id'),
       t_controlling_tty = Option.bind p t_controlling_tty, t_pending_signal = None, t_wake_tick = None,
       t_credentials = (case p of Some t \<Rightarrow> t_credentials t | None \<Rightarrow> interactive_credentials (sec (kern s))),
       t_cwd = (case p of Some t \<Rightarrow> t_cwd t | None \<Rightarrow> ''/''),
       t_thread_group = id', t_user_stack_bottom = None, t_tls_base = tls, t_pml4 = pml4\<rparr>)"

type_synonym heap_reply = "nat \<times> nat option"

definition spawn_context :: "heap_reply \<Rightarrow> string \<Rightarrow> u64 \<Rightarrow> u64 \<Rightarrow> u64 option \<Rightarrow> u64 \<Rightarrow> nat option \<Rightarrow> u64 \<Rightarrow> u64 \<Rightarrow> u64 \<Rightarrow> osys \<Rightarrow> nat option \<times> osys" where
  "spawn_context heap name rip cs rsp ss pml4 rdi rsi tls s =
     (case has_allocation_reserve (fst heap) STACK_SIZE (pressure s) of (reserve, p) \<Rightarrow>
      let s = s\<lparr>pressure := p\<rparr> in
      if \<not> reserve then (None, s)
      else case snd heap of
        None \<Rightarrow> (None, s)
      | Some base \<Rightarrow>
        let rsp0 = (case rsp of Some r \<Rightarrow> r | None \<Rightarrow> of_nat (stack_top base - 8));
            t = new_task name base (context_block rip cs rsp0 ss rdi rsi) pml4 tls s;
            i = length (tasks (sch s))
        in (Some i, s\<lparr>slabs := slab_update (osys_heap_ready s) ''task-stack'' (of_nat STACK_SIZE) True (slabs s),
              sch := (sch s)\<lparr>tasks := tasks (sch s) @ [t]\<rparr>, vfs := init_task i (vfs s)\<rparr>))"

definition pop_task :: "osys \<Rightarrow> osys" where
  "pop_task = upd_sch (\<lambda>sc. sc\<lparr>tasks := butlast (tasks sc)\<rparr>)"

definition USER_STACK_BOTTOM :: u64 where "USER_STACK_BOTTOM = 0x7fff00100000 - USER_STACK_SIZE"

definition spawn_user_with_fds_and_credentials ::
  "fat_driver \<Rightarrow> heap_reply \<Rightarrow> u64 \<times> u64 \<Rightarrow> string \<Rightarrow> u64 \<Rightarrow> u64 \<Rightarrow> nat \<Rightarrow> (nat \<times> nat) list \<Rightarrow> credentials option \<Rightarrow> osys \<Rightarrow> bool \<times> osys" where
  "spawn_user_with_fds_and_credentials fat heap sel name entry rsp pml4 fds creds s =
     (if active_task_count (sch s) \<ge> MAX_ACTIVE_TASKS then (False, call (FreeAddressSpace pml4) s)
      else
        let parent = current (sch s) in
        case spawn_context heap name entry (fst sel) (Some rsp) (snd sel) (Some pml4) 0 0 0 s of
          (None, s1) \<Rightarrow> (False, call (FreeAddressSpace pml4) s1)
        | (Some i, s1) \<Rightarrow>
          let s2 = upd_sch (set_task i (\<lambda>t. t\<lparr>t_credentials := (case creds of Some c \<Rightarrow> c | None \<Rightarrow> t_credentials t),
                t_user_stack_bottom := Some USER_STACK_BOTTOM\<rparr>)) s1;
              (inherited, v) = inherit_fds parent i fds (vfs s2);
              s3 = s2\<lparr>vfs := v\<rparr>
          in if inherited then (True, s3)
             else (False, call (FreeAddressSpace pml4) (pop_task (drop_task fat i s3))))"

definition spawn_user_thread :: "fat_driver \<Rightarrow> heap_reply \<Rightarrow> u64 \<times> u64 \<Rightarrow> u64 \<Rightarrow> u64 \<Rightarrow> u64 \<Rightarrow> u64 \<Rightarrow> u64 \<Rightarrow> osys \<Rightarrow> nat option \<times> osys" where
  "spawn_user_thread fat heap sel entry rsp arg stack_bottom tls s =
     (if active_task_count (sch s) \<ge> MAX_ACTIVE_TASKS then (None, s)
      else
        let parent = current (sch s) in
        case task_at parent (sch s) of
          None \<Rightarrow> (None, s)
        | Some p \<Rightarrow> (case t_pml4 p of
            None \<Rightarrow> (None, s)
          | Some pml4 \<Rightarrow>
            (case spawn_context heap ''user-thread'' entry (fst sel) (Some rsp) (snd sel) (Some pml4) arg 0 tls s of
               (None, s1) \<Rightarrow> (None, s1)
             | (Some i, s1) \<Rightarrow>
               let s2 = upd_sch (set_task i (\<lambda>t. t\<lparr>t_thread_group := t_thread_group p, t_user_stack_bottom := Some stack_bottom\<rparr>)) s1;
                   (inherited, v) = inherit_all_fds parent i (vfs s2);
                   s3 = s2\<lparr>vfs := v\<rparr>
               in if inherited then (Some i, s3)
                  else (None, pop_task (free_stack i (drop_task fat i s3))))))"

text \<open>Replacing the program of the current task, once the new image is loaded into the address space \<open>pml4\<close>.\<close>

definition exec_image :: "string \<Rightarrow> nat \<Rightarrow> osys \<Rightarrow> osys" where
  "exec_image path pml4 s =
     (let cur = current (sch s); old = Option.bind (task_at cur (sch s)) t_pml4;
          s1 = call (ProcessStart cur path path) (upd_sch (set_task cur (\<lambda>t. t\<lparr>t_pml4 := Some pml4, t_tls_base := 0\<rparr>)) s);
          s2 = upd_sch (\<lambda>sc. snd (set_current_tls_base 0 (sc\<lparr>page_table := Some pml4\<rparr>))) s1
      in free_space old (drop_task_shmem_refs cur s2))"

section \<open>Memory of tasks\<close>

record task_memory_stats =
  tm_pid :: nat
  tm_status :: task_status
  tm_user_pages :: nat
  tm_estimated :: u64

text \<open>The pages of an address space and the sockets of a task are arguments.\<close>

primrec memory_seeds :: "(nat \<Rightarrow> nat) \<Rightarrow> (nat \<Rightarrow> nat) \<Rightarrow> (nat \<times> task) list \<Rightarrow> nat list \<Rightarrow> osys \<Rightarrow> task_memory_stats list" where
  "memory_seeds pages sockets [] seen s = []"
| "memory_seeds pages sockets (x # xs) seen s =
     (let pid = fst x; t = snd x;
          user_pages = (case t_pml4 t of Some p \<Rightarrow> if p \<in> set seen then 0 else pages p | None \<Rightarrow> 0);
          seen' = (case t_pml4 t of Some p \<Rightarrow> if p \<in> set seen then seen else seen @ [p] | None \<Rightarrow> seen);
          shmem_pages = sum_list (map (\<lambda>i. case (if i < length (regions s) then regions s ! i else None) of
              Some r \<Rightarrow> length (sr_frames r) | None \<Rightarrow> 0)
            (if pid < length (task_shmem_refs (vfs s)) then task_shmem_refs (vfs s) ! pid else []));
          estimated = min (2 ^ 64 - 1) ((user_pages + shmem_pages) * 4096 + (if t_stack t \<noteq> [] then STACK_SIZE else 0) +
            task_open_fd_count pid (vfs s) * 64 + sockets pid * 1024)
      in \<lparr>tm_pid = pid, tm_status = t_status t, tm_user_pages = user_pages, tm_estimated = of_nat estimated\<rparr> #
         memory_seeds pages sockets xs seen' s)"

definition task_memory_stats :: "(nat \<Rightarrow> nat) \<Rightarrow> (nat \<Rightarrow> nat) \<Rightarrow> osys \<Rightarrow> task_memory_stats list" where
  "task_memory_stats pages sockets s =
     memory_seeds pages sockets (filter (\<lambda>(pid, t). pid \<noteq> 0 \<and> t_status t \<noteq> Reaped) (enumerate 0 (tasks (sch s)))) [] s"

text \<open>The last element with the greatest key.\<close>

fun max_by_key :: "('a \<Rightarrow> 'k::linorder) \<Rightarrow> 'a list \<Rightarrow> 'a option" where
  "max_by_key f [] = None"
| "max_by_key f (x # xs) = (case max_by_key f xs of None \<Rightarrow> Some x | Some y \<Rightarrow> if f x > f y then Some x else Some y)"

definition reclaim_largest_user_task :: "fat_driver \<Rightarrow> (nat \<Rightarrow> nat) \<Rightarrow> (nat \<Rightarrow> nat) \<Rightarrow> u64 \<Rightarrow> osys \<Rightarrow> (nat \<times> u64) option \<times> osys" where
  "reclaim_largest_user_task fat pages sockets code s =
     (case max_by_key tm_estimated (filter (\<lambda>m. tm_pid m \<noteq> current (sch s) \<and> tm_user_pages m > 0 \<and>
         tm_status m \<in> {Ready, Running, Blocked, Stopped}) (task_memory_stats pages sockets s)) of
        None \<Rightarrow> (None, s)
      | Some victim \<Rightarrow>
        (case force_reclaim_task fat (tm_pid victim) code s of
           (Inl _, s') \<Rightarrow> (None, s')
         | (Inr _, s') \<Rightarrow> (Some (tm_pid victim, tm_estimated victim), s')))"

section \<open>What the operations touch\<close>

definition wakes_only :: "scheduler \<Rightarrow> scheduler \<Rightarrow> bool" where
  "wakes_only s s' = (length (tasks s') = length (tasks s) \<and> current s' = current s \<and>
     (\<forall>i < length (tasks s). tasks s' ! i = tasks s ! i \<or> tasks s' ! i = wake_up (tasks s ! i)))"

lemma wake_up_idem [simp]: "wake_up (wake_up t) = wake_up t"
  by (simp add: wake_up_def)

lemma wakes_only_refl [simp]: "wakes_only s s"
  by (simp add: wakes_only_def)

lemma wakes_only_trans: "wakes_only s s' \<Longrightarrow> wakes_only s' s'' \<Longrightarrow> wakes_only s s''"
  unfolding wakes_only_def by (metis wake_up_idem)

lemma wakes_only_unblock [simp]: "wakes_only s (unblock i s)"
  by (simp add: wakes_only_def unblock_def nth_set_task)

lemma frame_simps [simp]:
  "vfs (call c s) = vfs s" "sch (call c s) = sch s" "vfs (upd_log f s) = vfs s" "sch (upd_log f s) = sch s"
  "vfs (upd_sch g s) = vfs s" "sch (upd_sch g s) = g (sch s)" "vfs (wake_task q t s) = vfs s" "sch (wake_task q t s) = unblock t (sch s)"
  "vfs (record_task i n d s) = vfs s" "sch (record_task i n d s) = sch s"
  "vfs (announce_end i n d r x e s) = vfs s" "sch (announce_end i n d r x e s) = sch s"
  "vfs (free_space p s) = vfs s" "sch (free_space p s) = sch s"
  "vfs (snd (on_kern m s)) = vfs s" "sch (snd (on_kern m s)) = sch s"
  "vfs (mark_exited i code s) = vfs s"
  by (simp_all add: call_def upd_log_def upd_sch_def wake_task_def record_task_def announce_end_def free_space_def on_kern_def
      mark_exited_def split: option.splits prod.splits)

lemma fold_frame:
  assumes "\<And>x s. g (f x s) = g s"
  shows "g (fold f xs s) = g s"
  by (induction xs arbitrary: s) (simp_all add: assms)

lemma wake_tasks_vfs [simp]: "vfs (wake_tasks q ts s) = vfs s"
  unfolding wake_tasks_def by (rule fold_frame) simp

lemma wake_tasks_sch: "sch (wake_tasks q ts s) = fold unblock ts (sch s)"
  by (induction ts arbitrary: s) (simp_all add: wake_tasks_def)

lemma fold_unblock_wakes: "wakes_only s (fold unblock ts s)"
  by (induction ts arbitrary: s) (auto intro: wakes_only_trans [OF wakes_only_unblock])

lemma wake_tasks_wakes: "wakes_only (sch s) (sch (wake_tasks q ts s))"
  by (simp add: wake_tasks_sch fold_unblock_wakes)

lemma commit_files_frame [simp]: "vfs (commit_files fat cs s) = vfs s" "sch (commit_files fat cs s) = sch s"
  unfolding commit_files_def by (rule fold_frame, simp split: prod.splits)+

lemma release_shmem_frame [simp]: "vfs (release_shmem_refs ids s) = vfs s" "sch (release_shmem_refs ids s) = sch s"
proof -
  have "vfs (fold (\<lambda>f. call (FreeFrame f)) fr s') = vfs s'" "sch (fold (\<lambda>f. call (FreeFrame f)) fr s') = sch s'" for fr s'
    by (rule fold_frame, simp)+
  then show "vfs (release_shmem_refs ids s) = vfs s" "sch (release_shmem_refs ids s) = sch s"
    by (simp_all add: release_shmem_refs_def split: prod.splits)
qed

lemma child_wake_frame [simp]: "vfs (wake_child_poll_waiters p c s) = vfs s"
  by (simp add: wake_child_poll_waiters_def)

lemma child_wake_wakes: "wakes_only (sch s) (sch (wake_child_poll_waiters p c s))"
  using wake_tasks_wakes [of "s\<lparr>child_waiters := snd (partition (\<lambda>w. cw_parent w = p \<and> cw_child w = c) (child_waiters s))\<rparr>"]
  by (simp add: wake_child_poll_waiters_def)

lemma parent_wake_frame [simp]: "vfs (wake_waiting_parent p c s) = vfs s"
  by (simp add: wake_waiting_parent_def split: option.splits)

lemma parent_wake_wakes: "wakes_only (sch s) (sch (wake_waiting_parent p c s))"
proof (cases p)
  case (Some q)
  have "wakes_only (unblock q (sch s)) (sch (wake_child_poll_waiters q c (wake_task ''waitpid'' q s)))"
    using child_wake_wakes [of "wake_task ''waitpid'' q s"] by simp
  then show ?thesis using Some wakes_only_trans [OF wakes_only_unblock] by (simp add: wake_waiting_parent_def)
qed (simp add: wake_waiting_parent_def)

lemma take_shmem_frame [simp]:
  "task_fds (snd (take_shmem_refs t v)) = task_fds v" "objects (snd (take_shmem_refs t v)) = objects v"
  by (simp_all add: take_shmem_refs_def)

lemma fd_inv_cong: "task_fds v' = task_fds v \<Longrightarrow> objects v' = objects v \<Longrightarrow> fd_inv E v' = fd_inv E v"
  by (simp add: fd_inv_def object_ok_def held_def uses_def live_object_def in_use_def current_entry_def)

lemma drop_task_vfs:
  "task_fds (vfs (drop_task fat t s)) = task_fds (snd (drop_fds t [0..<MAX_FDS] (vfs s))) \<or> vfs (drop_task fat t s) = vfs s \<and> t \<ge> length (task_fds (vfs s))"
  by (simp add: drop_task_def Let_def split_beta)

lemma drop_task_entries:
  assumes "fd_inv [] (vfs s)"
  shows "current_entry (vfs (drop_task fat t s)) a b = (if a = t then None else current_entry (vfs s) a b)"
proof (cases "t < length (task_fds (vfs s))")
  case True
  then have "task_fds (vfs (drop_task fat t s)) = task_fds (snd (drop_fds t [0..<MAX_FDS] (vfs s)))"
    by (simp add: drop_task_def Let_def split_beta)
  then have "current_entry (vfs (drop_task fat t s)) a b = current_entry (snd (drop_fds t [0..<MAX_FDS] (vfs s))) a b"
    by (rule current_entry_cong)
  moreover have "current_entry (vfs s) t b = None" if "b \<ge> MAX_FDS"
    using that table_length [OF assms True] by (simp add: current_entry_def)
  ultimately show ?thesis by (auto simp: current_drop_fds)
qed (auto simp: drop_task_def current_entry_def)

lemma drop_task_inv:
  assumes "fd_inv [] (vfs s)"
  shows "fd_inv [] (vfs (drop_task fat t s))"
proof (cases "t < length (task_fds (vfs s))")
  case True
  have "fd_inv [] (snd (take_shmem_refs t (snd (drop_fds t [0..<MAX_FDS] (vfs s)))))"
    using fd_inv_cong [OF take_shmem_frame] drop_fds_inv [OF assms] by blast
  then show ?thesis using True by (simp add: drop_task_def Let_def split_beta)
qed (use assms in \<open>simp add: drop_task_def\<close>)

lemma drop_task_wakes: "wakes_only (sch s) (sch (drop_task fat t s))"
proof (cases "t < length (task_fds (vfs s))")
  case True
  then show ?thesis by (simp add: drop_task_def Let_def split_beta wake_tasks_sch fold_unblock_wakes)
qed (simp add: drop_task_def)

lemma cleanup_frame:
  assumes "fd_inv [] (vfs s)"
  shows "fd_inv [] (vfs (cleanup_task_resources fat t s))"
    "current_entry (vfs (cleanup_task_resources fat t s)) a b = (if a = t then None else current_entry (vfs s) a b)"
    "wakes_only (sch s) (sch (cleanup_task_resources fat t s))"
  using drop_task_inv [of "s\<lparr>futexes := drop_task_waiters t (futexes s)\<rparr>"] drop_task_entries [of "s\<lparr>futexes := drop_task_waiters t (futexes s)\<rparr>"]
    drop_task_wakes [of "s\<lparr>futexes := drop_task_waiters t (futexes s)\<rparr>"] assms
  by (simp_all add: cleanup_task_resources_def)

section \<open>The invariant of the system\<close>

definition alive :: "nat \<Rightarrow> scheduler \<Rightarrow> bool" where
  "alive i s = (i < length (tasks s) \<and> t_status (tasks s ! i) \<notin> {Exited, Reaped})"

text \<open>One task runs, the reference counts are exact, and only tasks that have not ended own descriptors.\<close>

definition os_inv :: "osys \<Rightarrow> bool" where
  "os_inv s = (sched_inv (sch s) \<and> fd_inv [] (vfs s) \<and> (\<forall>i fd. \<not> alive i (sch s) \<longrightarrow> current_entry (vfs s) i fd = None))"

lemma os_invI:
  "sched_inv (sch s) \<Longrightarrow> fd_inv [] (vfs s) \<Longrightarrow> (\<And>i fd. \<not> alive i (sch s) \<Longrightarrow> current_entry (vfs s) i fd = None) \<Longrightarrow> os_inv s"
  by (simp add: os_inv_def)

lemma os_invD:
  "os_inv s \<Longrightarrow> sched_inv (sch s)" "os_inv s \<Longrightarrow> fd_inv [] (vfs s)"
  "os_inv s \<Longrightarrow> \<not> alive i (sch s) \<Longrightarrow> current_entry (vfs s) i fd = None"
  by (simp_all add: os_inv_def)

lemma os_inv_same: "os_inv s \<Longrightarrow> sch s' = sch s \<Longrightarrow> vfs s' = vfs s \<Longrightarrow> os_inv s'"
  by (simp add: os_inv_def)

lemma os_inv_frame [simp]:
  "os_inv (call c s) = os_inv s" "os_inv (upd_log f s) = os_inv s" "os_inv (announce_end i n d r x e s) = os_inv s"
  "os_inv (free_space p s) = os_inv s"
  by (simp_all add: os_inv_def)

lemma wakes_only_status:
  assumes "wakes_only s s'" "i < length (tasks s)"
  shows "t_status (tasks s' ! i) = t_status (tasks s ! i) \<or> t_status (tasks s ! i) = Blocked \<and> t_status (tasks s' ! i) = Ready"
proof -
  have "tasks s' ! i = tasks s ! i \<or> tasks s' ! i = wake_up (tasks s ! i)" using assms unfolding wakes_only_def by blast
  then show ?thesis by (auto simp: wake_up_def split: if_splits)
qed

lemma wakes_only_alive: "wakes_only s s' \<Longrightarrow> alive i s' = alive i s"
  using wakes_only_status [of s s' i] by (auto simp: alive_def wakes_only_def)

lemma wakes_only_inv: "wakes_only s s' \<Longrightarrow> sched_inv s \<Longrightarrow> sched_inv s'"
  using wakes_only_status [of s s'] unfolding sched_inv_def wakes_only_def by (metis task_status.distinct(1))

lemma os_inv_wakes: "os_inv s \<Longrightarrow> wakes_only (sch s) (sch s') \<Longrightarrow> vfs s' = vfs s \<Longrightarrow> os_inv s'"
  by (simp add: os_inv_def wakes_only_alive wakes_only_inv)

lemma alive_set_task:
  "alive i (set_task j f s) = (if i = j \<and> i < length (tasks s) then t_status (f (tasks s ! i)) \<notin> {Exited, Reaped} else alive i s)"
  by (auto simp: alive_def nth_set_task)

text \<open>A change of a task that neither revives nor ends it and does not make it run.\<close>

lemma os_inv_set_task:
  assumes "os_inv s" "\<And>t. t_status (f t) = Running \<Longrightarrow> t_status t = Running"
    "\<And>t. t_status t \<notin> {Exited, Reaped} \<Longrightarrow> t_status (f t) \<notin> {Exited, Reaped}"
  shows "os_inv (upd_sch (set_task i f) s)"
proof (rule os_invI)
  show "sched_inv (sch (upd_sch (set_task i f) s))" using sched_inv_set_task [OF os_invD(1) [OF assms(1)] assms(2)] by simp
  show "current_entry (vfs (upd_sch (set_task i f) s)) j fd = None" if "\<not> alive j (sch (upd_sch (set_task i f) s))" for j fd
  proof -
    have "\<not> alive j (sch s)"
      using that assms(3) [of "tasks (sch s) ! j"] by (auto simp: alive_def nth_set_task split: if_splits)
    then show ?thesis using os_invD(3) [OF assms(1)] by simp
  qed
qed (use os_invD(2) [OF assms(1)] in simp)

text \<open>Ending a task: mark it, then drop what it owns, in either order.\<close>

lemma os_inv_end:
  assumes inv: "os_inv s" and v: "fd_inv [] (vfs s')" "\<And>a b. current_entry (vfs s') a b = (if a = i then None else current_entry (vfs s) a b)"
    and w: "sched_inv (sch s')" "\<And>j. j \<noteq> i \<Longrightarrow> alive j (sch s') = alive j (sch s)"
  shows "os_inv s'"
proof (rule os_invI [OF w(1) v(1)])
  fix j fd assume "\<not> alive j (sch s')"
  then show "current_entry (vfs s') j fd = None" using os_invD(3) [OF inv, of j fd] w(2) [of j] by (auto simp: v(2))
qed

lemma sched_inv_end: "sched_inv s \<Longrightarrow> (\<And>t. t_status (f t) \<in> {Exited, Reaped}) \<Longrightarrow> sched_inv (set_task i f s)"
  by (rule sched_inv_set_task) (auto, metis insertE singletonD task_status.distinct(15,17))

lemma parent_wake_after: "wakes_only (g (sch s)) (sch (wake_waiting_parent p c (upd_sch g s)))"
  using parent_wake_wakes [of "upd_sch g s"] by simp

lemma exit_current_inv:
  assumes inv: "os_inv s"
  shows "os_inv (exit_current fat code s)"
proof -
  let ?i = "current (sch s)"
  note c = cleanup_frame [OF os_invD(2) [OF inv], of fat ?i]
  let ?f = "\<lambda>t. t\<lparr>t_status := Exited, t_exit_code := Some code, t_wake_tick := None\<rparr>"
  let ?s1 = "cleanup_task_resources fat ?i s"
  have w: "wakes_only (set_task ?i ?f (sch ?s1)) (sch (exit_current fat code s))"
    using parent_wake_after [of "set_task ?i ?f"] by (simp add: exit_current_def Let_def mark_exited_def announce_end_def) (metis frame_simps(2,4,10))
  show ?thesis
  proof (rule os_inv_end [OF inv, of _ ?i])
    show "sched_inv (sch (exit_current fat code s))"
      by (rule wakes_only_inv [OF w sched_inv_end [OF wakes_only_inv [OF c(3) os_invD(1) [OF inv]]]]) simp
    show "alive j (sch (exit_current fat code s)) = alive j (sch s)" if "j \<noteq> ?i" for j
      using that by (simp add: wakes_only_alive [OF w] wakes_only_alive [OF c(3)] alive_set_task)
  qed (use c in \<open>simp_all add: exit_current_def Let_def\<close>)
qed

lemma end_then_cleanup_inv:
  assumes inv: "os_inv s" and f: "\<And>t. t_status (f t) \<in> {Exited, Reaped}"
    and s1: "wakes_only (set_task i f (sch s)) (sch s1)" "vfs s1 = vfs s"
  shows "os_inv (cleanup_task_resources fat i s1)"
proof -
  have v: "fd_inv [] (vfs s1)" using os_invD(2) [OF inv] s1(2) by simp
  note c = cleanup_frame [OF v, of fat i]
  note w = wakes_only_trans [OF s1(1) c(3)]
  show ?thesis
  proof (rule os_inv_end [OF inv, of _ i])
    show "sched_inv (sch (cleanup_task_resources fat i s1))"
      by (rule wakes_only_inv [OF w sched_inv_end [OF os_invD(1) [OF inv] f]])
    show "alive j (sch (cleanup_task_resources fat i s1)) = alive j (sch s)" if "j \<noteq> i" for j
      using that by (simp add: wakes_only_alive [OF w] alive_set_task)
  qed (use c s1(2) in simp_all)
qed

lemma kill_task_inv:
  assumes inv: "os_inv s"
  shows "os_inv (snd (kill_task fat i code s))"
proof (cases "kill_check i (sch s)")
  case (Inr t)
  have "os_inv (cleanup_task_resources fat i (wake_waiting_parent (t_parent t) i (mark_exited i code s)))"
    by (rule end_then_cleanup_inv [OF inv, of "\<lambda>t. t\<lparr>t_status := Exited, t_exit_code := Some code, t_wake_tick := None\<rparr>"])
      (simp_all add: mark_exited_def parent_wake_after)
  then show ?thesis using Inr by (simp add: kill_task_def Let_def)
qed (use inv in \<open>simp add: kill_task_def\<close>)

lemma fault_current_inv:
  assumes inv: "os_inv s"
  shows "os_inv (snd (fault_current fat code reason s))"
proof -
  let ?i = "current (sch s)" and ?f = "\<lambda>t. t\<lparr>t_status := Exited, t_exit_code := Some code\<rparr>"
  have "os_inv (cleanup_task_resources fat ?i (wake_waiting_parent p ?i (upd_sch (set_task ?i ?f) s)))" for p
    by (rule end_then_cleanup_inv [OF inv, of ?f]) (simp_all add: parent_wake_after)
  then show ?thesis by (simp add: fault_current_def Let_def)
qed

lemma send_signal_inv: "os_inv s \<Longrightarrow> os_inv (snd (send_signal fat i sig s))"
proof (cases "signal_exit_code sig")
  case None
  assume inv: "os_inv s"
  have "os_inv (upd_sch (set_task i (apply_signal sig)) s)"
    by (rule os_inv_set_task [OF inv]) (auto simp: apply_signal_def Let_def split: signal.splits if_splits)
  then show ?thesis using None inv by (simp add: send_signal_def split: sum.splits)
next
  case (Some code)
  assume inv: "os_inv s"
  show ?thesis using Some inv kill_task_inv [OF inv, of fat i code] exit_current_inv [OF inv]
    by (auto simp: send_signal_def split: prod.splits)
qed

lemma signal_all_inv: "os_inv s \<Longrightarrow> os_inv (snd (signal_all fat ids sig s))"
proof (induction ids arbitrary: s)
  case (Cons i ids)
  show ?case using Cons.IH [OF send_signal_inv [OF Cons.prems]] by (simp add: split_beta)
qed simp

lemma send_signal_to_group_inv: "os_inv s \<Longrightarrow> os_inv (snd (send_signal_to_group fat grp sig s))"
  using signal_all_inv by (auto simp: send_signal_to_group_def Let_def split: prod.splits) (metis snd_conv)


section \<open>Address spaces\<close>

definition space_used :: "nat \<Rightarrow> scheduler \<Rightarrow> bool" where
  "space_used p s = (\<exists>j < length (tasks s). t_pml4 (tasks s ! j) = Some p \<and> t_status (tasks s ! j) \<noteq> Reaped)"

definition frees :: "osys \<Rightarrow> nat list" where
  "frees s = List.map_filter (\<lambda>c. case c of FreeAddressSpace p \<Rightarrow> Some p | _ \<Rightarrow> None) (calls s)"

text \<open>The address spaces freed by a step are those that lost their last user in it, each once.\<close>

definition frees_unused :: "osys \<Rightarrow> osys \<Rightarrow> bool" where
  "frees_unused s s' = (\<exists>ps. frees s' = frees s @ ps \<and> distinct ps \<and> set ps = {p. space_used p (sch s) \<and> \<not> space_used p (sch s')})"

lemma map_filter_append: "List.map_filter f (xs @ ys) = List.map_filter f xs @ List.map_filter f ys"
  by (induction xs) (auto simp: map_filter_simps split: option.splits)

lemma frees_call [simp]: "frees (call c s) = frees s @ (case c of FreeAddressSpace p \<Rightarrow> [p] | _ \<Rightarrow> [])"
  by (simp add: frees_def call_def map_filter_append map_filter_simps split: subsystem_call.splits)

lemma frees_cong: "calls s' = calls s \<Longrightarrow> frees s' = frees s"
  by (simp add: frees_def)

lemma frees_frame [simp]:
  "frees (upd_log f s) = frees s" "frees (upd_sch g s) = frees s" "frees (wake_task q t s) = frees s" "frees (snd (on_kern m s)) = frees s"
  "frees (free_stack i s) = frees s" "frees (snd (take_space i s)) = frees s" "frees (mark_exited i code s) = frees s"
  by (rule frees_cong, simp add: upd_log_def upd_sch_def wake_task_def on_kern_def free_stack_def take_space_def mark_exited_def split: prod.splits option.splits)+

lemma frees_announce [simp]: "frees (announce_end i n d r x e s) = frees s"
  by (simp add: announce_end_def record_task_def)

lemma frees_wakes [simp]: "frees (wake_tasks q ts s) = frees s" "frees (commit_files fat cs s) = frees s"
  unfolding wake_tasks_def commit_files_def by (rule fold_frame, simp split: prod.splits)+

lemma frees_upd [simp]: "frees (s\<lparr>vfs := v\<rparr>) = frees s" "frees (s\<lparr>futexes := x\<rparr>) = frees s" "frees (s\<lparr>child_waiters := w\<rparr>) = frees s"
  "frees (s\<lparr>regions := rs\<rparr>) = frees s" "frees (s\<lparr>slabs := l\<rparr>) = frees s" "frees (s\<lparr>sch := sc\<rparr>) = frees s" "frees (s\<lparr>pressure := pr\<rparr>) = frees s"
  by (simp_all add: frees_def)

lemma frees_shmem [simp]: "frees (release_shmem_refs ids s) = frees s"
proof -
  have "frees (fold (\<lambda>f. call (FreeFrame f)) fr s') = frees s'" for fr s' by (rule fold_frame) simp
  then show ?thesis by (simp add: release_shmem_refs_def split: prod.splits)
qed

lemma frees_cleanup [simp]: "frees (cleanup_task_resources fat i s) = frees s" "frees (drop_task fat i s) = frees s"
  by (simp_all add: cleanup_task_resources_def drop_task_def Let_def split_beta)

lemma frees_parent [simp]: "frees (wake_waiting_parent p c s) = frees s"
  by (simp add: wake_waiting_parent_def wake_child_poll_waiters_def split: option.splits)

lemma wakes_only_space: "wakes_only s s' \<Longrightarrow> space_used p s' = space_used p s"
proof -
  assume w: "wakes_only s s'"
  then have "t_pml4 (tasks s' ! j) = t_pml4 (tasks s ! j)" if "j < length (tasks s)" for j
    using that unfolding wakes_only_def by (metis wake_up_def task.select_convs(17) task.surjective task.update_convs(5,11))
  moreover have "(t_status (tasks s' ! j) = Reaped) = (t_status (tasks s ! j) = Reaped)" if "j < length (tasks s)" for j
    using wakes_only_status [OF w that] by auto
  ultimately show ?thesis using w by (auto simp: space_used_def wakes_only_def)
qed

lemma set_task_set_task: "set_task i f (set_task i g s) = set_task i (\<lambda>t. f (g t)) s"
  by (simp add: set_task_def)

lemma space_used_set_task:
  assumes "\<And>t. t_pml4 (f t) = t_pml4 t" "\<And>t. (t_status (f t) = Reaped) = (t_status t = Reaped)"
  shows "space_used p (set_task i f s) = space_used p s"
proof -
  have "t_pml4 (tasks (set_task i f s) ! j) = t_pml4 (tasks s ! j) \<and> (t_status (tasks (set_task i f s) ! j) = Reaped) = (t_status (tasks s ! j) = Reaped)"
    if "j < length (tasks s)" for j
    using that by (simp add: nth_set_task assms)
  then show ?thesis by (auto simp: space_used_def)
qed

text \<open>Used by a task other than \<open>i\<close>.\<close>

lemma still_live_iff:
  "still_live i p s \<longleftrightarrow> (\<exists>j < length (tasks s). j \<noteq> i \<and> t_pml4 (tasks s ! j) = Some p \<and> t_status (tasks s ! j) \<noteq> Reaped)"
  by (auto simp: still_live_def list_ex_iff in_set_enumerate_eq)

lemma still_live_set_task [simp]: "still_live i p (set_task i f s) = still_live i p s"
  by (auto simp: still_live_iff nth_set_task)

lemma set_task_same: "(\<And>t. i < length (tasks s) \<Longrightarrow> t = tasks s ! i \<Longrightarrow> f t = t) \<Longrightarrow> set_task i f s = s"
  by (simp add: set_task_def)

lemma take_reap_cases:
  assumes "i < length (tasks s)"
  shows "take_reap_pml4 i s =
    (case t_pml4 (tasks s ! i) of
       None \<Rightarrow> (None, s)
     | Some p \<Rightarrow> if still_live i p s then (None, s) else (Some p, set_task i (\<lambda>t. t\<lparr>t_pml4 := None\<rparr>) s))"
  using assms by (auto simp: take_reap_pml4_def task_at_def set_task_set_task Let_def split: option.splits intro!: set_task_same)

lemma reap_effect:
  assumes i: "i < length (tasks (sch s))" and st: "t_status (tasks (sch s) ! i) \<noteq> Reaped" and r: "reap i s = (r, s')"
  shows "vfs s' = vfs s" "frees s' = frees s" "space_used p (sch s') = still_live i p (sch s)"
    "r = Some p \<longleftrightarrow> space_used p (sch s) \<and> \<not> space_used p (sch s')"
    "\<exists>f. sch s' = set_task i f (sch s) \<and> (\<forall>t. t_status (f t) = Reaped \<and> t_parent (f t) = t_parent t)"
proof -
  let ?f = "\<lambda>t. release_stack (t\<lparr>t_status := Reaped\<rparr>)"
  let ?s = "set_task i ?f (sch s)"
  let ?u = "upd_sch (set_task i (\<lambda>t. t\<lparr>t_status := Reaped\<rparr>)) s"
  have ts: "task_at i (sch ?u) \<noteq> None" using i by (simp add: task_at_def)
  have f: "sch (free_stack i ?u) = ?s" "vfs (free_stack i ?u) = vfs s" "frees (free_stack i ?u) = frees s"
    using ts by (auto simp: free_stack_def set_task_set_task split: option.splits)
  have tk: "take_reap_pml4 i ?s = (r, sch s')" "vfs s' = vfs (free_stack i ?u)" "frees s' = frees (free_stack i ?u)"
    using r f by (auto simp: reap_def take_space_def split: prod.splits)
  then show "vfs s' = vfs s" "frees s' = frees s" using f by simp_all
  have c: "(r, sch s') = (case t_pml4 (tasks (sch s) ! i) of None \<Rightarrow> (None, ?s)
      | Some p \<Rightarrow> if still_live i p (sch s) then (None, ?s) else (Some p, set_task i (\<lambda>t. t\<lparr>t_pml4 := None\<rparr>) ?s))"
    using take_reap_cases [of i ?s] i tk(1) by (cases "t_pml4 (tasks (sch s) ! i)") (simp_all add: nth_set_task release_stack_def)
  then obtain g where g: "sch s' = set_task i g (sch s)" "\<And>t. t_status (g t) = Reaped" "\<And>t. t_parent (g t) = t_parent t"
    by (auto simp: set_task_set_task release_stack_def split: option.splits if_splits)
  then show "\<exists>f. sch s' = set_task i f (sch s) \<and> (\<forall>t. t_status (f t) = Reaped \<and> t_parent (f t) = t_parent t)" by blast
  show sp: "space_used q (sch s') = still_live i q (sch s)" for q
    using g by (auto simp: space_used_def still_live_iff nth_set_task split: if_splits)
  have "space_used p (sch s) \<longleftrightarrow> t_pml4 (tasks (sch s) ! i) = Some p \<or> still_live i p (sch s)"
    using i st by (auto simp: space_used_def still_live_iff)
  then show "r = Some p \<longleftrightarrow> space_used p (sch s) \<and> \<not> space_used p (sch s')"
    using c by (auto simp: sp split: option.splits if_splits)
qed

lemma frees_unusedI: "frees s' = frees s @ ps \<Longrightarrow> distinct ps \<Longrightarrow> (\<And>p. p \<in> set ps \<longleftrightarrow> space_used p (sch s) \<and> \<not> space_used p (sch s')) \<Longrightarrow> frees_unused s s'"
  by (auto simp: frees_unused_def)

lemma frees_unused_same: "frees s' = frees s \<Longrightarrow> (\<And>p. space_used p (sch s) \<Longrightarrow> space_used p (sch s')) \<Longrightarrow> frees_unused s s'"
  by (rule frees_unusedI [of _ _ "[]"]) auto

lemma waitpid_frees: "frees_unused s (snd (waitpid parent i s))"
proof (cases "i \<noteq> 0 \<and> i < length (tasks (sch s)) \<and> (t_parent (tasks (sch s) ! i) = Some parent \<or> parent = 0) \<and> t_status (tasks (sch s) ! i) = Exited")
  case True
  obtain r s' where r: "reap i s = (r, s')" by fastforce
  have s': "snd (waitpid parent i s) = upd_log (deferred_enqueue PersistTaskSnapshot) (free_space r s')"
    using True r by (auto simp: waitpid_def task_at_def)
  have e: "frees s' = frees s" "\<And>p. r = Some p \<longleftrightarrow> space_used p (sch s) \<and> \<not> space_used p (sch s')"
    using reap_effect(2,4) [OF _ _ r] True by auto
  have "p \<in> set (case r of Some p \<Rightarrow> [p] | None \<Rightarrow> []) \<longleftrightarrow> r = Some p" for p by (auto split: option.splits)
  moreover have "frees (free_space r s') = frees s @ (case r of Some p \<Rightarrow> [p] | None \<Rightarrow> [])"
    using e(1) by (cases r) (simp_all add: free_space_def)
  ultimately show ?thesis
    by (intro frees_unusedI [of _ _ "case r of Some p \<Rightarrow> [p] | None \<Rightarrow> []"]) (simp_all add: s' e(2) split: option.splits)
next
  case False
  then have "snd (waitpid parent i s) = s" by (auto simp: waitpid_def task_at_def split: task_status.splits)
  then show ?thesis by (simp add: frees_unused_same)
qed

lemma reapable_iff: "reapable parent i sc \<longleftrightarrow> i < length (tasks sc) \<and> t_status (tasks sc ! i) = Exited \<and> (t_parent (tasks sc ! i) = Some parent \<or> parent = 0)"
  by (auto simp: reapable_def task_at_def)

lemma reap_loop_frees:
  "frees (snd (reap_loop parent is s)) = frees s \<and> vfs (snd (reap_loop parent is s)) = vfs s \<and> distinct (snd (fst (reap_loop parent is s))) \<and>
   (\<forall>p. space_used p (sch (snd (reap_loop parent is s))) \<longrightarrow> space_used p (sch s)) \<and>
   set (snd (fst (reap_loop parent is s))) = {p. space_used p (sch s) \<and> \<not> space_used p (sch (snd (reap_loop parent is s)))} \<and>
   (fst (fst (reap_loop parent is s)) = 0 \<longrightarrow> snd (fst (reap_loop parent is s)) = [])"
proof (induction "is" arbitrary: s)
  case (Cons i "is")
  show ?case
  proof (cases "i = 0 \<or> \<not> reapable parent i (sch s)")
    case False
    then have i: "i < length (tasks (sch s))" "t_status (tasks (sch s) ! i) \<noteq> Reaped" by (auto simp: reapable_iff)
    obtain r s1 where r: "reap i s = (r, s1)" by fastforce
    obtain n ps s2 where l: "reap_loop parent is s1 = ((n, ps), s2)" by (metis prod.exhaust)
    note e = reap_effect [OF i r]
    have mono: "space_used p (sch s)" if "space_used p (sch s1)" for p
      using that unfolding e(3) by (auto simp: space_used_def still_live_iff)
    have ih: "frees s2 = frees s1" "vfs s2 = vfs s1" "distinct ps" "\<And>p. space_used p (sch s2) \<Longrightarrow> space_used p (sch s1)"
      "set ps = {p. space_used p (sch s1) \<and> \<not> space_used p (sch s2)}"
      using Cons.IH [of s1] l by simp_all
    have eq: "reap_loop parent (i # is) s = ((Suc n, case r of Some p \<Rightarrow> p # ps | None \<Rightarrow> ps), s2)"
      using False r l by simp
    show ?thesis
    proof (cases r)
      case None
      then have "\<And>p. space_used p (sch s) = space_used p (sch s1)" using e(4) mono by blast
      then show ?thesis using None ih e(1,2) unfolding eq by simp
    next
      case (Some q)
      then have q: "\<And>p. p = q \<longleftrightarrow> space_used p (sch s) \<and> \<not> space_used p (sch s1)" using e(4) [symmetric] by auto
      then have "set (q # ps) = {p. space_used p (sch s) \<and> \<not> space_used p (sch s2)}" using ih(4,5) mono by auto
      moreover have "q \<notin> set ps" using q ih(5) by auto
      ultimately show ?thesis using Some ih e(1,2) mono unfolding eq by simp
    qed
  qed (use Cons.IH [of s] in auto)
qed auto

lemma fold_free: "frees (fold (\<lambda>p. call (FreeAddressSpace p)) ps s) = frees s @ ps" "sch (fold (\<lambda>p. call (FreeAddressSpace p)) ps s) = sch s"
  "vfs (fold (\<lambda>p. call (FreeAddressSpace p)) ps s) = vfs s"
  by (induction ps arbitrary: s) simp_all

lemma reap_all_frees: "frees_unused s (snd (reap_all_exited parent s))"
proof -
  obtain n ps s1 where l: "reap_loop parent [0..<length (tasks (sch s))] s = ((n, ps), s1)" by (metis prod.exhaust)
  note e = reap_loop_frees [of parent "[0..<length (tasks (sch s))]" s, unfolded l, simplified]
  show ?thesis
    by (rule frees_unusedI [of _ _ ps]) (use e l in \<open>auto simp: reap_all_exited_def fold_free\<close>)
qed


lemma keeps_space_set_task:
  assumes "\<And>t. t_pml4 (f t) = t_pml4 t" "\<And>t. t_status t \<noteq> Reaped \<Longrightarrow> t_status (f t) \<noteq> Reaped" "space_used p s"
  shows "space_used p (set_task i f s)"
proof -
  obtain j where "j < length (tasks s)" "t_pml4 (tasks s ! j) = Some p" "t_status (tasks s ! j) \<noteq> Reaped"
    using assms(3) by (auto simp: space_used_def)
  then show ?thesis unfolding space_used_def using assms(1,2) by (auto intro!: exI [of _ j] simp: nth_set_task split: if_splits)
qed

text \<open>Steps in which no task is reaped free no address space.\<close>

definition keeps_spaces :: "osys \<Rightarrow> osys \<Rightarrow> bool" where
  "keeps_spaces s s' = (frees s' = frees s \<and> (\<forall>p. space_used p (sch s) \<longrightarrow> space_used p (sch s')))"

lemma keeps_spaces_frees: "keeps_spaces s s' \<Longrightarrow> frees_unused s s'"
  by (auto simp: keeps_spaces_def intro: frees_unused_same)

lemma keeps_spaces_trans: "keeps_spaces s s' \<Longrightarrow> keeps_spaces s' s'' \<Longrightarrow> keeps_spaces s s''"
  by (simp add: keeps_spaces_def)

lemma keeps_spaces_wakes: "wakes_only (sch s) (sch s') \<Longrightarrow> frees s' = frees s \<Longrightarrow> keeps_spaces s s'"
  by (simp add: keeps_spaces_def wakes_only_space)

lemma exit_current_spaces: "keeps_spaces s (exit_current fat code s)"
proof -
  let ?i = "current (sch s)" and ?f = "\<lambda>t. t\<lparr>t_status := Exited, t_exit_code := Some code, t_wake_tick := None\<rparr>"
  let ?s1 = "cleanup_task_resources fat ?i s"
  have "wakes_only (sch s) (sch ?s1)"
    using drop_task_wakes [of "s\<lparr>futexes := drop_task_waiters ?i (futexes s)\<rparr>" fat ?i] by (simp add: cleanup_task_resources_def)
  moreover have "wakes_only (set_task ?i ?f (sch ?s1)) (sch (exit_current fat code s))"
    using parent_wake_after [of "set_task ?i ?f"] by (simp add: exit_current_def Let_def mark_exited_def announce_end_def) (metis frame_simps(2,4,10))
  moreover have "space_used p (set_task ?i ?f (sch ?s1))" if "space_used p (sch ?s1)" for p
    by (rule keeps_space_set_task [OF _ _ that]) simp_all
  ultimately show ?thesis by (simp add: keeps_spaces_def wakes_only_space exit_current_def Let_def)
qed

lemma end_then_cleanup_spaces:
  assumes "\<And>t. t_pml4 (f t) = t_pml4 t" "\<And>t. t_status (f t) \<noteq> Reaped"
  shows "keeps_spaces s (cleanup_task_resources fat i (wake_waiting_parent p i (upd_sch (set_task i f) s)))"
proof -
  let ?s1 = "wake_waiting_parent p i (upd_sch (set_task i f) s)"
  have "wakes_only (sch ?s1) (sch (cleanup_task_resources fat i ?s1))"
    using drop_task_wakes [of "?s1\<lparr>futexes := drop_task_waiters i (futexes ?s1)\<rparr>" fat i] by (simp add: cleanup_task_resources_def)
  then show ?thesis
    using parent_wake_after [of "set_task i f" s p i] keeps_space_set_task [of f _ "sch s" i, OF assms]
    by (simp add: keeps_spaces_def wakes_only_space)
qed

lemma keeps_spaces_frame [simp]: "keeps_spaces s (announce_end i n d r x e s') = keeps_spaces s s'"
  by (simp add: keeps_spaces_def)

lemma kill_task_spaces: "keeps_spaces s (snd (kill_task fat i code s))"
proof (cases "kill_check i (sch s)")
  case (Inr t)
  then show ?thesis using end_then_cleanup_spaces [of "\<lambda>t. t\<lparr>t_status := Exited, t_exit_code := Some code, t_wake_tick := None\<rparr>" s fat i "t_parent t"]
    by (simp add: kill_task_def Let_def mark_exited_def)
qed (simp add: kill_task_def keeps_spaces_def)

lemma fault_current_spaces: "keeps_spaces s (snd (fault_current fat code reason s))"
  using end_then_cleanup_spaces [of "\<lambda>t. t\<lparr>t_status := Exited, t_exit_code := Some code\<rparr>"] by (simp add: fault_current_def Let_def)

lemma send_signal_spaces: "keeps_spaces s (snd (send_signal fat i sig s))"
proof (cases "signal_exit_code sig")
  case None
  have "space_used p (set_task i (apply_signal sig) (sch s))" if "space_used p (sch s)" for p
    by (rule keeps_space_set_task [OF _ _ that]) (auto simp: apply_signal_def Let_def split: signal.splits)
  then show ?thesis using None by (auto simp: send_signal_def keeps_spaces_def split: sum.splits)
next
  case (Some code)
  then show ?thesis using kill_task_spaces [of s fat i code] exit_current_spaces [of s fat code]
    by (auto simp: send_signal_def keeps_spaces_def split: prod.splits)
qed

lemma signal_all_spaces: "keeps_spaces s (snd (signal_all fat ids sig s))"
proof (induction ids arbitrary: s)
  case (Cons i ids)
  show ?case using keeps_spaces_trans [OF send_signal_spaces Cons.IH] by (simp add: split_beta)
qed (simp add: keeps_spaces_def)

lemma send_signal_to_group_spaces: "keeps_spaces s (snd (send_signal_to_group fat grp sig s))"
  using signal_all_spaces [of s fat "group_targets grp (sch s)" sig]
  by (auto simp: send_signal_to_group_def Let_def keeps_spaces_def split: prod.splits)

lemma force_reclaim_effect:
  assumes "i \<noteq> 0" "i \<noteq> current (sch s)" "i < length (tasks (sch s))" "t_status (tasks (sch s) ! i) \<notin> {Exited, Reaped}"
  shows "\<exists>r s2 f. snd (force_reclaim_task fat i code s) = free_space r (announce_end i (t_name (tasks (sch s) ! i)) ''oom-reclaimed'' ''memory pressure oom''
        (''Task reclaimed'', ''memory pressure'') ''oom'' (cleanup_task_resources fat i (wake_waiting_parent (t_parent (tasks (sch s) ! i)) i s2))) \<and>
      vfs s2 = vfs s \<and> frees s2 = frees s \<and> sch s2 = set_task i f (sch s) \<and> (\<forall>t. t_status (f t) = Reaped) \<and>
      (\<forall>p. space_used p (sch s2) = still_live i p (sch s)) \<and> (\<forall>p. r = Some p \<longleftrightarrow> space_used p (sch s) \<and> \<not> space_used p (sch s2))"
proof -
  let ?g = "\<lambda>t. t\<lparr>t_status := Reaped, t_exit_code := Some code, t_wake_tick := None\<rparr>"
  let ?h = "\<lambda>t. t\<lparr>t_exit_code := Some code, t_wake_tick := None\<rparr>"
  let ?u = "upd_sch (set_task i ?h) s"
  obtain r s2 where r: "reap i ?u = (r, s2)" by fastforce
  have len: "i < length (tasks (sch ?u))" "t_status (tasks (sch ?u) ! i) \<noteq> Reaped" using assms by (simp_all add: nth_set_task)
  note e = reap_effect [OF len r]
  have "(\<lambda>t::task. t\<lparr>t_exit_code := Some code, t_wake_tick := None, t_status := Reaped\<rparr>) = ?g" by (rule ext) (auto intro: task.equality)
  then have u: "upd_sch (set_task i (\<lambda>t. t\<lparr>t_status := Reaped\<rparr>)) ?u = upd_sch (set_task i ?g) s"
    by (simp add: upd_sch_def set_task_set_task)
  have su: "space_used p (sch ?u) = space_used p (sch s)" for p using space_used_set_task [of ?h p i "sch s"] by simp
  obtain f where f: "sch s2 = set_task i f (sch ?u)" "\<And>t. t_status (f t) = Reaped" using e(5) by blast
  have "snd (force_reclaim_task fat i code s) = free_space r (announce_end i (t_name (tasks (sch s) ! i)) ''oom-reclaimed'' ''memory pressure oom''
        (''Task reclaimed'', ''memory pressure'') ''oom'' (cleanup_task_resources fat i (wake_waiting_parent (t_parent (tasks (sch s) ! i)) i s2)))"
    using assms r u by (simp add: force_reclaim_task_def task_at_def reap_def Let_def)
  moreover have "vfs s2 = vfs s" "frees s2 = frees s" using e(1,2) by simp_all
  moreover have "sch s2 = set_task i (\<lambda>t. f (?h t)) (sch s)" using f(1) by (simp add: set_task_set_task)
  moreover have "space_used p (sch s2) = still_live i p (sch s)" for p using e(3) [of p] by simp
  moreover have "r = Some p \<longleftrightarrow> space_used p (sch s) \<and> \<not> space_used p (sch s2)" for p using e(4) [of p] su by simp
  ultimately show ?thesis using f(2) by (intro exI conjI allI) (assumption | simp)+
qed

lemma force_reclaim_cases:
  "snd (force_reclaim_task fat i code s) = s \<or>
   i \<noteq> 0 \<and> i \<noteq> current (sch s) \<and> i < length (tasks (sch s)) \<and> t_status (tasks (sch s) ! i) \<notin> {Exited, Reaped}"
  by (auto simp: force_reclaim_task_def task_at_def)

lemma force_reclaim_inv:
  assumes inv: "os_inv s"
  shows "os_inv (snd (force_reclaim_task fat i code s))"
  using force_reclaim_cases [of fat i code s]
proof (elim disjE)
  assume "snd (force_reclaim_task fat i code s) = s"
  then show ?thesis using inv by simp
next
  assume c: "i \<noteq> 0 \<and> i \<noteq> current (sch s) \<and> i < length (tasks (sch s)) \<and> t_status (tasks (sch s) ! i) \<notin> {Exited, Reaped}"
  obtain r s2 f where e: "snd (force_reclaim_task fat i code s) = free_space r (announce_end i (t_name (tasks (sch s) ! i)) ''oom-reclaimed'' ''memory pressure oom''
        (''Task reclaimed'', ''memory pressure'') ''oom'' (cleanup_task_resources fat i (wake_waiting_parent (t_parent (tasks (sch s) ! i)) i s2)))"
      "vfs s2 = vfs s" "sch s2 = set_task i f (sch s)" "\<And>t. t_status (f t) = Reaped"
    using force_reclaim_effect [of i s fat code] c by blast
  have "os_inv (cleanup_task_resources fat i (wake_waiting_parent p i s2))" for p
    by (rule end_then_cleanup_inv [OF inv, of f]) (use e(2-4) parent_wake_wakes [of s2 p i] in auto)
  then show ?thesis unfolding e(1) by simp
qed

lemma force_reclaim_frees: "frees_unused s (snd (force_reclaim_task fat i code s))"
  using force_reclaim_cases [of fat i code s]
proof (elim disjE)
  assume "snd (force_reclaim_task fat i code s) = s"
  then show ?thesis by (simp add: frees_unused_same)
next
  assume c: "i \<noteq> 0 \<and> i \<noteq> current (sch s) \<and> i < length (tasks (sch s)) \<and> t_status (tasks (sch s) ! i) \<notin> {Exited, Reaped}"
  obtain r s2 f where e: "snd (force_reclaim_task fat i code s) = free_space r (announce_end i (t_name (tasks (sch s) ! i)) ''oom-reclaimed'' ''memory pressure oom''
        (''Task reclaimed'', ''memory pressure'') ''oom'' (cleanup_task_resources fat i (wake_waiting_parent (t_parent (tasks (sch s) ! i)) i s2)))"
      "frees s2 = frees s" "\<And>p. r = Some p \<longleftrightarrow> space_used p (sch s) \<and> \<not> space_used p (sch s2)"
    using force_reclaim_effect [of i s fat code] c by blast
  let ?s3 = "wake_waiting_parent (t_parent (tasks (sch s) ! i)) i s2"
  have "wakes_only (sch ?s3) (sch (cleanup_task_resources fat i ?s3))"
    using drop_task_wakes [of "?s3\<lparr>futexes := drop_task_waiters i (futexes ?s3)\<rparr>" fat i] by (simp add: cleanup_task_resources_def)
  then have sp: "space_used p (sch (cleanup_task_resources fat i ?s3)) = space_used p (sch s2)" for p
    using parent_wake_wakes [of s2] by (simp add: wakes_only_space)
  have "frees (snd (force_reclaim_task fat i code s)) = frees s @ (case r of Some p \<Rightarrow> [p] | None \<Rightarrow> [])"
    unfolding e(1) using e(2) by (cases r) (simp_all add: free_space_def)
  moreover have "p \<in> set (case r of Some p \<Rightarrow> [p] | None \<Rightarrow> []) \<longleftrightarrow> r = Some p" for p by (auto split: option.splits)
  ultimately show ?thesis
    by (intro frees_unusedI [of _ _ "case r of Some p \<Rightarrow> [p] | None \<Rightarrow> []"]) (simp_all add: e(1,3) sp split: option.splits)
qed


section \<open>Reaping, starting and replacing programs\<close>

lemma reap_os_inv:
  assumes inv: "os_inv s" and i: "i < length (tasks (sch s))" "t_status (tasks (sch s) ! i) = Exited" and r: "reap i s = (r, s')"
  shows "os_inv s'"
proof -
  have e: "vfs s' = vfs s" using reap_effect(1) [OF i(1) _ r] i(2) by simp
  obtain f where f: "sch s' = set_task i f (sch s)" "\<And>t. t_status (f t) = Reaped" using reap_effect(5) [OF i(1) _ r] i(2) by auto
  have al: "alive j (sch s') = alive j (sch s)" for j using i unfolding f(1) by (cases "j = i") (auto simp: alive_def nth_set_task f(2))
  show ?thesis
    using os_invD [OF inv] sched_inv_end [OF os_invD(1) [OF inv], of f i] f e by (intro os_invI) (auto simp: al [unfolded f(1)])
qed

lemma waitpid_inv:
  assumes "os_inv s"
  shows "os_inv (snd (waitpid parent i s))"
proof (cases "i \<noteq> 0 \<and> reapable parent i (sch s)")
  case True
  obtain r s' where r: "reap i s = (r, s')" by fastforce
  have "snd (waitpid parent i s) = upd_log (deferred_enqueue PersistTaskSnapshot) (free_space r s')"
    using True r by (auto simp: waitpid_def reapable_iff task_at_def)
  then show ?thesis using reap_os_inv [OF assms _ _ r] True by (simp add: reapable_iff)
next
  case False
  then have "snd (waitpid parent i s) = s" by (auto simp: waitpid_def reapable_iff task_at_def split: task_status.splits)
  then show ?thesis using assms by simp
qed

lemma reap_loop_inv: "os_inv s \<Longrightarrow> os_inv (snd (reap_loop parent is s))"
proof (induction "is" arbitrary: s)
  case (Cons i "is")
  show ?case
  proof (cases "i = 0 \<or> \<not> reapable parent i (sch s)")
    case False
    obtain r s1 where r: "reap i s = (r, s1)" by fastforce
    have "os_inv s1" using reap_os_inv [OF Cons.prems _ _ r] False by (simp add: reapable_iff)
    then show ?thesis using Cons.IH [of s1] False r by (simp add: split_beta)
  qed (use Cons in simp)
qed simp

lemma reap_all_inv: "os_inv s \<Longrightarrow> os_inv (snd (reap_all_exited parent s))"
  using reap_loop_inv [of s parent "[0..<length (tasks (sch s))]"]
  by (auto simp: reap_all_exited_def split_beta Let_def fold_free os_inv_def)

lemma reclaim_largest_cases:
  "snd (reclaim_largest_user_task fat pages sockets code s) = s \<or> (\<exists>i. snd (reclaim_largest_user_task fat pages sockets code s) = snd (force_reclaim_task fat i code s))"
  unfolding reclaim_largest_user_task_def by (simp split: option.splits prod.splits sum.splits) (metis snd_conv)

lemma nth_wakes_app:
  assumes "wakes_only (s\<lparr>tasks := tasks s @ [t]\<rparr>) s'"
  shows "wakes_only s (s'\<lparr>tasks := butlast (tasks s')\<rparr>)" "length (tasks s') = Suc (length (tasks s))" "current s' = current s"
proof -
  show l: "length (tasks s') = Suc (length (tasks s))" "current s' = current s" using assms by (simp_all add: wakes_only_def)
  have "tasks s' ! i = tasks s ! i \<or> tasks s' ! i = wake_up (tasks s ! i)" if "i < length (tasks s)" for i
    using assms that unfolding wakes_only_def by (auto simp: nth_append dest!: spec [of _ i])
  then show "wakes_only s (s'\<lparr>tasks := butlast (tasks s')\<rparr>)" using l by (auto simp: wakes_only_def nth_butlast)
qed

lemma spawned_inv:
  assumes inv: "os_inv s" and sc: "sch s' = set_task i f ((sch s)\<lparr>tasks := tasks (sch s) @ [t]\<rparr>)" "i = length (tasks (sch s))" "t_status (f t) = Ready"
    and v: "fd_inv [] (vfs s')" "\<And>a b. a \<noteq> i \<Longrightarrow> current_entry (vfs s') a b = current_entry (vfs s) a b"
  shows "os_inv s'"
proof (rule os_invI [OF _ v(1)])
  have n: "tasks (sch s') = tasks (sch s) @ [f t]" "current (sch s') = current (sch s)" using sc(1,2) by (simp_all add: set_task_def)
  show "sched_inv (sch s')" using os_invD(1) [OF inv] sc(3) by (auto simp: sched_inv_def n nth_append less_Suc_eq)
  show "current_entry (vfs s') j fd = None" if "\<not> alive j (sch s')" for j fd
  proof -
    have "j \<noteq> i" "\<not> alive j (sch s)" using that sc(2,3) by (auto simp: alive_def n nth_append)
    then show ?thesis using v(2) os_invD(3) [OF inv] by simp
  qed
qed

lemma popped_inv:
  assumes inv: "os_inv s" and w: "wakes_only ((sch s)\<lparr>tasks := tasks (sch s) @ [t]\<rparr>) (sch s')" "i = length (tasks (sch s))"
    and v: "fd_inv [] (vfs s')" "\<And>a b. current_entry (vfs s') a b = (if a = i then None else current_entry (vfs s) a b)"
  shows "os_inv (pop_task s')"
proof -
  note p = nth_wakes_app [OF w(1)]
  have no: "current_entry (vfs s) i b = None" for b using os_invD(3) [OF inv, of i b] w(2) by (simp add: alive_def)
  have "current_entry (vfs s') j fd = None" if "\<not> alive j (sch s)" for j fd
    using that v(2) [of j fd] os_invD(3) [OF inv, of j fd] by simp
  then show ?thesis using v(1) wakes_only_inv [OF p(1) os_invD(1) [OF inv]] wakes_only_alive [OF p(1)]
    by (intro os_invI) (simp_all add: pop_task_def)
qed

definition spaces_exact :: "nat set \<Rightarrow> osys \<Rightarrow> osys \<Rightarrow> bool" where
  "spaces_exact G s s' =
     (\<exists>ps. frees s' = frees s @ ps \<and> distinct ps \<and> set ps = {p. (space_used p (sch s) \<or> p \<in> G) \<and> \<not> space_used p (sch s')})"

lemma frees_unused_exact: "frees_unused s s' \<Longrightarrow> spaces_exact {} s s'"
  by (simp add: frees_unused_def spaces_exact_def)

lemma reclaim_largest_inv: "os_inv s \<Longrightarrow> os_inv (snd (reclaim_largest_user_task fat pages sockets code s))"
  using reclaim_largest_cases [of fat pages sockets code s] force_reclaim_inv by auto

lemma reclaim_largest_frees: "frees_unused s (snd (reclaim_largest_user_task fat pages sockets code s))"
  using reclaim_largest_cases [of fat pages sockets code s] force_reclaim_frees [of s] frees_unused_same [of s s] by auto

lemma spawn_context_Some:
  assumes "spawn_context heap name rip cs rsp ss pml4 rdi rsi tls s = (Some i, s')"
  obtains t where "i = length (tasks (sch s))" "sch s' = (sch s)\<lparr>tasks := tasks (sch s) @ [t]\<rparr>" "vfs s' = init_task i (vfs s)" "frees s' = frees s"
    "t_status t = Ready" "t_pml4 t = pml4" "t_stack t \<noteq> []"
  using assms by (auto simp: spawn_context_def new_task_def context_block_def Let_def split: option.splits if_splits prod.splits)

lemma spawn_context_None:
  assumes "spawn_context heap name rip cs rsp ss pml4 rdi rsi tls s = (None, s')"
  shows "sch s' = sch s" "vfs s' = vfs s" "frees s' = frees s"
  using assms by (auto simp: spawn_context_def Let_def split: option.splits if_splits prod.splits)

lemma wakes_only_set_last:
  "i = length (tasks s) \<Longrightarrow> set_task i f (s\<lparr>tasks := tasks s @ [t]\<rparr>) = s\<lparr>tasks := tasks s @ [f t]\<rparr>"
  by (simp add: set_task_def)

lemma space_used_iff: "space_used p s = (\<exists>t \<in> set (tasks s). t_pml4 t = Some p \<and> t_status t \<noteq> Reaped)"
  unfolding space_used_def by (metis in_set_conv_nth)

lemma space_used_app: "space_used p (s\<lparr>tasks := tasks s @ [t]\<rparr>) = (space_used p s \<or> t_pml4 t = Some p \<and> t_status t \<noteq> Reaped)"
  by (auto simp: space_used_iff)

lemma init_new_task:
  assumes "os_inv s" "i = length (tasks (sch s))"
  shows "fd_inv [] (init_task i (vfs s))" "\<And>a b. a \<noteq> i \<Longrightarrow> current_entry (init_task i (vfs s)) a b = current_entry (vfs s) a b"
    "\<And>b. current_entry (init_task i (vfs s)) i b = None"
proof -
  have no: "\<And>b. current_entry (vfs s) i b = None" using os_invD(3) [OF assms(1), of i] assms(2) by (simp add: alive_def)
  show "fd_inv [] (init_task i (vfs s))" by (rule init_inv [OF os_invD(2) [OF assms(1)] no])
  show "current_entry (init_task i (vfs s)) a b = current_entry (vfs s) a b" if "a \<noteq> i" for a b
    using that current_ensure [of i "vfs s" a b] by (auto simp: init_task_def put_table_def current_entry_def Let_def)
  show "current_entry (init_task i (vfs s)) i b = None" for b
    using ensure_length(1) [of i "vfs s"] by (auto simp: init_task_def put_table_def current_entry_def Let_def table_new_def)
qed

text \<open>A new task that has inherited its descriptors, or was removed again because it could not.\<close>

lemma spawn_finish:
  assumes inv: "os_inv s" and i: "i = length (tasks (sch s))" and sc: "sch s1 = (sch s)\<lparr>tasks := tasks (sch s) @ [t]\<rparr>"
    and f: "t_status (f t) = Ready" "t_pml4 (f t) = Some p"
    and v: "fd_inv [] v" "\<forall>a b. a \<noteq> i \<longrightarrow> current_entry v a b = current_entry (vfs s) a b" and fr: "frees s1 = frees s"
  defines "s3 \<equiv> (upd_sch (set_task i f) s1)\<lparr>vfs := v\<rparr>"
  shows "os_inv s3" "keeps_spaces s s3" "space_used p (sch s3)"
    "os_inv (pop_task (drop_task fat i s3))" "keeps_spaces s (pop_task (drop_task fat i s3))"
    "space_used q (sch (pop_task (drop_task fat i s3))) = space_used q (sch s)"
proof -
  have sch3: "sch s3 = (sch s)\<lparr>tasks := tasks (sch s) @ [f t]\<rparr>" by (simp add: s3_def sc i wakes_only_set_last)
  have v3: "vfs s3 = v" "frees s3 = frees s" by (simp_all add: s3_def fr)
  show "os_inv s3" by (rule spawned_inv [OF inv, of _ i f t]) (use sc i f v in \<open>simp_all add: s3_def\<close>)
  show "keeps_spaces s s3" "space_used p (sch s3)" using f v3 by (auto simp: keeps_spaces_def sch3 space_used_app)
  have w: "wakes_only ((sch s)\<lparr>tasks := tasks (sch s) @ [f t]\<rparr>) (sch (drop_task fat i s3))" using drop_task_wakes [of s3] by (simp add: sch3)
  note p = nth_wakes_app [OF w]
  have iv: "fd_inv [] (vfs s3)" using v v3 by simp
  show "os_inv (pop_task (drop_task fat i s3))"
    by (rule popped_inv [OF inv w i drop_task_inv [OF iv]]) (use drop_task_entries [OF iv, of fat i] v v3 in auto)
  show sp: "space_used q (sch (pop_task (drop_task fat i s3))) = space_used q (sch s)" for q
    using wakes_only_space [OF p(1)] by (simp add: pop_task_def)
  show "keeps_spaces s (pop_task (drop_task fat i s3))"
    unfolding keeps_spaces_def sp using v3 by (simp add: pop_task_def)
qed

lemma exact_give_back: "keeps_spaces s s' \<Longrightarrow> (\<And>q. space_used q (sch s') = space_used q (sch s)) \<Longrightarrow> \<not> space_used p (sch s) \<Longrightarrow>
  spaces_exact {p} s (call (FreeAddressSpace p) s')"
  unfolding spaces_exact_def by (rule exI [of _ "[p]"]) (auto simp: keeps_spaces_def)

lemma exact_taken: "keeps_spaces s s' \<Longrightarrow> space_used p (sch s') \<Longrightarrow> spaces_exact {p} s s'"
  unfolding spaces_exact_def by (rule exI [of _ "[]"]) (auto simp: keeps_spaces_def)

lemma keeps_spaces_refl [simp]: "keeps_spaces s s"
  by (simp add: keeps_spaces_def)

lemma spawn_user_inv:
  assumes inv: "os_inv s" and d: "distinct (map snd fds)" and fresh: "\<not> space_used pml4 (sch s)"
  shows "os_inv (snd (spawn_user_with_fds_and_credentials fat heap sel name entry rsp pml4 fds creds s)) \<and>
    spaces_exact {pml4} s (snd (spawn_user_with_fds_and_credentials fat heap sel name entry rsp pml4 fds creds s))"
proof (cases "active_task_count (sch s) \<ge> MAX_ACTIVE_TASKS")
  case False
  obtain r s1 where r: "spawn_context heap name entry (fst sel) (Some rsp) (snd sel) (Some pml4) 0 0 0 s = (r, s1)" by fastforce
  show ?thesis
  proof (cases r)
    case None
    note n = spawn_context_None [OF r [unfolded None]]
    have "os_inv s1" "spaces_exact {pml4} s (call (FreeAddressSpace pml4) s1)"
      using os_inv_same [OF inv n(1,2)] exact_give_back [of s s1 pml4] fresh n by (simp_all add: keeps_spaces_def)
    then show ?thesis using False r None by (simp add: spawn_user_with_fds_and_credentials_def)
  next
    case (Some i)
    obtain t where t: "i = length (tasks (sch s))" "sch s1 = (sch s)\<lparr>tasks := tasks (sch s) @ [t]\<rparr>" "vfs s1 = init_task i (vfs s)" "frees s1 = frees s"
      "t_status t = Ready" "t_pml4 t = Some pml4" using spawn_context_Some r [unfolded Some] by metis
    let ?f = "\<lambda>t. t\<lparr>t_credentials := (case creds of Some c \<Rightarrow> c | None \<Rightarrow> t_credentials t), t_user_stack_bottom := Some USER_STACK_BOTTOM\<rparr>"
    obtain b v where b: "inherit_fds (current (sch s)) i fds (vfs s1) = (b, v)" by fastforce
    note n = init_new_task [OF inv t(1)]
    have v: "fd_inv [] v" "\<forall>x y. x \<noteq> i \<longrightarrow> current_entry v x y = current_entry (vfs s) x y"
      using inherit_fds_inv [OF n(1) d n(3), of "current (sch s)"] inherit_fds_other [of _ i "current (sch s)" fds "init_task i (vfs s)"] n(2) b t(3) by auto
    have p: "t_status (?f t) = Ready" "t_pml4 (?f t) = Some pml4" using t(5,6) by simp_all
    note fin = spawn_finish [OF inv t(1,2), of ?f pml4 v, OF p v t(4)]
    let ?s3 = "(upd_sch (set_task i ?f) s1)\<lparr>vfs := v\<rparr>"
    have eq: "spawn_user_with_fds_and_credentials fat heap sel name entry rsp pml4 fds creds s =
        (if b then (True, ?s3) else (False, call (FreeAddressSpace pml4) (pop_task (drop_task fat i ?s3))))"
      using False r Some b by (simp add: spawn_user_with_fds_and_credentials_def Let_def)
    show ?thesis
    proof (cases b)
      case True
      then show ?thesis unfolding eq using fin(1) exact_taken [OF fin(2,3)] by simp
    next
      case False
      have "spaces_exact {pml4} s (call (FreeAddressSpace pml4) (pop_task (drop_task fat i ?s3)))"
        by (rule exact_give_back [OF fin(5,6) fresh])
      then show ?thesis unfolding eq using False fin(4) by simp
    qed
  qed
qed (use inv exact_give_back [of s s pml4] fresh in \<open>simp add: spawn_user_with_fds_and_credentials_def\<close>)


lemma free_stack_frame: "vfs (free_stack i s) = vfs s" "\<exists>f. sch (free_stack i s) = set_task i f (sch s)"
  by (auto simp: free_stack_def task_at_def set_task_def split: option.splits if_splits)

lemma pop_set_last:
  assumes "length (tasks s) = Suc i"
  shows "butlast (tasks (set_task i f s)) = butlast (tasks s)"
  using assms by (simp add: set_task_def butlast_list_update)

lemma spawn_thread_inv:
  assumes inv: "os_inv s"
  shows "os_inv (snd (spawn_user_thread fat heap sel entry rsp arg bottom tls s)) \<and>
    keeps_spaces s (snd (spawn_user_thread fat heap sel entry rsp arg bottom tls s))"
proof (cases "active_task_count (sch s) \<ge> MAX_ACTIVE_TASKS \<or> task_at (current (sch s)) (sch s) = None \<or>
    Option.bind (task_at (current (sch s)) (sch s)) t_pml4 = None")
  case False
  then obtain p pml4 where p: "task_at (current (sch s)) (sch s) = Some p" "t_pml4 p = Some pml4" "\<not> active_task_count (sch s) \<ge> MAX_ACTIVE_TASKS"
    by (auto simp: bind_eq_None_conv)
  obtain r s1 where r: "spawn_context heap ''user-thread'' entry (fst sel) (Some rsp) (snd sel) (Some pml4) arg 0 tls s = (r, s1)" by fastforce
  show ?thesis
  proof (cases r)
    case None
    note n = spawn_context_None [OF r [unfolded None]]
    show ?thesis using p r None os_inv_same [OF inv n(1,2)] n by (simp add: spawn_user_thread_def keeps_spaces_def)
  next
    case (Some i)
    obtain t where t: "i = length (tasks (sch s))" "sch s1 = (sch s)\<lparr>tasks := tasks (sch s) @ [t]\<rparr>" "vfs s1 = init_task i (vfs s)" "frees s1 = frees s"
      "t_status t = Ready" "t_pml4 t = Some pml4" using spawn_context_Some r [unfolded Some] by metis
    let ?f = "\<lambda>t. t\<lparr>t_thread_group := t_thread_group p, t_user_stack_bottom := Some bottom\<rparr>"
    obtain b v where b: "inherit_all_fds (current (sch s)) i (vfs s1) = (b, v)" by fastforce
    note n = init_new_task [OF inv t(1)]
    have v: "fd_inv [] v" "\<forall>x y. x \<noteq> i \<longrightarrow> current_entry v x y = current_entry (vfs s) x y"
      using inherit_all_inv [OF n(1,3), of "current (sch s)"] inherit_all_other [of _ i "current (sch s)" "init_task i (vfs s)"] n(2) b t(3) by auto
    have ft: "t_status (?f t) = Ready" "t_pml4 (?f t) = Some pml4" using t(5,6) by simp_all
    note fin = spawn_finish [OF inv t(1,2), of ?f pml4 v, OF ft v t(4)]
    let ?s3 = "(upd_sch (set_task i ?f) s1)\<lparr>vfs := v\<rparr>"
    let ?d = "drop_task fat i ?s3"
    have eq: "spawn_user_thread fat heap sel entry rsp arg bottom tls s = (if b then (Some i, ?s3) else (None, pop_task (free_stack i ?d)))"
      using p r Some b by (simp add: spawn_user_thread_def Let_def)
    have len: "length (tasks (sch ?d)) = Suc i" using drop_task_wakes [of ?s3 fat i] t(1,2) by (simp add: wakes_only_def)
    obtain g where "sch (free_stack i ?d) = set_task i g (sch ?d)" using free_stack_frame(2) by blast
    then have "tasks (sch (pop_task (free_stack i ?d))) = tasks (sch (pop_task ?d))" "current (sch (pop_task (free_stack i ?d))) = current (sch (pop_task ?d))"
      "vfs (pop_task (free_stack i ?d)) = vfs (pop_task ?d)" "frees (pop_task (free_stack i ?d)) = frees (pop_task ?d)"
      using pop_set_last [OF len] by (simp_all add: pop_task_def free_stack_frame(1))
    then have "os_inv (pop_task (free_stack i ?d)) = os_inv (pop_task ?d)" "keeps_spaces s (pop_task (free_stack i ?d)) = keeps_spaces s (pop_task ?d)"
      by (simp_all add: os_inv_def sched_inv_def alive_def keeps_spaces_def space_used_def)
    then show ?thesis unfolding eq using fin(1,2,4,5) by simp
  qed
qed (use inv in \<open>auto simp: spawn_user_thread_def Let_def bind_eq_None_conv split: option.splits\<close>)

lemma drop_shmem_frame:
  "sch (drop_task_shmem_refs i s) = sch s" "frees (drop_task_shmem_refs i s) = frees s" "task_fds (vfs (drop_task_shmem_refs i s)) = task_fds (vfs s)"
  "objects (vfs (drop_task_shmem_refs i s)) = objects (vfs s)"
  by (simp_all add: drop_task_shmem_refs_def Let_def split_beta)

lemma exec_effect:
  assumes "os_inv s"
  shows "\<exists>f. tasks (sch (exec_image path pml4 s)) = tasks (set_task (current (sch s)) f (sch s)) \<and> (\<forall>t. t_status (f t) = t_status t \<and> t_pml4 (f t) = Some pml4)"
    "current (sch (exec_image path pml4 s)) = current (sch s)" "task_fds (vfs (exec_image path pml4 s)) = task_fds (vfs s)"
    "objects (vfs (exec_image path pml4 s)) = objects (vfs s)"
    "frees (exec_image path pml4 s) = frees s @ (case t_pml4 (tasks (sch s) ! current (sch s)) of Some p \<Rightarrow> [p] | None \<Rightarrow> [])"
proof -
  let ?c = "current (sch s)" and ?f = "\<lambda>t. t\<lparr>t_pml4 := Some pml4, t_tls_base := 0\<rparr>"
  have c: "?c < length (tasks (sch s))" using os_invD(1) [OF assms] by (simp add: sched_inv_def)
  show "\<exists>f. tasks (sch (exec_image path pml4 s)) = tasks (set_task ?c f (sch s)) \<and> (\<forall>t. t_status (f t) = t_status t \<and> t_pml4 (f t) = Some pml4)"
    using c by (intro exI [of _ ?f]) (auto simp: exec_image_def Let_def drop_shmem_frame set_current_tls_base_def task_at_def set_task_def)
  show "current (sch (exec_image path pml4 s)) = ?c" "task_fds (vfs (exec_image path pml4 s)) = task_fds (vfs s)"
    "objects (vfs (exec_image path pml4 s)) = objects (vfs s)"
    using c by (auto simp: exec_image_def Let_def drop_shmem_frame set_current_tls_base_def task_at_def)
  show "frees (exec_image path pml4 s) = frees s @ (case t_pml4 (tasks (sch s) ! ?c) of Some p \<Rightarrow> [p] | None \<Rightarrow> [])"
    using c by (simp add: exec_image_def Let_def drop_shmem_frame task_at_def free_space_def split: option.splits)
qed

lemma exec_inv:
  assumes inv: "os_inv s"
  shows "os_inv (exec_image path pml4 s)"
proof -
  obtain f where f: "tasks (sch (exec_image path pml4 s)) = tasks (set_task (current (sch s)) f (sch s))" "\<And>t. t_status (f t) = t_status t"
    using exec_effect(1) [OF inv] by blast
  note e = exec_effect(2-4) [OF inv, of path pml4]
  have st: "t_status (tasks (sch (exec_image path pml4 s)) ! i) = t_status (tasks (sch s) ! i)" if "i < length (tasks (sch s))" for i
    using that f by (simp add: nth_set_task)
  have al: "alive i (sch (exec_image path pml4 s)) = alive i (sch s)" for i using st f(1) by (auto simp: alive_def)
  show ?thesis
  proof (rule os_invI)
    show "sched_inv (sch (exec_image path pml4 s))" using os_invD(1) [OF inv] st f(1) e(1) by (simp add: sched_inv_def)
    show "fd_inv [] (vfs (exec_image path pml4 s))" using os_invD(2) [OF inv] fd_inv_cong [OF e(2,3)] by simp
    show "current_entry (vfs (exec_image path pml4 s)) i fd = None" if "\<not> alive i (sch (exec_image path pml4 s))" for i fd
      using that al os_invD(3) [OF inv, of i fd] current_entry_cong [OF e(2)] by simp
  qed
qed

text \<open>Replacing a program is exact when no other task uses the old address space.\<close>

definition sole_user :: "scheduler \<Rightarrow> bool" where
  "sole_user s = (t_status (tasks s ! current s) \<noteq> Reaped \<and> (\<forall>p. t_pml4 (tasks s ! current s) = Some p \<longrightarrow> \<not> still_live (current s) p s))"

lemma exec_exact:
  assumes inv: "os_inv s" and sole: "sole_user (sch s)" and fresh: "\<not> space_used pml4 (sch s)"
  shows "spaces_exact {pml4} s (exec_image path pml4 s)"
proof -
  let ?c = "current (sch s)" and ?s = "exec_image path pml4 s"
  have c: "?c < length (tasks (sch s))" using os_invD(1) [OF inv] by (simp add: sched_inv_def)
  obtain f where f: "tasks (sch ?s) = tasks (set_task ?c f (sch s))" "\<And>t. t_status (f t) = t_status t" "\<And>t. t_pml4 (f t) = Some pml4"
    using exec_effect(1) [OF inv] by blast
  have used: "space_used p (sch ?s) \<longleftrightarrow> p = pml4 \<or> still_live ?c p (sch s)" for p
    using c sole f unfolding space_used_def still_live_iff sole_user_def by (auto simp: nth_set_task split: if_splits)
  have old: "space_used p (sch s) \<longleftrightarrow> t_pml4 (tasks (sch s) ! ?c) = Some p \<or> still_live ?c p (sch s)" for p
    using c sole unfolding space_used_def still_live_iff sole_user_def by auto
  let ?ps = "case t_pml4 (tasks (sch s) ! ?c) of Some p \<Rightarrow> [p] | None \<Rightarrow> []"
  have "set ?ps = {p. (space_used p (sch s) \<or> p \<in> {pml4}) \<and> \<not> space_used p (sch ?s)}"
    using sole fresh unfolding used old sole_user_def by (auto split: option.splits)
  then show ?thesis unfolding spaces_exact_def using exec_effect(5) [OF inv, of path pml4] by (intro exI [of _ ?ps]) (simp split: option.splits)
qed

lemma save_current_keeps: "t_pml4 (save_current rsp t) = t_pml4 t" "(t_status (save_current rsp t) = Exited) = (t_status t = Exited)"
  "(t_status (save_current rsp t) = Reaped) = (t_status t = Reaped)"
  by (simp_all add: save_current_def Let_def)

lemma deliver_keeps: "t_pml4 (deliver_signal i sig t) = t_pml4 t" "(t_status (deliver_signal i sig t) = Exited) = (t_status t = Exited)"
  "(t_status (deliver_signal i sig t) = Reaped) = (t_status t = Reaped)"
  by (cases sig; simp add: deliver_signal_def Let_def)+

lemma tick_keeps: "t_pml4 (tick_task tm i t) = t_pml4 t" "(t_status (tick_task tm i t) = Exited) = (t_status t = Exited)"
  "(t_status (tick_task tm i t) = Reaped) = (t_status t = Reaped)"
  by (cases "t_pending_signal t"; simp add: tick_task_def Let_def deliver_keeps)+

lemma ticked_keeps:
  assumes "i < length (tasks sc)"
  shows "t_pml4 (ticked tm rsp sc ! i) = t_pml4 (tasks sc ! i)" "(t_status (ticked tm rsp sc ! i) = Exited) = (t_status (tasks sc ! i) = Exited)"
    "(t_status (ticked tm rsp sc ! i) = Reaped) = (t_status (tasks sc ! i) = Reaped)"
  using assms by (simp_all add: ticked_def nth_enumerate_eq nth_set_task tick_keeps save_current_keeps)

lemma schedule_alive:
  assumes "sched_inv sc"
  shows "alive i sc \<Longrightarrow> alive i (snd (schedule tm boot rsp sc))" "space_used p sc \<Longrightarrow> space_used p (snd (schedule tm boot rsp sc))"
proof -
  let ?s = "snd (schedule tm boot rsp sc)"
  note e = schedule_effect [OF assms, of tm boot rsp, OF refl]
  note nth = e(4)
  show "alive i ?s" if "alive i sc" using that nth [of i] ticked_keeps [of i sc] e(2) by (auto simp: alive_def)
  show "space_used p ?s" if sp: "space_used p sc"
  proof -
    obtain j where j: "j < length (tasks sc)" "t_pml4 (tasks sc ! j) = Some p" "t_status (tasks sc ! j) \<noteq> Reaped"
      using sp by (auto simp: space_used_def)
    then have "t_pml4 (tasks ?s ! j) = Some p" "t_status (tasks ?s ! j) \<noteq> Reaped" using nth [OF j(1)] ticked_keeps [OF j(1)] by (auto split: if_splits)
    then show ?thesis using j(1) e(2) by (auto simp: space_used_def)
  qed
qed

lemma schedule_os_inv:
  assumes inv: "os_inv s"
  shows "os_inv (upd_sch (\<lambda>sc. snd (schedule tm boot rsp sc)) s)" "keeps_spaces s (upd_sch (\<lambda>sc. snd (schedule tm boot rsp sc)) s)"
proof -
  note i = os_invD(1) [OF inv]
  show "os_inv (upd_sch (\<lambda>sc. snd (schedule tm boot rsp sc)) s)"
    using schedule_effect(1) [OF i refl] schedule_alive(1) [OF i] os_invD(2,3) [OF inv] by (intro os_invI) (simp_all, blast)
  show "keeps_spaces s (upd_sch (\<lambda>sc. snd (schedule tm boot rsp sc)) s)" using schedule_alive(2) [OF i] by (simp add: keeps_spaces_def)
qed


end
