(* ===== verification/Memory_Pressure.thy ===== *)
theory Memory_Pressure
  imports Processes
begin

text \<open>
  Recovery from memory pressure (\<open>src/src/memory_pressure.rs\<close>) and the journal it flushes first
  (\<open>src/src/fs_hardening.rs\<close>): caches are trimmed when the pressure is low or worse, and the largest user task is ended when
  it stays critical. What the model cannot compute is a record of functions: the bytes of the heap in use, the pages of an
  address space, the sockets of a task, and the bytes the browser gives back.
\<close>

record environment =
  env_used :: "osys \<Rightarrow> nat"
  env_pages :: "nat \<Rightarrow> nat"
  env_sockets :: "nat \<Rightarrow> nat"
  env_browser :: "osys \<Rightarrow> nat"

section \<open>Journal\<close>

definition write_journal :: "fat_driver \<Rightarrow> (kernel, fs_error, unit) sm" where
  "write_journal fat =
     bnd (gets (journal \<circ> log \<circ> fs)) (\<lambda>ls.
     bnd (vfs_kernel_write_file fat JOURNAL_PATH (as_bytes (write_lines ls))) (\<lambda>_.
     upd (\<lambda>k. k\<lparr>fs := (fs k)\<lparr>log := (log (fs k))\<lparr>journal_dirty := False\<rparr>\<rparr>\<rparr>)))"

definition flush_journal :: "fat_driver \<Rightarrow> (kernel, fs_error, unit) sm" where
  "flush_journal fat =
     bnd (discard (vfs_kernel_create_dir fat ''/LOGS'')) (\<lambda>_.
     bnd (attempt (vfs_kernel_create_file fat JOURNAL_PATH)) (\<lambda>r.
     case r of
       Inr _ \<Rightarrow> write_journal fat
     | Inl e \<Rightarrow> if e = AlreadyExists then write_journal fat else err e))"

definition fs_flush :: "fat_driver \<Rightarrow> (kernel, fs_error, unit) sm" where
  "fs_flush fat = bnd (flush_journal fat) (\<lambda>_. on_fs coolfs_flush)"

text \<open>The last \<open>MAX_JOURNAL\<close> lines of the file become the journal in memory.\<close>

definition replay_journal :: "fat_driver \<Rightarrow> (kernel, unit, unit) sm" where
  "replay_journal fat =
     bnd (attempt (vfs_kernel_read_file fat JOURNAL_PATH)) (\<lambda>r.
     case r of
       Inl _ \<Rightarrow> ret ()
     | Inr bytes \<Rightarrow>
       (case from_utf8 bytes of
          None \<Rightarrow> ret ()
        | Some txt \<Rightarrow> upd (\<lambda>k. k\<lparr>fs := (fs k)\<lparr>log := (log (fs k))\<lparr>journal := rev (take MAX_JOURNAL (rev (str_lines txt)))\<rparr>\<rparr>,
             bus := bus_emit (now k) ''fs'' ''journal-replay'' ''metadata journal loaded'' (bus k)\<rparr>)))"

section \<open>Recovery\<close>

definition CHECK_INTERVAL_TICKS :: u64 where "CHECK_INTERVAL_TICKS = TIMER_HZ"
definition COOLFS_TRIM_KEEP_BLOCKS :: nat where "COOLFS_TRIM_KEEP_BLOCKS = 8"
definition OOM_EXIT_CODE :: u64 where "OOM_EXIT_CODE = 137"

definition upd_pressure :: "(pressure_state \<Rightarrow> pressure_state) \<Rightarrow> osys \<Rightarrow> osys" where
  "upd_pressure f s = s\<lparr>pressure := f (pressure s)\<rparr>"

definition log_line :: "string \<Rightarrow> osys \<Rightarrow> osys" where
  "log_line message s = s\<lparr>kern := (kern s)\<lparr>bus := klog (now (kern s)) message (bus (kern s))\<rparr>\<rparr>"

definition take_snapshot :: "environment \<Rightarrow> osys \<Rightarrow> (pressure_level \<times> nat) \<times> osys" where
  "take_snapshot env s = (case snapshot (env_used env s) (pressure s) of (r, p) \<Rightarrow> (r, s\<lparr>pressure := p\<rparr>))"

definition trim_reclaimable :: "fat_driver \<Rightarrow> environment \<Rightarrow> osys \<Rightarrow> nat \<times> osys" where
  "trim_reclaimable fat env s =
     (let s1 = snd (on_kern (fs_flush fat) (upd_pressure (\<lambda>p. p\<lparr>trim_attempts := trim_attempts p + 1\<rparr>) s));
          (r, s2) = on_kern (on_fs (trim_clean_cache COOLFS_TRIM_KEEP_BLOCKS)) s1;
          coolfs = (case r of Inr n \<Rightarrow> n | Inl _ \<Rightarrow> 0);
          browser = env_browser env s2;
          s3 = upd_pressure (\<lambda>p. p\<lparr>coolfs_trimmed_bytes := coolfs_trimmed_bytes p + of_nat coolfs,
                 browser_trimmed_bytes := browser_trimmed_bytes p + of_nat browser\<rparr>) (call TrimBrowser s2)
      in (min (2 ^ 64 - 1) (coolfs + browser), s3))"

definition trim_if_low :: "fat_driver \<Rightarrow> environment \<Rightarrow> pressure_level \<Rightarrow> osys \<Rightarrow> osys" where
  "trim_if_low fat env level s =
     (if level \<noteq> Normal
      then (case trim_reclaimable fat env s of (reclaimed, s') \<Rightarrow>
              if reclaimed > 0 then log_line ''memory pressure: trimmed reclaimable caches'' s' else s')
      else s)"

definition reclaim_if_critical :: "fat_driver \<Rightarrow> environment \<Rightarrow> pressure_level \<Rightarrow> osys \<Rightarrow> osys" where
  "reclaim_if_critical fat env level s =
     (if level = Critical
      then (case reclaim_largest_user_task fat (env_pages env) (env_sockets env) OOM_EXIT_CODE s of
              (None, s') \<Rightarrow> s'
            | (Some (pid, bytes), s') \<Rightarrow> log_line ''memory pressure: oom reclaimed user task''
                (upd_pressure (\<lambda>p. p\<lparr>oom_kills := oom_kills p + 1, last_reclaimed_bytes := bytes, last_victim_pid := Some pid\<rparr>) s'))
      else s)"

definition check_and_recover :: "fat_driver \<Rightarrow> environment \<Rightarrow> osys \<Rightarrow> (pressure_level \<times> nat) \<times> osys" where
  "check_and_recover fat env s =
     (case take_snapshot env (upd_pressure (\<lambda>p. p\<lparr>checks := checks p + 1\<rparr>) s) of ((before, _), s1) \<Rightarrow>
      case take_snapshot env (trim_if_low fat env before s1) of ((after_trim, _), s2) \<Rightarrow>
      take_snapshot env (reclaim_if_critical fat env after_trim s2))"

definition admit_allocation :: "fat_driver \<Rightarrow> environment \<Rightarrow> nat \<Rightarrow> osys \<Rightarrow> bool \<times> osys" where
  "admit_allocation fat env bytes s =
     (if bytes = 0 then (True, s)
      else case has_allocation_reserve (env_used env s) bytes (pressure s) of (reserve, p) \<Rightarrow>
        let s1 = s\<lparr>pressure := p\<rparr> in
        if reserve then (True, s1)
        else case check_and_recover fat env s1 of ((_, heap_free), s2) \<Rightarrow> (heap_free - bytes \<ge> HEAP_ADMISSION_RESERVE_BYTES, s2))"

definition pressure_tick :: "fat_driver \<Rightarrow> environment \<Rightarrow> osys \<Rightarrow> osys" where
  "pressure_tick fat env s =
     (let t = now (kern s); last = last_check_tick (pressure s) in
      if t - last < CHECK_INTERVAL_TICKS then s
      else snd (check_and_recover fat env (upd_pressure (\<lambda>p. p\<lparr>last_check_tick := t\<rparr>) s)))"

section \<open>Recovery keeps the system in order\<close>

lemma pressure_frame [simp]:
  "vfs (upd_pressure f s) = vfs s" "sch (upd_pressure f s) = sch s" "frees (upd_pressure f s) = frees s"
  "vfs (log_line m s) = vfs s" "sch (log_line m s) = sch s" "frees (log_line m s) = frees s"
  "vfs (snd (take_snapshot env s)) = vfs s" "sch (snd (take_snapshot env s)) = sch s" "frees (snd (take_snapshot env s)) = frees s"
  by (simp_all add: upd_pressure_def log_line_def take_snapshot_def frees_def split_beta)

lemma trim_frame [simp]:
  "vfs (snd (trim_reclaimable fat env s)) = vfs s" "sch (snd (trim_reclaimable fat env s)) = sch s"
  "frees (snd (trim_reclaimable fat env s)) = frees s"
  by (simp_all add: trim_reclaimable_def Let_def split_beta)

text \<open>A step that changes processes at most by ending tasks for their memory.\<close>

definition orderly :: "osys \<Rightarrow> osys \<Rightarrow> bool" where
  "orderly s s' = ((os_inv s \<longrightarrow> os_inv s') \<and> frees_unused s s')"

lemma orderly_frame: "sch s' = sch s \<Longrightarrow> vfs s' = vfs s \<Longrightarrow> frees s' = frees s \<Longrightarrow> orderly s s'"
  by (auto simp: orderly_def os_inv_def intro: frees_unused_same)

lemma orderly_before: "orderly s1 s' \<Longrightarrow> sch s1 = sch s \<Longrightarrow> vfs s1 = vfs s \<Longrightarrow> frees s1 = frees s \<Longrightarrow> orderly s s'"
  by (auto simp: orderly_def os_inv_def frees_unused_def)

lemma orderly_after: "orderly s s1 \<Longrightarrow> sch s' = sch s1 \<Longrightarrow> vfs s' = vfs s1 \<Longrightarrow> frees s' = frees s1 \<Longrightarrow> orderly s s'"
  by (auto simp: orderly_def os_inv_def frees_unused_def)

lemma reclaim_largest_orderly: "orderly s (snd (reclaim_largest_user_task fat pages sockets code s))"
  by (simp add: orderly_def reclaim_largest_inv reclaim_largest_frees)

lemma trim_if_low_frame [simp]:
  "vfs (trim_if_low fat env l s) = vfs s" "sch (trim_if_low fat env l s) = sch s" "frees (trim_if_low fat env l s) = frees s"
  by (simp_all add: trim_if_low_def split_beta)

lemma reclaim_if_critical_orderly: "orderly s (reclaim_if_critical fat env l s)"
proof -
  obtain r s' where r: "reclaim_largest_user_task fat (env_pages env) (env_sockets env) OOM_EXIT_CODE s = (r, s')" by fastforce
  have "orderly s s'" using reclaim_largest_orderly [of s fat "env_pages env" "env_sockets env" OOM_EXIT_CODE] r by simp
  then have "orderly s (log_line m (upd_pressure f s'))" "orderly s s'" for m f by (auto intro: orderly_after)
  then show ?thesis using r by (auto simp: reclaim_if_critical_def orderly_frame split: option.splits)
qed

lemma check_and_recover_orderly: "orderly s (snd (check_and_recover fat env s))"
proof -
  define s0 where "s0 = upd_pressure (\<lambda>p. p\<lparr>checks := checks p + 1\<rparr>) s"
  define s1 where "s1 = snd (take_snapshot env s0)"
  define t where "t = trim_if_low fat env (fst (fst (take_snapshot env s0))) s1"
  define s2 where "s2 = snd (take_snapshot env t)"
  have eq: "check_and_recover fat env s = take_snapshot env (reclaim_if_critical fat env (fst (fst (take_snapshot env t))) s2)"
    by (simp only: check_and_recover_def s0_def [symmetric] split_beta s1_def [symmetric] t_def [symmetric] s2_def [symmetric])
  have f: "sch s2 = sch s" "vfs s2 = vfs s" "frees s2 = frees s" by (simp_all add: s2_def t_def s1_def s0_def)
  have "orderly s (reclaim_if_critical fat env l s2)" for l by (rule orderly_before [OF reclaim_if_critical_orderly f])
  then show ?thesis unfolding eq by (rule orderly_after) simp_all
qed

lemma admit_orderly: "orderly s (snd (admit_allocation fat env bytes s))"
proof -
  have "orderly s (snd (check_and_recover fat env (s\<lparr>pressure := p\<rparr>)))" for p
    by (rule orderly_before [OF check_and_recover_orderly]) simp_all
  then show ?thesis by (auto simp: admit_allocation_def Let_def split_beta intro: orderly_frame)
qed

lemma pressure_tick_orderly: "orderly s (pressure_tick fat env s)"
  by (auto simp: pressure_tick_def Let_def intro: orderly_frame orderly_before [OF check_and_recover_orderly])

end
