(* ===== verification/Fd_Calls.thy ===== *)
theory Fd_Calls
  imports Memory_Pressure
begin

text \<open>
  The calls of a task on its descriptors and on shared memory (\<open>src/src/vfs.rs\<close>): the locked part of \<open>Descriptors\<close> together
  with the path functions of \<open>Vfs\<close>, the admission of memory and the waking of tasks. A descriptor of \<open>usize::MAX\<close> is \<open>None\<close>.
  Blocking is a step: a round of \<open>vfs_read_blocking\<close> that finds nothing leaves the task blocked, and the task begins its next
  round when the scheduler has chosen it again. Whether the heap has room for a grown buffer, the frames given by the frame
  allocator and the success of mapping a page are arguments.
\<close>

section \<open>Opening and closing\<close>

definition vfs_open :: "fat_driver \<Rightarrow> environment \<Rightarrow> string \<Rightarrow> osys \<Rightarrow> nat option \<times> osys" where
  "vfs_open fat env path s =
     (case on_kern (vfs_read_file fat (normalize_path path)) s of
        (Inl _, s1) \<Rightarrow> (None, s1)
      | (Inr data, s1) \<Rightarrow>
        (case admit_allocation fat env (length data) s1 of (admitted, s2) \<Rightarrow>
         if \<not> admitted then (None, s2)
         else case open_object (current (sch s2)) \<lparr>of_path = None, of_data = data, of_offset = 0, of_writable = False, of_dirty = False\<rparr> (vfs s2) of
                (r, v) \<Rightarrow> (r, s2\<lparr>vfs := v\<rparr>)))"

definition vfs_open_write :: "fat_driver \<Rightarrow> string \<Rightarrow> osys \<Rightarrow> nat option \<times> osys" where
  "vfs_open_write fat path0 s =
     (let path = normalize_path path0 in
      case on_kern (check_safe_write_access fat path) s of
        (Inl _, s1) \<Rightarrow> (None, s1)
      | (Inr _, s1) \<Rightarrow>
        (case open_object (current (sch s1)) \<lparr>of_path = Some path, of_data = [], of_offset = 0, of_writable = True, of_dirty = False\<rparr> (vfs s1) of
           (r, v) \<Rightarrow> (r, s1\<lparr>vfs := v\<rparr>)))"

definition vfs_has_fd :: "nat \<Rightarrow> osys \<Rightarrow> bool" where
  "vfs_has_fd fd s = (current_entry (vfs s) (current (sch s)) fd \<noteq> None)"

definition vfs_pipe :: "fat_driver \<Rightarrow> environment \<Rightarrow> osys \<Rightarrow> (nat \<times> nat) option \<times> osys" where
  "vfs_pipe fat env s =
     (let task_id = current (sch s) in
      case admit_allocation fat env PIPE_SIZE s of (admitted, s1) \<Rightarrow>
      if \<not> admitted then (None, s1)
      else case pipe_fds task_id (vfs s1) of (r, v) \<Rightarrow> (r, s1\<lparr>vfs := v\<rparr>))"

definition vfs_close :: "fat_driver \<Rightarrow> nat \<Rightarrow> osys \<Rightarrow> osys" where
  "vfs_close fat fd s =
     (case close_entry (current (sch s)) fd (vfs s) of
        (None, v) \<Rightarrow> s\<lparr>vfs := v\<rparr>
      | (Some event, v) \<Rightarrow>
        let s1 = s\<lparr>vfs := v\<rparr>;
            s2 = (case commit event of Some (path, data) \<Rightarrow> snd (on_kern (vfs_safe_write_file fat path data) s1) | None \<Rightarrow> s1)
        in wake_tasks ''pipe'' (wake_list event) s2)"

definition vfs_dup :: "nat \<Rightarrow> osys \<Rightarrow> nat option \<times> osys" where
  "vfs_dup fd s = (case dup_fd (current (sch s)) fd (vfs s) of (r, v) \<Rightarrow> (r, s\<lparr>vfs := v\<rparr>))"

section \<open>Reading and writing\<close>

definition vfs_read :: "nat \<Rightarrow> nat \<Rightarrow> nat \<Rightarrow> osys \<Rightarrow> bytes option \<times> osys" where
  "vfs_read fd buf_len len s = (case read_fd (current (sch s)) fd buf_len len (vfs s) of (r, v) \<Rightarrow> (r, s\<lparr>vfs := v\<rparr>))"

definition vfs_write :: "(nat \<Rightarrow> bool) \<Rightarrow> nat \<Rightarrow> bytes \<Rightarrow> osys \<Rightarrow> nat option \<times> osys" where
  "vfs_write can_reserve fd buf s =
     (case write_fd can_reserve (current (sch s)) fd buf (vfs s) of
        (None, v) \<Rightarrow> (None, s\<lparr>vfs := v\<rparr>)
      | (Some (n, woken), v) \<Rightarrow> (Some n, wake_tasks ''pipe-read'' woken (s\<lparr>vfs := v\<rparr>)))"

definition read_blocking_round :: "nat \<Rightarrow> nat \<Rightarrow> nat \<Rightarrow> osys \<Rightarrow> read_round \<times> osys" where
  "read_blocking_round fd buf_len len s =
     (case read_pass (current (sch s)) fd buf_len len (vfs s) of ((r, woken), v) \<Rightarrow>
      let s1 = (if r = ReadFail then s\<lparr>vfs := v\<rparr> else wake_tasks ''pipe-write'' woken (s\<lparr>vfs := v\<rparr>)) in
      (r, if r = ReadBlocks
          then upd_sch block_current (s1\<lparr>queues := queue_wait (osys_heap_ready s1) (now (kern s1)) ''pipe-read'' (current (sch s1)) (queues s1)\<rparr>)
          else s1))"

section \<open>Shared memory\<close>

definition MAX_SHMEM_REGION_BYTES :: nat where "MAX_SHMEM_REGION_BYTES = 2 * 1024 * 1024"
definition MAX_SHMEM_BYTES_PER_TASK :: nat where "MAX_SHMEM_BYTES_PER_TASK = 8 * 1024 * 1024"
definition USER_SHMEM_BASE :: u64 where "USER_SHMEM_BASE = 0x400000000000"
definition USER_SHMEM_SLOT_SIZE :: u64 where "USER_SHMEM_SLOT_SIZE = 64 * 1024 * 1024"

definition region_at :: "nat \<Rightarrow> osys \<Rightarrow> shmem_region option" where
  "region_at i s = (if i < length (regions s) then regions s ! i else None)"

definition task_shmem_pages :: "nat \<Rightarrow> osys \<Rightarrow> nat" where
  "task_shmem_pages task_id s =
     sum_list (map (\<lambda>i. case region_at i s of Some r \<Rightarrow> length (sr_frames r) | None \<Rightarrow> 0)
       (if task_id < length (task_shmem_refs (vfs s)) then task_shmem_refs (vfs s) ! task_id else []))"

definition task_can_add_shmem_pages :: "nat \<Rightarrow> nat \<Rightarrow> osys \<Rightarrow> bool" where
  "task_can_add_shmem_pages task_id additional s = ((task_shmem_pages task_id s + additional) * 4096 \<le> MAX_SHMEM_BYTES_PER_TASK)"

definition retain_task_shmem_ref :: "nat \<Rightarrow> nat \<Rightarrow> vfs_state \<Rightarrow> vfs_state" where
  "retain_task_shmem_ref task_id i v0 =
     (let v = ensure_task task_id v0 in v\<lparr>task_shmem_refs := (task_shmem_refs v)[task_id := task_shmem_refs v ! task_id @ [i]]\<rparr>)"

text \<open>\<open>frames\<close>: the frames the allocator can give, at most as many as are asked for.\<close>

definition vfs_shmem_create :: "nat list \<Rightarrow> nat \<Rightarrow> osys \<Rightarrow> nat option \<times> osys" where
  "vfs_shmem_create frames len s =
     (if len = 0 \<or> len > MAX_SHMEM_REGION_BYTES then (None, s)
      else
        let pages = (len + 4095) div 4096; task_id = current (sch s) in
        if \<not> task_can_add_shmem_pages task_id pages s then (None, s)
        else if length frames < pages then (None, fold (\<lambda>f. call (FreeFrame f)) frames s)
        else
          let i = shmem_next_id s;
              rs = regions s @ replicate (Suc i - length (regions s)) None
          in (Some i, s\<lparr>shmem_next_id := i + 1, regions := rs[i := Some \<lparr>sr_frames = take pages frames, sr_refcount = 1\<rparr>],
                vfs := retain_task_shmem_ref task_id i (vfs s)\<rparr>))"

text \<open>\<open>mapped addr\<close>: whether the page at \<open>addr\<close> is mapped after the attempt.\<close>

primrec map_frames :: "(u64 \<Rightarrow> bool) \<Rightarrow> nat \<Rightarrow> u64 \<Rightarrow> nat list \<Rightarrow> osys \<Rightarrow> bool \<times> osys" where
  "map_frames mapped pml4 addr [] s = (True, s)"
| "map_frames mapped pml4 addr (f # frs) s =
     (let s1 = call (MapPage pml4 addr f) s in
      if \<not> mapped addr then (False, s1) else map_frames mapped pml4 (addr + 4096) frs s1)"

definition vfs_shmem_map :: "(u64 \<Rightarrow> bool) \<Rightarrow> nat \<Rightarrow> nat \<Rightarrow> osys \<Rightarrow> u64 option \<times> osys" where
  "vfs_shmem_map mapped i pml4 s =
     (case (if i = 0 then None else Option.bind (checked_mul (of_nat i - 1) USER_SHMEM_SLOT_SIZE) (checked_add USER_SHMEM_BASE)) of
        None \<Rightarrow> (None, s)
      | Some addr \<Rightarrow>
        (case region_at i s of
           None \<Rightarrow> (None, s)
         | Some r \<Rightarrow>
           let task_id = current (sch s) in
           if \<not> task_can_add_shmem_pages task_id (length (sr_frames r)) s then (None, s)
           else case map_frames mapped pml4 addr (sr_frames r) s of (done_ok, s1) \<Rightarrow>
             if \<not> done_ok then (None, s1)
             else (Some addr, s1\<lparr>regions := (regions s1)[i := Some (r\<lparr>sr_refcount := sr_refcount r + 1\<rparr>)],
                    vfs := retain_task_shmem_ref task_id i (vfs s1)\<rparr>)))"

section \<open>The calls keep the system in order\<close>

lemma orderly_vfs:
  assumes a: "alive (current (sch s)) (sch s)" and w: "wakes_only (sch s) (sch s')" and fr: "frees s' = frees s"
    and v: "fd_inv [] (vfs s) \<Longrightarrow> fd_inv [] (vfs s')"
      "\<And>x y. x \<noteq> current (sch s) \<Longrightarrow> current_entry (vfs s') x y = current_entry (vfs s) x y"
  shows "orderly s s'"
proof -
  have "os_inv s'" if inv: "os_inv s"
  proof (rule os_invI)
    show "sched_inv (sch s')" by (rule wakes_only_inv [OF w os_invD(1) [OF inv]])
    show "fd_inv [] (vfs s')" by (rule v(1) [OF os_invD(2) [OF inv]])
    show "current_entry (vfs s') i fd = None" if "\<not> alive i (sch s')" for i fd
    proof -
      have na: "\<not> alive i (sch s)" using that wakes_only_alive [OF w] by simp
      then have "i \<noteq> current (sch s)" using a by auto
      then show ?thesis using v(2) os_invD(3) [OF inv na] by simp
    qed
  qed
  moreover have "frees_unused s s'" by (rule frees_unused_same [OF fr]) (simp add: wakes_only_space [OF w])
  ultimately show ?thesis by (simp add: orderly_def)
qed

text \<open>Recovery never ends the task that asked for memory.\<close>

definition spares_current :: "osys \<Rightarrow> osys \<Rightarrow> bool" where
  "spares_current s s' = (current (sch s') = current (sch s) \<and> (alive (current (sch s)) (sch s) \<longrightarrow> alive (current (sch s)) (sch s')))"

lemma spares_same: "sch s' = sch s \<Longrightarrow> spares_current s s'"
  by (simp add: spares_current_def)

lemma force_reclaim_spares: "spares_current s (snd (force_reclaim_task fat i code s))"
  using force_reclaim_cases [of fat i code s]
proof (elim disjE)
  assume c: "i \<noteq> 0 \<and> i \<noteq> current (sch s) \<and> i < length (tasks (sch s)) \<and> t_status (tasks (sch s) ! i) \<notin> {Exited, Reaped}"
  obtain r s2 f where e: "snd (force_reclaim_task fat i code s) = free_space r (announce_end i (t_name (tasks (sch s) ! i)) ''oom-reclaimed'' ''memory pressure oom''
        (''Task reclaimed'', ''memory pressure'') ''oom'' (cleanup_task_resources fat i (wake_waiting_parent (t_parent (tasks (sch s) ! i)) i s2)))"
      "sch s2 = set_task i f (sch s)"
    using force_reclaim_effect [of i s fat code] c by blast
  let ?s3 = "wake_waiting_parent (t_parent (tasks (sch s) ! i)) i s2"
  have "wakes_only (sch ?s3) (sch (cleanup_task_resources fat i ?s3))"
    using drop_task_wakes [of "?s3\<lparr>futexes := drop_task_waiters i (futexes ?s3)\<rparr>" fat i] by (simp add: cleanup_task_resources_def)
  then have "wakes_only (sch s2) (sch (cleanup_task_resources fat i ?s3))" using wakes_only_trans [OF parent_wake_wakes] by blast
  then have w: "wakes_only (set_task i f (sch s)) (sch (snd (force_reclaim_task fat i code s)))" unfolding e(1) e(2) [symmetric] by simp
  have "current (sch (snd (force_reclaim_task fat i code s))) = current (sch s)" using w by (simp add: wakes_only_def)
  moreover have "alive (current (sch s)) (sch (snd (force_reclaim_task fat i code s))) = alive (current (sch s)) (sch s)"
    using wakes_only_alive [OF w, of "current (sch s)"] c by (simp add: alive_set_task)
  ultimately show ?thesis by (simp add: spares_current_def)
qed (simp add: spares_same)

lemma spares_then: "spares_current s1 s2 \<Longrightarrow> sch s1 = sch s \<Longrightarrow> sch s3 = sch s2 \<Longrightarrow> spares_current s s3"
  by (simp add: spares_current_def)

lemma reclaim_if_critical_spares: "spares_current s (reclaim_if_critical fat env l s)"
proof -
  obtain r s' where r: "reclaim_largest_user_task fat (env_pages env) (env_sockets env) OOM_EXIT_CODE s = (r, s')" by fastforce
  have "spares_current s s'"
    using reclaim_largest_cases [of fat "env_pages env" "env_sockets env" OOM_EXIT_CODE s] force_reclaim_spares [of s fat _ OOM_EXIT_CODE] r
    by (auto simp: spares_same)
  then have "spares_current s (log_line m (upd_pressure f s'))" "spares_current s s'" for m f by (auto intro: spares_then)
  then show ?thesis using r by (auto simp: reclaim_if_critical_def spares_same split: option.splits)
qed

lemma check_and_recover_spares: "spares_current s (snd (check_and_recover fat env s))"
  unfolding check_and_recover_def split_beta by (rule spares_then [OF reclaim_if_critical_spares]) simp_all

lemma admit_spares: "spares_current s (snd (admit_allocation fat env bytes s))"
proof -
  have "spares_current s (snd (check_and_recover fat env (s\<lparr>pressure := p\<rparr>)))" for p
    by (rule spares_then [OF check_and_recover_spares]) simp_all
  then show ?thesis by (auto simp: admit_allocation_def Let_def split_beta spares_same)
qed

lemma orderly_trans_vfs:
  assumes st: "orderly s s1" "spares_current s s1" and a: "alive (current (sch s)) (sch s)"
    and s': "sch s' = sch s1" "frees s' = frees s1" "fd_inv [] (vfs s1) \<Longrightarrow> fd_inv [] (vfs s')"
      "\<And>x y. x \<noteq> current (sch s) \<Longrightarrow> current_entry (vfs s') x y = current_entry (vfs s1) x y"
  shows "orderly s s'"
proof -
  have "orderly s1 s'" by (rule orderly_vfs) (use st(2) a s' in \<open>simp_all add: spares_current_def\<close>)
  then show ?thesis using st(1) s'(1,2) by (auto simp: orderly_def frees_unused_def)
qed

lemma on_kern_orderly: "orderly s (snd (on_kern m s))"
  by (rule orderly_frame) simp_all

lemma vfs_open_orderly:
  assumes a: "alive (current (sch s)) (sch s)"
  shows "orderly s (snd (vfs_open fat env path s))"
proof -
  obtain r s1 where r: "on_kern (vfs_read_file fat (normalize_path path)) s = (r, s1)" by fastforce
  have s1: "sch s1 = sch s" "vfs s1 = vfs s" "frees s1 = frees s" using arg_cong [OF r, of snd, symmetric] by simp_all
  show ?thesis
  proof (cases r)
    case (Inr data)
    obtain b s2 where b: "admit_allocation fat env (length data) s1 = (b, s2)" by fastforce
    have st: "orderly s s2" "spares_current s s2"
      using orderly_before [OF admit_orderly s1] spares_then [OF admit_spares s1(1) refl] b by (metis snd_conv)+
    let ?f = "\<lparr>of_path = None, of_data = data, of_offset = 0, of_writable = False, of_dirty = False\<rparr>"
    have "orderly s (s2\<lparr>vfs := snd (open_object (current (sch s2)) ?f (vfs s2))\<rparr>)"
      by (rule orderly_trans_vfs [OF st a]) (use st(2) in \<open>simp_all add: open_object_inv open_object_other spares_current_def\<close>)
    then show ?thesis using r Inr b st(1) by (simp add: vfs_open_def split_beta)
  qed (use r s1 in \<open>simp add: vfs_open_def orderly_frame\<close>)
qed

lemma vfs_open_write_orderly:
  assumes a: "alive (current (sch s)) (sch s)"
  shows "orderly s (snd (vfs_open_write fat path s))"
proof -
  obtain r s1 where r: "on_kern (check_safe_write_access fat (normalize_path path)) s = (r, s1)" by fastforce
  have s1: "sch s1 = sch s" "vfs s1 = vfs s" "frees s1 = frees s" using arg_cong [OF r, of snd, symmetric] by simp_all
  let ?f = "\<lparr>of_path = Some (normalize_path path), of_data = [], of_offset = 0, of_writable = True, of_dirty = False\<rparr>"
  have "orderly s (s1\<lparr>vfs := snd (open_object (current (sch s1)) ?f (vfs s1))\<rparr>)"
    by (rule orderly_vfs [OF a]) (simp_all add: s1 open_object_inv open_object_other)
  then show ?thesis using r s1 by (cases r) (simp_all add: vfs_open_write_def Let_def split_beta orderly_frame)
qed

lemma vfs_pipe_orderly:
  assumes a: "alive (current (sch s)) (sch s)"
  shows "orderly s (snd (vfs_pipe fat env s))"
proof -
  obtain b s1 where b: "admit_allocation fat env PIPE_SIZE s = (b, s1)" by fastforce
  have st: "orderly s s1" "spares_current s s1" using admit_orderly [of s fat env PIPE_SIZE] admit_spares [of s fat env PIPE_SIZE] b by simp_all
  have "orderly s (s1\<lparr>vfs := snd (pipe_fds (current (sch s)) (vfs s1))\<rparr>)"
    by (rule orderly_trans_vfs [OF st a]) (simp_all add: pipe_fds_inv pipe_fds_other)
  then show ?thesis using b st(1) by (simp add: vfs_pipe_def Let_def split_beta)
qed

lemma vfs_dup_orderly: "alive (current (sch s)) (sch s) \<Longrightarrow> orderly s (snd (vfs_dup fd s))"
  by (rule orderly_vfs) (simp_all add: vfs_dup_def split_beta dup_fd_inv dup_fd_other)

lemma vfs_read_orderly: "alive (current (sch s)) (sch s) \<Longrightarrow> orderly s (snd (vfs_read fd n l s))"
  by (rule orderly_vfs) (simp_all add: vfs_read_def split_beta read_fd_inv current_entry_cong [OF read_write_fds(2)])

lemma vfs_write_orderly:
  assumes a: "alive (current (sch s)) (sch s)"
  shows "orderly s (snd (vfs_write can_reserve fd buf s))"
proof -
  obtain r v where r: "write_fd can_reserve (current (sch s)) fd buf (vfs s) = (r, v)" by fastforce
  have v: "fd_inv [] (vfs s) \<Longrightarrow> fd_inv [] v" "current_entry v x y = current_entry (vfs s) x y" for x y
    using write_fd_inv [of "[]" "vfs s" can_reserve "current (sch s)" fd buf] r
      current_entry_cong [OF read_write_fds(3), of can_reserve "current (sch s)" fd buf "vfs s" x y] by simp_all
  have w: "wakes_only (sch s) (sch (wake_tasks q ts (s\<lparr>vfs := v\<rparr>)))" for q ts using wake_tasks_wakes [of "s\<lparr>vfs := v\<rparr>"] by simp
  show ?thesis by (rule orderly_vfs [OF a]) (use r v w in \<open>auto simp: vfs_write_def split: option.splits\<close>)
qed

lemma vfs_close_orderly:
  assumes a: "alive (current (sch s)) (sch s)"
  shows "orderly s (vfs_close fat fd s)"
proof -
  obtain r v where r: "close_entry (current (sch s)) fd (vfs s) = (r, v)" by fastforce
  have v: "fd_inv [] (vfs s) \<Longrightarrow> fd_inv [] v" "x \<noteq> current (sch s) \<Longrightarrow> current_entry v x y = current_entry (vfs s) x y" for x y
    using close_entry_inv [of "[]" "vfs s" "current (sch s)" fd] current_close_entry [of "current (sch s)" fd "vfs s" x y] r by simp_all
  have w: "wakes_only (sch s') (sch (wake_tasks q ts s'))" for q ts s' using wake_tasks_wakes by simp
  show ?thesis
    by (rule orderly_vfs [OF a]) (use r v w [of "snd (on_kern _ (s\<lparr>vfs := v\<rparr>))"] w [of "s\<lparr>vfs := v\<rparr>"] in \<open>auto simp: vfs_close_def Let_def split: option.splits\<close>)
qed

lemma read_round_orderly:
  assumes a: "alive (current (sch s)) (sch s)"
  shows "orderly s (snd (read_blocking_round fd n l s))"
proof -
  obtain r woken v where r: "read_pass (current (sch s)) fd n l (vfs s) = ((r, woken), v)" by (metis prod.exhaust)
  have v: "fd_inv [] (vfs s) \<Longrightarrow> fd_inv [] v" "current_entry v x y = current_entry (vfs s) x y" for x y
    using read_pass_inv [of "[]" "vfs s" "current (sch s)" fd n l] r
      current_entry_cong [OF read_write_fds(1), of "current (sch s)" fd n l "vfs s" x y] by simp_all
  let ?s1 = "if r = ReadFail then s\<lparr>vfs := v\<rparr> else wake_tasks ''pipe-write'' woken (s\<lparr>vfs := v\<rparr>)"
  have s1: "orderly s ?s1"
    by (rule orderly_vfs [OF a]) (use v wake_tasks_wakes [of "s\<lparr>vfs := v\<rparr>"] in auto)
  let ?f = "\<lambda>t. t\<lparr>t_status := Blocked\<rparr>" and ?q = "?s1\<lparr>queues := queue_wait (osys_heap_ready ?s1) (now (kern ?s1)) ''pipe-read'' (current (sch ?s1)) (queues ?s1)\<rparr>"
  have "os_inv (upd_sch block_current ?q)" if "os_inv ?s1"
    using os_inv_set_task [of ?q ?f "current (sch ?s1)"] that by (simp add: os_inv_def upd_sch_def block_current_def)
  moreover have fr: "frees (upd_sch block_current ?q) = frees s" using frees_cong [of "upd_sch block_current ?q" ?s1] by (simp add: upd_sch_def)
  moreover have "space_used p (sch (upd_sch block_current ?q))" if "space_used p (sch s)" for p
  proof -
    have "space_used p (sch ?s1)" using that wakes_only_space [OF wake_tasks_wakes [of "s\<lparr>vfs := v\<rparr>" "''pipe-write''" woken], of p] by simp
    then show ?thesis using keeps_space_set_task [of ?f p "sch ?s1" "current (sch ?s1)"] by (simp add: upd_sch_def block_current_def)
  qed
  ultimately have "orderly s (upd_sch block_current ?q)" using s1 frees_unused_same by (simp add: orderly_def)
  then show ?thesis using s1 r by (cases r) (simp_all add: read_blocking_round_def Let_def)
qed


section \<open>Writing through a descriptor\<close>

lemma open_object_Some:
  assumes inv: "fd_inv [] v" and r: "open_object t f v = (Some fd, v')"
  obtains oid where "current_entry v' t fd = Some \<lparr>lf_object = oid, lf_access = FileAccess\<rparr>" "live_object v' oid = Some \<lparr>so_refs = 1, so_kind = FileObject f\<rparr>"
proof -
  let ?v = "ensure_task t v"
  have i1: "fd_inv [] ?v" and t: "t < length (task_fds ?v)" using ensure_inv [OF inv] by simp_all
  obtain oid v2 where a: "alloc_object (FileObject f) ?v = (oid, v2)" by fastforce
  note l = alloc_live [OF a]
  let ?e = "\<lparr>lf_object = oid, lf_access = FileAccess\<rparr>" and ?obj = "\<lparr>so_refs = 1, so_kind = FileObject f\<rparr>"
  let ?v3 = "put_object oid (Some ?obj) v2"
  have re: "retain_fd ?e v2 = (True, ?v3)" using l(2) by (simp add: retain_fd_def retain_kind_def)
  have lv: "live_object ?v3 oid = Some ?obj" using live_bound [of v2 oid] l(2) by (simp add: live_put_object)
  have fds: "task_fds ?v3 = task_fds ?v" using l(3) by simp
  have len: "length (task_fds ?v ! t) = MAX_FDS" by (rule table_length [OF i1 t])
  have al: "alloc_in t ?e ?v3 = (Some fd, v')" using r a re by (auto simp: open_object_def Let_def split: if_splits option.splits prod.splits)
  then have "v' = put_entry t fd (Some ?e) ?v3" "fd < MAX_FDS"
    using len by (auto simp: alloc_in_def alloc_fd_def put_table_def put_entry_def put_object_def find_Some_iff fds split: option.splits prod.splits)
  moreover have "current_entry (put_entry t fd (Some ?e) ?v3) t fd = Some ?e" using t len fds \<open>fd < MAX_FDS\<close> by (simp add: current_put_entry)
  moreover have "live_object (put_entry t fd (Some ?e) ?v3) oid = live_object ?v3 oid" by (simp add: live_object_def put_entry_def)
  ultimately show ?thesis using that [of oid] lv by simp
qed

lemma file_write_fresh:
  assumes "of_data f = []" "of_offset f = 0" "file_write can_reserve buf f = Some f'"
  shows "f' = f\<lparr>of_data := buf, of_offset := length buf, of_dirty := True\<rparr>"
proof -
  have "patch (replicate (length buf) 0) 0 buf = buf" by (rule nth_equalityI) (simp_all add: nth_patch)
  then show ?thesis using assms by (auto simp: file_write_def Let_def split: if_splits)
qed

text \<open>C1: A file written through a descriptor is committed when the descriptor is closed: opening a path for writing, one write that
  succeeds, and closing have together exactly the effect on the file system of \<open>vfs_safe_write_file\<close> with the normalized path,
  the bytes written and the credentials of the task, and the write accepts all bytes.
\<close>

theorem written_file_is_committed:
  assumes inv: "fd_inv [] (vfs s)" and opened: "vfs_open_write fat path s = (Some fd, s1)" and written: "vfs_write can_reserve fd data s1 = (Some n, s2)"
  shows "n = length data \<and>
    kern (vfs_close fat fd s2) = snd (vfs_safe_write_file fat (normalize_path path) data ((kern s1)\<lparr>task_credentials := sched_credentials (sch s1)\<rparr>))"
proof -
  let ?f = "\<lparr>of_path = Some (normalize_path path), of_data = [], of_offset = 0, of_writable = True, of_dirty = False\<rparr>"
  obtain x s0 where s0: "on_kern (check_safe_write_access fat (normalize_path path)) s = (Inr x, s0)" "(Some fd, s1) =
      (case open_object (current (sch s0)) ?f (vfs s0) of (r, v) \<Rightarrow> (r, s0\<lparr>vfs := v\<rparr>))"
    using opened by (auto simp: vfs_open_write_def Let_def split: prod.splits sum.splits)
  have f0: "sch s0 = sch s" "vfs s0 = vfs s" using arg_cong [OF s0(1), of snd, symmetric] by simp_all
  let ?t = "current (sch s)"
  obtain v1 where v1: "open_object ?t ?f (vfs s) = (Some fd, v1)" "s1 = s0\<lparr>vfs := v1\<rparr>" using s0(2) f0 by (auto split: prod.splits)
  obtain oid where e: "current_entry v1 ?t fd = Some \<lparr>lf_object = oid, lf_access = FileAccess\<rparr>" "live_object v1 oid = Some \<lparr>so_refs = 1, so_kind = FileObject ?f\<rparr>"
    by (rule open_object_Some [OF inv v1(1)])
  let ?e = "\<lparr>lf_object = oid, lf_access = FileAccess\<rparr>"
  have eo: "entry_object v1 ?t fd = Some (?e, \<lparr>so_refs = 1, so_kind = FileObject ?f\<rparr>)" using e by (simp add: entry_object_def)
  have s1: "vfs s1 = v1" "sch s1 = sch s" "kern s1 = kern s0" using v1(2) f0 by simp_all
  obtain f' where f': "file_write can_reserve data ?f = Some f'" "n = length data" "s2 = s1\<lparr>vfs := put_kind ?e \<lparr>so_refs = 1, so_kind = FileObject ?f\<rparr> (FileObject f') v1\<rparr>"
    using written eo s1 by (auto simp: vfs_write_def write_fd_def wake_tasks_def split: option.splits)
  have f: "f' = ?f\<lparr>of_data := data, of_offset := length data, of_dirty := True\<rparr>" by (rule file_write_fresh [OF _ _ f'(1)]) simp_all
  let ?v2 = "put_object oid (Some \<lparr>so_refs = 1, so_kind = FileObject f'\<rparr>) v1"
  have v2: "vfs s2 = ?v2" "sch s2 = sch s" "kern s2 = kern s1" using f'(3) s1 by (simp_all add: put_kind_def)
  have "current_entry ?v2 ?t fd = Some ?e" using e(1) current_entry_cong [of ?v2 v1] by (simp add: put_object_def)
  moreover have "live_object (put_entry ?t fd None ?v2) oid = Some \<lparr>so_refs = 1, so_kind = FileObject f'\<rparr>"
    using live_bound [OF e(2)] by (simp add: live_object_def put_entry_def put_object_def)
  ultimately have "close_entry ?t fd ?v2 = (Some \<lparr>wake_list = [], commit = Some (normalize_path path, data)\<rparr>, put_object oid None (put_entry ?t fd None ?v2))"
    by (simp add: close_entry_def release_fd_def release_kind_def commit_of_def f)
  then have "kern (vfs_close fat fd s2) = snd (vfs_safe_write_file fat (normalize_path path) data ((kern s2)\<lparr>task_credentials := sched_credentials (sch s2)\<rparr>))"
    using v2 by (simp add: vfs_close_def wake_tasks_def on_kern_def split_beta)
  then show ?thesis using f'(2) v2 s1 by simp
qed


section \<open>A small system\<close>

definition osys_new :: "kernel \<Rightarrow> osys" where
  "osys_new k = \<lparr>kern = k, vfs = vfs_new,
     sch = \<lparr>tasks = [], current = 0, syscall_stack = 0, privilege_stack = 0, fs_base = 0, page_table = None\<rparr>,
     queues = [], slabs = [], futexes = futex_new, regions = [], shmem_next_id = 1, child_waiters = [], pressure = pressure_new, calls = []\<rparr>"

definition booted :: osys where
  "booted = add_idle 0 (osys_new fresh_kernel)"

lemma booted_parts:
  "kern booted = fresh_kernel" "vfs booted = init_task 0 vfs_new" "current (sch booted) = 0" "tasks (sch booted) = [idle_task (interactive_credentials security_empty)]"
  by (simp_all add: booted_def add_idle_def osys_new_def fresh_kernel_def)

lemma boot_inv: "os_inv (add_idle stack (osys_new k))"
proof (rule os_invI)
  have e: "current_entry vfs_new i fd = None" for i fd by (simp add: current_entry_def vfs_new_def)
  show "sched_inv (sch (add_idle stack (osys_new k)))" by (simp add: sched_inv_def add_idle_def osys_new_def)
  show "fd_inv [] (vfs (add_idle stack (osys_new k)))" using init_inv(1) [OF vfs_new_inv e] by (simp add: add_idle_def osys_new_def)
  show "current_entry (vfs (add_idle stack (osys_new k))) i fd = None" for i fd
    using init_inv(2) [OF vfs_new_inv e] e by (simp add: add_idle_def osys_new_def)
qed

lemma sample_write_access: "\<exists>k. on_kern (check_safe_write_access fat_absent (normalize_path ''/FAT/A'')) booted = (Inr (), booted\<lparr>kern := k\<rparr>)"
proof -
  let ?c = "interactive_credentials security_empty"
  have p: "normalize_path ''/FAT/A'' = ''/FAT/A''" "fat32_path ''/FAT/A'' = Some ''/A''" by code_simp+
  have c: "can_write_files ?c" by code_simp
  have fat: "fat_list_dir fat_absent x = err ()" "fat_read_file fat_absent x = err ()" for x by (simp_all add: fat_absent_def)
  have s: "sched_credentials (sch booted) = Some ?c" by (simp add: sched_credentials_def task_at_def booted_parts idle_task_def)
  have f: "on_fs (err ()) k = (Inl (), k\<lparr>fs := (fs k)\<lparr>cred_uid := cr_uid (current_credentials k), cred_gid := cr_gid (current_credentials k)\<rparr>\<rparr>)" for k
    by (simp add: on_fs_def err_app Let_def)
  have "\<exists>k'. metadata_unchecked fat_absent ''/FAT/A'' k = (Inl (), k') \<and> task_credentials k' = task_credentials k" for k
    by (simp add: metadata_unchecked_def p fat bnd_def attempt_def f)
  then obtain k' where k': "metadata_unchecked fat_absent ''/FAT/A'' (kern booted\<lparr>task_credentials := Some ?c\<rparr>) = (Inl (), k')" "task_credentials k' = Some ?c"
    by fastforce
  have "check_create_access fat_absent ''/FAT/A'' k' = (Inr (), k')"
    using k'(2) c by (simp add: check_create_access_def bnd_def gets_app ret_app p current_credentials_def)
  then have "check_safe_write_access fat_absent ''/FAT/A'' (kern booted\<lparr>task_credentials := Some ?c\<rparr>) = (Inr (), k')"
    using k'(1) by (simp add: check_safe_write_access_def bnd_def attempt_def)
  then show ?thesis unfolding p on_kern_def s by auto
qed

lemma sample_open:
  "\<exists>v. open_object 0 \<lparr>of_path = Some ''/FAT/A'', of_data = [], of_offset = 0, of_writable = True, of_dirty = False\<rparr> (init_task 0 vfs_new) = (Some 3, v) \<and>
    task_fds v = [[None, None, None, Some \<lparr>lf_object = 0, lf_access = FileAccess\<rparr>] @ replicate 12 None] \<and>
    objects v = [Some \<lparr>so_refs = 1, so_kind = FileObject \<lparr>of_path = Some ''/FAT/A'', of_data = [], of_offset = 0, of_writable = True, of_dirty = False\<rparr>\<rparr>]"
proof -
  let ?r = "open_object 0 \<lparr>of_path = Some ''/FAT/A'', of_data = [], of_offset = 0, of_writable = True, of_dirty = False\<rparr> (init_task 0 vfs_new)"
  have "fst ?r = Some 3" "task_fds (snd ?r) = [[None, None, None, Some \<lparr>lf_object = 0, lf_access = FileAccess\<rparr>] @ replicate 12 None]"
    "objects (snd ?r) = [Some \<lparr>so_refs = 1, so_kind = FileObject \<lparr>of_path = Some ''/FAT/A'', of_data = [], of_offset = 0, of_writable = True, of_dirty = False\<rparr>\<rparr>]"
    by code_simp+
  then show ?thesis by (intro exI [of _ "snd ?r"]) (simp add: prod_eq_iff)
qed

theorem written_file_is_committed_witness:
  "\<exists>s1 s2. vfs_open_write fat_absent ''/FAT/A'' booted = (Some 3, s1) \<and> vfs_write (\<lambda>_. True) 3 [7] s1 = (Some 1, s2) \<and>
    kern (vfs_close fat_absent 3 s2) = snd (vfs_safe_write_file fat_absent (normalize_path ''/FAT/A'') [7] ((kern s1)\<lparr>task_credentials := sched_credentials (sch s1)\<rparr>))"
proof -
  have p: "normalize_path ''/FAT/A'' = ''/FAT/A''" by code_simp
  obtain k where k: "on_kern (check_safe_write_access fat_absent (normalize_path ''/FAT/A'')) booted = (Inr (), booted\<lparr>kern := k\<rparr>)"
    using sample_write_access by blast
  obtain v where v: "open_object 0 \<lparr>of_path = Some ''/FAT/A'', of_data = [], of_offset = 0, of_writable = True, of_dirty = False\<rparr> (init_task 0 vfs_new) = (Some 3, v)"
      "task_fds v = [[None, None, None, Some \<lparr>lf_object = 0, lf_access = FileAccess\<rparr>] @ replicate 12 None]"
      "objects v = [Some \<lparr>so_refs = 1, so_kind = FileObject \<lparr>of_path = Some ''/FAT/A'', of_data = [], of_offset = 0, of_writable = True, of_dirty = False\<rparr>\<rparr>]"
    using sample_open by blast
  let ?s1 = "booted\<lparr>kern := k, vfs := v\<rparr>"
  have o: "vfs_open_write fat_absent ''/FAT/A'' booted = (Some 3, ?s1)" using k v(1) by (simp add: vfs_open_write_def p booted_parts)
  have c: "entry_object v 0 3 = Some (\<lparr>lf_object = 0, lf_access = FileAccess\<rparr>,
      \<lparr>so_refs = 1, so_kind = FileObject \<lparr>of_path = Some ''/FAT/A'', of_data = [], of_offset = 0, of_writable = True, of_dirty = False\<rparr>\<rparr>)"
    by (simp add: entry_object_def current_entry_def live_object_def v(2,3))
  obtain s2 where w: "vfs_write (\<lambda>_. True) 3 [7] ?s1 = (Some 1, s2)"
    using c by (simp add: vfs_write_def write_fd_def booted_parts file_write_def Let_def)
  have "fd_inv [] (vfs booted)" using boot_inv by (simp add: booted_def os_invD(2))
  then show ?thesis using o w written_file_is_committed [OF _ o w] by blast
qed


section \<open>Waking\<close>

lemma fold_unblock_nth: "r < length (tasks sc) \<Longrightarrow> tasks (fold unblock ts sc) ! r = (if r \<in> set ts then wake_up (tasks sc ! r) else tasks sc ! r)"
proof (induction ts arbitrary: sc)
  case (Cons t ts)
  then show ?case by (auto simp: unblock_def nth_set_task)
qed simp

lemma woken_ready:
  assumes "r < length (tasks (sch s))" "t_status (tasks (sch s) ! r) = Blocked" "r \<in> set ts"
  shows "t_status (tasks (sch (wake_tasks q ts s)) ! r) = Ready"
  using assms by (simp add: wake_tasks_sch fold_unblock_nth wake_up_def)

lemma entry_object_put_kind:
  assumes "entry_object v t fd = Some (e, obj)"
  shows "entry_object (put_kind e obj k v) t fd = Some (e, obj\<lparr>so_kind := k\<rparr>)"
proof -
  have "current_entry v t fd = Some e" "live_object v (lf_object e) = Some obj" using assms by (auto simp: entry_object_def split: option.splits)
  then show ?thesis using current_entry_cong [OF put_kind_fds, of e obj k v t fd] live_bound [of v "lf_object e" obj]
    by (simp add: entry_object_def put_kind_def live_put_object)
qed

text \<open>C1: No wakeup is lost. A round of a blocking read that finds a pipe empty but with a writer leaves the reader blocked and entered
  in the pipe's list of waiting readers. From then on, whoever writes at least one byte to the pipe, or closes its last
  writing end, makes every blocked task of that list ready again.
\<close>

theorem blocked_reader_is_woken:
  assumes r: "r < length (tasks (sch s))"
  shows "(r = current (sch s) \<and> read_blocking_round fd n l s = (ReadBlocks, s') \<longrightarrow>
      t_status (tasks (sch s') ! r) = Blocked \<and>
      (\<exists>e obj p. entry_object (vfs s') r fd = Some (e, obj) \<and> so_kind obj = PipeObject p \<and> r \<in> set (waiting_readers p) \<and> pi_len p = 0 \<and> pi_writers p > 0)) \<and>
    (entry_object (vfs s) (current (sch s)) fd = Some (e, obj) \<and> so_kind obj = PipeObject p \<and> lf_access e = PipeWrite \<and>
      r \<in> set (waiting_readers p) \<and> t_status (tasks (sch s) ! r) = Blocked \<longrightarrow>
      (vfs_write can_reserve fd buf s = (Some m, s') \<and> m > 0 \<longrightarrow> t_status (tasks (sch s') ! r) = Ready) \<and>
      (pi_writers p = 1 \<longrightarrow> t_status (tasks (sch (vfs_close fat fd s)) ! r) = Ready))"
proof (intro conjI impI)
  assume a: "r = current (sch s) \<and> read_blocking_round fd n l s = (ReadBlocks, s')"
  obtain x woken v where p: "read_pass r fd n l (vfs s) = ((x, woken), v)" by (metis prod.exhaust)
  have x: "x = ReadBlocks" using a p by (auto simp: read_blocking_round_def Let_def)
  then obtain e obj q where o: "entry_object (vfs s) r fd = Some (e, obj)" "so_kind obj = PipeObject q" "lf_access e = PipeRead"
      "pi_len q = 0" "pi_writers q > 0" "woken = []" "v = put_kind e obj (PipeObject (add_reader_waiter r q)) (vfs s)"
    using p by (auto simp: read_pass_def pipe_read_def Let_def split: fd_splits)
  have s': "s' = upd_sch block_current (s\<lparr>vfs := v, queues := queue_wait (osys_heap_ready s) (now (kern s)) ''pipe-read'' r (queues s)\<rparr>)"
    using a p x o(6) by (simp add: read_blocking_round_def wake_tasks_def osys_heap_ready_def)
  show "t_status (tasks (sch s') ! r) = Blocked" using a r by (simp add: s' upd_sch_def block_current_def nth_set_task)
  have "entry_object v r fd = Some (e, obj\<lparr>so_kind := PipeObject (add_reader_waiter r q)\<rparr>)"
    unfolding o(7) by (rule entry_object_put_kind [OF o(1)])
  then show "\<exists>e obj p. entry_object (vfs s') r fd = Some (e, obj) \<and> so_kind obj = PipeObject p \<and> r \<in> set (waiting_readers p) \<and> pi_len p = 0 \<and> pi_writers p > 0"
    using o(4,5) by (auto simp: s' upd_sch_def add_reader_waiter_def add_waiter_def list_ex_iff)
next
  assume a: "entry_object (vfs s) (current (sch s)) fd = Some (e, obj) \<and> so_kind obj = PipeObject p \<and> lf_access e = PipeWrite \<and>
      r \<in> set (waiting_readers p) \<and> t_status (tasks (sch s) ! r) = Blocked" and w: "vfs_write can_reserve fd buf s = (Some m, s') \<and> m > 0"
  obtain k p' where k: "pipe_write buf p = (k, p')" by fastforce
  have wr: "waiting_readers p' = waiting_readers p" using pipe_write_frame [of buf p] k by simp
  then obtain v where "s' = wake_tasks ''pipe-read'' (waiting_readers p) (s\<lparr>vfs := v\<rparr>)"
    using a w k by (auto simp: vfs_write_def write_fd_def take_readers_def Let_def split: if_splits)
  then show "t_status (tasks (sch s') ! r) = Ready" using woken_ready [of r "s\<lparr>vfs := v\<rparr>" "waiting_readers p"] a r by simp
next
  assume a: "entry_object (vfs s) (current (sch s)) fd = Some (e, obj) \<and> so_kind obj = PipeObject p \<and> lf_access e = PipeWrite \<and>
      r \<in> set (waiting_readers p) \<and> t_status (tasks (sch s) ! r) = Blocked" and w: "pi_writers p = 1"
  let ?t = "current (sch s)"
  have c: "current_entry (vfs s) ?t fd = Some e" "live_object (vfs s) (lf_object e) = Some obj"
    using a by (auto simp: entry_object_def split: option.splits)
  have "live_object (put_entry ?t fd None (vfs s)) (lf_object e) = Some obj" using c(2) by (auto simp: live_object_def put_entry_def split: if_splits)
  then obtain v where ev: "close_entry ?t fd (vfs s) = (Some \<lparr>wake_list = waiting_readers p, commit = None\<rparr>, v)"
    using a c w by (cases "so_refs obj \<le> 1") (auto simp: close_entry_def release_fd_def release_kind_def take_readers_def commit_of_def Let_def)
  show "t_status (tasks (sch (vfs_close fat fd s)) ! r) = Ready"
    using woken_ready [of r "s\<lparr>vfs := v\<rparr>" "waiting_readers p"] a r ev by (simp add: vfs_close_def)
qed

definition piped :: osys where
  "piped = booted\<lparr>vfs := snd (register_poll_waiter 0 3 1 EVENT_READ pipe_sample), sch := set_task 1 (\<lambda>t. t\<lparr>t_status := Blocked\<rparr>) three_tasks\<rparr>"

lemma piped_parts:
  "current (sch piped) = 0" "length (tasks (sch piped)) = 3" "t_status (tasks (sch piped) ! 1) = Blocked"
  "task_fds (vfs piped) = task_fds pipe_sample"
  "objects (vfs piped) = [Some \<lparr>so_refs = 2, so_kind = PipeObject (pipe_new\<lparr>pi_readers := 1, pi_writers := 1, waiting_readers := [1]\<rparr>)\<rparr>]"
proof -
  show "current (sch piped) = 0" "length (tasks (sch piped)) = 3" "t_status (tasks (sch piped) ! 1) = Blocked" "task_fds (vfs piped) = task_fds pipe_sample"
    by (simp_all add: piped_def three_tasks_def Let_def set_task_def)
  have "objects (snd (register_poll_waiter 0 3 1 EVENT_READ pipe_sample)) =
      [Some \<lparr>so_refs = 2, so_kind = PipeObject (pipe_new\<lparr>pi_readers := 1, pi_writers := 1, waiting_readers := [1]\<rparr>)\<rparr>]" by code_simp
  then show "objects (vfs piped) = [Some \<lparr>so_refs = 2, so_kind = PipeObject (pipe_new\<lparr>pi_readers := 1, pi_writers := 1, waiting_readers := [1]\<rparr>)\<rparr>]"
    by (simp add: piped_def)
qed

lemma piped_entries:
  "entry_object (vfs piped) 0 3 = Some (\<lparr>lf_object = 0, lf_access = PipeRead\<rparr>, \<lparr>so_refs = 2, so_kind = PipeObject (pipe_new\<lparr>pi_readers := 1, pi_writers := 1, waiting_readers := [1]\<rparr>)\<rparr>)"
  "entry_object (vfs piped) 0 4 = Some (\<lparr>lf_object = 0, lf_access = PipeWrite\<rparr>, \<lparr>so_refs = 2, so_kind = PipeObject (pipe_new\<lparr>pi_readers := 1, pi_writers := 1, waiting_readers := [1]\<rparr>)\<rparr>)"
  by (simp_all add: entry_object_def current_entry_def live_object_def piped_parts pipe_sample_entries)

theorem blocked_reader_is_woken_witness:
  "(\<exists>s'. read_blocking_round 3 16 16 piped = (ReadBlocks, s') \<and> t_status (tasks (sch s') ! 0) = Blocked) \<and>
   (\<exists>s'. vfs_write (\<lambda>_. True) 4 [7] piped = (Some 1, s') \<and> t_status (tasks (sch s') ! 1) = Ready) \<and>
   t_status (tasks (sch (vfs_close fat_absent 4 piped)) ! 1) = Ready"
proof -
  obtain s1 where s1: "read_blocking_round 3 16 16 piped = (ReadBlocks, s1)"
    using piped_entries(1) by (simp add: read_blocking_round_def read_pass_def piped_parts pipe_read_def pipe_new_def Let_def)
  obtain s2 where s2: "vfs_write (\<lambda>_. True) 4 [7] piped = (Some 1, s2)"
    using piped_entries(2) by (simp add: vfs_write_def write_fd_def piped_parts pipe_new_def PIPE_SIZE_def Let_def split_beta)
  have w: "current (sch piped) = 0" "0 < length (tasks (sch piped))" "1 < length (tasks (sch piped))" using piped_parts by simp_all
  let ?e = "\<lparr>lf_object = 0, lf_access = PipeWrite\<rparr>" and ?p = "pipe_new\<lparr>pi_readers := 1, pi_writers := 1, waiting_readers := [1]\<rparr>"
  let ?obj = "\<lparr>so_refs = 2, so_kind = PipeObject ?p\<rparr>"
  have "t_status (tasks (sch s1) ! 0) = Blocked" using blocked_reader_is_woken [OF w(2), of 3 16 16 s1] s1 w(1) by simp
  moreover have "t_status (tasks (sch s2) ! 1) = Ready" "t_status (tasks (sch (vfs_close fat_absent 4 piped)) ! 1) = Ready"
    using blocked_reader_is_woken [OF w(3), of 4 0 0 s2 ?e ?obj ?p "\<lambda>_. True" "[7]" 1 fat_absent] s2 piped_entries(2) piped_parts(3) w(1) by simp_all
  ultimately show ?thesis using s1 s2 by blast
qed


section \<open>Polling and shared memory keep the system in order\<close>

lemma poll_orderly:
  assumes "alive (current (sch s)) (sch s)"
  shows "orderly s (s\<lparr>vfs := snd (register_poll_waiter (current (sch s)) fd t ev (vfs s))\<rparr>)"
    "orderly s (s\<lparr>vfs := unregister_poll_waiter (current (sch s)) fd t (vfs s)\<rparr>)"
  by (rule orderly_vfs [OF assms]; simp add: register_inv unregister_inv current_entry_cong [OF read_write_fds(4)] current_entry_cong [OF read_write_fds(5)])+

lemma retain_shmem_frame:
  "fd_inv E v \<Longrightarrow> fd_inv E (retain_task_shmem_ref t i v)" "current_entry (retain_task_shmem_ref t i v) a b = current_entry v a b"
proof -
  show "fd_inv E (retain_task_shmem_ref t i v)" if "fd_inv E v"
    using ensure_inv [OF that, of t] fd_inv_cong [of "retain_task_shmem_ref t i v" "ensure_task t v" E] by (simp add: retain_task_shmem_ref_def Let_def)
  show "current_entry (retain_task_shmem_ref t i v) a b = current_entry v a b"
    using current_entry_cong [of "retain_task_shmem_ref t i v" "ensure_task t v" a b] by (simp add: retain_task_shmem_ref_def Let_def)
qed

lemma map_frames_frame:
  "sch (snd (map_frames mapped p a frs s)) = sch s \<and> vfs (snd (map_frames mapped p a frs s)) = vfs s \<and> frees (snd (map_frames mapped p a frs s)) = frees s"
  by (induction frs arbitrary: a s) (simp_all add: Let_def)

lemma free_frames_frame:
  "sch (fold (\<lambda>f. call (FreeFrame f)) frs s) = sch s" "vfs (fold (\<lambda>f. call (FreeFrame f)) frs s) = vfs s" "frees (fold (\<lambda>f. call (FreeFrame f)) frs s) = frees s"
  by (rule fold_frame, simp)+

lemma frees_next_id: "frees (s\<lparr>shmem_next_id := n\<rparr>) = frees s"
  by (simp add: frees_def)

lemma shmem_create_orderly: "alive (current (sch s)) (sch s) \<Longrightarrow> orderly s (snd (vfs_shmem_create frames len s))"
  by (rule orderly_vfs) (auto simp: vfs_shmem_create_def Let_def free_frames_frame retain_shmem_frame frees_next_id)

lemma shmem_map_orderly:
  assumes "alive (current (sch s)) (sch s)"
  shows "orderly s (snd (vfs_shmem_map mapped i pml4 s))"
  by (rule orderly_vfs [OF assms]) (use map_frames_frame in \<open>auto simp: vfs_shmem_map_def Let_def retain_shmem_frame split_beta split: option.splits\<close>)


end
