(* ===== verification/Accounts_Login.thy ===== *)
theory Accounts_Login
  imports Accounts
begin

text \<open>
  Who may do what with accounts: what a login needs and gives, how many passwords can be tried, which changes are
  possible without administrator rights, and that booting leaves an administrator who can log in.
\<close>

section \<open>Outcome of a login\<close>

definition login_user :: "string \<Rightarrow> string \<Rightarrow> kernel \<Rightarrow> auth_error + user_record" where
  "login_user name password k =
     (if login_locked name k then Inl LoginThrottled
      else case find_user (users (sec k)) name of
        None \<Rightarrow> Inl AuthNoSuchUser
      | Some user \<Rightarrow>
        if \<not> u_login_enabled user then Inl LoginDisabled
        else if u_pass_hash user \<noteq> password_hash (u_name user) password then Inl BadPassword
        else Inr user)"

lemma login_outcome:
  "fst (login name password k) = map_sum id public_user (login_user name password k)"
  by (auto simp: login_def login_user_def bnd_def gets_def err_def ret_def upd_sec_def upd_def set_session_from_user_def emit_def Let_def split: option.splits)

lemma login_ok_state:
  assumes "login_user name password k = Inr user"
  shows "interactive_credentials (sec (snd (login name password k))) = user_credentials user"
    and "task_credentials (snd (login name password k)) = map_option (\<lambda>_. user_credentials user) (task_credentials k)"
    and "current_credentials (snd (login name password k)) = user_credentials user"
  using assms
  by (auto simp: login_def login_user_def bnd_def gets_def err_def ret_def upd_sec_def upd_def set_session_from_user_def emit_def Let_def
      interactive_credentials_def current_credentials_def user_credentials_def split: option.splits if_splits)

lemma login_failed_state:
  assumes "login_user name password k = Inl e"
  shows "snd (login name password k) = (if e = BadPassword
     then k\<lparr>sec := (sec k)\<lparr>login_attempts := record_login_failure (now k) (u_name (the (find_user (users (sec k)) name))) (login_attempts (sec k))\<rparr>\<rparr> else k)"
  using assms
  by (auto simp: login_def login_user_def bnd_def gets_def err_def ret_def upd_sec_def upd_def split: option.splits if_splits)

section \<open>Guessing passwords\<close>

definition at_tick :: "u64 \<Rightarrow> kernel \<Rightarrow> kernel" where
  "at_tick t k = k\<lparr>fs := (fs k)\<lparr>log := (log (fs k))\<lparr>ticks := t\<rparr>\<rparr>\<rparr>"

text \<open>Trying a list of passwords for one user name at given times, up to the first success: how many were compared.\<close>

primrec guesses :: "string \<Rightarrow> (u64 \<times> string) list \<Rightarrow> kernel \<Rightarrow> nat" where
  "guesses name [] k = 0"
| "guesses name (x # xs) k =
     (case login name (snd x) (at_tick (fst x) k) of
        (Inr _, _) \<Rightarrow> 1
      | (Inl e, k') \<Rightarrow> (if e = BadPassword then 1 else 0) + guesses name xs k')"

lemma lockout_ticks: "ticks_for_millis LOGIN_LOCKOUT_MS = 1440"
  by (simp add: ticks_for_millis_def TIMER_HZ_def LOGIN_LOCKOUT_MS_def)


definition attempt_of :: "string \<Rightarrow> login_attempt list \<Rightarrow> login_attempt option" where
  "attempt_of name attempts = find (\<lambda>a. eq_ignore_ascii_case (la_name a) name) attempts"

text \<open>How many comparisons are left before time \<open>T\<close>.\<close>

definition budget :: "u64 \<Rightarrow> login_attempt option \<Rightarrow> nat" where
  "budget T entry = (case entry of None \<Rightarrow> 3
     | Some a \<Rightarrow> if T \<le> la_locked_until_tick a then 0 else max 1 (3 - unat (la_failures a)))"

lemma budget_le: "budget T entry \<le> 3"
  by (auto simp: budget_def split: option.splits)

lemma count_failure_name [simp]: "la_name (count_failure t a) = la_name a"
  by (simp add: count_failure_def Let_def)

lemma count_failure_budget:
  assumes "la_locked_until_tick a \<le> t" and "t < T" and "T \<le> t + 1440"
  shows "budget T (Some (count_failure t a)) + 1 \<le> budget T (Some a)"
proof -
  have L: "la_locked_until_tick a < T" using assms by order
  show ?thesis
  proof (cases "la_failures a \<le> 1")
    case True
    then have f: "unat (la_failures a) \<le> 1" by (simp add: word_le_nat_alt)
    then have "saturating_add (la_failures a) 1 = la_failures a + 1" by (simp add: saturating_add_def)
    moreover have "unat (la_failures a + 1) = unat (la_failures a) + 1" using f by (subst unat_add_lem [THEN iffD1]) simp_all
    ultimately show ?thesis using assms(1) L f
      by (auto simp: count_failure_def budget_def Let_def MAX_LOGIN_FAILURES_def word_le_nat_alt word_less_nat_alt not_le)
  next
    case False
    then have f: "2 \<le> unat (la_failures a)" by (simp add: word_le_nat_alt not_le)
    have "3 \<le> saturating_add (la_failures a) 1"
    proof (cases "unat (la_failures a) + 1 < 2 ^ 32")
      case True
      then show ?thesis using f by (simp add: saturating_add_def word_le_nat_alt unat_word_ariths)
    next
      case False
      then show ?thesis by (simp add: saturating_add_def word_le_nat_alt unsigned_minus_1_eq_mask mask_eq_exp_minus_1)
    qed
    then show ?thesis using assms(1,3) L f by (auto simp: count_failure_def budget_def Let_def MAX_LOGIN_FAILURES_def lockout_ticks not_le)
  qed
qed

lemma attempt_of_update:
  assumes "position (\<lambda>a. eq_ignore_ascii_case (la_name a) name) as = Some i" and "la_name b = la_name (as ! i)"
  shows "attempt_of name as = Some (as ! i)" "attempt_of name (as[i := b]) = Some b"
proof -
  note p = position_Some [OF assms(1)]
  show "attempt_of name as = Some (as ! i)" unfolding attempt_of_def find_Some_iff using p by blast
  show "attempt_of name (as[i := b]) = Some b" unfolding attempt_of_def find_Some_iff
    by (rule exI [of _ i]) (use p assms(2) in auto)
qed

lemma failure_budget:
  assumes "\<And>a. attempt_of name as = Some a \<Longrightarrow> la_locked_until_tick a \<le> t" and "t < T" and "T \<le> t + 1440"
  shows "budget T (attempt_of name (record_login_failure t name as)) + 1 \<le> budget T (attempt_of name as)"
proof (cases "position (\<lambda>a. eq_ignore_ascii_case (la_name a) name) as")
  case None
  then have "attempt_of name as = None" by (simp add: attempt_of_def find_None_iff position_None)
  moreover have "attempt_of name (record_login_failure t name as) = Some \<lparr>la_name = name, la_failures = 1, la_locked_until_tick = 0\<rparr>"
    using None \<open>attempt_of name as = None\<close> by (simp add: record_login_failure_def attempt_of_def find_append)
  moreover have "0 < T" using assms(2) by (metis word_gt_0 word_not_simps(1))
  ultimately show ?thesis by (simp add: budget_def not_le)
next
  case (Some i)
  have u: "attempt_of name as = Some (as ! i)" "attempt_of name (as[i := count_failure t (as ! i)]) = Some (count_failure t (as ! i))"
    using attempt_of_update [OF Some, of "count_failure t (as ! i)"] by simp_all
  then show ?thesis using count_failure_budget [of "as ! i" t T] assms Some by (simp add: record_login_failure_def)
qed

lemma guesses_budget:
  assumes "\<And>x. x \<in> set xs \<Longrightarrow> fst x < T \<and> T \<le> fst x + 1440"
  shows "guesses name xs k \<le> budget T (attempt_of name (login_attempts (sec k)))"
  using assms
proof (induction xs arbitrary: k)
  case (Cons x xs)
  let ?k = "at_tick (fst x) k"
  have t: "fst x < T" "T \<le> fst x + 1440" using Cons.prems [of x] by simp_all
  have IH: "guesses name xs k' \<le> budget T (attempt_of name (login_attempts (sec k')))" for k' using Cons by simp
  have now: "now ?k = fst x" "sec ?k = sec k" by (simp_all add: now_def at_tick_def)
  obtain r k' where l: "login name (snd x) ?k = (r, k')" by fastforce
  have r: "r = map_sum id public_user (login_user name (snd x) ?k)" using login_outcome [of name "snd x" ?k] l by simp
  have unlocked: "la_locked_until_tick a \<le> fst x" if "\<not> login_locked name ?k" "attempt_of name (login_attempts (sec k)) = Some a" for a
    using that by (auto simp: login_locked_def attempt_of_def now)
  show ?case
  proof (cases "login_user name (snd x) ?k")
    case (Inr user)
    then have "\<not> login_locked name ?k" by (auto simp: login_user_def split: if_splits)
    then have "1 \<le> budget T (attempt_of name (login_attempts (sec k)))"
      using unlocked t by (auto simp: budget_def split: option.splits)
    then show ?thesis using l r Inr by simp
  next
    case (Inl e)
    note k' = login_failed_state [OF Inl] 
    show ?thesis
    proof (cases "e = BadPassword")
      case True
      then obtain user where user: "find_user (users (sec k)) name = Some user" and nl: "\<not> login_locked name ?k"
        using Inl by (auto simp: login_user_def now split: if_splits option.splits)
      then have n: "eq_ignore_ascii_case (u_name user) name" by (auto simp: find_user_def find_Some_iff)
      have "login_attempts (sec k') = record_login_failure (fst x) (u_name user) (login_attempts (sec k))"
        using k' True l user by (simp add: now)
      moreover have "budget T (attempt_of name (record_login_failure (fst x) (u_name user) (login_attempts (sec k)))) + 1
          \<le> budget T (attempt_of name (login_attempts (sec k)))"
      proof -
        have "attempt_of (u_name user) = attempt_of name" using n by (simp add: attempt_of_def eq_ignore_ascii_case_def fun_eq_iff)
        then show ?thesis using failure_budget [OF _ t, of "u_name user"] unlocked [OF nl] by metis
      qed
      ultimately show ?thesis using IH [of k'] l r Inl True by simp
    next
      case False
      then have "sec k' = sec k" using k' l by (simp add: now)
      then show ?thesis using IH [of k'] l r Inl False by simp
    qed
  qed
qed simp


section \<open>Changes without administrator rights\<close>

lemma users_free: "fs_free (\<lambda>k. P (users (sec k)))"
  by (simp add: fs_free_def)

lemma users_simple [stable_intros]:
  "stable (\<lambda>k. P (users (sec k))) (emit what detail)" "stable (\<lambda>k. P (users (sec k))) (set_session_from_user user)"
  "stable (\<lambda>k. P (users (sec k))) (upd_sec (\<lambda>s. s\<lparr>login_attempts := g s\<rparr>))" "stable (\<lambda>k. P (users (sec k))) (upd_sec (\<lambda>s. s\<lparr>umask := um\<rparr>))"
  by (auto simp: emit_def set_session_from_user_def upd_sec_def Let_def intro!: stable_upd)

lemma users_sessions:
  "stable (\<lambda>k. P (users (sec k))) (login name password)" "stable (\<lambda>k. P (users (sec k))) logout"
  "stable (\<lambda>k. P (users (sec k))) (set_session_for_test name)" "stable (\<lambda>k. P (users (sec k))) (set_umask um)"
  unfolding login_def logout_def set_session_for_test_def set_umask_def Let_def by (intro stable_intros)+

lemma users_sync: "stable (\<lambda>k. P (users (sec k))) (sync_first_boot_file fat s)"
  unfolding sync_first_boot_file_def Let_def by (intro stable_intros stable_files stable_marks users_free)

lemma denied:
  assumes "\<not> can_admin (current_credentials k)"
  shows "bnd require_admin_account f k = (Inl AccPermissionDenied, k)"
    "bnd (map_err h require_admin_account) g k = (Inl (h AccPermissionDenied), k)"
  using assms by (simp_all add: require_admin_account_def require_admin_def bnd_def gets_def map_err_def err_def)

lemma run_snd [simp]: "snd (run m k) = snd (m k)"
  by (cases "m k"; cases "fst (m k)") (auto simp: run_def bnd_def map_err_def ret_def)

lemma run_denied:
  assumes "\<not> can_admin (current_credentials k)"
  shows "snd (create_user fat name password role k) = k" "snd (set_user_enabled fat name enabled k) = k"
    "snd (set_user_role fat name role k) = k" "snd (reset_user_password fat name password k) = k" "snd (delete_user fat name k) = k"
    "snd (reset_first_boot_admin fat k) = k" "snd (repair_first_boot_admin fat k) = k"
  unfolding create_user_def set_user_enabled_def set_user_role_def reset_user_password_def delete_user_def reset_first_boot_admin_def
    repair_first_boot_admin_def by (simp_all only: denied [OF assms] snd_conv)

lemma lift_mapped: "bnd (map_err h (lift_res (Inl a))) f = err (h a)" "bnd (map_err h (lift_res (Inr x))) f = f x"
  by (auto simp: bnd_def lift_res_def map_err_def err_def)

lemma first_run_refused: "\<not> first_run_required (sec k) \<Longrightarrow> snd (complete_first_run_admin fat name password k) = k"
proof -
  assume "\<not> first_run_required (sec k)"
  then have "bnd (gets (users \<circ> sec)) (\<lambda>us0. bnd (lift_res (first_run_change n password us0)) f) k = (Inl (Failed AlreadyConfigured), k)"
    for n and f :: "user_record \<times> user_record list \<Rightarrow> (kernel, account_failure, user_info) sm"
    by (simp add: first_run_required_def first_run_change_def bnd_def gets_def lift_res_def)
  then show ?thesis unfolding complete_first_run_admin_def
    by (cases "clean_user_name name"; cases "validate_password_for_account password")
      (simp_all add: lift_mapped err_def)
qed

lemma password_refused:
  "password_change old_password new_password (sec k) = Inl e \<Longrightarrow> snd (change_password fat old_password new_password k) = k"
  by (simp add: change_password_def bnd_def lift_res_def gets_def err_def)

lemma boot_consistency_users:
  assumes "enabled_admin_available (sec k)"
  shows "users (sec (snd ((ensure_first_boot_boot_consistency fat :: (kernel, 'e, string list) sm) k))) = users (sec k)"
proof -
  have "(ensure_first_boot_boot_consistency fat :: (kernel, 'e, string list) sm) k = sync_first_boot_file fat (sec k) k"
    using assms by (simp add: ensure_first_boot_boot_consistency_def bnd_def gets_def)
  moreover have "users (sec (snd ((sync_first_boot_file fat (sec k) :: (kernel, 'e, string list) sm) k))) = users (sec k)"
    by (rule stable_snd [OF users_sync]) simp
  ultimately show ?thesis by simp
qed

lemma unprivileged_users:
  assumes "\<not> can_admin (current_credentials k)"
  shows "users (sec (snd (account_run fat c k))) = users (sec k) \<or>
    (\<exists>name password. c = CallFirstRun name password \<and> first_run_required (sec k)) \<or>
    (\<exists>old_password new_password user. c = CallChangePassword old_password new_password \<and> user \<in> set (users (sec k)) \<and>
       u_uid user = session_uid (sec k) \<and> u_pass_hash user = password_hash (u_name user) old_password) \<or>
    (c = CallBootConsistency \<and> \<not> enabled_admin_available (sec k))"
proof -
  have st: "users (sec (snd (m k))) = users (sec k)" if "stable (\<lambda>k'. users (sec k') = users (sec k)) m" for m :: "(kernel, 'e, 'a) sm"
    by (rule stable_snd [OF that]) simp
  show ?thesis
  proof (cases c)
    case (CallFirstRun name password)
    then show ?thesis using first_run_refused by auto
  next
    case (CallChangePassword old_password new_password)
    show ?thesis
    proof (cases "password_change old_password new_password (sec k)")
      case (Inl e)
      then show ?thesis using password_refused CallChangePassword by auto
    next
      case (Inr us)
      then obtain user where "find (\<lambda>user. u_uid user = session_uid (sec k)) (users (sec k)) = Some user"
        "u_pass_hash user = password_hash (u_name user) old_password"
        by (auto simp: password_change_def split: option.splits if_splits)
      then show ?thesis using CallChangePassword find_position [of "\<lambda>user. u_uid user = session_uid (sec k)" "users (sec k)" user] by auto
    qed
  next
    case CallBootConsistency
    then show ?thesis using boot_consistency_users [of k fat] by auto
  qed (simp_all add: st [OF users_sessions(1)] st [OF users_sessions(2)] st [OF users_sessions(3)] st [OF users_sessions(4)] run_denied [OF assms])
qed

section \<open>Repair at boot\<close>

lemma handoff_repairs:
  "valid (\<lambda>_. True) (restore_default_handoff fat) (\<lambda>_ k. 0 < enabled_admin_count (users (sec k))) (\<lambda>_ k. 0 < enabled_admin_count (users (sec k)))"
  unfolding restore_default_handoff_def Let_def
proof (rule valid_bnd [where R = "\<lambda>us k. users (sec k) = us"], rule valid_gets, simp)
  fix us0
  let ?J = "\<lambda>k. 0 < enabled_admin_count (users (sec k))"
  obtain b us where c: "handoff_change us0 = (b, us)" by fastforce
  have "valid (\<lambda>k. users (sec k) = us0) (set_users us) (\<lambda>_. ?J) (\<lambda>_. ?J)"
    unfolding set_users_def upd_sec_def by (rule valid_upd) (simp add: handoff_admin(1) [OF c])
  moreover have "stable ?J (bnd (map_err (\<lambda>_. AccIo) (persist_users fat)) (\<lambda>_. bnd (ensure_home_dirs fat) (\<lambda>_. ret True)))"
    by (intro stable_intros stable_files users_free)
  ultimately have "valid (\<lambda>k. users (sec k) = us0) (bnd (set_users us) (\<lambda>_. bnd (map_err (\<lambda>_. AccIo) (persist_users fat)) (\<lambda>_.
    bnd (ensure_home_dirs fat) (\<lambda>_. ret True)))) (\<lambda>_. ?J) (\<lambda>_. ?J)" unfolding stable_def by (rule valid_bnd)
  moreover have "valid (\<lambda>k. users (sec k) = us0) (ret False) (\<lambda>_. ?J) (\<lambda>_. ?J)" if "\<not> b"
    using c that handoff_admin [of us0] by (intro valid_ret) auto
  ultimately show "valid (\<lambda>k. users (sec k) = us0) (case handoff_change us0 of (changed, us) \<Rightarrow> if changed then bnd (set_users us) (\<lambda>_.
    bnd (map_err (\<lambda>_. AccIo) (persist_users fat)) (\<lambda>_. bnd (ensure_home_dirs fat) (\<lambda>_. ret True))) else ret False) (\<lambda>_. ?J) (\<lambda>_. ?J)"
    unfolding c prod.case by (intro valid_if)
qed


lemma admin_available: "enabled_admin_available s \<longleftrightarrow> 0 < enabled_admin_count (users s)"
  unfolding admin_count_pos by (auto simp: enabled_admin_available_def list_ex_iff)

lemma repair_admin:
  "valid (\<lambda>k. \<not> enabled_admin_available (sec k)) (repair_first_boot_unchecked fat ctx)
     (\<lambda>_ k. enabled_admin_available (sec k)) (\<lambda>_ k. enabled_admin_available (sec k))"
proof -
  let ?J = "\<lambda>k. 0 < enabled_admin_count (users (sec k))"
  have mend: "valid (\<lambda>_. True) (bnd (restore_default_handoff fat) (\<lambda>_. bnd (map_err (\<lambda>_. AccIo) (mark_first_boot_required fat)) (\<lambda>_. ret line))) (\<lambda>_. ?J) (\<lambda>_. ?J)" for line
    by (rule valid_bnd [OF handoff_repairs]) (fold stable_def, intro stable_intros stable_marks users_free)
  have stat: "stable ?J (bnd (first_boot_status_lines fat) (\<lambda>status. ret (g status)))" for g :: "string list \<Rightarrow> string list"
    by (intro stable_intros stable_files users_free)
  show ?thesis unfolding admin_available repair_first_boot_unchecked_def
  proof (rule valid_bnd [where R = "\<lambda>s k. enabled_admin_count (users s) = 0"], rule valid_gets, simp)
    fix s
    show "valid (\<lambda>k. enabled_admin_count (users s) = 0) (bnd (first_boot_file_state fat) (\<lambda>file_state.
     bnd (if enabled_admin_count (users s) = 0 then
            bnd (restore_default_handoff fat) (\<lambda>_.
            bnd (map_err (\<lambda>_. AccIo) (mark_first_boot_required fat)) (\<lambda>_.
            ret ''repair=restored-default-handoff''))
          else if first_run_required s \<and> file_state = Some Complete then
            bnd (map_err (\<lambda>_. AccIo) (mark_first_boot_required fat)) (\<lambda>_.
            ret ''repair=state-complete-to-required'')
          else if \<not> first_run_required s \<and> file_state \<noteq> Some Complete then
            let owner = preferred_admin_name (users s) in
            bnd (map_err (\<lambda>_. AccIo) (mark_first_boot_complete fat owner '''')) (\<lambda>_.
            ret (''repair=state-to-complete user='' @ owner))
          else ret ''repair=no-changes'') (\<lambda>line.
     bnd (first_boot_status_lines fat) (\<lambda>status.
     ret ([''first-boot repair context='' @ ctx, line] @ status))))) (\<lambda>_. ?J) (\<lambda>_. ?J)"
    proof (cases "enabled_admin_count (users s) = 0")
      case True
      have "valid (\<lambda>_. True) (first_boot_file_state fat :: (kernel, account_error, _) sm) (\<lambda>_ _. True) (\<lambda>_. ?J)"
        by (auto simp: first_boot_file_state_def valid_def bnd_def attempt_def ret_def split: prod.splits sum.splits)
      moreover have "valid (\<lambda>_. True) (bnd (bnd (restore_default_handoff fat) (\<lambda>_. bnd (map_err (\<lambda>_. AccIo) (mark_first_boot_required fat)) (\<lambda>_.
            ret ''repair=restored-default-handoff''))) (\<lambda>line. bnd (first_boot_status_lines fat) (\<lambda>status.
            ret ([''first-boot repair context='' @ ctx, line] @ status)))) (\<lambda>_. ?J) (\<lambda>_. ?J)"
        by (rule valid_bnd [OF mend]) (use stat in \<open>simp add: stable_def\<close>)
      ultimately have "valid (\<lambda>_. True) (bnd (first_boot_file_state fat) (\<lambda>_. bnd (bnd (restore_default_handoff fat) (\<lambda>_.
            bnd (map_err (\<lambda>_. AccIo) (mark_first_boot_required fat)) (\<lambda>_.
            ret ''repair=restored-default-handoff''))) (\<lambda>line. bnd (first_boot_status_lines fat) (\<lambda>status.
            ret ([''first-boot repair context='' @ ctx, line] @ status))))) (\<lambda>_. ?J) (\<lambda>_. ?J)" by (rule valid_bnd)
      then show ?thesis using True by simp
    qed (simp add: valid_def)
  qed
qed

lemma boot_repair: "enabled_admin_available (sec (snd ((ensure_first_boot_boot_consistency fat :: (kernel, 'e, string list) sm) k)))"
proof (cases "enabled_admin_available (sec k)")
  case True
  have "users (sec (snd ((ensure_first_boot_boot_consistency fat :: (kernel, 'e, string list) sm) k))) = users (sec k)"
    by (rule boot_consistency_users [OF True])
  then show ?thesis using True by (simp add: enabled_admin_available_def)
next
  case False
  obtain r k' where r: "repair_first_boot_unchecked fat ''boot'' k = (r, k')" by fastforce
  have "enabled_admin_available (sec k')"
    using validD [OF repair_admin False] validD_err [OF repair_admin False] r by (cases r) blast+
  moreover have "snd ((ensure_first_boot_boot_consistency fat :: (kernel, 'e, string list) sm) k) = k'"
    using False r by (simp add: ensure_first_boot_boot_consistency_def result_lines_def bnd_def gets_def attempt_def ret_def)
  ultimately show ?thesis by simp
qed

text \<open>A kernel with the default accounts, seen by the administrator and by a guest.\<close>

definition account_kernel :: kernel where
  "account_kernel = fresh_kernel\<lparr>sec := security_empty\<lparr>users := default_users\<rparr>\<rparr>"

definition guest_kernel :: kernel where
  "guest_kernel = account_kernel\<lparr>task_credentials := Some \<lparr>cr_uid = GUEST_UID, cr_gid = USER_GID, cr_caps = CAP_INTERACTIVE_USER\<rparr>\<rparr>"

lemma guest_not_admin: "\<not> can_admin (current_credentials guest_kernel)"
proof -
  have "CAP_INTERACTIVE_USER AND CAP_ADMIN = 0" by (simp add: cap_defs CAP_INTERACTIVE_USER_def)
  then show ?thesis by (simp add: guest_kernel_def current_credentials_def can_admin_def GUEST_UID_def ROOT_UID_def)
qed

lemma account_kernel_inv: "accounts_inv (sec account_kernel)"
proof -
  have "session_uid security_empty \<in> u_uid ` set default_users" using builtin_uids by (simp add: security_empty_def default_users_def)
  then show ?thesis using default_users_ok by (simp add: accounts_inv_def account_kernel_def)
qed

section \<open>Properties\<close>

lemma admin_caps: "can_admin (user_credentials user) \<longleftrightarrow> u_uid user = ROOT_UID \<or> is_admin_record user"
proof -
  have "CAP_ALL_USER AND CAP_ADMIN \<noteq> 0" "CAP_INTERACTIVE_USER AND CAP_ADMIN = 0"
    by (simp_all add: cap_defs CAP_ALL_USER_def CAP_PACKAGE_SHELL_def CAP_INTERACTIVE_USER_def)
  then show ?thesis by (simp add: can_admin_def user_credentials_def caps_for_role_def is_admin_record_def is_admin_role_def)
qed

text \<open>C20: A login succeeds only for an account of that name (up to case) that may log in, with a password whose hash matches,
  and not during a lockout. The running task then has exactly the rights of that account, administrator rights just when the
  account is an administrator. A failed login changes nothing but the record of failed attempts.\<close>

theorem login_correct:
  "case login name password k of
     (Inr info, k') \<Rightarrow> (\<exists>user. user \<in> set (users (sec k)) \<and> eq_ignore_ascii_case (u_name user) name \<and> u_login_enabled user \<and>
        u_pass_hash user = password_hash (u_name user) password \<and> \<not> login_locked name k \<and> info = public_user user \<and>
        current_credentials k' = user_credentials user \<and> (can_admin (current_credentials k') \<longleftrightarrow> u_uid user = ROOT_UID \<or> is_admin_record user))
   | (Inl e, k') \<Rightarrow> current_credentials k' = current_credentials k \<and> sec k' = (sec k)\<lparr>login_attempts := login_attempts (sec k')\<rparr>"
proof (cases "login_user name password k")
  case (Inl e)
  then have "fst (login name password k) = Inl e" using login_outcome [of name password k] by simp
  then show ?thesis using login_failed_state [OF Inl]
    by (cases "login name password k") (auto simp: current_credentials_def interactive_credentials_def split: option.splits)
next
  case (Inr user)
  then have u: "find_user (users (sec k)) name = Some user" "u_login_enabled user" "u_pass_hash user = password_hash (u_name user) password"
    "\<not> login_locked name k" by (auto simp: login_user_def split: if_splits option.splits)
  then have "user \<in> set (users (sec k))" "eq_ignore_ascii_case (u_name user) name"
    using find_position [of "\<lambda>user. eq_ignore_ascii_case (u_name user) name" "users (sec k)" user] by (auto simp: find_user_def)
  moreover have "fst (login name password k) = Inr (public_user user)" using login_outcome [of name password k] Inr by simp
  ultimately show ?thesis using u login_ok_state(3) [OF Inr] admin_caps [of user] by (cases "login name password k") auto
qed






text \<open>C18: The accounts stay in order whatever happens: after any sequence of logins, account operations and first-boot repairs,
  successful or not, with any other activity in between, names stay unique up to case and user ids unique, the built-in
  accounts are there, an administrator can log in, and the session belongs to an existing account.\<close>

theorem accounts_stay_in_order:
  assumes "accounts_inv (sec k0)" and "account_reach fat k0 k"
  shows "accounts_inv (sec k)"
  using account_reach_inv [OF assms(2)] assms(1) by (simp add: acc_def)

theorem accounts_stay_in_order_witness:
  "accounts_inv (sec account_kernel) \<and> accounts_inv (sec (snd (account_run fat_absent (CallCreate ''alice'' ''correct-horse'' ''admin'') account_kernel)))"
proof -
  have "account_reach fat_absent account_kernel (snd (account_run fat_absent (CallCreate ''alice'' ''correct-horse'' ''admin'') account_kernel))"
    by (intro account_reach.intros)
  from accounts_stay_in_order [OF account_kernel_inv this] account_kernel_inv show ?thesis by blast
qed

end
