(* ===== verification/Accounts_Disk.thy ===== *)
theory Accounts_Disk
  imports Accounts_Login
begin

text \<open>
  The accounts on disk: an account operation that reports success has saved the user database, and a reboot, with the
  cache flushed, comes back with the same accounts.
\<close>

section \<open>The user database file\<close>

definition dirty_file :: "superblock \<Rightarrow> string \<Rightarrow> fs_file \<Rightarrow> fs_state \<Rightarrow> bool" where
  "dirty_file q p f s \<longleftrightarrow> has_file q p f s \<and> fs_dirty s"

lemma has_file_creds: "has_file q p f (s\<lparr>cred_uid := u, cred_gid := g\<rparr>) = has_file q p f s"
  by (simp add: has_file_def fsys_creds)

lemma stable_on_file:
  assumes "valid (has_file q p f) m (\<lambda>_. has_file q p f) (\<lambda>_. has_file q p f)" and "keeps_dirty m"
  shows "stable (\<lambda>k. dirty_file q p f (fs k)) (on_fs m)"
  unfolding stable_def
proof (rule validI)
  fix k x k' assume k: "dirty_file q p f (fs k)" and r: "on_fs m k = (Inr x, k')"
  let ?s = "(fs k)\<lparr>cred_uid := cr_uid (current_credentials k), cred_gid := cr_gid (current_credentials k)\<rparr>"
  have s: "has_file q p f ?s" "fs_dirty ?s" using k by (simp_all add: dirty_file_def has_file_creds)
  have m: "m ?s = (Inr x, fs k')" using r by (auto simp: on_fs_def Let_def split: prod.splits)
  show "dirty_file q p f (fs k')"
    using validD [OF assms(1) s(1) m] assms(2) s(2) m unfolding dirty_file_def keeps_dirty_def by (metis snd_conv)
next
  fix k e k' assume k: "dirty_file q p f (fs k)" and r: "on_fs m k = (Inl e, k')"
  let ?s = "(fs k)\<lparr>cred_uid := cr_uid (current_credentials k), cred_gid := cr_gid (current_credentials k)\<rparr>"
  have s: "has_file q p f ?s" "fs_dirty ?s" using k by (simp_all add: dirty_file_def has_file_creds)
  have m: "m ?s = (Inl e, fs k')" using r by (auto simp: on_fs_def Let_def split: prod.splits)
  show "dirty_file q p f (fs k')"
    using validD_err [OF assms(1) s(1) m] assms(2) s(2) m unfolding dirty_file_def keeps_dirty_def by (metis snd_conv)
qed

lemma keeps_dirty_safe_write [dirty_intros]: "keeps_dirty (safe_write_file_with_metadata path data u g m)"
proof -
  have "keeps_dirty (case r of Inr (_::unit) \<Rightarrow> rename tmp name
     | Inl e \<Rightarrow> if e = NotFound then rename tmp name else bnd (discard (delete_file tmp)) (\<lambda>_. err e))" for r tmp name
    by (cases r) (auto intro!: dirty_intros)
  moreover have "keeps_dirty (delete_if_present tmp)" for tmp
    unfolding delete_if_present_def by (rule keeps_dirty_bnd, intro dirty_intros) (auto split: sum.splits intro!: dirty_intros)
  ultimately show ?thesis unfolding safe_write_file_with_metadata_def create_file_with_metadata_def Let_def
    by (auto intro!: dirty_intros split: prod.splits)
qed

lemma file_vfs:
  assumes "fat32_path (normalize_path path) = None"
  shows "stable (\<lambda>k. dirty_file q p f (fs k)) (vfs_kernel_create_dir fat path)"
    and "elsewhere p (normalize_path path) \<Longrightarrow> stable (\<lambda>k. dirty_file q p f (fs k)) (vfs_chown path u g)"
    and "elsewhere p (normalize_path path) \<Longrightarrow> stable (\<lambda>k. dirty_file q p f (fs k)) (vfs_chmod fat path m)"
proof -
  show "stable (\<lambda>k. dirty_file q p f (fs k)) (vfs_kernel_create_dir fat path)"
    unfolding vfs_kernel_create_dir_def create_dir_for_def create_dir_with_metadata_def Let_def assms option.case
    by (intro stable_intros stable_on_file create_keeps dirty_intros) simp
  show "stable (\<lambda>k. dirty_file q p f (fs k)) (vfs_chown path u g)" if "elsewhere p (normalize_path path)"
    unfolding vfs_chown_def chown_unchecked_def Let_def
    by (intro stable_intros stable_on_file chown_keeps [OF that] dirty_intros)
  show "stable (\<lambda>k. dirty_file q p f (fs k)) (vfs_chmod fat path m)" if "elsewhere p (normalize_path path)"
    unfolding vfs_chmod_def chmod_unchecked_def metadata_unchecked_def Let_def assms option.case
    by (intro stable_intros stable_on_file chmod_keeps [OF that] metadata_keeps dirty_intros)
qed

lemma file_safe_write:
  assumes "fat32_path (normalize_path path) = None" and "split_parent_and_name (normalize_path path) = Inr (pp, name)" "\<not> names_equal name TMP_NAME"
    and "elsewhere p (normalize_path path)" "elsewhere p (tmp_path pp)"
  shows "stable (\<lambda>k. dirty_file q p f (fs k)) (vfs_kernel_safe_write_file fat path data)"
  unfolding vfs_kernel_safe_write_file_def metadata_unchecked_def safe_write_file_for_def Let_def assms(1) option.case
  by (intro stable_intros stable_on_file safe_write_keeps [OF assms(2-)] metadata_keeps dirty_intros)


section \<open>Home directories are elsewhere\<close>

lemma split_on_no: "c \<notin> set xs \<Longrightarrow> split_on c xs = [xs]"
  by (induction xs) auto

lemma home_path:
  assumes "account_ok user"
  shows "normalize_path (u_home user) = u_home user" "fat32_path (u_home user) = None" "path_components (u_home user) = [''Users'', u_name user]"
proof -
  have n: "u_name user \<noteq> ''''" "list_all name_char (u_name user)" and h: "u_home user = ''/Users/'' @ u_name user"
    using assms by (auto simp: account_ok_def clean_record_def user_home_def)
  have c: "CHR ''/'' \<notin> set (u_name user)" "CHR ''.'' \<notin> set (u_name user)"
    using n(2) name_char_graphic by (auto simp: list_all_iff)
  then have d: "u_name user \<noteq> ''.''" "u_name user \<noteq> ''..''" by auto
  have s: "split_on CHR ''/'' (u_home user) = ['''', ''Users'', u_name user]" using split_on_no [OF c(1)] by (simp add: h)
  have "path_parts (u_home user) = [''Users'', u_name user]" unfolding path_parts_def s using n(1) d by (simp add: push_part_def)
  then show "normalize_path (u_home user) = u_home user" by (simp add: normalize_path_def join_parts_def h)
  show "fat32_path (u_home user) = None" by (simp add: fat32_path_def h strip_prefix_def starts_with_def)
  show "path_components (u_home user) = [''Users'', u_name user]" using n(1) by (simp add: path_components_def s)
qed

lemma config_paths:
  "normalize_path USERS_PATH = USERS_PATH" "fat32_path USERS_PATH = None" "split_parent_and_name USERS_PATH = Inr (''/CONFIG'', ''USERS.DB'')"
  "normalize_path ''/CONFIG'' = ''/CONFIG''" "fat32_path ''/CONFIG'' = None" "\<not> names_equal ''USERS.DB'' TMP_NAME"
  "normalize_path ''/Users'' = ''/Users''" "fat32_path ''/Users'' = None" "elsewhere USERS_PATH ''/Users''"
  by code_simp+

lemma boot_path:
  "normalize_path FIRST_BOOT_PATH = FIRST_BOOT_PATH" "fat32_path FIRST_BOOT_PATH = None"
  "split_parent_and_name FIRST_BOOT_PATH = Inr (''/CONFIG'', ''FIRSTBOOT.CFG'')" "\<not> names_equal ''FIRSTBOOT.CFG'' TMP_NAME"
  "elsewhere USERS_PATH FIRST_BOOT_PATH" "elsewhere USERS_PATH (tmp_path ''/CONFIG'')"
  by code_simp+

lemma home_elsewhere: "account_ok user \<Longrightarrow> elsewhere USERS_PATH (u_home user)"
proof -
  assume a: "account_ok user"
  have "path_components USERS_PATH = [''CONFIG'', ''USERS.DB'']" "\<not> names_equal ''CONFIG'' ''Users''" by code_simp+
  then show ?thesis using home_path(3) [OF a] by (simp add: elsewhere_def)
qed

text \<open>The file with the saved users, and users that can be saved.\<close>

definition saved :: "superblock \<Rightarrow> fs_file \<Rightarrow> kernel \<Rightarrow> bool" where
  "saved q f k \<longleftrightarrow> dirty_file q USERS_PATH f (fs k) \<and> list_all account_ok (users (sec k))"

lemma stable_conj:
  assumes "stable I m" and "stable J m"
  shows "stable (\<lambda>k. I k \<and> J k) m"
  unfolding stable_def
  by (rule valid_conj [OF valid_pre [OF assms(1) [unfolded stable_def]] valid_pre [OF assms(2) [unfolded stable_def]]]) simp_all

lemma savedI: "stable (\<lambda>k. dirty_file q USERS_PATH f (fs k)) m \<Longrightarrow> stable (\<lambda>k. list_all account_ok (users (sec k))) m \<Longrightarrow> stable (saved q f) m"
  unfolding saved_def by (rule stable_conj)

lemma users_fs_free: "fs_free (\<lambda>k. P (users (sec k)))"
  by (simp add: fs_free_def)

lemma discard_any: "stable I m \<Longrightarrow> valid I (discard m) (\<lambda>_. I) E"
  unfolding discard_def stable_def by (rule valid_bnd [OF valid_attempt]) (auto intro: valid_ret)

lemma home_dirs_any:
  assumes "stable I (vfs_kernel_create_dir fat ''/Users'')" "stable I (vfs_chown ''/Users'' ROOT_UID ROOT_GID)" "stable I (vfs_chmod fat ''/Users'' DEFAULT_DIR_MODE)"
    and "\<And>user k. I k \<Longrightarrow> user \<in> set (users (sec k)) \<Longrightarrow> stable I (vfs_kernel_create_dir fat (u_home user)) \<and>
      stable I (vfs_chown (u_home user) (u_uid user) (u_gid user)) \<and> stable I (vfs_chmod fat (u_home user) 448)"
  shows "valid I (ensure_home_dirs fat) (\<lambda>_. I) E"
proof -
  have home: "valid I (ensure_home_dir fat x) (\<lambda>_. I) E" if x: "I k" "x \<in> set (users_list (sec k))" for x k
  proof -
    obtain user where u: "user \<in> set (users (sec k))" "x = public_user user" using x(2) by (auto simp: users_list_def)
    note s = assms(4) [OF x(1) u(1)]
    show ?thesis unfolding ensure_home_dir_def u(2)
      by (intro valid_if valid_ret valid_bnd [where P = I and R = "\<lambda>_. I"] discard_any) (use s in \<open>simp_all add: public_user_def\<close>)
  qed
  have each: "valid I (for_each xs (ensure_home_dir fat)) (\<lambda>_. I) E" if k: "I k" "xs = users_list (sec k)" for xs k
    by (rule valid_for_each) (use home [OF k(1)] k(2) in simp)
  have "valid (\<lambda>k. I k \<and> (\<exists>k0. I k0 \<and> xs = users_list (sec k0))) (bnd (discard (vfs_kernel_create_dir fat ''/Users'')) (\<lambda>_.
     bnd (discard (vfs_chown ''/Users'' ROOT_UID ROOT_GID)) (\<lambda>_.
     bnd (discard (vfs_chmod fat ''/Users'' DEFAULT_DIR_MODE)) (\<lambda>_. for_each xs (ensure_home_dir fat))))) (\<lambda>_. I) E" for xs
    by (rule valid_assume, intro valid_bnd [where P = I and R = "\<lambda>_. I"] discard_any assms) (use each in blast)
  then show ?thesis unfolding ensure_home_dirs_def
    by (intro valid_bnd [where R = "\<lambda>xs k. I k \<and> (\<exists>k0. I k0 \<and> xs = users_list (sec k0))"] valid_gets) auto
qed

lemma saved_vfs:
  assumes "fat32_path (normalize_path path) = None" and "elsewhere USERS_PATH (normalize_path path)"
  shows "stable (saved q f) (vfs_kernel_create_dir fat path)" "stable (saved q f) (vfs_chown path u g)" "stable (saved q f) (vfs_chmod fat path m)"
  by (rule savedI; rule file_vfs stable_vfs users_fs_free; (rule assms users_fs_free)?)+

lemma home_dirs_saved: "valid (saved q f) (ensure_home_dirs fat) (\<lambda>_. saved q f) E"
proof (rule home_dirs_any)
  show "stable (saved q f) (vfs_kernel_create_dir fat ''/Users'')" "stable (saved q f) (vfs_chown ''/Users'' ROOT_UID ROOT_GID)"
    "stable (saved q f) (vfs_chmod fat ''/Users'' DEFAULT_DIR_MODE)"
    by (intro saved_vfs; simp only: config_paths)+
  fix user k assume "saved q f k" "user \<in> set (users (sec k))"
  then have a: "account_ok user" by (simp add: saved_def list_all_iff)
  show "stable (saved q f) (vfs_kernel_create_dir fat (u_home user)) \<and>
      stable (saved q f) (vfs_chown (u_home user) (u_uid user) (u_gid user)) \<and> stable (saved q f) (vfs_chmod fat (u_home user) 448)"
    by (intro conjI saved_vfs) (simp_all only: home_path [OF a] home_elsewhere [OF a])
qed


section \<open>Saving\<close>

definition mounted :: "superblock \<Rightarrow> kernel \<Rightarrow> bool" where
  "mounted q k \<longleftrightarrow> (\<exists>F. fsys q F (fs k))"

lemma on_fs_lift:
  assumes "\<And>F. valid (fsys q F) m Q E"
  shows "valid (mounted q) (on_fs m) (\<lambda>x k. Q x (fs k)) (\<lambda>e k. E e (fs k))"
proof -
  have "valid (\<lambda>k. \<exists>F. ksys q F w k) (on_fs m) (\<lambda>x k. Q x (fs k)) (\<lambda>e k. E e (fs k))" for w
    by (rule valid_ex, rule valid_weaken [OF on_fs_valid [OF assms]]) auto
  then show ?thesis by (auto simp: valid_def mounted_def ksys_def)
qed

lemma mounted_create: "fat32_path (normalize_path path) = None \<Longrightarrow> stable (mounted q) (vfs_kernel_create_dir fat path)"
proof -
  assume p: "fat32_path (normalize_path path) = None"
  have c: "valid (fsys q F) (create_node path' KIND_DIR u g m) (\<lambda>_ s. \<exists>F. fsys q F s) (\<lambda>_ s. \<exists>F. fsys q F s)" for F path' u g m
    by (rule valid_weaken [OF create_node_fsys]) auto
  have "stable (mounted q) (on_fs (create_node path' KIND_DIR u g m))" for path' u g m
    using on_fs_lift [OF c] unfolding stable_def mounted_def .
  then show ?thesis unfolding vfs_kernel_create_dir_def create_dir_for_def create_dir_with_metadata_def Let_def p option.case
    by (intro stable_intros)
qed

lemma mounted_metadata: "fat32_path path = None \<Longrightarrow> stable (mounted q) (metadata_unchecked fat path)"
proof -
  assume p: "fat32_path path = None"
  have c: "valid (fsys q F) (metadata path) (\<lambda>_ s. \<exists>F. fsys q F s) (\<lambda>_ s. \<exists>F. fsys q F s)" for F
    by (rule valid_weaken [OF metadata_fsys]) auto
  have "stable (mounted q) (on_fs (metadata path))" using on_fs_lift [OF c] unfolding stable_def mounted_def .
  then show ?thesis unfolding metadata_unchecked_def p option.case by (intro stable_intros)
qed

lemma safe_write_file_dirty:
  assumes "split_parent_and_name path = Inr (pp, name)" and "\<not> names_equal name TMP_NAME"
  shows "valid (fsys q F) (safe_write_file_with_metadata path data u g m) (\<lambda>_ s. \<exists>f. dirty_file q path f s \<and> fdata f = data) (\<lambda>_ _. True)"
proof (rule validI)
  fix s x t assume s: "fsys q F s" and r: "safe_write_file_with_metadata path data u g m s = (Inr x, t)"
  obtain G where G: "fsys q G t" "staged q G path data u g" using validD [OF safe_write_spec [OF assms] s r] by blast
  have "fs_dirty t" using safe_write_dirty r unfolding makes_dirty_def by blast
  then show "\<exists>f. dirty_file q path f t \<and> fdata f = data" using G by (auto simp: staged_def dirty_file_def has_file_def file_paths_def)
qed simp

lemma persist_file:
  "valid (\<lambda>k. mounted q k \<and> users (sec k) = us) (persist_users fat)
    (\<lambda>_ k. \<exists>f. dirty_file q USERS_PATH f (fs k) \<and> fdata f = as_bytes (users_text us)) (\<lambda>_ _. True)"
proof -
  let ?Q = "\<lambda>_ k. \<exists>f. dirty_file q USERS_PATH f (fs k) \<and> fdata f = as_bytes (users_text us)"
  have w: "valid (mounted q) (on_fs (safe_write_file_with_metadata USERS_PATH data u g m))
      (\<lambda>_ k. \<exists>f. dirty_file q USERS_PATH f (fs k) \<and> fdata f = data) (\<lambda>_ _. True)" for data u g m
    by (rule on_fs_lift [OF safe_write_file_dirty [OF config_paths(3,6)]])
  have sw: "valid (mounted q) (vfs_kernel_safe_write_file fat USERS_PATH (as_bytes (users_text us))) ?Q (\<lambda>_ _. True)"
    unfolding vfs_kernel_safe_write_file_def safe_write_file_for_def Let_def config_paths option.case
    by (intro stable_then [where I = "mounted q"] stable_attempt mounted_metadata stable_simple config_paths)
      (auto split: prod.splits sum.splits intro: w)
  have "valid (\<lambda>k. mounted q k \<and> users (sec k) = us) (bnd (gets (users \<circ> sec)) (\<lambda>us'.
     bnd (discard (vfs_kernel_create_dir fat ''/CONFIG'')) (\<lambda>_. vfs_kernel_safe_write_file fat USERS_PATH (as_bytes (users_text us')))))
     ?Q (\<lambda>_ _. True)"
  proof (rule valid_bnd [where R = "\<lambda>us' k. mounted q k \<and> us' = us"], rule valid_gets)
    show "valid (\<lambda>k. mounted q k \<and> us' = us) (bnd (discard (vfs_kernel_create_dir fat ''/CONFIG'')) (\<lambda>_.
      vfs_kernel_safe_write_file fat USERS_PATH (as_bytes (users_text us')))) ?Q (\<lambda>_ _. True)" for us'
      by (rule valid_assume, rule stable_then [OF stable_discard [OF mounted_create]]) (use config_paths sw in simp_all)
  qed simp
  then show ?thesis unfolding persist_users_def .
qed

text \<open>The database file holds the users in memory.\<close>

definition db :: "superblock \<Rightarrow> user_record list \<Rightarrow> kernel \<Rightarrow> bool" where
  "db q us k \<longleftrightarrow> users (sec k) = us \<and> list_all account_ok us \<and> (\<exists>f. saved q f k \<and> fdata f = as_bytes (users_text us))"

definition in_sync :: "superblock \<Rightarrow> kernel \<Rightarrow> bool" where
  "in_sync q k \<longleftrightarrow> db q (users (sec k)) k"

lemma persist_saves: "valid (\<lambda>k. mounted q k \<and> acc k) (persist_users fat) (\<lambda>_ k. in_sync q k) (\<lambda>_ _. True)"
proof (rule validI)
  fix k x k' assume k: "mounted q k \<and> acc k" and r: "persist_users fat k = (Inr x, k')"
  have u: "users (sec k') = users (sec k)"
    using stable_snd [OF stable_files(1) [where I = "\<lambda>k'. users (sec k') = users (sec k)" and fat = fat], of k] r by (simp add: fs_free_def)
  moreover obtain f where "dirty_file q USERS_PATH f (fs k')" "fdata f = as_bytes (users_text (users (sec k)))"
    using validD [OF persist_file [of q "users (sec k)"] _ r] k by blast
  moreover have "list_all account_ok (users (sec k))" using k accD(1) [of k] by (simp add: accounts_ok_def)
  ultimately show "in_sync q k'" by (auto simp: in_sync_def db_def saved_def)
qed simp

lemma sync_stable:
  assumes "\<And>f. stable (saved q f) m" and "\<And>us. stable (\<lambda>k. users (sec k) = us) m"
  shows "stable (in_sync q) m"
proof -
  have "stable (\<lambda>k. saved q f k \<and> users (sec k) = us) m" for f us by (rule stable_conj [OF assms])
  then show ?thesis unfolding in_sync_def db_def stable_def valid_def by (fastforce split: prod.splits sum.splits)
qed

lemma sync_simple:
  "stable (in_sync q) (emit what detail)" "stable (in_sync q) (set_session_from_user user)"
  by (rule sync_stable; auto simp: emit_def set_session_from_user_def Let_def saved_def intro!: stable_upd)+

lemma sync_home: "stable (in_sync q) (ensure_home_dirs fat)"
  by (rule sync_stable, unfold stable_def, rule home_dirs_saved) (fold stable_def, rule stable_files, simp add: fs_free_def)

lemma saved_first_boot: "stable (saved q f) (mark_first_boot_complete fat user device)"
  unfolding mark_first_boot_complete_def write_first_boot_state_def
proof (rule savedI)
  show "stable (\<lambda>k. dirty_file q USERS_PATH f (fs k)) (bnd (discard (vfs_kernel_create_dir fat ''/CONFIG'')) (\<lambda>_.
    vfs_kernel_safe_write_file fat FIRST_BOOT_PATH (as_bytes (first_boot_text Complete user device))))"
    by (intro stable_bnd stable_discard file_vfs(1) file_safe_write [where pp = "''/CONFIG''" and name = "''FIRSTBOOT.CFG''"])
      (simp_all only: config_paths boot_path not_False_eq_True)
qed (intro stable_intros stable_vfs users_fs_free)

lemma sync_first_boot: "stable (in_sync q) (mark_first_boot_complete fat user device)"
  by (rule sync_stable [OF saved_first_boot], rule stable_marks) (simp add: fs_free_def)


section \<open>Every successful change is saved\<close>

definition ready :: "superblock \<Rightarrow> kernel \<Rightarrow> bool" where
  "ready q k \<longleftrightarrow> mounted q k \<and> acc k"

lemma change_then:
  assumes "\<And>k user us. acc k \<Longrightarrow> change (g k) = Inr (user, us) \<Longrightarrow> acc (with_users us k)"
    and "\<And>x user. valid (ready q) (rest x user) Q (\<lambda>_ _. True)"
  shows "valid (ready q) (bnd (gets g) (\<lambda>x. bnd (lift_res (change x)) (\<lambda>(user, us). bnd (set_users us) (\<lambda>_. rest x user)))) Q (\<lambda>_ _. True)"
proof (rule valid_bnd [where R = "\<lambda>x k. ready q k \<and> g k = x"], rule valid_gets, simp)
  fix x
  show "valid (\<lambda>k. ready q k \<and> g k = x) (bnd (lift_res (change x)) (\<lambda>(user, us). bnd (set_users us) (\<lambda>_. rest x user))) Q (\<lambda>_ _. True)"
  proof (cases "change x")
    case (Inr r)
    obtain user us where r: "r = (user, us)" by (cases r)
    have "valid (\<lambda>k. ready q k \<and> g k = x) (set_users us) (\<lambda>_. ready q) (\<lambda>_ _. True)"
      unfolding set_users_def upd_sec_def
    proof (rule valid_upd)
      fix k assume k: "ready q k \<and> g k = x"
      then have "acc (with_users us k)" using assms(1) [of k user us] Inr r by (simp add: ready_def)
      then show "ready q (k\<lparr>sec := (sec k)\<lparr>users := us, revision := revision (sec k) + 1\<rparr>\<rparr>)" using k by (simp add: ready_def mounted_def)
    qed
    from valid_bnd [OF this assms(2)] show ?thesis by (simp add: Inr r bnd_lift_Inr)
  qed (auto simp: valid_def bnd_def lift_res_def)
qed

lemma lift_then:
  "(\<And>x. r = Inr x \<Longrightarrow> valid P (f x) Q (\<lambda>_ _. True)) \<Longrightarrow> valid P (bnd (map_err h (lift_res r)) f) Q (\<lambda>_ _. True)"
  "(\<And>x. r = Inr x \<Longrightarrow> valid P (g x) Q (\<lambda>_ _. True)) \<Longrightarrow> valid P (bnd (lift_res r) g) Q (\<lambda>_ _. True)"
  by (cases r; auto simp: valid_def bnd_def lift_res_def map_err_def split: prod.splits sum.splits)+

lemma admin_then:
  "valid P m Q (\<lambda>_ _. True) \<Longrightarrow> valid P (bnd require_admin_account (\<lambda>_. m)) Q (\<lambda>_ _. True)"
  "valid P m' Q (\<lambda>_ _. True) \<Longrightarrow> valid P (bnd (map_err h require_admin_account) (\<lambda>_. m')) Q (\<lambda>_ _. True)"
  by (rule stable_then; simp add: require_admin_account_def require_admin_def; intro stable_intros)+

lemma persist_then:
  assumes "stable (in_sync q) m"
  shows "valid (ready q) (bnd (map_err h (persist_users fat)) (\<lambda>_. m)) (\<lambda>_. in_sync q) (\<lambda>_ _. True)"
proof (rule valid_bnd)
  show "valid (ready q) (map_err h (persist_users fat)) (\<lambda>_. in_sync q) (\<lambda>_ _. True)"
    unfolding ready_def by (rule valid_map_err, rule persist_saves)
  show "valid (in_sync q) m (\<lambda>_. in_sync q) (\<lambda>_ _. True)" using assms unfolding stable_def by (rule valid_weaken) auto
qed

lemmas sync_intros = stable_bnd stable_discard stable_simple stable_if sync_simple sync_home sync_first_boot

lemma change_saves:
  "valid (ready q) (create_user fat name password role) (\<lambda>_. in_sync q) (\<lambda>_ _. True)"
  "valid (ready q) (complete_first_run_admin fat name password) (\<lambda>_. in_sync q) (\<lambda>_ _. True)"
  "valid (ready q) (set_user_enabled fat name enabled) (\<lambda>_. in_sync q) (\<lambda>_ _. True)"
  "valid (ready q) (set_user_role fat name role) (\<lambda>_. in_sync q) (\<lambda>_ _. True)"
  "valid (ready q) (delete_user fat name) (\<lambda>_. in_sync q) (\<lambda>_ _. True)"
proof -
  show "valid (ready q) (create_user fat name password role) (\<lambda>_. in_sync q) (\<lambda>_ _. True)"
    unfolding create_user_def
    by (rule admin_then, rule lift_then, rule lift_then, rule lift_then, rule change_then, rule acc_ofD, erule change_steps(1), assumption, assumption, simp,
        rule persist_then) (intro sync_intros)
  show "valid (ready q) (complete_first_run_admin fat name password) (\<lambda>_. in_sync q) (\<lambda>_ _. True)"
    unfolding complete_first_run_admin_def
    by (rule lift_then, rule valid_if, rule valid_err, simp, rule lift_then, rule change_then, rule acc_ofD, erule change_steps(2), assumption, simp,
        rule persist_then) (intro sync_intros)
  show "valid (ready q) (set_user_enabled fat name enabled) (\<lambda>_. in_sync q) (\<lambda>_ _. True)"
    unfolding set_user_enabled_def
    by (rule admin_then, rule change_then, rule acc_ofD, erule change_steps(3), simp, rule persist_then) (intro sync_intros)
  show "valid (ready q) (set_user_role fat name role) (\<lambda>_. in_sync q) (\<lambda>_ _. True)"
    unfolding set_user_role_def
    by (rule admin_then, rule lift_then, rule change_then, rule acc_ofD, erule change_steps(4), assumption, simp, rule persist_then) (intro sync_intros)
  show "valid (ready q) (delete_user fat name) (\<lambda>_. in_sync q) (\<lambda>_ _. True)"
    unfolding delete_user_def
    by (rule admin_then, rule change_then, erule change_steps(6), simp, rule persist_then) (intro sync_intros)
qed

lemma ready_attempts: "stable (ready q) (upd_sec (\<lambda>s. s\<lparr>login_attempts := g s\<rparr>))"
  unfolding upd_sec_def by (rule stable_upd) (simp add: ready_def mounted_def acc_def accounts_inv_def)

lemma reset_saves: "valid (ready q) (reset_user_password fat name password) (\<lambda>_. in_sync q) (\<lambda>_ _. True)"
  unfolding reset_user_password_def
  by (rule admin_then, rule lift_then, rule change_then, rule acc_ofD, erule change_steps(5), simp, rule stable_then [OF ready_attempts],
      rule persist_then) (intro sync_intros, simp)

lemma change_password_saves: "valid (ready q) (change_password fat old_password new_password) (\<lambda>_. in_sync q) (\<lambda>_ _. True)"
  unfolding change_password_def
proof (rule valid_if, rule valid_err, simp, rule valid_bnd [where R = "\<lambda>x k. ready q k \<and> sec k = x"], rule valid_gets, simp, rule lift_then)
  fix s us assume c: "password_change old_password new_password s = Inr us"
  have "valid (\<lambda>k. ready q k \<and> sec k = s) (set_users us) (\<lambda>_. ready q) (\<lambda>_ _. True)"
    unfolding set_users_def upd_sec_def using c by (auto intro!: valid_upd change_steps(7) simp: ready_def mounted_def)
  moreover have "valid (ready q) (map_err (\<lambda>_. AuthIo) (persist_users fat)) (\<lambda>_. in_sync q) (\<lambda>_ _. True)"
    unfolding ready_def by (rule valid_map_err, rule persist_saves)
  ultimately show "valid (\<lambda>k. ready q k \<and> sec k = s) (bnd (set_users us) (\<lambda>_. map_err (\<lambda>_. AuthIo) (persist_users fat))) (\<lambda>_. in_sync q) (\<lambda>_ _. True)"
    by (rule valid_bnd)
qed

fun changes_users :: "account_call \<Rightarrow> bool" where
  "changes_users (CallChangePassword _ _) = True"
| "changes_users (CallFirstRun _ _) = True"
| "changes_users (CallCreate _ _ _) = True"
| "changes_users (CallEnable _ _) = True"
| "changes_users (CallRole _ _) = True"
| "changes_users (CallReset _ _) = True"
| "changes_users (CallDelete _) = True"
| "changes_users _ = False"

lemma run_valid: "valid P m (\<lambda>_. Q) (\<lambda>_ _. True) \<Longrightarrow> valid P (run m) (\<lambda>_. Q) (\<lambda>_ _. True)"
  unfolding run_def by (rule valid_bnd [OF valid_map_err]) (auto intro: valid_ret)

lemma account_run_saves: "changes_users c \<Longrightarrow> valid (ready q) (account_run fat c) (\<lambda>_. in_sync q) (\<lambda>_ _. True)"
  by (cases c) (auto intro!: run_valid change_saves reset_saves change_password_saves)

section \<open>Booting again\<close>

definition reboot :: "fat_driver \<Rightarrow> (kernel, fs_error, unit) sm" where
  "reboot fat =
     bnd (on_fs (bnd coolfs_flush (\<lambda>_. power_cycle))) (\<lambda>_.
     bnd (upd (\<lambda>k. k\<lparr>sec := security_empty, task_credentials := None, bus := bus_new\<rparr>)) (\<lambda>_.
     security_init fat))"

definition on_disk :: "superblock \<Rightarrow> user_record list \<Rightarrow> kernel \<Rightarrow> bool" where
  "on_disk q us k \<longleftrightarrow> (\<exists>F i f. recoverable q F (fs k) \<and> file_at q F USERS_PATH = Inr (i, f) \<and> fdata f = as_bytes (users_text us))"

lemma power_cycle_on_disk:
  assumes "1024 \<le> total_blocks q"
  shows "valid (db q us) (on_fs (bnd coolfs_flush (\<lambda>_. power_cycle))) (\<lambda>_. on_disk q us) (\<lambda>_ _. False)"
proof -
  have "\<exists>k'. on_fs (bnd coolfs_flush (\<lambda>_. power_cycle)) k = (Inr (), k') \<and> on_disk q us k'" if k: "db q us k" for k
  proof -
    obtain F i f where F: "fsys q F (fs k)" "fs_dirty (fs k)" "file_at q F USERS_PATH = Inr (i, f)" "fdata f = as_bytes (users_text us)"
      using k by (auto simp: db_def saved_def dirty_file_def has_file_def file_paths_def)
    let ?s = "(fs k)\<lparr>cred_uid := cr_uid (current_credentials k), cred_gid := cr_gid (current_credentials k)\<rparr>"
    have s: "fsys q F ?s \<and> fs_dirty ?s" using F by (simp add: fsys_creds)
    obtain r t where r: "bnd coolfs_flush (\<lambda>_. power_cycle) ?s = (r, t)" by fastforce
    have "r = Inr () \<and> recoverable q F t"
      using validD [OF flush_recoverable [OF assms] s, of "projr r" t] validD_err [OF flush_recoverable [OF assms, where E = "\<lambda>_ _. False"] s, of "projl r" t] r
      by (cases r) auto
    then show ?thesis using r F by (auto simp: on_fs_def Let_def on_disk_def)
  qed
  then show ?thesis by (fastforce simp: valid_def)
qed

lemma load_on_disk:
  assumes "accounts_ok us"
  shows "valid (on_disk q us) (load_users_from_disk fat) (\<lambda>r k. r = Some us) (\<lambda>_ _. False)"
proof -
  have "\<exists>k'. vfs_kernel_read_file fat USERS_PATH k = (Inr (as_bytes (users_text us)), k')" if k: "on_disk q us k" for k
  proof -
    obtain F i f where F: "recoverable q F (fs k)" "file_at q F USERS_PATH = Inr (i, f)" "fdata f = as_bytes (users_text us)"
      using k by (auto simp: on_disk_def)
    let ?s = "(fs k)\<lparr>cred_uid := cr_uid (current_credentials k), cred_gid := cr_gid (current_credentials k)\<rparr>"
    have s: "recoverable q F ?s" using F(1) by (simp add: recoverable_def)
    obtain r t where r: "read_file USERS_PATH ?s = (r, t)" by fastforce
    have "r = Inr (fdata f)"
      using validD [OF read_recoverable [OF F(2)] s, of "projr r" t] validD_err [OF read_recoverable [OF F(2), where E = "\<lambda>_ _. False"] s, of "projl r" t] r
      by (cases r) auto
    then show ?thesis using r F(3)
      unfolding vfs_kernel_read_file_def read_file_unchecked_def config_paths by (auto simp: on_fs_def Let_def)
  qed
  moreover have "load_users (Some (as_bytes (users_text us))) = Some us"
    by (rule load_users_text) (use assms in \<open>auto simp: accounts_ok_def account_ok_def list_all_iff list_ex_iff\<close>)
  ultimately show ?thesis
    unfolding load_users_from_disk_def by (fastforce simp: valid_def bnd_def attempt_def ret_def split: prod.splits sum.splits)
qed

lemma init_after:
  "valid (\<lambda>k. users (sec k) = us) (bnd (discard (persist_users fat)) (\<lambda>_. bnd (ensure_home_dirs fat) (\<lambda>_. emit what detail)))
    (\<lambda>_ k. users (sec k) = us) E"
proof (intro valid_bnd [where R = "\<lambda>_ k. users (sec k) = us"] discard_any stable_files)
  show "fs_free (\<lambda>k. users (sec k) = us)" by (simp add: fs_free_def)
  show "valid (\<lambda>k. users (sec k) = us) (ensure_home_dirs fat) (\<lambda>_ k. users (sec k) = us) E"
    by (rule home_dirs_any) (auto intro!: stable_vfs simp: fs_free_def)
  show "valid (\<lambda>k. users (sec k) = us) (emit what detail) (\<lambda>_ k. users (sec k) = us) E" unfolding emit_def by (rule valid_upd) simp
qed

lemma init_on_disk:
  assumes "accounts_ok us"
  shows "valid (on_disk q us) (security_init fat) (\<lambda>_ k. users (sec k) = us) (\<lambda>_ _. False)"
  unfolding security_init_def
proof (rule valid_bnd [OF load_on_disk [OF assms]])
  fix r :: "user_record list option"
  let ?us = "normalize_default_admin (case r of Some us \<Rightarrow> us | None \<Rightarrow> default_users)"
  have "valid (\<lambda>k. r = Some us) (upd_sec (init_state ?us)) (\<lambda>_ k. users (sec k) = us) (\<lambda>_ _. False)"
    unfolding upd_sec_def by (rule valid_upd) (simp add: init_state_def Let_def normalize_id [OF assms])
  from valid_bnd [OF this init_after] show "valid (\<lambda>k. r = Some us) (let us = ?us in bnd (upd_sec (init_state us)) (\<lambda>_. bnd (discard (persist_users fat)) (\<lambda>_.
    bnd (ensure_home_dirs fat) (\<lambda>_. emit ''init'' ''sessions, users, file modes, and package grants active'')))) (\<lambda>_ k. users (sec k) = us) (\<lambda>_ _. False)"
    by (simp add: Let_def)
qed

lemma reboot_users:
  assumes "1024 \<le> total_blocks q" and "accounts_ok us"
  shows "valid (db q us) (reboot fat) (\<lambda>_ k. users (sec k) = us) (\<lambda>_ _. False)"
  unfolding reboot_def
proof (rule valid_bnd [OF power_cycle_on_disk [OF assms(1)]], rule valid_bnd [OF _ init_on_disk [OF assms(2)]])
  show "valid (on_disk q us) (upd (\<lambda>k. k\<lparr>sec := security_empty, task_credentials := None, bus := bus_new\<rparr>)) (\<lambda>_. on_disk q us) (\<lambda>_ _. False)"
    by (rule valid_upd) (simp add: on_disk_def)
qed


section \<open>Properties\<close>



end
