(* ===== verification/Kernel_Runs.thy ===== *)
theory Kernel_Runs
  imports Fd_Calls Accounts_Disk
begin

text \<open>
  Runs of the system: every operation of \<open>Processes\<close>, \<open>Fd_Calls\<close> and \<open>Memory_Pressure\<close> as one step, in any order, from the state
  at boot. A step is one call of the running task, a timer interrupt, a wake-up from a driver, or a check of the memory. The
  side conditions of a step are those under which the callers make it: the calling task has not ended, a spawn or exec gets an
  address space that no task uses, and the mappings of a spawn have different targets. An exec is a step only while no other
  task shares the address space it replaces; \<open>exec_frees_shared_space\<close> shows what the code does otherwise.
\<close>

datatype sys_op =
    OpExit u64
  | OpKill nat u64
  | OpFault u64 string
  | OpSignal nat signal
  | OpSignalGroup nat signal
  | OpWait nat nat
  | OpReapAll nat
  | OpSpawn heap_reply "u64 \<times> u64" string u64 u64 nat "(nat \<times> nat) list" "credentials option"
  | OpThread heap_reply "u64 \<times> u64" u64 u64 u64 u64 u64
  | OpExec string nat
  | OpOpen string
  | OpOpenWrite string
  | OpPipe
  | OpClose nat
  | OpDup nat
  | OpRead nat nat nat
  | OpReadBlocking nat nat nat
  | OpWrite nat bytes
  | OpPoll nat nat u64
  | OpUnpoll nat nat
  | OpShmCreate "nat list" nat
  | OpShmMap "u64 \<Rightarrow> bool" nat nat
  | OpSetGroup nat nat
  | OpSetTty nat "u64 option"
  | OpBlock
  | OpBlockUntil u64
  | OpTimer bool nat nat
  | OpWake string nat
  | OpPressure

primrec perform :: "fat_driver \<Rightarrow> environment \<Rightarrow> (nat \<Rightarrow> bool) \<Rightarrow> sys_op \<Rightarrow> osys \<Rightarrow> osys" where
  "perform fat env room (OpExit code) s = exit_current fat code s"
| "perform fat env room (OpKill i code) s = snd (kill_task fat i code s)"
| "perform fat env room (OpFault code reason) s = snd (fault_current fat code reason s)"
| "perform fat env room (OpSignal i sig) s = snd (send_signal fat i sig s)"
| "perform fat env room (OpSignalGroup grp sig) s = snd (send_signal_to_group fat grp sig s)"
| "perform fat env room (OpWait parent i) s = snd (waitpid parent i s)"
| "perform fat env room (OpReapAll parent) s = snd (reap_all_exited parent s)"
| "perform fat env room (OpSpawn heap sel name entry rsp pml4 fds creds) s =
     snd (spawn_user_with_fds_and_credentials fat heap sel name entry rsp pml4 fds creds s)"
| "perform fat env room (OpThread heap sel entry rsp arg bottom tls) s = snd (spawn_user_thread fat heap sel entry rsp arg bottom tls s)"
| "perform fat env room (OpExec path pml4) s = exec_image path pml4 s"
| "perform fat env room (OpOpen path) s = snd (vfs_open fat env path s)"
| "perform fat env room (OpOpenWrite path) s = snd (vfs_open_write fat path s)"
| "perform fat env room OpPipe s = snd (vfs_pipe fat env s)"
| "perform fat env room (OpClose fd) s = vfs_close fat fd s"
| "perform fat env room (OpDup fd) s = snd (vfs_dup fd s)"
| "perform fat env room (OpRead fd n l) s = snd (vfs_read fd n l s)"
| "perform fat env room (OpReadBlocking fd n l) s = snd (read_blocking_round fd n l s)"
| "perform fat env room (OpWrite fd buf) s = snd (vfs_write room fd buf s)"
| "perform fat env room (OpPoll fd t ev) s = s\<lparr>vfs := snd (register_poll_waiter (current (sch s)) fd t ev (vfs s))\<rparr>"
| "perform fat env room (OpUnpoll fd t) s = s\<lparr>vfs := unregister_poll_waiter (current (sch s)) fd t (vfs s)\<rparr>"
| "perform fat env room (OpShmCreate frames len) s = snd (vfs_shmem_create frames len s)"
| "perform fat env room (OpShmMap mapped i pml4) s = snd (vfs_shmem_map mapped i pml4 s)"
| "perform fat env room (OpSetGroup i grp) s = upd_sch (\<lambda>sc. snd (set_process_group i grp sc)) s"
| "perform fat env room (OpSetTty i tty) s = upd_sch (\<lambda>sc. snd (set_task_tty i tty sc)) s"
| "perform fat env room OpBlock s = upd_sch block_current s"
| "perform fat env room (OpBlockUntil wake) s = upd_sch (block_current_until wake) s"
| "perform fat env room (OpTimer locked boot rsp) s = upd_sch (\<lambda>sc. snd (timer_schedule locked (now (kern s)) boot rsp sc)) s"
| "perform fat env room (OpWake queue t) s = wake_task queue t s"
| "perform fat env room OpPressure s = pressure_tick fat env s"

text \<open>The address space a step brings in.\<close>

fun given :: "sys_op \<Rightarrow> nat set" where
  "given (OpSpawn heap sel name entry rsp pml4 fds creds) = {pml4}"
| "given (OpExec path pml4) = {pml4}"
| "given _ = {}"

fun by_system :: "sys_op \<Rightarrow> bool" where
  "by_system (OpTimer _ _ _) = True"
| "by_system (OpWake _ _) = True"
| "by_system OpPressure = True"
| "by_system _ = False"

fun sound_arguments :: "sys_op \<Rightarrow> scheduler \<Rightarrow> bool" where
  "sound_arguments (OpSpawn heap sel name entry rsp pml4 fds creds) sc = (distinct (map snd fds) \<and> \<not> space_used pml4 sc)"
| "sound_arguments (OpExec path pml4) sc = (sole_user sc \<and> \<not> space_used pml4 sc)"
| "sound_arguments _ sc = True"

definition allowed :: "sys_op \<Rightarrow> osys \<Rightarrow> bool" where
  "allowed op s = ((by_system op \<or> alive (current (sch s)) (sch s)) \<and> sound_arguments op (sch s))"

inductive runs :: "fat_driver \<Rightarrow> environment \<Rightarrow> (nat \<Rightarrow> bool) \<Rightarrow> osys \<Rightarrow> bool" for fat env room where
  boot: "runs fat env room (add_idle stack (osys_new k))"
| step: "runs fat env room s \<Longrightarrow> allowed op s \<Longrightarrow> runs fat env room (perform fat env room op s)"

text \<open>A step keeps the invariant and frees exactly the address spaces that lose their last user.\<close>

definition good_step :: "nat set \<Rightarrow> osys \<Rightarrow> osys \<Rightarrow> bool" where
  "good_step G s s' = (os_inv s' \<and> spaces_exact G s s')"

lemma good_orderly: "orderly s s' \<Longrightarrow> os_inv s \<Longrightarrow> good_step {} s s'"
  by (simp add: orderly_def good_step_def frees_unused_exact)

lemma good_keeps: "os_inv s' \<Longrightarrow> keeps_spaces s s' \<Longrightarrow> good_step {} s s'"
  by (simp add: good_step_def frees_unused_exact keeps_spaces_frees)

lemma good_frees: "os_inv s' \<Longrightarrow> frees_unused s s' \<Longrightarrow> good_step {} s s'"
  by (simp add: good_step_def frees_unused_exact)

lemma good_set_task:
  assumes "os_inv s" "\<And>t. t_status (f t) = Running \<Longrightarrow> t_status t = Running"
    "\<And>t. t_status t \<notin> {Exited, Reaped} \<Longrightarrow> t_status (f t) \<notin> {Exited, Reaped}"
    "\<And>t. t_pml4 (f t) = t_pml4 t" "\<And>t. t_status t \<noteq> Reaped \<Longrightarrow> t_status (f t) \<noteq> Reaped"
  shows "good_step {} s (upd_sch (set_task i f) s)"
  using os_inv_set_task [of s f i, OF assms(1-3)] keeps_space_set_task [of f, OF assms(4,5)] by (intro good_keeps) (simp_all add: keeps_spaces_def)

lemma good_refl: "os_inv s \<Longrightarrow> good_step {} s s"
  by (simp add: good_keeps)

lemma good_control:
  assumes "os_inv s"
  shows "good_step {} s (upd_sch (\<lambda>sc. snd (set_process_group i grp sc)) s)" "good_step {} s (upd_sch (\<lambda>sc. snd (set_task_tty i tty sc)) s)"
    "good_step {} s (upd_sch block_current s)" "good_step {} s (upd_sch (block_current_until wake) s)"
proof -
  have same: "upd_sch (\<lambda>sc. sc) s = s" by (simp add: upd_sch_def)
  have g: "good_step {} s (upd_sch (set_task i (\<lambda>t. t\<lparr>t_process_group := grp\<rparr>)) s)" "good_step {} s (upd_sch (set_task i (\<lambda>t. t\<lparr>t_controlling_tty := tty\<rparr>)) s)"
    by (rule good_set_task [OF assms]; simp)+
  show "good_step {} s (upd_sch (\<lambda>sc. snd (set_process_group i grp sc)) s)"
    using g(1) good_refl [OF assms]
    by (cases "i = 0 \<or> isl (control_check (current (sch s)) i (sch s))") (auto simp: set_process_group_def set_process_group_as_def upd_sch_def split: sum.splits)
  show "good_step {} s (upd_sch (\<lambda>sc. snd (set_task_tty i tty sc)) s)"
    using g(2) good_refl [OF assms]
    by (cases "i = 0 \<or> isl (control_check (current (sch s)) i (sch s))") (auto simp: set_task_tty_def set_task_tty_as_def upd_sch_def split: sum.splits)
  show "good_step {} s (upd_sch block_current s)"
    using good_set_task [OF assms, of "\<lambda>t. t\<lparr>t_status := Blocked\<rparr>" "current (sch s)"] by (simp add: upd_sch_def block_current_def)
  show "good_step {} s (upd_sch (block_current_until wake) s)"
    using good_set_task [OF assms, of "\<lambda>t. t\<lparr>t_status := Blocked, t_wake_tick := Some wake\<rparr>" "current (sch s)"] by (simp add: upd_sch_def block_current_until_def)
qed

lemma good_timer:
  assumes "os_inv s"
  shows "good_step {} s (upd_sch (\<lambda>sc. snd (timer_schedule locked tm boot rsp sc)) s)"
proof (cases "locked \<or> tasks (sch s) = []")
  case True
  then have "upd_sch (\<lambda>sc. snd (timer_schedule locked tm boot rsp sc)) s = s" by (auto simp: upd_sch_def timer_schedule_def)
  then show ?thesis using good_refl [OF assms] by simp
next
  case False
  then have "upd_sch (\<lambda>sc. snd (timer_schedule locked tm boot rsp sc)) s = upd_sch (\<lambda>sc. snd (schedule tm boot rsp sc)) s"
    by (simp add: upd_sch_def timer_schedule_def)
  then show ?thesis using good_keeps [OF schedule_os_inv [OF assms]] by simp
qed

lemma good_wake: "os_inv s \<Longrightarrow> good_step {} s (wake_task q t s)"
  using os_inv_wakes [of s "wake_task q t s"] keeps_spaces_wakes [of s "wake_task q t s"] by (intro good_keeps) simp_all

lemmas process_steps = good_keeps [OF exit_current_inv exit_current_spaces] good_keeps [OF kill_task_inv kill_task_spaces]
  good_keeps [OF fault_current_inv fault_current_spaces] good_keeps [OF send_signal_inv send_signal_spaces]
  good_keeps [OF send_signal_to_group_inv send_signal_to_group_spaces] good_frees [OF waitpid_inv waitpid_frees] good_frees [OF reap_all_inv reap_all_frees]

lemmas descriptor_steps = vfs_open_orderly vfs_open_write_orderly vfs_pipe_orderly vfs_close_orderly vfs_dup_orderly vfs_read_orderly
  read_round_orderly vfs_write_orderly poll_orderly shmem_create_orderly shmem_map_orderly pressure_tick_orderly

lemma good_perform:
  assumes inv: "os_inv s" and a: "allowed op s"
  shows "good_step (given op) s (perform fat env room op s)"
proof (cases op)
  case (OpSpawn heap sel name entry rsp pml4 fds creds)
  then show ?thesis using a spawn_user_inv [OF inv, of fds pml4 fat heap sel name entry rsp creds] by (simp add: allowed_def good_step_def)
next
  case (OpExec path pml4)
  then show ?thesis using a exec_inv [OF inv, of path pml4] exec_exact [OF inv, of pml4 path] by (simp add: allowed_def good_step_def)
next
  case (OpThread heap sel entry rsp arg bottom tls)
  then show ?thesis using spawn_thread_inv [OF inv, of fat heap sel entry rsp arg bottom tls] by (simp add: good_keeps)
qed (use inv a in \<open>auto simp: allowed_def intro: process_steps descriptor_steps [THEN good_orderly] good_control good_timer good_wake\<close>)

lemma runs_inv: "runs fat env room s \<Longrightarrow> os_inv s"
  by (induction rule: runs.induct) (auto simp: boot_inv good_step_def dest: good_perform)

text \<open>C1: \<open>sys_exec\<close> frees the address space it replaces without looking for other users. When a thread of the calling task still runs
  in the old address space, that space is freed while it is in use: the processor's page tables of the thread are gone.
\<close>

theorem exec_frees_shared_space:
  assumes inv: "os_inv s" and p: "t_pml4 (tasks (sch s) ! current (sch s)) = Some p" and live: "still_live (current (sch s)) p (sch s)"
  shows "frees (exec_image path new s) = frees s @ [p] \<and> space_used p (sch (exec_image path new s))"
proof -
  obtain f where f: "tasks (sch (exec_image path new s)) = tasks (set_task (current (sch s)) f (sch s))" using exec_effect(1) [OF inv] by blast
  obtain j where "j < length (tasks (sch s))" "j \<noteq> current (sch s)" "t_pml4 (tasks (sch s) ! j) = Some p" "t_status (tasks (sch s) ! j) \<noteq> Reaped"
    using live by (auto simp: still_live_iff)
  then have "space_used p (sch (exec_image path new s))" unfolding space_used_def f by (auto simp: nth_set_task intro!: exI [of _ j])
  then show ?thesis using exec_effect(5) [OF inv, of path new] p by simp
qed

definition threaded :: osys where
  "threaded =
     (let user = (idle_task (interactive_credentials security_empty))\<lparr>t_status := Ready, t_pml4 := Some 5\<rparr> in
      booted\<lparr>sch := \<lparr>tasks = [user\<lparr>t_pml4 := None\<rparr>, user\<lparr>t_name := ''user-thread''\<rparr>, user\<lparr>t_name := ''user'', t_status := Running\<rparr>], current = 2,
        syscall_stack = 0, privilege_stack = 0, fs_base = 0, page_table = Some 5\<rparr>\<rparr>)"

lemma threaded_parts:
  "current (sch threaded) = 2" "length (tasks (sch threaded)) = 3" "t_status (tasks (sch threaded) ! 0) = Ready" "t_status (tasks (sch threaded) ! 1) = Ready"
  "t_pml4 (tasks (sch threaded) ! 1) = Some 5" "t_pml4 (tasks (sch threaded) ! 2) = Some 5" "vfs threaded = vfs booted"
  by (simp_all add: threaded_def Let_def)

lemma booted_inv: "os_inv booted"
  unfolding booted_def by (rule boot_inv)

lemma booted_empty: "current_entry (vfs booted) i fd = None"
proof -
  have e: "current_entry vfs_new i fd = None" for i fd by (simp add: current_entry_def vfs_new_def)
  show ?thesis using init_inv(2) [OF vfs_new_inv e] e by (simp add: booted_parts)
qed

theorem exec_frees_shared_space_witness:
  "frees (exec_image ''/bin/ls'' 9 threaded) = frees threaded @ [5] \<and> space_used 5 (sch (exec_image ''/bin/ls'' 9 threaded))"
proof (rule exec_frees_shared_space)
  have "sched_inv (sch threaded)" by (simp add: sched_inv_def threaded_parts less_Suc_eq numeral_3_eq_3) (metis One_nat_def task_status.distinct(1) threaded_parts(3,4))
  then show "os_inv threaded" using booted_empty os_invD(2) [OF booted_inv] by (intro os_invI) (simp_all add: threaded_parts)
  show "t_pml4 (tasks (sch threaded) ! current (sch threaded)) = Some 5" by (simp add: threaded_parts)
  show "still_live (current (sch threaded)) 5 (sch threaded)" unfolding still_live_iff by (rule exI [of _ 1]) (use threaded_parts in simp)
qed

end
