(* ===== verification/Spec2Isabelle.thy ===== *)
theory Spec2Isabelle
  imports Kernel_Runs
begin

text \<open>
  Verification library of coolOS, a Rust kernel for x86-64 (\<open>src/src\<close>).

  \<^bold>\<open>The program.\<close> User tasks call the kernel through system calls. The parts modelled here are the storage stack, the
  security model and the process subsystem. The storage stack is layered: drivers give sectors, \<open>storage.rs\<close> finds the root
  disk among them, the block cache of \<open>coolfs.rs\<close> buffers its blocks, CoolFS keeps inodes and directories in these blocks,
  and \<open>vfs.rs\<close> puts mounts and permission checks in front. \<open>security.rs\<close> stores its accounts as files in this file system
  and answers the permission questions of \<open>vfs.rs\<close>. \<open>scheduler.rs\<close> has the task table; \<open>vfs.rs\<close> also has the
  descriptors, pipes and shared memory of the tasks, whose files it commits to the file system when the last descriptor is
  closed; \<open>futex.rs\<close> and \<open>wait_queue.rs\<close> have the waiters, and \<open>memory_pressure.rs\<close> ends tasks when the heap is full.

  \<^bold>\<open>How code is modelled.\<close> A Rust struct is a record, an enum a datatype, a function a definition of the same name where
  the name is free. The build is the release profile: arithmetic on machine integers wraps, and the integers for which that
  matters are words of their width; \<open>usize\<close> indices and lengths that the code bounds are natural numbers. A Rust string is
  its UTF-8 bytes. \<open>Result\<close> is a sum with the error on the left. Code that changes state and may fail is of type
  \<open>('s, 'e, 'a) sm\<close>: it returns the outcome and the new state also when it fails, so that what a failing call leaves behind
  is part of every statement. Locks are not modelled: an operation runs from taking its lock to releasing it as one step,
  and the operations of a call that runs under one lock after another follow each other.

  \<^bold>\<open>Theories\<close>, in the order of their imports:

  \<^item> \<open>Cool_Base\<close>, \<open>Cool_Text\<close>: machine words, saturating arithmetic, slices, little and big endian encodings, the functions
    on strings of the Rust library, and \<open>sm\<close> with its pre- and postconditions (\<open>valid\<close>).
  \<^item> \<open>Disk_Layout\<close> (\<open>disk_layout.rs\<close>): MBR and GPT tables and CRC-32. Writers and parsers are inverse, a parsed range lies
    on the disk, a changed byte changes the checksum.
  \<^item> \<open>Storage\<close> (\<open>storage.rs\<close>): the scan for the root disk and access to its sectors. The drivers are a \<open>machine\<close>: sectors
    per device and the set of transfers that fail. The locale \<open>sector_store\<close> is what the file system relies on.
  \<^item> \<open>Block_Cache\<close> (\<open>BlockCache\<close> of \<open>coolfs.rs\<close>): 64 blocks with least-recently-used eviction. The cache is transparent
    for the content of blocks (\<open>vblock\<close>), also when transfers fail, and a flush makes the disk equal to that content.
    The locale \<open>block_store\<close> carries the byte loops of the layer above.
  \<^item> \<open>CoolFS_Image\<close>, \<open>CoolFS_Inodes\<close>, \<open>CoolFS_Files\<close>, \<open>CoolFS_Store\<close> (\<open>coolfs.rs\<close>): superblock, bitmap, inodes and
    file contents. The invariant \<open>fs_inv\<close> says that no block has two owners; the abstraction \<open>files\<close> turns an image into a
    map from inode numbers to files, on which every operation is an update. Flushing and mounting keeps the map.
  \<^item> \<open>Change_Log\<close> (\<open>profiler.rs\<close>, \<open>deferred.rs\<close>, \<open>fs_hardening.rs\<close>, \<open>writeback.rs\<close>, \<open>search_index.rs\<close>): what a change
    of a file records, in bounded lists; \<open>normalize_path\<close> of \<open>vfs.rs\<close>.
  \<^item> \<open>CoolFS_Dirs\<close>, \<open>CoolFS_Tree\<close>, \<open>CoolFS_Ops\<close>, \<open>CoolFS_Api\<close>, \<open>CoolFS_Frame\<close> (\<open>coolfs.rs\<close>): directories, the tree
    invariant \<open>tree_inv\<close>, the operations on paths and the public functions. A path leads to at most one inode, an inode has
    at most one path, every call keeps the invariants or leaves the files as they were, and calls do not disturb other paths.
  \<^item> \<open>Security\<close>, \<open>Kernel_Log\<close> (\<open>security.rs\<close>, \<open>klog.rs\<close>, \<open>event_bus.rs\<close>): credentials, permission bits, the text form
    of the user database, log lines and events.
  \<^item> \<open>Vfs\<close> (\<open>vfs.rs\<close>): mounts and permission checks in front of the path operations.
  \<^item> \<open>Accounts\<close>, \<open>Accounts_Login\<close>, \<open>Accounts_Disk\<close> (\<open>security.rs\<close>): sessions, the lockout, the account operations, and
    the user database on the disk: an administrator can always log in, guesses are bounded, and changes survive a reboot.
  \<^item> \<open>Descriptors\<close> (\<open>vfs.rs\<close>, \<open>evented.rs\<close>): shared objects, descriptor tables, pipes and poll under the lock of \<open>VFS\<close>.
    The invariant \<open>fd_inv\<close> says that reference counts are exact. The locale \<open>bounded_queue\<close> is interpreted on the ring
    buffer of a pipe.
  \<^item> \<open>Tasks\<close> (\<open>scheduler.rs\<close>, \<open>process_model.rs\<close>): the task table, round-robin scheduling, signals and process groups.
  \<^item> \<open>Wait_Queues\<close> (\<open>wait_queue.rs\<close>, \<open>slab.rs\<close>, \<open>futex.rs\<close>) and \<open>Heap_Pressure\<close> (\<open>allocator.rs\<close>, levels of
    \<open>memory_pressure.rs\<close>): the remaining tables of the kernel.
  \<^item> \<open>Processes\<close> (\<open>scheduler.rs\<close>, \<open>vfs.rs\<close>, \<open>syscall/process.rs\<close>): starting, ending and reaping tasks, with everything
    a task owns. \<open>os_inv\<close> joins the invariants and says that only tasks that have not ended hold descriptors.
  \<^item> \<open>Memory_Pressure\<close> (\<open>memory_pressure.rs\<close>, \<open>fs_hardening.rs\<close>) and \<open>Fd_Calls\<close> (\<open>vfs.rs\<close>): recovery from memory
    pressure, and the calls on descriptors and shared memory together with the tasks they block and wake.
  \<^item> \<open>Kernel_Runs\<close>: \<open>perform\<close> has every operation of the process subsystem as one step, and \<open>runs\<close> are the states they
    reach from boot. This theory has the properties of all these states.

  \<^bold>\<open>Loops.\<close> All loops are structural recursions on the data they walk over, or functions with a termination proof, except
  \<open>next_available_uid\<close>, which is a partial function because the code may loop forever: \<open>Security\<close> proves exactly when it
  returns. A blocking read is a sequence of rounds, each a step of its own; the property on blocked readers says that a
  write makes them ready again.

  \<^bold>\<open>Parameters.\<close> The FAT driver (a record of functions, \<open>fat_driver\<close>), what the heap, the page tables, the sockets and the
  browser report (\<open>environment\<close>), whether the heap has room, the frames of the frame allocator and the success of mapping a
  page are arguments. Calls into subsystems that are not modelled are recorded in the field \<open>calls\<close>, in their order;
  freeing an address space is such a call, and \<open>frees\<close> reads it off.

  \<^bold>\<open>Not modelled.\<close> Hardware access: the disk, USB, network and display drivers, interrupts, page tables (\<open>vmm.rs\<close>) and the
  context switch itself. The FAT driver, the network stack and TLS. The window manager, the browser and the other desktop
  applications. Packages, updates and the installer. Loading of ELF images, the system call dispatch with the copying of user
  memory, terminals, services, and all code that only formats reports. \<open>vfs_delete_recursive\<close>, kernel tasks of the scheduler,
  and the workers that drain the deferred queues.
\<close>

section \<open>Properties of every reachable state\<close>

text \<open>C1: In every state that the system reaches from boot, by any sequence of system calls, timer interrupts, wake-ups and memory
  checks: at most the current task is running; the reference count of every open file and pipe is the number of descriptors
  that refer to it, never zero, and a pipe counts its readers and writers exactly; every descriptor belongs to a task that
  has not ended.
\<close>

theorem system_stays_in_order:
  assumes "runs fat env room s"
  shows "(\<forall>i < length (tasks (sch s)). t_status (tasks (sch s) ! i) = Running \<longrightarrow> i = current (sch s)) \<and>
    (\<forall>oid obj. live_object (vfs s) oid = Some obj \<longrightarrow> so_refs obj = uses (at oid) (vfs s) \<and> so_refs obj > 0 \<and>
      (\<forall>p. so_kind obj = PipeObject p \<longrightarrow> pi_readers p = uses (reads oid) (vfs s) \<and> pi_writers p = uses (writes oid) (vfs s))) \<and>
    (\<forall>i fd e. current_entry (vfs s) i fd = Some e \<longrightarrow> alive i (sch s))"
proof -
  have inv: "os_inv s" by (rule runs_inv [OF assms])
  have "object_ok [] (vfs s) oid obj" if "live_object (vfs s) oid = Some obj" for oid obj
    using os_invD(2) [OF inv] that by (simp add: fd_inv_def)
  then show ?thesis using os_invD(1,3) [OF inv] by (fastforce simp: sched_inv_def object_ok_def held_def kind_ok_def)
qed

text \<open>C2: The access mode of a descriptor always fits its object: in every reachable state a descriptor refers to an object that
  exists, a file descriptor to a file and a pipe descriptor to a pipe, the position of a file is never beyond its last byte,
  and the ring buffer of a pipe is well formed.
\<close>

theorem descriptors_fit_their_objects:
  assumes "runs fat env room s" and "current_entry (vfs s) i fd = Some e"
  shows "\<exists>obj. live_object (vfs s) (lf_object e) = Some obj \<and>
    (case so_kind obj of
       FileObject f \<Rightarrow> lf_access e = FileAccess \<and> of_offset f \<le> length (of_data f)
     | PipeObject p \<Rightarrow> lf_access e \<in> {PipeRead, PipeWrite} \<and> pipe_ok p \<and> pi_len p \<le> PIPE_SIZE)"
proof -
  have inv: "fd_inv [] (vfs s)" by (rule os_invD(2) [OF runs_inv [OF assms(1)]])
  have "in_use (vfs s) e" using assms(2) by (auto simp: in_use_def)
  then obtain obj where obj: "live_object (vfs s) (lf_object e) = Some obj" "access_ok (lf_access e) (so_kind obj)" using fd_invD(3) [OF inv] by blast
  have "object_ok [] (vfs s) (lf_object e) obj" by (rule fd_invD(2) [OF inv obj(1)])
  then show ?thesis using obj by (cases "lf_access e") (auto simp: object_ok_def kind_ok_def access_ok_def pipe_ok_def split: shared_kind.splits)
qed

text \<open>C3: Address spaces are neither leaked nor freed early. In every reachable state, a step frees each address space that lost its
  last user in the step, or was handed to it and found no user, exactly once, and frees no other: threads that share an
  address space keep it until the last of them is reaped.
\<close>

theorem address_spaces_freed_exactly:
  assumes "runs fat env room s" and "allowed op s"
  shows "\<exists>ps. frees (perform fat env room op s) = frees s @ ps \<and> distinct ps \<and>
    set ps = {p. (space_used p (sch s) \<or> p \<in> given op) \<and> \<not> space_used p (sch (perform fat env room op s))}"
  using good_perform [OF runs_inv [OF assms(1)] assms(2), of fat env room] by (simp add: good_step_def spaces_exact_def)

section \<open>A run\<close>

definition quiet :: environment where
  "quiet = \<lparr>env_used = \<lambda>_. 0, env_pages = \<lambda>_. 0, env_sockets = \<lambda>_. 0, env_browser = \<lambda>_. 0\<rparr>"

lemma booted_runs: "runs fat_absent quiet (\<lambda>_. True) booted"
  unfolding booted_def by (rule boot)

lemma booted_alive: "alive (current (sch booted)) (sch booted)"
  by (simp add: alive_def booted_parts idle_task_def)

lemma piping:
  "vfs (snd (vfs_pipe fat_absent quiet booted)) = snd (pipe_fds 0 (init_task 0 vfs_new))"
  "current_entry (snd (pipe_fds 0 (init_task 0 vfs_new))) 0 3 = Some \<lparr>lf_object = 0, lf_access = PipeRead\<rparr>"
proof -
  have "\<exists>p. has_allocation_reserve 0 PIPE_SIZE (pressure booted) = (True, p)"
    by (simp add: has_allocation_reserve_def snapshot_def take_heap_snapshot_def Let_def HEAP_SIZE_def PIPE_SIZE_def HEAP_ADMISSION_RESERVE_BYTES_def)
  then obtain p where p: "has_allocation_reserve 0 PIPE_SIZE (pressure booted) = (True, p)" by blast
  have "PIPE_SIZE \<noteq> 0" by (simp add: PIPE_SIZE_def)
  then have "admit_allocation fat_absent quiet PIPE_SIZE booted = (True, booted\<lparr>pressure := p\<rparr>)" by (simp add: admit_allocation_def quiet_def p)
  then show "vfs (snd (vfs_pipe fat_absent quiet booted)) = snd (pipe_fds 0 (init_task 0 vfs_new))"
    by (simp add: vfs_pipe_def booted_parts split_beta)
  show "current_entry (snd (pipe_fds 0 (init_task 0 vfs_new))) 0 3 = Some \<lparr>lf_object = 0, lf_access = PipeRead\<rparr>" by code_simp
qed

lemma piping_runs: "runs fat_absent quiet (\<lambda>_. True) (snd (vfs_pipe fat_absent quiet booted))"
proof -
  have "allowed OpPipe booted" using booted_alive by (simp add: allowed_def)
  then show ?thesis using step [OF booted_runs, of OpPipe] by simp
qed

theorem system_stays_in_order_witness:
  "\<exists>s obj. s = snd (vfs_pipe fat_absent quiet booted) \<and> live_object (vfs s) 0 = Some obj \<and> so_refs obj = uses (at 0) (vfs s) \<and> so_refs obj > 0 \<and> alive 0 (sch s)"
proof -
  let ?s = "snd (vfs_pipe fat_absent quiet booted)"
  note order = system_stays_in_order [OF piping_runs]
  have "live_object (snd (pipe_fds 0 (init_task 0 vfs_new))) 0 \<noteq> None" by code_simp
  then obtain obj where obj: "live_object (vfs ?s) 0 = Some obj" using piping(1) by auto
  have "current_entry (vfs ?s) 0 3 = Some \<lparr>lf_object = 0, lf_access = PipeRead\<rparr>" using piping by simp
  then have "alive 0 (sch ?s)" using order by blast
  moreover have "so_refs obj = uses (at 0) (vfs ?s)" "so_refs obj > 0" using order obj by blast+
  ultimately show ?thesis using obj by blast
qed

theorem descriptors_fit_their_objects_witness:
  "\<exists>obj. live_object (vfs (snd (vfs_pipe fat_absent quiet booted))) 0 = Some obj \<and> (case so_kind obj of FileObject f \<Rightarrow> False | PipeObject p \<Rightarrow> pipe_ok p)"
  using descriptors_fit_their_objects [OF piping_runs, of 0 3] piping by (auto split: shared_kind.splits)

theorem address_spaces_freed_exactly_witness:
  "let op = OpSpawn (0, None) (43, 35) ''ls'' 4096 8192 7 [] None; s' = perform fat_absent quiet (\<lambda>_. True) op booted in
   \<exists>ps. frees s' = frees booted @ ps \<and> distinct ps \<and> set ps = {p. (space_used p (sch booted) \<or> p \<in> {7}) \<and> \<not> space_used p (sch s')}"
proof -
  let ?op = "OpSpawn (0, None) (43, 35) ''ls'' 4096 8192 7 [] None"
  have "allowed ?op booted" using booted_alive by (simp add: allowed_def space_used_def booted_parts idle_task_def)
  then show ?thesis using address_spaces_freed_exactly [OF booted_runs, of ?op] by (simp add: Let_def)
qed

end
